(* ===== verification/Prelude.thy ===== *)
theory Prelude
  imports Main "HOL-Library.Multiset" "HOL-Library.Sublist" "HOL-Library.List_Lexorder"
begin

text \<open>
  Shared ground of the development: the model of Rust strings, the operations of \<open>str\<close> and
  \<open>u32\<close>/\<open>i64\<close> parsing that the crates under \<^verbatim>\<open>src/rust\<close> call, fallible loops over a list, and the
  generic lemmas the component theories rest on.

  A Rust \<open>char\<close> is a Unicode scalar value, modelled as its number (\<open>uchar\<close>); a \<open>str\<close> is the list
  of its scalars. Where the code counts bytes (\<open>len\<close>, byte slices) the model counts the UTF-8
  widths of the scalars. The order of \<open>String\<close> (byte order of UTF-8) is the lexicographic order of
  scalars, the \<open>linorder\<close> of lists from \<open>List_Lexorder\<close>.

  Fallible functions return \<open>'e + 'a\<close>, \<open>Inl\<close> for Rust's \<open>Err\<close> and \<open>Inr\<close> for \<open>Ok\<close>.
\<close>

named_theorems str_simps \<open>unfolding the string operations\<close>
named_theorems run_intros \<open>invariants of fallible loops\<close>

section \<open>Strings\<close>

type_synonym uchar = nat
type_synonym str = "uchar list"

definition lit :: "string \<Rightarrow> str" where
  "lit s = map of_char s"

lemma lit_Nil [simp]: "lit [] = []"
  by (simp add: lit_def)

lemma lit_Cons [simp]: "lit (c # cs) = of_char c # lit cs"
  by (simp add: lit_def)

lemma length_lit [simp]: "length (lit s) = length s"
  by (simp add: lit_def)

abbreviation c_tab :: uchar where "c_tab \<equiv> 9"
abbreviation c_nl :: uchar where "c_nl \<equiv> 10"
abbreviation c_cr :: uchar where "c_cr \<equiv> 13"
abbreviation c_space :: uchar where "c_space \<equiv> 32"
abbreviation c_bang :: uchar where "c_bang \<equiv> 33"
abbreviation c_quote :: uchar where "c_quote \<equiv> 34"
abbreviation c_star :: uchar where "c_star \<equiv> 42"
abbreviation c_plus :: uchar where "c_plus \<equiv> 43"
abbreviation c_comma :: uchar where "c_comma \<equiv> 44"
abbreviation c_dash :: uchar where "c_dash \<equiv> 45"
abbreviation c_dot :: uchar where "c_dot \<equiv> 46"
abbreviation c_slash :: uchar where "c_slash \<equiv> 47"
abbreviation c_colon :: uchar where "c_colon \<equiv> 58"
abbreviation c_question :: uchar where "c_question \<equiv> 63"
abbreviation c_lbracket :: uchar where "c_lbracket \<equiv> 91"
abbreviation c_backslash :: uchar where "c_backslash \<equiv> 92"
abbreviation c_rbracket :: uchar where "c_rbracket \<equiv> 93"
abbreviation c_lbrace :: uchar where "c_lbrace \<equiv> 123"
abbreviation c_rbrace :: uchar where "c_rbrace \<equiv> 125"

subsection \<open>Searching and cutting\<close>

text \<open>\<open>str::strip_prefix\<close>, \<open>strip_suffix\<close>, \<open>starts_with\<close>, \<open>ends_with\<close>, \<open>contains\<close>.\<close>

definition strip_prefix :: "'a list \<Rightarrow> 'a list \<Rightarrow> 'a list option" where
  "strip_prefix p s = (if take (length p) s = p then Some (drop (length p) s) else None)"

definition strip_suffix :: "'a list \<Rightarrow> 'a list \<Rightarrow> 'a list option" where
  "strip_suffix p s = map_option rev (strip_prefix (rev p) (rev s))"

definition starts_with :: "'a list \<Rightarrow> 'a list \<Rightarrow> bool" where
  "starts_with p s = (take (length p) s = p)"

definition ends_with :: "'a list \<Rightarrow> 'a list \<Rightarrow> bool" where
  "ends_with p s = starts_with (rev p) (rev s)"

fun find_sub :: "'a list \<Rightarrow> 'a list \<Rightarrow> nat option" where
  "find_sub p [] = (if p = [] then Some 0 else None)"
| "find_sub p (c # cs) =
     (if starts_with p (c # cs) then Some 0 else map_option Suc (find_sub p cs))"

definition contains_sub :: "'a list \<Rightarrow> 'a list \<Rightarrow> bool" where
  "contains_sub p s = (find_sub p s \<noteq> None)"

text \<open>\<open>str::rfind\<close>: the start of the last occurrence.\<close>

fun rfind_sub :: "'a list \<Rightarrow> 'a list \<Rightarrow> nat option" where
  "rfind_sub p [] = (if p = [] then Some 0 else None)"
| "rfind_sub p (c # cs) =
     (case rfind_sub p cs of
        Some i \<Rightarrow> Some (Suc i)
      | None \<Rightarrow> if starts_with p (c # cs) then Some 0 else None)"

lemma strip_prefix_Some_iff: "strip_prefix p s = Some r \<longleftrightarrow> s = p @ r"
  by (auto simp: strip_prefix_def) (metis append_take_drop_id)

lemma strip_prefix_None_iff: "strip_prefix p s = None \<longleftrightarrow> \<not> prefix p s"
  by (auto simp: strip_prefix_def prefix_def) (metis append_take_drop_id)

lemma strip_prefix_append [simp]: "strip_prefix p (p @ r) = Some r"
  by (simp add: strip_prefix_Some_iff)

lemma strip_prefix_length: "strip_prefix p s = Some r \<Longrightarrow> length s = length p + length r"
  by (auto simp: strip_prefix_Some_iff)

lemma strip_suffix_Some_iff: "strip_suffix p s = Some r \<longleftrightarrow> s = r @ p"
  by (auto simp: strip_suffix_def strip_prefix_Some_iff rev_swap)

lemma starts_with_iff: "starts_with p s \<longleftrightarrow> (\<exists>r. s = p @ r)"
  by (auto simp: starts_with_def) (metis append_take_drop_id)

lemma starts_with_append [simp]: "starts_with p (p @ r)"
  by (auto simp: starts_with_iff)

lemma starts_with_Nil [simp]: "starts_with [] s"
  by (simp add: starts_with_def)

lemma ends_with_iff: "ends_with p s \<longleftrightarrow> (\<exists>r. s = r @ p)"
  unfolding ends_with_def starts_with_iff by (metis rev_append rev_rev_ident)

lemma find_sub_Some:
  "find_sub p s = Some i \<Longrightarrow> i \<le> length s \<and> starts_with p (drop i s)"
  by (induction p s arbitrary: i rule: find_sub.induct) (auto split: if_splits)

lemma rfind_sub_Some:
  "rfind_sub p s = Some i \<Longrightarrow> i \<le> length s \<and> starts_with p (drop i s)"
  by (induction p s arbitrary: i rule: rfind_sub.induct) (auto split: if_splits option.splits)

lemma find_sub_None: "find_sub p s = None \<Longrightarrow> \<not> starts_with p (drop i s) \<or> p = []"
proof (induction p s arbitrary: i rule: find_sub.induct)
  case (1 p)
  then show ?case by (auto simp: starts_with_def split: if_splits)
next
  case (2 p c cs)
  then show ?case by (cases i) (auto split: if_splits)
qed

lemma contains_sub_iff: "contains_sub p s \<longleftrightarrow> (\<exists>a b. s = a @ p @ b)"
proof
  assume "contains_sub p s"
  then obtain i where "find_sub p s = Some i" by (auto simp: contains_sub_def)
  then have "starts_with p (drop i s)" by (simp add: find_sub_Some)
  then obtain b where "drop i s = p @ b" by (auto simp: starts_with_iff)
  then have "s = take i s @ p @ b" by (metis append_take_drop_id)
  then show "\<exists>a b. s = a @ p @ b" by blast
next
  assume "\<exists>a b. s = a @ p @ b"
  then obtain a b where s: "s = a @ p @ b" by blast
  show "contains_sub p s"
  proof (rule ccontr)
    assume "\<not> contains_sub p s"
    then have "find_sub p s = None" by (simp add: contains_sub_def)
    from find_sub_None [OF this, of "length a"] s have "p = []" by simp
    with \<open>find_sub p s = None\<close> show False by (cases s) auto
  qed
qed

lemma find_sub_first:
  "x \<notin> set a \<Longrightarrow> find_sub (x # p) (a @ x # p @ b) = Some (length a)"
  by (induction a) (auto simp: starts_with_def)

lemma rfind_sub_occurs: "rfind_sub p (a @ p @ b) \<noteq> None"
proof (induction a)
  case Nil
  have "starts_with p (p @ b)" by simp
  then show ?case by (cases "p @ b") (auto split: option.splits)
next
  case (Cons c a)
  then show ?case by (auto split: option.splits)
qed

text \<open>\<open>str::split\<close> on a character predicate: always at least one piece.\<close>

fun split_on :: "('a \<Rightarrow> bool) \<Rightarrow> 'a list \<Rightarrow> 'a list list" where
  "split_on p [] = [[]]"
| "split_on p (c # cs) =
     (if p c then [] # split_on p cs
      else (case split_on p cs of [] \<Rightarrow> [[c]] | x # xs \<Rightarrow> (c # x) # xs))"

lemma split_on_not_Nil [simp]: "split_on p s \<noteq> []"
  by (induction p s rule: split_on.induct) (auto split: list.splits)

lemma split_on_pieces: "x \<in> set (split_on p s) \<Longrightarrow> c \<in> set x \<Longrightarrow> \<not> p c \<and> c \<in> set s"
  by (induction p s arbitrary: x rule: split_on.induct) (fastforce split: if_splits list.splits)+

lemma split_on_id: "\<forall>c\<in>set s. \<not> p c \<Longrightarrow> split_on p s = [s]"
  by (induction p s rule: split_on.induct) auto

lemma split_on_append_sep:
  "\<forall>c\<in>set a. \<not> p c \<Longrightarrow> p x \<Longrightarrow> split_on p (a @ x # b) = a # split_on p b"
  by (induction a) auto

lemma split_on_append_seps:
  "p x \<Longrightarrow> split_on p (a @ x # b) = split_on p a @ split_on p b"
proof (induction a)
  case Nil
  then show ?case by simp
next
  case (Cons c a)
  then show ?case by (auto split: list.splits)
qed

text \<open>\<open>str::split_once\<close> and \<open>rsplit_once\<close> on one character.\<close>

fun split_once :: "'a \<Rightarrow> 'a list \<Rightarrow> ('a list \<times> 'a list) option" where
  "split_once x [] = None"
| "split_once x (c # cs) =
     (if c = x then Some ([], cs) else map_option (\<lambda>(a, b). (c # a, b)) (split_once x cs))"

definition rsplit_once :: "'a \<Rightarrow> 'a list \<Rightarrow> ('a list \<times> 'a list) option" where
  "rsplit_once x s = map_option (\<lambda>(a, b). (rev b, rev a)) (split_once x (rev s))"

lemma split_once_Some_iff:
  "split_once x s = Some (a, b) \<longleftrightarrow> s = a @ x # b \<and> x \<notin> set a"
proof (induction x s arbitrary: a b rule: split_once.induct)
  case (1 x)
  then show ?case by simp
next
  case (2 x c cs)
  then show ?case by (cases a) auto
qed

lemma rsplit_once_Some_iff:
  "rsplit_once x s = Some (a, b) \<longleftrightarrow> s = a @ x # b \<and> x \<notin> set b"
proof -
  have "rsplit_once x s = Some (a, b) \<longleftrightarrow> split_once x (rev s) = Some (rev b, rev a)"
    by (auto simp: rsplit_once_def)
  also have "\<dots> \<longleftrightarrow> rev s = rev b @ x # rev a \<and> x \<notin> set b"
    by (simp add: split_once_Some_iff)
  also have "\<dots> \<longleftrightarrow> s = a @ x # b \<and> x \<notin> set b"
    by (metis append.assoc append_Cons append_Nil rev.simps(2) rev_append rev_rev_ident)
  finally show ?thesis .
qed

lemma split_once_None_iff: "split_once x s = None \<longleftrightarrow> x \<notin> set s"
  by (induction x s rule: split_once.induct) auto

lemma rsplit_once_None_iff: "rsplit_once x s = None \<longleftrightarrow> x \<notin> set s"
  by (simp add: rsplit_once_def split_once_None_iff)

lemma first_sep_conv:
  assumes "x \<notin> set a"
  shows "a @ x # b = m @ x # r \<longleftrightarrow> m = a \<and> b = r \<or> (\<exists>m'. m = a @ x # m' \<and> b = m' @ x # r)"
  using assms
proof (induction a arbitrary: m)
  case Nil
  then show ?case by (cases m) auto
next
  case (Cons y a)
  then show ?case by (cases m) auto
qed

definition replace_char :: "'a \<Rightarrow> 'a \<Rightarrow> 'a list \<Rightarrow> 'a list" where
  "replace_char a b s = map (\<lambda>c. if c = a then b else c) s"

text \<open>\<open>while let Some(rest) = p.strip_prefix("./") { p = rest }\<close>, the loop several crates use.\<close>

fun strip_dot_slash :: "str \<Rightarrow> str" where
  "strip_dot_slash (a # b # r) =
     (if a = c_dot \<and> b = c_slash then strip_dot_slash r else a # b # r)"
| "strip_dot_slash s = s"

lemma strip_dot_slash_step [simp]:
  "strip_dot_slash (c_dot # c_slash # r) = strip_dot_slash r"
  by simp

lemma strip_dot_slash_stops: "\<not> starts_with (lit ''./'') (strip_dot_slash s)"
  by (induction s rule: strip_dot_slash.induct) (auto simp: starts_with_def)

lemma strip_dot_slash_id: "\<not> starts_with (lit ''./'') s \<Longrightarrow> strip_dot_slash s = s"
  by (cases s rule: strip_dot_slash.cases) (auto simp: starts_with_def)

lemma strip_dot_slash_idem [simp]: "strip_dot_slash (strip_dot_slash s) = strip_dot_slash s"
  by (rule strip_dot_slash_id [OF strip_dot_slash_stops])

lemma set_strip_dot_slash: "set (strip_dot_slash s) \<subseteq> set s"
  by (induction s rule: strip_dot_slash.induct) auto

subsection \<open>White space and lines\<close>

text \<open>\<open>char::is_whitespace\<close>: the Unicode property \<open>White_Space\<close>.\<close>

definition is_whitespace :: "uchar \<Rightarrow> bool" where
  "is_whitespace c =
     (9 \<le> c \<and> c \<le> 13 \<or> c = 32 \<or> c = 133 \<or> c = 160 \<or> c = 5760 \<or>
      8192 \<le> c \<and> c \<le> 8202 \<or> c = 8232 \<or> c = 8233 \<or> c = 8239 \<or> c = 8287 \<or> c = 12288)"

definition trim_start_matches :: "('a \<Rightarrow> bool) \<Rightarrow> 'a list \<Rightarrow> 'a list" where
  "trim_start_matches p s = dropWhile p s"

definition trim_end_matches :: "('a \<Rightarrow> bool) \<Rightarrow> 'a list \<Rightarrow> 'a list" where
  "trim_end_matches p s = rev (dropWhile p (rev s))"

definition trim_matches :: "('a \<Rightarrow> bool) \<Rightarrow> 'a list \<Rightarrow> 'a list" where
  "trim_matches p s = trim_end_matches p (trim_start_matches p s)"

definition trim_start :: "str \<Rightarrow> str" where
  "trim_start s = trim_start_matches is_whitespace s"

definition trim :: "str \<Rightarrow> str" where
  "trim s = trim_matches is_whitespace s"

definition split_whitespace :: "str \<Rightarrow> str list" where
  "split_whitespace s = filter (\<lambda>x. x \<noteq> []) (split_on is_whitespace s)"

text \<open>
  \<open>str::lines\<close>: the pieces ended by a newline, each without it and without one carriage return
  before it, then the text after the last newline if there is any (its carriage return stays).
\<close>

definition chomp_cr :: "str \<Rightarrow> str" where
  "chomp_cr s = (if s \<noteq> [] \<and> last s = c_cr then butlast s else s)"

definition str_lines :: "str \<Rightarrow> str list" where
  "str_lines s =
     (let ps = split_on (\<lambda>c. c = c_nl) s
      in map chomp_cr (butlast ps) @ (if last ps = [] then [] else [last ps]))"

lemma trim_start_matches_not: "trim_start_matches p s = c # r \<Longrightarrow> \<not> p c"
  by (simp add: trim_start_matches_def dropWhile_eq_Cons_conv)

lemma set_trim_matches: "set (trim_matches p s) \<subseteq> set s"
  by (auto simp: trim_matches_def trim_end_matches_def trim_start_matches_def
      dest!: set_dropWhileD)

lemma all_dropWhile: "(\<forall>x\<in>set (dropWhile p s). p x) \<longleftrightarrow> (\<forall>x\<in>set s. p x)"
  by (metis UnE set_append set_dropWhileD set_takeWhileD takeWhile_dropWhile_id)

lemma trim_Nil_iff: "trim s = [] \<longleftrightarrow> (\<forall>c\<in>set s. is_whitespace c)"
  by (simp add: trim_def trim_matches_def trim_end_matches_def trim_start_matches_def
      dropWhile_eq_Nil_conv all_dropWhile)

lemma trim_start_Nil_iff: "trim_start s = [] \<longleftrightarrow> (\<forall>c\<in>set s. is_whitespace c)"
  by (simp add: trim_start_def trim_start_matches_def dropWhile_eq_Nil_conv)

lemma trim_end_matches_id: "\<forall>c\<in>set s. \<not> p c \<Longrightarrow> trim_end_matches p s = s"
  by (cases "rev s") (auto simp: trim_end_matches_def rev_swap)

lemma split_whitespace_skip: "is_whitespace c \<Longrightarrow> split_whitespace (c # s) = split_whitespace s"
  by (simp add: split_whitespace_def)

lemma split_whitespace_word:
  "\<forall>c\<in>set w. \<not> is_whitespace c \<Longrightarrow> w \<noteq> [] \<Longrightarrow> is_whitespace c \<Longrightarrow>
   split_whitespace (w @ c # s) = w # split_whitespace s"
  by (simp add: split_whitespace_def split_on_append_sep)

lemma split_whitespace_Nil [simp]: "split_whitespace [] = []"
  by (simp add: split_whitespace_def)

lemma trim_word:
  "s \<noteq> [] \<Longrightarrow> \<not> is_whitespace (hd s) \<Longrightarrow> \<not> is_whitespace (last s) \<Longrightarrow> trim s = s"
proof -
  assume s: "s \<noteq> []" "\<not> is_whitespace (hd s)" "\<not> is_whitespace (last s)"
  then have "dropWhile is_whitespace s = s" "dropWhile is_whitespace (rev s) = rev s"
    by (simp_all only: dropWhile_eq_self_iff hd_rev) simp_all
  then show ?thesis by (simp add: trim_def trim_matches_def trim_end_matches_def trim_start_matches_def)
qed

lemma str_lines_Nil [simp]: "str_lines [] = []"
  by (simp add: str_lines_def)

lemma set_chomp_cr: "set (chomp_cr x) \<subseteq> set x"
  by (auto simp: chomp_cr_def dest: in_set_butlastD)

lemma str_lines_piece:
  "l \<in> set (str_lines s) \<Longrightarrow> \<exists>x\<in>set (split_on (\<lambda>c. c = c_nl) s). set l \<subseteq> set x"
proof -
  let ?ps = "split_on (\<lambda>c. c = c_nl) s"
  assume "l \<in> set (str_lines s)"
  then have "l \<in> chomp_cr ` set (butlast ?ps) \<or> l = last ?ps"
    unfolding str_lines_def Let_def by (simp split: if_splits)
  then show ?thesis
  proof
    assume "l \<in> chomp_cr ` set (butlast ?ps)"
    then obtain x where "l = chomp_cr x" "x \<in> set (butlast ?ps)" by blast
    then show ?thesis using set_chomp_cr in_set_butlastD by metis
  next
    assume "l = last ?ps"
    moreover have "last ?ps \<in> set ?ps" by (rule last_in_set) (rule split_on_not_Nil)
    ultimately show ?thesis by blast
  qed
qed

lemma str_lines_no_newline: "l \<in> set (str_lines s) \<Longrightarrow> c_nl \<notin> set l"
  using str_lines_piece split_on_pieces by fast

lemma str_lines_line:
  "\<lbrakk>c_nl \<notin> set a; a = [] \<or> last a \<noteq> c_cr\<rbrakk> \<Longrightarrow> str_lines (a @ c_nl # b) = a # str_lines b"
proof -
  assume a: "c_nl \<notin> set a" "a = [] \<or> last a \<noteq> c_cr"
  then have "split_on (\<lambda>c. c = c_nl) (a @ c_nl # b) = a # split_on (\<lambda>c. c = c_nl) b"
    by (intro split_on_append_sep) auto
  with a show ?thesis by (auto simp: str_lines_def Let_def chomp_cr_def)
qed

subsection \<open>Numbers in text\<close>

text \<open>
  \<open>str::parse\<close> for unsigned types: an optional \<open>+\<close>, then digits, refused when there is no digit or
  the value passes the type's maximum. The signed parser also takes \<open>-\<close>.
\<close>

definition is_ascii_digit :: "uchar \<Rightarrow> bool" where
  "is_ascii_digit c = (48 \<le> c \<and> c \<le> 57)"

definition dec_value :: "str \<Rightarrow> nat" where
  "dec_value s = foldl (\<lambda>n c. 10 * n + (c - 48)) 0 s"

definition parse_digits :: "str \<Rightarrow> nat option" where
  "parse_digits s = (if s \<noteq> [] \<and> list_all is_ascii_digit s then Some (dec_value s) else None)"

definition parse_unsigned :: "nat \<Rightarrow> str \<Rightarrow> nat option" where
  "parse_unsigned m s =
     (case parse_digits (case s of c # r \<Rightarrow> if c = c_plus then r else s | [] \<Rightarrow> s) of
        Some n \<Rightarrow> if n \<le> m then Some n else None
      | None \<Rightarrow> None)"

definition U32_MAX :: nat where "U32_MAX = 2 ^ 32 - 1"
definition U64_MAX :: nat where "U64_MAX = 2 ^ 64 - 1"
definition USIZE_MAX :: nat where "USIZE_MAX = 2 ^ 64 - 1"
definition I64_MAX :: int where "I64_MAX = 2 ^ 63 - 1"
definition I64_MIN :: int where "I64_MIN = - (2 ^ 63)"

definition parse_u32 :: "str \<Rightarrow> nat option" where
  "parse_u32 s = parse_unsigned U32_MAX s"

definition parse_u64 :: "str \<Rightarrow> nat option" where
  "parse_u64 s = parse_unsigned U64_MAX s"

definition parse_i64 :: "str \<Rightarrow> int option" where
  "parse_i64 s =
     (case s of
        [] \<Rightarrow> None
      | c # r \<Rightarrow>
          if c = c_dash then
            (case parse_digits r of
               Some n \<Rightarrow> if - int n \<ge> I64_MIN then Some (- int n) else None
             | None \<Rightarrow> None)
          else
            (case parse_digits (if c = c_plus then r else s) of
               Some n \<Rightarrow> if int n \<le> I64_MAX then Some (int n) else None
             | None \<Rightarrow> None))"

lemma parse_unsigned_le: "parse_unsigned m s = Some n \<Longrightarrow> n \<le> m"
  by (auto simp: parse_unsigned_def split: option.splits if_splits)

text \<open>The decimal text of a number, as \<open>Display\<close> writes it.\<close>

fun show_nat :: "nat \<Rightarrow> str" where
  "show_nat n = (if n < 10 then [48 + n] else show_nat (n div 10) @ [48 + n mod 10])"

declare show_nat.simps [simp del]

lemma dec_value_snoc: "dec_value (s @ [c]) = 10 * dec_value s + (c - 48)"
  by (simp add: dec_value_def)

lemma show_nat_props: "show_nat n \<noteq> [] \<and> list_all is_ascii_digit (show_nat n) \<and> dec_value (show_nat n) = n"
proof (induction n rule: show_nat.induct)
  case (1 n)
  have one: "dec_value [48 + m] = m" for m by (simp add: dec_value_def)
  have d: "is_ascii_digit (48 + n mod 10)" by (simp add: is_ascii_digit_def) 
  show ?case
  proof (cases "n < 10")
    case True
    then show ?thesis by (subst (1 2 3) show_nat.simps) (auto simp: one is_ascii_digit_def)
  next
    case False
    with 1 d show ?thesis by (subst (1 2 3) show_nat.simps) (auto simp: dec_value_snoc)
  qed
qed

lemma show_nat_digit: "c \<in> set (show_nat n) \<Longrightarrow> is_ascii_digit c"
  using show_nat_props [of n] by (auto simp: list_all_iff)

lemma show_nat_not_Nil [simp]: "show_nat n \<noteq> []"
  using show_nat_props by blast

lemma parse_digits_show [simp]: "parse_digits (show_nat n) = Some n"
  using show_nat_props [of n] by (simp add: parse_digits_def)

lemma parse_unsigned_show [simp]: "parse_unsigned m (show_nat n) = (if n \<le> m then Some n else None)"
proof -
  have "show_nat n = c # r \<Longrightarrow> c \<noteq> c_plus" for c r
    using show_nat_digit [of c n] by (auto simp: is_ascii_digit_def)
  then have "(case show_nat n of c # r \<Rightarrow> if c = c_plus then r else show_nat n | [] \<Rightarrow> show_nat n) = show_nat n"
    by (cases "show_nat n") auto
  then show ?thesis by (simp add: parse_unsigned_def)
qed

definition saturating_mul :: "nat \<Rightarrow> nat \<Rightarrow> nat" where
  "saturating_mul a b = min (a * b) USIZE_MAX"

definition saturating_add :: "nat \<Rightarrow> nat \<Rightarrow> nat" where
  "saturating_add a b = min (a + b) USIZE_MAX"

subsection \<open>UTF-8 widths\<close>

definition utf8_width :: "uchar \<Rightarrow> nat" where
  "utf8_width c = (if c < 128 then 1 else if c < 2048 then 2 else if c < 65536 then 3 else 4)"

definition byte_len :: "str \<Rightarrow> nat" where
  "byte_len s = sum_list (map utf8_width s)"

lemma utf8_width_bounds: "1 \<le> utf8_width c \<and> utf8_width c \<le> 4"
  by (simp add: utf8_width_def)

lemma byte_len_simps [simp]:
  "byte_len [] = 0" "byte_len (c # s) = utf8_width c + byte_len s"
  "byte_len (s @ t) = byte_len s + byte_len t"
  by (simp_all add: byte_len_def)

lemma byte_len_bounds: "length s \<le> byte_len s \<and> byte_len s \<le> 4 * length s"
proof (induction s)
  case (Cons c s)
  then show ?case using utf8_width_bounds [of c] by auto
qed simp

text \<open>
  \<open>s.get(n..)\<close>: the text after the first \<open>n\<close> bytes, \<open>None\<close> when \<open>n\<close> is past the end or inside a
  scalar; \<open>byte_take\<close> is the text before that byte.
\<close>

fun byte_drop :: "nat \<Rightarrow> str \<Rightarrow> str option" where
  "byte_drop n [] = (if n = 0 then Some [] else None)"
| "byte_drop n (c # s) =
     (if n = 0 then Some (c # s)
      else if utf8_width c \<le> n then byte_drop (n - utf8_width c) s else None)"

fun byte_take :: "nat \<Rightarrow> str \<Rightarrow> str option" where
  "byte_take n [] = (if n = 0 then Some [] else None)"
| "byte_take n (c # s) =
     (if n = 0 then Some []
      else if utf8_width c \<le> n then map_option (Cons c) (byte_take (n - utf8_width c) s)
      else None)"

definition byte_get :: "nat \<Rightarrow> nat \<Rightarrow> str \<Rightarrow> str option" where
  "byte_get a b s =
     (if b < a then None
      else case byte_drop a s of None \<Rightarrow> None | Some r \<Rightarrow> byte_take (b - a) r)"

lemma byte_drop_append [simp]: "byte_drop (byte_len a) (a @ b) = Some b"
proof (induction a)
  case Nil
  then show ?case by (cases b) auto
next
  case (Cons c a)
  then show ?case using utf8_width_bounds [of c] by auto
qed

lemma byte_take_append [simp]: "byte_take (byte_len a) (a @ b) = Some a"
proof (induction a)
  case Nil
  then show ?case by (cases b) auto
next
  case (Cons c a)
  then show ?case using utf8_width_bounds [of c] by auto
qed

lemma byte_drop_Some: "byte_drop n s = Some r \<Longrightarrow> \<exists>a. s = a @ r \<and> byte_len a = n"
proof (induction n s arbitrary: r rule: byte_drop.induct)
  case (1 n)
  then show ?case by (auto split: if_splits)
next
  case (2 n c s)
  show ?case
  proof (cases "n = 0")
    case True
    with 2 show ?thesis by (intro exI [of _ "[]"]) auto
  next
    case False
    with 2 obtain a where "s = a @ r" "byte_len a = n - utf8_width c" "utf8_width c \<le> n"
      by (auto split: if_splits)
    then show ?thesis by (intro exI [of _ "c # a"]) auto
  qed
qed

subsection \<open>Slices\<close>

lemma slice_nth:
  assumes "take (length ys) (drop a xs) = ys" "i < length ys"
  shows "a + i < length xs \<and> xs ! (a + i) = ys ! i"
proof -
  have "length (take (length ys) (drop a xs)) = length ys" using assms(1) by simp
  then have "length ys \<le> length xs - a" by simp
  then have "a + i < length xs" using assms(2) by simp
  moreover have "ys ! i = drop a xs ! i" using assms by (metis nth_take)
  ultimately show ?thesis by simp
qed

subsection \<open>Sorted and filtered lists\<close>

lemma sort_key_eq_Nil [simp]: "sort_key f xs = [] \<longleftrightarrow> xs = []"
  by (metis mset_sort mset_zero_iff)

lemma mset_map_filter_split:
  "mset (map f (filter P xs)) + mset (map f (filter (\<lambda>x. \<not> P x) xs)) = mset (map f xs)"
  by (induction xs) auto

section \<open>Loops\<close>

text \<open>
  \<open>scan_while p xs i\<close> is the loop \<open>while i < xs.len() && p(xs[i]) { i += 1 }\<close>.
\<close>

function scan_while :: "('a \<Rightarrow> bool) \<Rightarrow> 'a list \<Rightarrow> nat \<Rightarrow> nat" where
  "scan_while p xs i = (if i < length xs \<and> p (xs ! i) then scan_while p xs (Suc i) else i)"
  by pat_completeness auto
termination
  by (relation "measure (\<lambda>(p, xs, i). length xs - i)") auto

declare scan_while.simps [simp del]

lemma scan_while_ge: "i \<le> scan_while p xs i"
  by (induction p xs i rule: scan_while.induct) (subst scan_while.simps, auto)

lemma scan_while_le: "i \<le> length xs \<Longrightarrow> scan_while p xs i \<le> length xs"
  by (induction p xs i rule: scan_while.induct) (subst scan_while.simps, auto)

lemma scan_while_eq: "i \<le> length xs \<Longrightarrow> scan_while p xs i = i + length (takeWhile p (drop i xs))"
proof (induction p xs i rule: scan_while.induct)
  case (1 p xs i)
  show ?case
  proof (cases "i < length xs \<and> p (xs ! i)")
    case True
    then have "drop i xs = xs ! i # drop (Suc i) xs" by (simp add: Cons_nth_drop_Suc)
    with True 1 show ?thesis by (subst scan_while.simps) auto
  next
    case False
    then have "takeWhile p (drop i xs) = []"
      by (cases "drop i xs") (auto simp: nth_via_drop drop_eq_Nil)
    with False show ?thesis by (subst scan_while.simps) auto
  qed
qed

text \<open>A loop whose body may return early with an error, Rust's \<open>?\<close> inside \<open>for\<close>.\<close>

fun try_fold :: "('s \<Rightarrow> 'x \<Rightarrow> 'e + 's) \<Rightarrow> 's \<Rightarrow> 'x list \<Rightarrow> 'e + 's" where
  "try_fold f s [] = Inr s"
| "try_fold f s (x # xs) = (case f s x of Inl e \<Rightarrow> Inl e | Inr s' \<Rightarrow> try_fold f s' xs)"

definition rbind :: "'e + 'a \<Rightarrow> ('a \<Rightarrow> 'e + 'b) \<Rightarrow> 'e + 'b" where
  "rbind m f = (case m of Inl e \<Rightarrow> Inl e | Inr x \<Rightarrow> f x)"

definition guard :: "bool \<Rightarrow> 'e \<Rightarrow> 'e + unit" where
  "guard b e = (if b then Inr () else Inl e)"

lemma rbind_simps [simp]: "rbind (Inl e) f = Inl e" "rbind (Inr x) f = f x"
  by (simp_all add: rbind_def)

lemma rbind_Inr_iff: "rbind m f = Inr y \<longleftrightarrow> (\<exists>x. m = Inr x \<and> f x = Inr y)"
  by (cases m) auto

lemma guard_Inr_iff [simp]: "guard b e = Inr u \<longleftrightarrow> b"
  by (simp add: guard_def)

lemma try_fold_unit: "try_fold (\<lambda>_. f) () xs = Inr () \<longleftrightarrow> (\<forall>x\<in>set xs. f x = Inr ())"
  by (induction xs) (auto split: sum.splits)

lemma try_fold_append:
  "try_fold f s (xs @ ys) = rbind (try_fold f s xs) (\<lambda>s'. try_fold f s' ys)"
  by (induction xs arbitrary: s) (auto split: sum.splits)

lemma try_fold_inv:
  assumes "try_fold f s xs = Inr t" and "P s"
    and step: "\<And>s x s'. x \<in> set xs \<Longrightarrow> P s \<Longrightarrow> f s x = Inr s' \<Longrightarrow> P s'"
  shows "P t"
  using assms
proof (induction xs arbitrary: s)
  case Nil
  then show ?case by simp
next
  case (Cons x xs)
  from Cons.prems(1) obtain s' where s': "f s x = Inr s'" "try_fold f s' xs = Inr t"
    by (auto split: sum.splits)
  show ?case
  proof (rule Cons.IH [OF s'(2)])
    show "P s'" using Cons.prems(2) Cons.prems(3) [OF _ _ s'(1)] by simp
  qed (use Cons.prems(3) in auto)
qed

lemma try_fold_Inl:
  "try_fold f s xs = Inl e \<Longrightarrow>
   \<exists>ys x zs s'. xs = ys @ x # zs \<and> try_fold f s ys = Inr s' \<and> f s' x = Inl e"
proof (induction xs arbitrary: s)
  case Nil
  then show ?case by simp
next
  case (Cons x xs)
  show ?case
  proof (cases "f s x")
    case (Inl e')
    with Cons.prems show ?thesis by (intro exI [of _ "[]"]) auto
  next
    case (Inr s')
    with Cons obtain ys y zs t where "xs = ys @ y # zs" "try_fold f s' ys = Inr t" "f t y = Inl e"
      by fastforce
    with Inr show ?thesis by (intro exI [of _ "x # ys"]) auto
  qed
qed

text \<open>
  The contract every fallible loop of the development is reasoned with: a step that keeps an
  invariant whenever it succeeds, and only raises errors satisfying \<open>err\<close> from states where the
  invariant holds.
\<close>

locale fallible_machine =
  fixes step :: "'s \<Rightarrow> 'x \<Rightarrow> 'e + 's"
    and inv :: "'s \<Rightarrow> bool"
    and err :: "'e \<Rightarrow> bool"
  assumes step_inv: "inv s \<Longrightarrow> step s x = Inr s' \<Longrightarrow> inv s'"
    and step_err: "inv s \<Longrightarrow> step s x = Inl e \<Longrightarrow> err e"
begin

lemma run_inv: "inv s \<Longrightarrow> try_fold step s xs = Inr t \<Longrightarrow> inv t"
  by (erule try_fold_inv) (auto intro: step_inv)

lemma run_err:
  assumes "inv s" and "try_fold step s xs = Inl e"
  shows "err e"
proof -
  from try_fold_Inl [OF assms(2)] obtain ys x s'
    where "try_fold step s ys = Inr s'" "step s' x = Inl e" by blast
  with run_inv [OF assms(1)] step_err show ?thesis by blast
qed

end

end
