(* ===== verification/Utf8.thy ===== *)
theory Utf8
  imports Prelude
begin

text \<open>
  UTF-8 as the code sees it: \<open>str::as_bytes\<close> (\<open>utf8_encode\<close>) and \<open>String::from_utf8_lossy\<close>, which
  replaces each maximal invalid sequence by U+FFFD, byte for byte as the standard library does.
\<close>

type_synonym byte = nat

definition scalar :: "uchar \<Rightarrow> bool" where
  "scalar c \<longleftrightarrow> c < 0xD800 \<or> 0xDFFF < c \<and> c < 0x110000"

definition utf8_bytes :: "uchar \<Rightarrow> byte list" where
  "utf8_bytes c =
     (if c < 128 then [c]
      else if c < 2048 then [192 + c div 64, 128 + c mod 64]
      else if c < 65536 then [224 + c div 4096, 128 + c div 64 mod 64, 128 + c mod 64]
      else [240 + c div 262144, 128 + c div 4096 mod 64, 128 + c div 64 mod 64, 128 + c mod 64])"

definition utf8_encode :: "str \<Rightarrow> byte list" where
  "utf8_encode s = concat (map utf8_bytes s)"

definition is_cont :: "byte \<Rightarrow> bool" where
  "is_cont b \<longleftrightarrow> 128 \<le> b \<and> b < 192"

definition second_of_three :: "byte \<Rightarrow> byte \<Rightarrow> bool" where
  "second_of_three b c \<longleftrightarrow>
     (if b = 0xE0 then 0xA0 \<le> c \<and> c \<le> 0xBF
      else if b = 0xED then 0x80 \<le> c \<and> c \<le> 0x9F
      else 0x80 \<le> c \<and> c \<le> 0xBF)"

definition second_of_four :: "byte \<Rightarrow> byte \<Rightarrow> bool" where
  "second_of_four b c \<longleftrightarrow>
     (if b = 0xF0 then 0x90 \<le> c \<and> c \<le> 0xBF
      else if b = 0xF4 then 0x80 \<le> c \<and> c \<le> 0x8F
      else 0x80 \<le> c \<and> c \<le> 0xBF)"

abbreviation replacement :: uchar where "replacement \<equiv> 0xFFFD"

text \<open>One chunk: the scalar (or the replacement character) and how many bytes it took.\<close>

definition lossy_step :: "byte \<Rightarrow> byte list \<Rightarrow> uchar \<times> nat" where
  "lossy_step b bs =
     (if b < 128 then (b, 1)
      else if 194 \<le> b \<and> b \<le> 223 then
        (case bs of
           c # _ \<Rightarrow> if is_cont c then ((b - 192) * 64 + (c - 128), 2) else (replacement, 1)
         | [] \<Rightarrow> (replacement, 1))
      else if 224 \<le> b \<and> b \<le> 239 then
        (case bs of
           c # cs \<Rightarrow>
             if \<not> second_of_three b c then (replacement, 1)
             else (case cs of
                     d # _ \<Rightarrow>
                       if is_cont d
                       then ((b - 224) * 4096 + (c - 128) * 64 + (d - 128), 3) else (replacement, 2)
                   | [] \<Rightarrow> (replacement, 2))
         | [] \<Rightarrow> (replacement, 1))
      else if 240 \<le> b \<and> b \<le> 244 then
        (case bs of
           c # cs \<Rightarrow>
             if \<not> second_of_four b c then (replacement, 1)
             else (case cs of
                     d # ds \<Rightarrow>
                       if \<not> is_cont d then (replacement, 2)
                       else (case ds of
                               e # _ \<Rightarrow>
                                 if is_cont e
                                 then ((b - 240) * 262144 + (c - 128) * 4096 + (d - 128) * 64 + (e - 128), 4)
                                 else (replacement, 3)
                             | [] \<Rightarrow> (replacement, 3))
                   | [] \<Rightarrow> (replacement, 2))
         | [] \<Rightarrow> (replacement, 1))
      else (replacement, 1))"

lemma lossy_step_pos: "0 < snd (lossy_step b bs)"
  by (simp add: lossy_step_def split: list.splits)

function from_utf8_lossy :: "byte list \<Rightarrow> str" where
  "from_utf8_lossy [] = []"
| "from_utf8_lossy (b # bs) =
     (let (c, n) = lossy_step b bs in c # from_utf8_lossy (drop n (b # bs)))"
  by pat_completeness auto
termination
proof (relation "measure length", goal_cases)
  case (2 b bs x c n)
  then show ?case using lossy_step_pos [of b bs] by (metis diff_less drop_eq_Nil2 in_measure length_drop length_greater_0_conv list.distinct(1) snd_conv)
qed simp

declare from_utf8_lossy.simps(2) [simp del]

lemma length_utf8_bytes: "length (utf8_bytes c) = utf8_width c"
  by (simp add: utf8_bytes_def utf8_width_def)

lemma length_utf8_encode: "length (utf8_encode s) = byte_len s"
  by (induction s) (simp_all add: utf8_encode_def length_utf8_bytes)

lemma utf8_encode_simps [simp]:
  "utf8_encode [] = []" "utf8_encode (c # s) = utf8_bytes c @ utf8_encode s"
  "utf8_encode (s @ t) = utf8_encode s @ utf8_encode t"
  by (simp_all add: utf8_encode_def)

lemma utf8_bytes_step:
  assumes "scalar c"
  shows "\<exists>b bs. utf8_bytes c = b # bs \<and> lossy_step b (bs @ r) = (c, utf8_width c)"
proof -
  consider "c < 128" | "128 \<le> c" "c < 2048" | "2048 \<le> c" "c < 65536" | "65536 \<le> c" by linarith
  then show ?thesis
  proof cases
    case 1
    then show ?thesis by (simp add: utf8_bytes_def lossy_step_def utf8_width_def)
  next
    case 2
    then have "2 \<le> c div 64" "c div 64 < 32" by simp_all
    with 2 show ?thesis
      by (simp add: utf8_bytes_def lossy_step_def utf8_width_def is_cont_def)
  next
    case 3
    have b: "c div 4096 < 16" using 3 by simp
    have s: "second_of_three (224 + c div 4096) (128 + c div 64 mod 64)"
    proof -
      define q where "q = c div 64"
      have q: "c div 4096 = q div 64" "q = 64 * (q div 64) + q mod 64"
        unfolding q_def by (simp add: div_mult2_eq [symmetric]) (rule mult_div_mod_eq [symmetric])
      have "32 \<le> q" using 3 by (simp add: q_def)
      then have "32 \<le> c div 64 mod 64" if "c div 4096 = 0"
        using that q by (simp add: q_def)
      moreover have "c div 64 mod 64 \<le> 31" if d: "c div 4096 = 13"
      proof -
        have "c < 57344" using d by linarith
        with assms have "c < 55296" by (simp add: scalar_def)
        then have "q < 864" by (simp add: q_def)
        with q d have "q mod 64 < 32" by linarith
        then show ?thesis by (simp add: q_def)
      qed
      moreover have "c div 64 mod 64 < 64" by simp
      ultimately show ?thesis by (auto simp: second_of_three_def)
    qed
    have v: "c div 4096 * 4096 + c div 64 mod 64 * 64 + c mod 64 = c"
    proof -
      have "c = c div 64 * 64 + c mod 64" "c div 64 = c div 64 div 64 * 64 + c div 64 mod 64" by simp_all
      moreover have "c div 64 div 64 = c div 4096" by (simp add: div_mult2_eq [symmetric])
      ultimately show ?thesis by linarith
    qed
    from 3 b s v show ?thesis
      by (simp add: utf8_bytes_def lossy_step_def utf8_width_def is_cont_def)
  next
    case 4
    have lim: "c < 0x110000" using assms 4 by (auto simp: scalar_def)
    have b: "c div 262144 \<le> 4" using lim by simp
    have s: "second_of_four (240 + c div 262144) (128 + c div 4096 mod 64)"
    proof -
      define q where "q = c div 4096"
      have q: "c div 262144 = q div 64" "q = 64 * (q div 64) + q mod 64"
        unfolding q_def by (simp add: div_mult2_eq [symmetric]) (rule mult_div_mod_eq [symmetric])
      have "16 \<le> q" using 4 by (simp add: q_def)
      then have "16 \<le> c div 4096 mod 64" if "c div 262144 = 0"
        using that q by (simp add: q_def)
      moreover have "c div 4096 mod 64 \<le> 15" if d: "c div 262144 = 4"
      proof -
        have "q < 272" using lim by (simp add: q_def)
        with q d have "q mod 64 < 16" by linarith
        then show ?thesis by (simp add: q_def)
      qed
      moreover have "c div 4096 mod 64 < 64" by simp
      ultimately show ?thesis by (auto simp: second_of_four_def)
    qed
    have v: "c div 262144 * 262144 + c div 4096 mod 64 * 4096 + c div 64 mod 64 * 64 + c mod 64 = c"
    proof -
      have "c = c div 64 * 64 + c mod 64" "c div 64 = c div 64 div 64 * 64 + c div 64 mod 64"
        "c div 4096 = c div 4096 div 64 * 64 + c div 4096 mod 64" by simp_all
      moreover have "c div 64 div 64 = c div 4096" "c div 4096 div 64 = c div 262144"
        by (simp_all add: div_mult2_eq [symmetric])
      ultimately show ?thesis by linarith
    qed
    from 4 b s v show ?thesis
      by (simp add: utf8_bytes_def lossy_step_def utf8_width_def is_cont_def)
  qed
qed

lemma from_utf8_lossy_scalar:
  assumes "scalar c"
  shows "from_utf8_lossy (utf8_bytes c @ r) = c # from_utf8_lossy r"
proof -
  obtain b bs where b: "utf8_bytes c = b # bs" "lossy_step b (bs @ r) = (c, utf8_width c)"
    using utf8_bytes_step [OF assms] by blast
  have "drop (utf8_width c) (utf8_bytes c @ r) = r"
    by (simp add: length_utf8_bytes [symmetric])
  with b show ?thesis by (simp add: from_utf8_lossy.simps(2))
qed

text \<open>Decoding what was encoded gives the text back.\<close>

lemma from_utf8_lossy_encode:
  "list_all scalar s \<Longrightarrow> from_utf8_lossy (utf8_encode s) = s"
  by (induction s) (simp_all add: from_utf8_lossy_scalar)

end
