(* ===== verification/Secrets.thy ===== *)
theory Secrets
  imports Utf8 "HOL-Library.Product_Lexorder"
begin

text \<open>
  The credential table of \<^verbatim>\<open>src/rust/dc-redact/src/lib.rs\<close> and the redactor that reads it. Positions are
  indices of scalars: every offset of the code comes from a search or from adding the length of text
  just matched, so it is the byte offset of a scalar's start. Lengths the code compares or prints are
  counted in bytes where a non-ASCII scalar can occur in them.
\<close>

section \<open>Characters, searches and cuts\<close>

definition is_upper :: "uchar \<Rightarrow> bool" where "is_upper c \<longleftrightarrow> 65 \<le> c \<and> c \<le> 90"
definition is_lower :: "uchar \<Rightarrow> bool" where "is_lower c \<longleftrightarrow> 97 \<le> c \<and> c \<le> 122"
definition is_alpha :: "uchar \<Rightarrow> bool" where "is_alpha c \<longleftrightarrow> is_upper c \<or> is_lower c"
definition is_alnum :: "uchar \<Rightarrow> bool" where "is_alnum c \<longleftrightarrow> is_ascii_digit c \<or> is_alpha c"
definition is_graphic :: "uchar \<Rightarrow> bool" where "is_graphic c \<longleftrightarrow> 33 \<le> c \<and> c \<le> 126"
definition to_lower :: "uchar \<Rightarrow> uchar" where "to_lower c = (if is_upper c then c + 32 else c)"
definition lowercase :: "str \<Rightarrow> str" where "lowercase s = map to_lower s"

definition among :: "string \<Rightarrow> uchar \<Rightarrow> bool" where
  "among cs c \<longleftrightarrow> c \<in> set (lit cs)"

abbreviation c_underscore :: uchar where "c_underscore \<equiv> 95"
abbreviation c_apostrophe :: uchar where "c_apostrophe \<equiv> 39"
abbreviation c_backtick :: uchar where "c_backtick \<equiv> 96"
abbreviation c_equals :: uchar where "c_equals \<equiv> 61"
abbreviation c_at :: uchar where "c_at \<equiv> 64"
abbreviation c_ellipsis :: uchar where "c_ellipsis \<equiv> 8230"

definition cut :: "'a list \<Rightarrow> nat \<Rightarrow> nat \<Rightarrow> 'a list" where
  "cut s a b = take (b - a) (drop a s)"

text \<open>\<open>str::match_indices\<close>: the starts of the occurrences that do not overlap, from the left.\<close>

function match_from :: "'a list \<Rightarrow> nat \<Rightarrow> 'a list \<Rightarrow> nat list" where
  "match_from p i [] = []"
| "match_from p i (c # cs) =
     (if starts_with p (c # cs) then i # match_from p (i + length p) (drop (length p - 1) cs)
      else match_from p (Suc i) cs)"
  by pat_completeness auto
termination
  by (relation "measure (\<lambda>(p, i, s). length s)") auto

definition match_indices :: "'a list \<Rightarrow> 'a list \<Rightarrow> nat list" where
  "match_indices p s = match_from p 0 s"

text \<open>\<open>find\<close> and \<open>rfind\<close> of a character.\<close>

definition find_at :: "('a \<Rightarrow> bool) \<Rightarrow> 'a list \<Rightarrow> nat option" where
  "find_at p s = (let n = length (takeWhile (\<lambda>c. \<not> p c) s) in if n < length s then Some n else None)"

definition run_from :: "('a \<Rightarrow> bool) \<Rightarrow> 'a list \<Rightarrow> nat \<Rightarrow> nat" where
  "run_from p s i = i + length (takeWhile p (drop i s))"

lemma run_from_less: "i < length s \<Longrightarrow> p (s ! i) \<Longrightarrow> i < run_from p s i"
  by (auto simp: run_from_def Cons_nth_drop_Suc [symmetric])

definition trim_end :: "str \<Rightarrow> str" where
  "trim_end s = trim_end_matches is_whitespace s"

section \<open>Keys with a vendor prefix\<close>

type_synonym span = "nat \<times> nat"

record secret_shape =
  sp_name :: str
  sp_prefix :: str
  sp_min_len :: nat
  sp_alphanumeric_body :: bool

definition secret_pattern :: "string \<Rightarrow> string \<Rightarrow> nat \<Rightarrow> bool \<Rightarrow> secret_shape" where
  "secret_pattern name p n b =
     \<lparr>sp_name = lit name, sp_prefix = lit p, sp_min_len = n, sp_alphanumeric_body = b\<rparr>"

definition SECRET_PATTERNS :: "secret_shape list" where
  "SECRET_PATTERNS = [
     secret_pattern ''anthropic api key'' ''sk-ant-'' 24 False,
     secret_pattern ''openai project api key'' ''sk-proj-'' 24 False,
     secret_pattern ''stripe live key'' ''sk_live_'' 24 False,
     secret_pattern ''stripe test key'' ''sk_test_'' 24 False,
     secret_pattern ''stripe restricted test key'' ''rk_test_'' 24 False,
     secret_pattern ''stripe restricted live key'' ''rk_live_'' 24 False,
     secret_pattern ''openai admin api key'' ''sk-admin-'' 24 False,
     secret_pattern ''openrouter api key'' ''sk-or-v1-'' 40 False,
     secret_pattern ''openai api key'' ''sk-'' 45 True,
     secret_pattern ''stripe webhook signing secret'' ''whsec_'' 24 False,
     secret_pattern ''xai api key'' ''xai-'' 20 False,
     secret_pattern ''google api key'' ''AIza'' 30 False,
     secret_pattern ''github personal access token'' ''ghp_'' 30 False,
     secret_pattern ''github oauth token'' ''gho_'' 30 False,
     secret_pattern ''github app server token'' ''ghs_'' 30 False,
     secret_pattern ''github app user token'' ''ghu_'' 30 False,
     secret_pattern ''github refresh token'' ''ghr_'' 30 False,
     secret_pattern ''github pat'' ''github_pat_'' 40 False,
     secret_pattern ''gitlab personal access token'' ''glpat-'' 26 False,
     secret_pattern ''gitlab deploy token'' ''gldt-'' 26 False,
     secret_pattern ''gitlab runner authentication token'' ''glrt-'' 26 False,
     secret_pattern ''gitlab runner registration-created token'' ''glrtr-'' 26 False,
     secret_pattern ''gitlab oauth application secret'' ''gloas-'' 26 False,
     secret_pattern ''gitlab ci job token'' ''glcbt-'' 26 False,
     secret_pattern ''gitlab trigger token'' ''glptt-'' 26 False,
     secret_pattern ''gitlab feed token'' ''glft-'' 26 False,
     secret_pattern ''gitlab incoming mail token'' ''glimt-'' 26 False,
     secret_pattern ''gitlab agent for kubernetes token'' ''glagent-'' 26 False,
     secret_pattern ''gitlab workspace token'' ''glwt-'' 26 False,
     secret_pattern ''gitlab scim token'' ''glsoat-'' 26 False,
     secret_pattern ''gitlab feature flags client token'' ''glffct-'' 26 False,
     secret_pattern ''slack bot token'' ''xoxb-'' 30 False,
     secret_pattern ''slack user token'' ''xoxp-'' 30 False,
     secret_pattern ''slack workspace token'' ''xoxa-'' 30 False,
     secret_pattern ''slack app-level token'' ''xapp-'' 30 False,
     secret_pattern ''slack incoming webhook'' ''https://hooks.slack.com/services/'' 60 False,
     secret_pattern ''sendgrid api key'' ''SG.'' 69 False,
     secret_pattern ''shopify access token'' ''shpat_'' 38 True,
     secret_pattern ''shopify custom app token'' ''shpca_'' 38 True,
     secret_pattern ''shopify private app token'' ''shppa_'' 38 True,
     secret_pattern ''shopify shared secret'' ''shpss_'' 38 True,
     secret_pattern ''aws access key id'' ''AKIA'' 20 True,
     secret_pattern ''aws temporary access key id'' ''ASIA'' 20 True,
     secret_pattern ''huggingface token'' ''hf_'' 30 False,
     secret_pattern ''npm access token'' ''npm_'' 36 False,
     secret_pattern ''pypi api token'' ''pypi-'' 90 False,
     secret_pattern ''digitalocean personal access token'' ''dop_v1_'' 32 False,
     secret_pattern ''digitalocean oauth access token'' ''doo_v1_'' 32 False,
     secret_pattern ''digitalocean oauth refresh token'' ''dor_v1_'' 32 False,
     secret_pattern ''replicate api token'' ''r8_'' 40 False,
     secret_pattern ''linear api key'' ''lin_api_'' 32 False,
     secret_pattern ''linear oauth token'' ''lin_oauth_'' 32 False,
     secret_pattern ''notion api token'' ''ntn_'' 30 False,
     secret_pattern ''private key block'' ''-----BEGIN'' 20 False]"

definition starts_a_token :: "str \<Rightarrow> nat \<Rightarrow> bool" where
  "starts_a_token content at =
     (let h = take at content in h = [] \<or> \<not> (is_alnum (last h) \<or> last h = c_underscore))"

definition is_key_char :: "uchar \<Rightarrow> bool" where
  "is_key_char c \<longleftrightarrow> is_alnum c \<or> among ''-_./+='' c"

definition pem_private_header_end :: "str \<Rightarrow> nat \<Rightarrow> nat option" where
  "pem_private_header_end content label_at =
     (case strip_prefix [c_space] (drop label_at content) of
        None \<Rightarrow> None
      | Some _ \<Rightarrow>
          let label_start = label_at + 1;
              e = run_from (\<lambda>c. \<not> (c = c_dash \<or> \<not> (c = c_space \<or> is_graphic c))) content label_start;
              label = cut content label_start e
          in if starts_with (lit ''-----'') (drop e content) \<and> contains_sub (lit ''private key'') (lowercase label)
             then Some (e + 5) else None)"

text \<open>The closure's \<open>token_end\<close> and \<open>consumed\<close>, and the spans it has yielded.\<close>

record span_state =
  ss_token_end :: nat
  ss_consumed :: nat
  ss_spans :: "span list"

definition PEM_PREFIX :: str where "PEM_PREFIX = lit ''-----BEGIN''"

definition found_span :: "span \<Rightarrow> span_state \<Rightarrow> span_state" where
  "found_span s st = st\<lparr>ss_consumed := snd s, ss_spans := ss_spans st @ [s]\<rparr>"

definition token_end_at :: "secret_shape \<Rightarrow> str \<Rightarrow> nat \<Rightarrow> nat \<Rightarrow> nat" where
  "token_end_at p content start cached =
     (if start \<ge> cached then run_from is_key_char content (start + length (sp_prefix p)) else cached)"

definition accepts_token :: "secret_shape \<Rightarrow> str \<Rightarrow> bool" where
  "accepts_token p token \<longleftrightarrow>
     \<not> (length token < sp_min_len p \<or>
        (sp_alphanumeric_body p \<and> \<not> list_all is_alnum (drop (length (sp_prefix p)) token)))"

definition span_step :: "secret_shape \<Rightarrow> str \<Rightarrow> span_state \<Rightarrow> nat \<Rightarrow> span_state" where
  "span_step p content st start =
     (if start < ss_consumed st \<or> \<not> (sp_prefix p = PEM_PREFIX \<or> starts_a_token content start) then st
      else if sp_prefix p = PEM_PREFIX then
        (case pem_private_header_end content (start + length (sp_prefix p)) of
           None \<Rightarrow> st | Some e \<Rightarrow> found_span (start, e) st)
      else
        let token_end = token_end_at p content start (ss_token_end st);
            st' = st\<lparr>ss_token_end := token_end\<rparr>;
            token = trim_end_matches (\<lambda>c. c = c_dot) (cut content start token_end)
        in if accepts_token p token then found_span (start, start + length token) st' else st')"

definition pattern_spans :: "secret_shape \<Rightarrow> str \<Rightarrow> span list" where
  "pattern_spans p content =
     ss_spans (foldl (span_step p content) \<lparr>ss_token_end = 0, ss_consumed = 0, ss_spans = []\<rparr>
       (match_indices (sp_prefix p) content))"

section \<open>JSON web tokens\<close>

definition in_run :: "uchar \<Rightarrow> bool" where
  "in_run c \<longleftrightarrow> is_alnum c \<or> among ''-_.'' c"

definition jwt_in_run :: "str \<Rightarrow> nat \<Rightarrow> nat \<Rightarrow> span list" where
  "jwt_in_run line start e =
     (let run = cut line start e in
      case rfind_sub [c_dot] run of None \<Rightarrow> []
      | Some last_dot \<Rightarrow>
      (case rfind_sub [c_dot] (take last_dot run) of None \<Rightarrow> []
       | Some middle \<Rightarrow>
         let first = (case rfind_sub [c_dot] (take middle run) of None \<Rightarrow> 0 | Some d \<Rightarrow> d + 1);
             payload = cut run (middle + 1) last_dot; signature = drop (last_dot + 1) run
         in if \<not> starts_with (lit ''eyJ'') payload \<or> length payload < 10 \<or> length signature < 10 then []
            else map (\<lambda>at. (at, e))
                   (filter (\<lambda>at. start + middle - at \<ge> 10 \<and> starts_a_token line at)
                      (map (\<lambda>k. start + first + k) (match_indices (lit ''eyJ'') (cut run first middle))))))"

function jwt_loop :: "str \<Rightarrow> nat \<Rightarrow> span list" where
  "jwt_loop line at =
     (if at < length line then
        if \<not> in_run (line ! at) then jwt_loop line (at + 1)
        else let e = run_from in_run line at in jwt_in_run line at e @ jwt_loop line e
      else [])"
  by pat_completeness auto
termination
  by (relation "measure (\<lambda>(s, i). length s - i)") (auto intro!: diff_less_mono2 run_from_less)

definition jwt_spans :: "str \<Rightarrow> span list" where
  "jwt_spans line = jwt_loop line 0"

section \<open>Authorization headers\<close>

definition base64_value :: "uchar \<Rightarrow> nat option" where
  "base64_value b =
     (if is_upper b then Some (b - 65) else if is_lower b then Some (b - 97 + 26)
      else if is_ascii_digit b then Some (b - 48 + 52)
      else if b = c_plus then Some 62 else if b = c_slash then Some 63 else None)"

fun decode_loop :: "nat \<Rightarrow> nat \<Rightarrow> str \<Rightarrow> byte list option" where
  "decode_loop acc bits [] = Some []"
| "decode_loop acc bits (b # bs) =
     (case base64_value b of None \<Rightarrow> None
      | Some v \<Rightarrow>
          let acc = acc * 64 + v; bits = bits + 6
          in if bits \<ge> 8 then
               map_option (Cons (acc div 2 ^ (bits - 8) mod 256)) (decode_loop (acc mod 2 ^ (bits - 8)) (bits - 8) bs)
             else decode_loop acc bits bs)"

definition decode_base64 :: "str \<Rightarrow> byte list option" where
  "decode_base64 text =
     (let body = trim_end_matches (\<lambda>c. c = c_equals) text
      in if byte_len body < 4 \<or> byte_len text - byte_len body > 2 then None else decode_loop 0 0 body)"

definition auth_token_char :: "uchar \<Rightarrow> bool" where
  "auth_token_char c \<longleftrightarrow> is_alnum c \<or> among ''-._~+/='' c"

definition auth_literal :: "str \<Rightarrow> str \<Rightarrow> bool" where
  "auth_literal scheme token =
     (if scheme = lit ''basic '' then
        (case decode_base64 token of None \<Rightarrow> False | Some d \<Rightarrow> 3 \<le> length d \<and> c_colon \<in> set d)
      else 16 \<le> length token \<and> list_ex is_ascii_digit token \<and> list_ex is_alpha token)"

definition auth_span :: "str \<Rightarrow> str \<Rightarrow> nat \<Rightarrow> span option" where
  "auth_span line scheme at =
     (if \<not> starts_a_token line at then None
      else let start = run_from is_whitespace line (at + length scheme);
               e = run_from auth_token_char line start
           in if auth_literal scheme (cut line start e) then Some (start, e) else None)"

definition AUTH_SCHEMES :: "str list" where
  "AUTH_SCHEMES = [lit ''bearer '', lit ''token '', lit ''basic '']"

definition auth_scheme_spans :: "str \<Rightarrow> span list" where
  "auth_scheme_spans line =
     concat (map (\<lambda>scheme. List.map_filter (auth_span line scheme) (match_indices scheme (lowercase line))) AUTH_SCHEMES)"

section \<open>Literal values\<close>

definition PLACEHOLDER_WORDS :: "str list" where
  "PLACEHOLDER_WORDS = [lit ''fake'', lit ''dummy'', lit ''placeholder'', lit ''changeme'', lit ''change_me'',
     lit ''your'', lit ''redacted'', lit ''sample'']"

definition is_placeholder :: "str \<Rightarrow> bool" where
  "is_placeholder value \<longleftrightarrow>
     starts_with (lit ''$'') value \<or>
     (case find_at (\<lambda>c. c = 60) value of None \<Rightarrow> False | Some k \<Rightarrow> 62 \<in> set (drop k value)) \<or>
     list_ex (\<lambda>t. contains_sub t value) [lit ''${'', lit ''{{'', lit ''$('', lit ''%(''] \<or>
     list_ex (\<lambda>w. contains_sub w (lowercase value)) PLACEHOLDER_WORDS \<or>
     list_all (\<lambda>c. c = hd value) value \<or>
     c_ellipsis \<in> set value"

text \<open>\<open>words\<close>: one part of the identifier, cut where a capital starts a word.\<close>

fun camel_words :: "uchar option \<Rightarrow> str \<Rightarrow> str \<Rightarrow> str list" where
  "camel_words prev word [] = (if word = [] then [] else [word])"
| "camel_words prev word (c # cs) =
     (let boundary = (case prev of None \<Rightarrow> False
        | Some q \<Rightarrow> is_upper c \<and>
            (is_lower q \<or> (case cs of [] \<Rightarrow> False | d # _ \<Rightarrow> is_lower d) \<and> is_upper q))
      in if boundary \<and> word \<noteq> [] then word # camel_words (Some c) [to_lower c] cs
         else camel_words (Some c) (word @ [to_lower c]) cs)"

definition words :: "str \<Rightarrow> str list" where
  "words identifier = concat (map (camel_words None []) (split_on (\<lambda>c. \<not> is_alnum c) identifier))"

definition reads_as_words :: "str \<Rightarrow> nat \<Rightarrow> bool" where
  "reads_as_words text least \<longleftrightarrow>
     (let w = words text in least \<le> length w \<and> length w \<le> 4 \<and>
        list_all (\<lambda>x. 3 \<le> length x \<and> list_all is_alpha x) w)"

definition MIN_LITERAL_LEN :: nat where "MIN_LITERAL_LEN = 8"
definition MAX_JUDGED_VALUE :: nat where "MAX_JUDGED_VALUE = 512"

text \<open>The longest prefix within a number of bytes: \<open>end\<close> walks back to a character boundary.\<close>

fun byte_prefix :: "nat \<Rightarrow> str \<Rightarrow> str" where
  "byte_prefix n [] = []"
| "byte_prefix n (c # cs) = (if utf8_width c \<le> n then c # byte_prefix (n - utf8_width c) cs else [])"

definition judged_prefix :: "str \<Rightarrow> str" where
  "judged_prefix value = (if byte_len value \<le> MAX_JUDGED_VALUE then value else byte_prefix MAX_JUDGED_VALUE value)"

definition reads_as_identifier :: "str \<Rightarrow> bool" where
  "reads_as_identifier value \<longleftrightarrow>
     \<not> list_ex is_ascii_digit value \<and>
     (list_ex (among ''_.-'') value \<or> list_ex (\<lambda>(a, b). is_lower a \<and> is_upper b) (zip value (tl value)))"

definition numbered_name :: "str \<Rightarrow> bool" where
  "numbered_name value \<longleftrightarrow>
     (let stem = trim_end_matches (among ''_-'') (trim_end_matches is_ascii_digit value)
      in length stem < length value \<and> \<not> list_ex is_ascii_digit stem \<and> reads_as_words stem 2)"

definition qualified_part :: "str \<Rightarrow> bool" where
  "qualified_part part \<longleftrightarrow>
     (case part of [] \<Rightarrow> False | c # _ \<Rightarrow> is_alpha c) \<and> list_all (\<lambda>b. is_alnum b \<or> b = c_underscore) part"

definition qualified_name :: "bool \<Rightarrow> str \<Rightarrow> bool" where
  "qualified_name quoted value \<longleftrightarrow>
     \<not> quoted \<and> c_dot \<in> set value \<and>
     (let parts = split_on (\<lambda>c. c = c_dot) value in list_all qualified_part parts \<and> reads_as_words (last parts) 1)"

definition is_expression :: "bool \<Rightarrow> str \<Rightarrow> bool" where
  "is_expression quoted value \<longleftrightarrow>
     \<not> quoted \<and> (list_ex (among ''(['') value \<or> c_dot \<in> set value \<and> \<not> list_ex is_ascii_digit value \<or>
                 qualified_name quoted value)"

definition is_literal_secret :: "str \<Rightarrow> bool \<Rightarrow> bool" where
  "is_literal_secret value0 quoted \<longleftrightarrow>
     (let value = judged_prefix value0 in
      MIN_LITERAL_LEN \<le> length value \<and> \<not> list_ex is_whitespace value \<and> \<not> contains_sub (lit ''://'') value \<and>
      \<not> list_all is_ascii_digit value \<and> \<not> reads_as_identifier value \<and> \<not> numbered_name value \<and>
      \<not> is_expression quoted value \<and> \<not> (list_all is_lower value \<and> length value < 12) \<and>
      \<not> is_placeholder value)"

section \<open>Passwords in a URL\<close>

definition GENERIC_PASSWORDS :: "str list" where
  "GENERIC_PASSWORDS = [lit ''pass'', lit ''password'', lit ''passwd'', lit ''pwd'', lit ''secret'', lit ''test'']"

definition authority_end :: "uchar \<Rightarrow> bool" where
  "authority_end c \<longleftrightarrow> is_whitespace c \<or> among ''/?#'' c \<or> c = c_quote \<or> c = c_apostrophe \<or> c = c_backtick"

definition url_password :: "str \<Rightarrow> nat \<Rightarrow> span option" where
  "url_password line at =
     (let authority_start = at + 3;
          authority = takeWhile (\<lambda>c. \<not> authority_end c) (drop authority_start line)
      in case rfind_sub [c_at] authority of None \<Rightarrow> None
         | Some sign \<Rightarrow>
         (case find_at (\<lambda>c. c = c_colon) (take sign authority) of None \<Rightarrow> None
          | Some colon \<Rightarrow>
            let user = take colon authority; password = cut authority (colon + 1) sign;
                start = authority_start + colon + 1
            in if password \<noteq> [] \<and> lowercase password \<notin> set GENERIC_PASSWORDS \<and> password \<noteq> user \<and>
                  \<not> is_placeholder password
               then Some (start, start + length password) else None))"

definition url_password_spans :: "str \<Rightarrow> span list" where
  "url_password_spans line = List.map_filter (url_password line) (match_indices (lit ''://'') line)"

section \<open>Assignments\<close>

definition SINGLE_WORDS :: "str list" where
  "SINGLE_WORDS = [lit ''password'', lit ''passwd'', lit ''passphrase'', lit ''secret'', lit ''token'',
     lit ''apikey'', lit ''credential'', lit ''credentials'', lit ''auth'']"

definition WORD_PAIRS :: "(str \<times> str) list" where
  "WORD_PAIRS = [(lit ''api'', lit ''key''), (lit ''access'', lit ''key''), (lit ''private'', lit ''key''),
     (lit ''account'', lit ''key''), (lit ''signing'', lit ''key''), (lit ''encryption'', lit ''key'')]"

definition ABOUT_WORDS :: "str list" where
  "ABOUT_WORDS = map lit
     [''name'', ''names'', ''id'', ''ids'', ''endpoint'', ''url'', ''uri'', ''path'', ''file'', ''dir'', ''ttl'',
      ''len'', ''length'', ''size'', ''count'', ''type'', ''header'', ''prefix'', ''suffix'', ''field'', ''ref'',
      ''env'', ''var'', ''hint'', ''policy'', ''min'', ''max'', ''regex'', ''pattern'', ''label'', ''format'',
      ''kind'', ''mode'', ''version'', ''enabled'', ''required'', ''timeout'', ''expiry'', ''expires'', ''hash'',
      ''digest'', ''source'', ''provider'', ''method'', ''scheme'', ''strategy'', ''flow'', ''mechanism'',
      ''backend'', ''helper'', ''store'', ''manager'', ''handler'', ''class'']"

definition FUSED_WORDS :: "str list" where
  "FUSED_WORDS = [lit ''password'', lit ''passwd'', lit ''passphrase'']"

definition credential_word :: "str \<Rightarrow> bool" where
  "credential_word x0 \<longleftrightarrow>
     (let x = trim_end_matches is_ascii_digit x0
      in x \<in> set SINGLE_WORDS \<or> list_ex (\<lambda>f. ends_with f x) FUSED_WORDS)"

definition names_a_credential :: "str \<Rightarrow> bool" where
  "names_a_credential key \<longleftrightarrow>
     (let w = words key in
      \<not> (w \<noteq> [] \<and> last w \<in> set ABOUT_WORDS) \<and>
      (list_ex credential_word w \<or> list_ex (\<lambda>q. q \<in> set WORD_PAIRS) (zip w (tl w))))"

definition key_char :: "uchar \<Rightarrow> bool" where
  "key_char c \<longleftrightarrow> is_alnum c \<or> among ''_-.'' c"

definition key_before :: "str \<Rightarrow> nat \<Rightarrow> str option" where
  "key_before line sep =
     (let head = trim_end (take sep line) in
      if head \<noteq> [] \<and> (last head = c_quote \<or> last head = c_apostrophe) then
        (let inner = butlast head
         in case rfind_sub [last head] inner of None \<Rightarrow> None | Some k \<Rightarrow> Some (drop (k + 1) inner))
      else
        let key = rev (takeWhile key_char (rev head)) in if key \<noteq> [] then Some key else None)"

definition TYPE_WORDS :: "str list" where
  "TYPE_WORDS = [lit ''str'', lit ''string'', lit ''bytes'', lit ''byte'', lit ''char'']"

definition looks_like_a_type :: "str \<Rightarrow> bool" where
  "looks_like_a_type word \<longleftrightarrow>
     word \<in> set TYPE_WORDS \<or> (word \<noteq> [] \<and> is_upper (hd word)) \<and> list_ex is_lower word"

definition declared_name :: "str \<Rightarrow> nat \<Rightarrow> str option" where
  "declared_name line sep =
     (case key_before line sep of None \<Rightarrow> None
      | Some key \<Rightarrow>
          if \<not> starts_with [c_equals] (drop sep line) \<or> \<not> looks_like_a_type key then Some key
          else
            let key_start = length (trim_end (take sep line)) - length key;
                head0 = trim_end (trim_end_matches (among ''&*[]'') (trim_end (take key_start line)));
                head = trim_end (case strip_suffix [c_colon] head0 of None \<Rightarrow> head0 | Some h \<Rightarrow> h)
            in case key_before line (length head) of None \<Rightarrow> Some key | Some k \<Rightarrow> Some k)"

text \<open>\<open>NextStop\<close>: where the scan that found it started, and the stop.\<close>

type_synonym next_stop = "(nat \<times> nat) option"

definition at_or_after :: "(uchar \<Rightarrow> bool) \<Rightarrow> str \<Rightarrow> nat \<Rightarrow> next_stop \<Rightarrow> nat \<times> next_stop" where
  "at_or_after stop line from found =
     (let at = run_from (\<lambda>c. \<not> stop c) line from
      in case found of
           None \<Rightarrow> (at, Some (from, at))
         | Some (started, known) \<Rightarrow>
             if started \<le> from \<and> from \<le> known then (known, found) else (at, Some (from, at)))"

record value_ends =
  ve_unquoted :: next_stop
  ve_continued :: next_stop
  ve_quotes :: "next_stop list"
  ve_chain :: next_stop

definition value_stop :: "uchar \<Rightarrow> bool" where
  "value_stop c \<longleftrightarrow> is_whitespace c \<or> among '',;)}]'' c \<or> c = c_quote \<or> c = c_apostrophe"

function comma_walk :: "str \<Rightarrow> nat \<Rightarrow> next_stop \<Rightarrow> nat \<times> next_stop" where
  "comma_walk line whole m =
     (if starts_with [c_comma] (drop whole line) then
        let next = whole + 1 in
        if next = length line \<or> is_whitespace (line ! next) then (whole, m)
        else case at_or_after value_stop line next m of (w, m') \<Rightarrow> comma_walk line w m'
      else (whole, m))"
  by pat_completeness auto

lemma at_or_after_ge: "at_or_after stop line from m = (w, m') \<Longrightarrow> from \<le> w"
  by (auto simp: at_or_after_def run_from_def Let_def split: option.splits if_splits)

termination comma_walk
proof (relation "measure (\<lambda>(s, i, m). length s - i)", goal_cases)
  case (2 line whole m x w m')
  then have "drop whole line \<noteq> []" by (auto simp: starts_with_def)
  then have "whole < length line" by (simp add: not_le [symmetric])
  moreover have "whole < w" using 2 at_or_after_ge [of value_stop line "whole + 1" m w m'] by simp
  ultimately show ?case by simp
qed simp

definition reach_past_commas :: "str \<Rightarrow> nat \<Rightarrow> value_ends \<Rightarrow> nat \<times> value_ends" where
  "reach_past_commas line e ends =
     (if \<not> starts_with [c_comma] (drop e line) then (e, ends)
      else case ve_chain ends of
        Some (from, last_end) \<Rightarrow>
          if from \<le> e \<and> e \<le> last_end then (last_end, ends)
          else (case comma_walk line e (ve_continued ends) of
                  (w, m) \<Rightarrow> (w, ends\<lparr>ve_continued := m, ve_chain := Some (e, w)\<rparr>))
      | None \<Rightarrow>
          (case comma_walk line e (ve_continued ends) of
             (w, m) \<Rightarrow> (w, ends\<lparr>ve_continued := m, ve_chain := Some (e, w)\<rparr>)))"

definition QUOTES :: "uchar list" where "QUOTES = [c_quote, c_apostrophe, c_backtick]"

definition literal_after :: "str \<Rightarrow> nat \<Rightarrow> value_ends \<Rightarrow> span option \<times> value_ends" where
  "literal_after line from ends =
     (let start = run_from is_whitespace line from in
      if start \<ge> length line then (None, ends)
      else case find_at (\<lambda>c. c = line ! start) QUOTES of
        Some q \<Rightarrow>
          (case at_or_after (\<lambda>c. c = line ! start) line (start + 1) (ve_quotes ends ! q) of
             (close, m) \<Rightarrow>
               (let ends' = ends\<lparr>ve_quotes := (ve_quotes ends)[q := m]\<rparr> in
                if close = length line then (None, ends')
                else if is_literal_secret (cut line (start + 1) close) True then (Some (start + 1, close), ends')
                else (None, ends')))
      | None \<Rightarrow>
          (case at_or_after value_stop line start (ve_unquoted ends) of
             (e, m) \<Rightarrow>
               (let ends' = ends\<lparr>ve_unquoted := m\<rparr> in
                if \<not> is_literal_secret (cut line start e) False then (None, ends')
                else case reach_past_commas line e ends' of (whole, ends2) \<Rightarrow> (Some (start, whole), ends2))))"

text \<open>Where the value of the separator at \<open>i\<close> starts; \<open>None\<close> is the \<open>continue\<close> of the \<open>match\<close>.\<close>

definition value_from :: "str \<Rightarrow> nat \<Rightarrow> nat option" where
  "value_from line i =
     (let b = line ! i; prev = (if i = 0 then None else Some (line ! (i - 1)));
          next = (if i + 1 < length line then Some (line ! (i + 1)) else None)
      in if b = c_equals then
           (if next \<in> {Some c_equals, Some 62} \<or>
               prev \<in> {Some c_equals, Some c_bang, Some 60, Some 62, Some c_colon}
            then None else Some (i + 1))
         else if b = c_colon then
           (if next = Some c_equals then Some (i + 2)
            else if next \<in> {Some c_colon, Some c_slash} \<or> prev = Some c_colon then None
            else Some (i + 1))
         else None)"

record assign_state =
  as_last_close :: "nat option"
  as_last_open :: "nat option"
  as_ends :: value_ends
  as_spans :: "span list"

definition note_brackets :: "str \<Rightarrow> nat \<Rightarrow> assign_state \<Rightarrow> assign_state" where
  "note_brackets line i st =
     (let st1 = (if i \<ge> 1 \<and> line ! (i - 1) = c_rbrace then st\<lparr>as_last_close := Some (i - 1)\<rparr> else st)
      in if i \<ge> 2 \<and> cut line (i - 2) i \<in> {lit ''${'', lit ''{{''} then st1\<lparr>as_last_open := Some (i - 2)\<rparr> else st1)"

definition in_template :: "str \<Rightarrow> nat \<Rightarrow> assign_state \<Rightarrow> bool" where
  "in_template line i st \<longleftrightarrow>
     (case as_last_open st of None \<Rightarrow> False
      | Some op \<Rightarrow> (case as_last_close st of None \<Rightarrow> True | Some cl \<Rightarrow> cl < op)) \<and>
     (case rfind_sub [c_rbrace] line of None \<Rightarrow> False | Some cl \<Rightarrow> cl > i)"

definition assign_step :: "str \<Rightarrow> assign_state \<Rightarrow> nat \<Rightarrow> assign_state" where
  "assign_step line st0 i =
     (let st = note_brackets line i st0 in
      case value_from line i of None \<Rightarrow> st
      | Some from \<Rightarrow>
          if in_template line i st then st
          else case declared_name line i of None \<Rightarrow> st
            | Some key \<Rightarrow>
                if \<not> names_a_credential key then st
                else case literal_after line from (as_ends st) of
                  (None, ends) \<Rightarrow> st\<lparr>as_ends := ends\<rparr>
                | (Some sp, ends) \<Rightarrow> st\<lparr>as_ends := ends, as_spans := as_spans st @ [sp]\<rparr>)"

definition no_ends :: value_ends where
  "no_ends = \<lparr>ve_unquoted = None, ve_continued = None, ve_quotes = [None, None, None], ve_chain = None\<rparr>"

definition assignment_spans :: "str \<Rightarrow> span list" where
  "assignment_spans line =
     as_spans (foldl (assign_step line)
       \<lparr>as_last_close = None, as_last_open = None, as_ends = no_ends, as_spans = []\<rparr> [0..<length line])"

section \<open>Passwords on a command line\<close>

definition ATTACHED :: "str list" where
  "ATTACHED = [lit ''mysql'', lit ''mysqldump'', lit ''mysqladmin'', lit ''mysqlimport'', lit ''mariadb'',
     lit ''mariadb-dump'']"

definition LONG_FLAGS :: "str list" where
  "LONG_FLAGS = [lit ''--password'', lit ''--passwd'', lit ''--passphrase'']"

text \<open>\<open>split_whitespace\<close> with the start of each word.\<close>

function words_at :: "nat \<Rightarrow> str \<Rightarrow> (nat \<times> str) list" where
  "words_at i s =
     (let r = dropWhile is_whitespace s; at = i + (length s - length r);
          w = takeWhile (\<lambda>c. \<not> is_whitespace c) r
      in if r = [] then [] else (at, w) # words_at (at + length w) (drop (length w) r))"
  by pat_completeness auto
termination
proof (relation "measure (\<lambda>(i, s). length s)", goal_cases)
  case (2 i s r at w)
  then have "r \<noteq> []" "w \<noteq> []"
    using hd_dropWhile [of is_whitespace s] by (auto simp: takeWhile_eq_Nil_iff)
  moreover have "length r \<le> length s" using 2 by (simp add: length_dropWhile_le)
  ultimately show ?case by (cases r; cases w) auto
qed simp

fun shell_scan :: "uchar option \<Rightarrow> nat \<Rightarrow> str \<Rightarrow> nat" where
  "shell_scan q i [] = i"
| "shell_scan q i (c # cs) =
     (case q of
        Some d \<Rightarrow> shell_scan (if c = d then None else q) (Suc i) cs
      | None \<Rightarrow>
          if c = c_quote \<or> c = c_apostrophe then shell_scan (Some c) (Suc i) cs
          else if is_whitespace c then i else shell_scan None (Suc i) cs)"

definition shell_word_end :: "str \<Rightarrow> nat \<Rightarrow> nat" where
  "shell_word_end line start = shell_scan None start (drop start line)"

definition attached_flag :: "string \<Rightarrow> str \<Rightarrow> bool" where
  "attached_flag flag word \<longleftrightarrow> length word > 2 \<and> starts_with (lit flag) word \<and> \<not> starts_with (lit ''--'') word"

definition value_start ::
    "str option \<Rightarrow> bool \<Rightarrow> nat \<Rightarrow> str \<Rightarrow> nat option \<Rightarrow> nat option" where
  "value_start client detached at word next_word =
     (if detached then next_word
      else case client of None \<Rightarrow> None
        | Some c \<Rightarrow>
            if c \<in> {lit ''sshpass'', lit ''docker login''} \<and> word = lit ''-p'' then next_word
            else if c = lit ''docker login'' \<and> attached_flag ''-p'' word then Some (at + 2)
            else if c = lit ''curl'' \<and> word \<in> {lit ''-u'', lit ''--user''} then next_word
            else if c = lit ''curl'' \<and> starts_with (lit ''--user='') word then Some (at + 7)
            else if c = lit ''curl'' \<and> attached_flag ''-u'' word then Some (at + 2)
            else if c \<in> set ATTACHED \<and> attached_flag ''-p'' word then Some (at + 2)
            else None)"

text \<open>The value that starts at \<open>start0\<close>, judged: the rest of the loop body.\<close>

definition judge_value :: "str \<Rightarrow> str option \<Rightarrow> bool \<Rightarrow> str \<Rightarrow> nat \<Rightarrow> span list" where
  "judge_value line client detached word start0 =
     (let e = shell_word_end line start0 in
      case (if client = Some (lit ''curl'') \<and> \<not> detached
            then map_option (\<lambda>k. start0 + k + 1) (find_at (\<lambda>c. c = c_colon) (cut line start0 e))
            else Some start0) of
        None \<Rightarrow> []
      | Some start \<Rightarrow>
          let raw = cut line start e;
              quoted = (c_quote \<in> set raw \<or> c_apostrophe \<in> set raw);
              value = filter (\<lambda>c. \<not> (c = c_quote \<or> c = c_apostrophe) \<and> \<not> is_whitespace c) raw
          in if raw = [] \<or> (word \<in> set LONG_FLAGS \<and> starts_with [c_dash] raw) then []
             else if is_literal_secret value quoted then [(start, e)] else [])"

definition netrc_entry :: "(nat \<times> str) list \<Rightarrow> bool" where
  "netrc_entry ws \<longleftrightarrow>
     (case ws of [] \<Rightarrow> False | (_, w) # _ \<Rightarrow> w = lit ''password'') \<or>
     list_ex (\<lambda>(_, w). w \<in> {lit ''machine'', lit ''login'', lit ''default''}) ws"

definition program_of :: "str \<Rightarrow> str" where
  "program_of word = last (split_on (\<lambda>c. c = c_slash) word)"

fun cli_loop :: "str \<Rightarrow> bool \<Rightarrow> str option \<Rightarrow> (nat \<times> str) list \<Rightarrow> span list" where
  "cli_loop line netrc client [] = []"
| "cli_loop line netrc client ((at, word) # rest) =
     (let program = program_of word in
      if program \<in> set ATTACHED \<or> program \<in> {lit ''sshpass'', lit ''curl''} then
        cli_loop line netrc (Some program) rest
      else if program = lit ''docker'' \<and> (case rest of [] \<Rightarrow> False | (_, w) # _ \<Rightarrow> w = lit ''login'') then
        cli_loop line netrc (Some (lit ''docker login'')) rest
      else if word \<in> {lit ''|'', lit ''&&'', lit ''||'', lit '';''} then cli_loop line netrc None rest
      else
        let detached = (word \<in> set LONG_FLAGS \<or> netrc \<and> word = lit ''password'') in
        (case value_start client detached at word (case rest of [] \<Rightarrow> None | (a, _) # _ \<Rightarrow> Some a) of
           None \<Rightarrow> cli_loop line netrc client rest
         | Some start \<Rightarrow> judge_value line client detached word start @ cli_loop line netrc client rest))"

definition cli_password_spans :: "str \<Rightarrow> span list" where
  "cli_password_spans line =
     (let ws = words_at 0 line in cli_loop line (netrc_entry ws) None ws)"

section \<open>Both tables, and redaction\<close>

type_synonym detection = "str \<times> span \<times> nat"

definition CONTEXT_PATTERNS :: "(str \<times> nat \<times> (str \<Rightarrow> span list)) list" where
  "CONTEXT_PATTERNS =
     [(lit ''json web token'', 3, jwt_spans),
      (lit ''http authorization credential'', 0, auth_scheme_spans),
      (lit ''password in a url'', 0, url_password_spans),
      (lit ''password on a command line'', 0, cli_password_spans),
      (lit ''credential assigned to a named key'', 0, assignment_spans)]"

definition detections :: "str \<Rightarrow> detection list" where
  "detections line =
     concat (map (\<lambda>p. map (\<lambda>s. (sp_name p, s, length (sp_prefix p))) (pattern_spans p line)) SECRET_PATTERNS) @
     concat (map (\<lambda>(name, keep, spans). map (\<lambda>s. (name, s, keep)) (spans line)) CONTEXT_PATTERNS)"

definition redact :: "str \<Rightarrow> nat \<Rightarrow> str" where
  "redact token keep =
     take keep token @ [c_ellipsis] @ lit '' ('' @ show_nat (byte_len token) @ lit '' chars)''"

record secret_match =
  sm_name :: str
  sm_redacted :: str

definition find_secret :: "str \<Rightarrow> secret_match option" where
  "find_secret line =
     (case detections line of [] \<Rightarrow> None
      | (name, (a, b), keep) # _ \<Rightarrow> Some \<lparr>sm_name = name, sm_redacted = redact (cut line a b) keep\<rparr>)"

fun merge_spans :: "(span \<times> nat) list \<Rightarrow> (span \<times> nat) list" where
  "merge_spans [] = []"
| "merge_spans [x] = [x]"
| "merge_spans (((a, b), k) # ((c, d), l) # r) =
     (if c < b then merge_spans (((a, max b d), k) # r) else ((a, b), k) # merge_spans (((c, d), l) # r))"

definition span_order :: "span \<times> nat \<Rightarrow> int \<times> int \<times> int" where
  "span_order x = (int (fst (fst x)), - int (snd x), - int (snd (fst x)))"

fun splice :: "str \<Rightarrow> nat \<Rightarrow> (span \<times> nat) list \<Rightarrow> str" where
  "splice text copied [] = drop copied text"
| "splice text copied (((a, b), k) # r) = cut text copied a @ redact (cut text a b) k @ splice text b r"

definition redact_pass :: "str \<Rightarrow> str" where
  "redact_pass text = splice text 0 (merge_spans (sort_key span_order (map snd (detections text))))"

definition MAX_REDACTION_PASSES :: nat where "MAX_REDACTION_PASSES = 16"

text \<open>The loop over the remaining passes; \<open>None\<close> is a line that has not converged at the cap.\<close>

fun converge :: "nat \<Rightarrow> str \<Rightarrow> str option" where
  "converge 0 text = None"
| "converge (Suc n) text =
     (let next = redact_pass text in if next = text then Some text else converge n next)"

definition redact_line :: "str \<Rightarrow> str" where
  "redact_line line =
     (let text = redact_pass line in
      if text = line then text
      else case converge (MAX_REDACTION_PASSES - 1) text of None \<Rightarrow> redact line 0 | Some t \<Rightarrow> t)"

text \<open>\<open>split_inclusive\<close>: the lines with their newline, and what is left.\<close>

definition inclusive_lines :: "str \<Rightarrow> str list" where
  "inclusive_lines text =
     (let ps = split_on (\<lambda>c. c = c_nl) text
      in map (\<lambda>p. p @ [c_nl]) (butlast ps) @ (if last ps = [] then [] else [last ps]))"

definition redact_segment :: "str \<Rightarrow> str" where
  "redact_segment segment =
     (let line0 = (case strip_suffix [c_nl] segment of None \<Rightarrow> segment | Some l \<Rightarrow> l);
          line = (case strip_suffix [c_cr] line0 of None \<Rightarrow> line0 | Some l \<Rightarrow> l)
      in redact_line line @ drop (length line) segment)"

definition redact_secrets :: "str \<Rightarrow> str" where
  "redact_secrets text = concat (map redact_segment (inclusive_lines text))"

definition contains_secret :: "str \<Rightarrow> bool" where
  "contains_secret text = list_ex (\<lambda>line. detections line \<noteq> []) (str_lines text)"

end
