(* ===== verification/Secret_Spans.thy ===== *)
theory Secret_Spans
  imports Secrets
begin

text \<open>
  What the detectors of \<open>Secrets\<close> report. The memories of the assignment detector are shown not to
  matter: it answers what a detector answers that reads every separator on its own. Every detector
  reports spans the redactor can cut and mark (\<open>span_ok\<close>).
\<close>

section \<open>Runs, cuts and occurrences\<close>

lemma run_from_ge: "i \<le> run_from p s i"
  by (simp add: run_from_def)

lemma run_from_le: "i \<le> length s \<Longrightarrow> run_from p s i \<le> length s"
  using length_takeWhile_le [of p "drop i s"] by (simp add: run_from_def)

lemma run_from_all: "i \<le> j \<Longrightarrow> j < run_from p s i \<Longrightarrow> j < length s \<and> p (s ! j)"
proof -
  assume j: "i \<le> j" "j < run_from p s i"
  then have k: "j - i < length (takeWhile p (drop i s))" by (simp add: run_from_def less_diff_conv2)
  then have "p (takeWhile p (drop i s) ! (j - i))" using nth_mem set_takeWhileD by metis
  moreover have "takeWhile p (drop i s) ! (j - i) = drop i s ! (j - i)" by (rule takeWhile_nth [OF k])
  moreover have "j - i < length (drop i s)" using k length_takeWhile_le [of p "drop i s"] by linarith
  ultimately show ?thesis using j(1) by simp
qed

lemma run_from_stop: "run_from p s i < length s \<Longrightarrow> \<not> p (s ! run_from p s i)"
proof -
  assume r: "run_from p s i < length s"
  then have "length (takeWhile p (drop i s)) < length (drop i s)" by (simp add: run_from_def less_diff_conv)
  from nth_length_takeWhile [OF this] show ?thesis using r by (simp add: run_from_def)
qed

lemma run_from_unique:
  assumes "i \<le> b" "b \<le> length s" "\<And>j. i \<le> j \<Longrightarrow> j < b \<Longrightarrow> p (s ! j)" "b < length s \<Longrightarrow> \<not> p (s ! b)"
  shows "run_from p s i = b"
proof (rule antisym)
  show "run_from p s i \<le> b" using run_from_all [of i b p s] assms(1,4) by (meson not_le)
  show "b \<le> run_from p s i"
    using run_from_stop [of p s i] run_from_ge [of i p s] assms(2,3) by (meson le_less_linear order_less_le_trans)
qed

lemma run_from_inside:
  assumes "a \<le> i" "i \<le> run_from p s a" "a \<le> length s"
  shows "run_from p s i = run_from p s a"
  using assms run_from_all [of a _ p s] run_from_stop [of p s a] run_from_le [OF assms(3), of p]
  by (intro run_from_unique) (auto dest: order_trans)

lemma length_cut [simp]: "b \<le> length s \<Longrightarrow> length (cut s a b) = b - a"
  by (simp add: cut_def)

lemma nth_cut: "a + i < b \<Longrightarrow> cut s a b ! i = s ! (a + i)" if "b \<le> length s"
  using that by (simp add: cut_def)

lemma set_cut: "set (cut s a b) \<subseteq> set s"
  by (auto simp: cut_def dest!: in_set_takeD in_set_dropD)

lemma cut_Nil [simp]: "b \<le> a \<Longrightarrow> cut s a b = []"
  by (simp add: cut_def)

lemma in_cut: "x \<in> set (cut s a b) \<Longrightarrow> \<exists>j. a \<le> j \<and> j < b \<and> j < length s \<and> x = s ! j"
  by (auto simp: cut_def in_set_conv_nth) (metis add.commute le_add1 less_diff_conv)

text \<open>Occurrences.\<close>

definition occurs_at :: "'a list \<Rightarrow> 'a list \<Rightarrow> nat \<Rightarrow> bool" where
  "occurs_at p s i \<longleftrightarrow> i + length p \<le> length s \<and> cut s i (i + length p) = p"

lemma occurs_at_iff: "occurs_at p s i \<longleftrightarrow> (\<exists>a b. s = a @ p @ b \<and> length a = i)"
proof
  assume o: "occurs_at p s i"
  then have "p = take (length p) (drop i s)" by (simp add: occurs_at_def cut_def)
  then have "drop i s = p @ drop (length p) (drop i s)" using append_take_drop_id by metis
  then have "s = take i s @ p @ drop (length p) (drop i s)" using append_take_drop_id by metis
  moreover have "length (take i s) = i" using o by (simp add: occurs_at_def)
  ultimately show "\<exists>a b. s = a @ p @ b \<and> length a = i" by blast
qed (auto simp: occurs_at_def cut_def)

lemma occurs_at_starts: "i \<le> length s \<Longrightarrow> starts_with p (drop i s) \<longleftrightarrow> occurs_at p s i"
proof -
  assume i: "i \<le> length s"
  show ?thesis
  proof
    assume "starts_with p (drop i s)"
    then obtain b where "drop i s = p @ b" by (auto simp: starts_with_iff)
    then have "s = take i s @ p @ b \<and> length (take i s) = i" using i append_take_drop_id [of i s] by simp
    then show "occurs_at p s i" unfolding occurs_at_iff by blast
  qed (auto simp: occurs_at_iff)
qed

lemma occurs_at_nth: "occurs_at p s i \<Longrightarrow> k < length p \<Longrightarrow> s ! (i + k) = p ! k"
  by (auto simp: occurs_at_iff nth_append)

lemma occurs_at_length: "occurs_at p s i \<Longrightarrow> i + length p \<le> length s"
  by (simp add: occurs_at_def)

lemma occurs_at_append: "occurs_at p s i \<Longrightarrow> occurs_at p (a @ s) (length a + i)"
  unfolding occurs_at_iff by (metis append.assoc length_append)

lemma match_from_occurs:
  "p \<noteq> [] \<Longrightarrow> j \<in> set (match_from p i s) \<Longrightarrow> i \<le> j \<and> occurs_at p s (j - i)"
proof (induction p i s rule: match_from.induct)
  case (2 p i c cs)
  show ?case
  proof (cases "starts_with p (c # cs)")
    case True
    then obtain r where r: "c # cs = p @ r" by (auto simp: starts_with_iff)
    then have drop: "drop (length p - 1) cs = r" using 2(3) by (cases p) auto
    consider "j = i" | "j \<in> set (match_from p (i + length p) r)" using 2(4) True drop by auto
    then show ?thesis
    proof cases
      case 2
      then have "i + length p \<le> j" "occurs_at p r (j - (i + length p))"
        using "2.IH"(1) [OF True "2.prems"(1)] drop by auto
      then show ?thesis using occurs_at_append [of p r "j - (i + length p)" p] by (simp add: r)
    qed (use r in \<open>auto simp: occurs_at_iff\<close>)
  next
    case False
    then have "i < j \<and> occurs_at p cs (j - Suc i)" using 2 by auto
    then show ?thesis using occurs_at_append [of p cs "j - Suc i" "[c]"] by (simp add: Suc_diff_Suc)
  qed
qed simp

lemma match_from_sorted: "p \<noteq> [] \<Longrightarrow> sorted_wrt (\<lambda>a b. a + length p \<le> b) (match_from p i s)"
proof (induction p i s rule: match_from.induct)
  case (2 p i c cs)
  show ?case using 2 match_from_occurs [OF 2(3)] by auto
qed simp

lemmas match_indices_occurs = match_from_occurs [where i = 0, folded match_indices_def, simplified]
lemmas match_indices_sorted = match_from_sorted [where i = 0, folded match_indices_def]

section \<open>The memories of the assignment detector\<close>

definition memo_ok :: "(uchar \<Rightarrow> bool) \<Rightarrow> str \<Rightarrow> next_stop \<Rightarrow> bool" where
  "memo_ok stop line m \<longleftrightarrow>
     (case m of None \<Rightarrow> True | Some (a, b) \<Rightarrow> a \<le> length line \<and> b = run_from (\<lambda>c. \<not> stop c) line a)"

lemma at_or_after_eq:
  assumes "memo_ok stop line m" "from \<le> length line"
  shows "\<exists>m'. at_or_after stop line from m = (run_from (\<lambda>c. \<not> stop c) line from, m') \<and> memo_ok stop line m'"
  using assms run_from_inside [of _ "from" "\<lambda>c. \<not> stop c" line]
  by (auto simp: at_or_after_def memo_ok_def Let_def split: option.splits)

text \<open>The end of an unquoted value without memories.\<close>

function comma_end :: "str \<Rightarrow> nat \<Rightarrow> nat" where
  "comma_end line e =
     (if e + 1 < length line \<and> line ! e = c_comma \<and> \<not> is_whitespace (line ! (e + 1))
      then comma_end line (run_from (\<lambda>c. \<not> value_stop c) line (e + 1)) else e)"
  by pat_completeness auto
termination
proof (relation "measure (\<lambda>(s, i). length s - i)", goal_cases)
  case (2 line e)
  then show ?case using run_from_ge [of "e + 1" "\<lambda>c. \<not> value_stop c" line] by simp linarith
qed simp

declare comma_end.simps [simp del] comma_walk.simps [simp del]

lemma comma_end_bounds: "e \<le> length line \<Longrightarrow> e \<le> comma_end line e \<and> comma_end line e \<le> length line"
proof (induction line e rule: comma_end.induct)
  case (1 line e)
  then show ?case
    using run_from_ge [of "e + 1" "\<lambda>c. \<not> value_stop c" line] run_from_le [of "e + 1" line "\<lambda>c. \<not> value_stop c"]
    by (subst (1 2) comma_end.simps) auto
qed

lemma starts_with_nth: "starts_with [c] (drop i s) \<longleftrightarrow> i < length s \<and> s ! i = c"
  by (cases "drop i s") (auto simp: starts_with_def nth_via_drop dest: drop_eq_Nil [THEN iffD1] arg_cong [of _ _ length])

lemma comma_walk_eq:
  assumes "memo_ok value_stop line m" "e \<le> length line"
  shows "\<exists>m'. comma_walk line e m = (comma_end line e, m') \<and> memo_ok value_stop line m'"
  using assms
proof (induction line e arbitrary: m rule: comma_end.induct)
  case (1 line e)
  let ?go = "e + 1 < length line \<and> line ! e = c_comma \<and> \<not> is_whitespace (line ! (e + 1))"
  show ?case
  proof (cases ?go)
    case True
    obtain m1 where m1: "at_or_after value_stop line (e + 1) m = (run_from (\<lambda>c. \<not> value_stop c) line (e + 1), m1)"
        "memo_ok value_stop line m1"
      using at_or_after_eq [OF 1(2), of "e + 1"] True by auto
    have "run_from (\<lambda>c. \<not> value_stop c) line (e + 1) \<le> length line" by (rule run_from_le) (use True in simp)
    from "1.IH" [OF True m1(2) this] show ?thesis using True m1(1)
      by (subst comma_walk.simps, subst comma_end.simps) (simp add: starts_with_nth)
  next
    case False
    then show ?thesis using 1(2,3)
      by (subst comma_walk.simps, subst comma_end.simps) (auto simp: starts_with_nth)
  qed
qed

text \<open>Every comma inside a chain ends where the chain ends.\<close>

lemma comma_end_inside:
  assumes "f \<le> e" "e \<le> comma_end line f" "e < length line" "line ! e = c_comma"
  shows "comma_end line e = comma_end line f"
  using assms
proof (induction line f rule: comma_end.induct)
  case (1 line f)
  let ?go = "f + 1 < length line \<and> line ! f = c_comma \<and> \<not> is_whitespace (line ! (f + 1))"
  let ?w = "run_from (\<lambda>c. \<not> value_stop c) line (f + 1)"
  show ?case
  proof (cases "f = e \<or> \<not> ?go")
    case True
    then have "e = f" using 1(2,3) comma_end.simps [of line f] by (metis le_antisym)
    then show ?thesis by simp
  next
    case False
    have "value_stop c_comma" by (simp add: value_stop_def among_def)
    then have "?w \<le> e" using False 1(2,5) run_from_all [of "f + 1" e "\<lambda>c. \<not> value_stop c" line] by force
    then show ?thesis using "1.IH" False 1(3,4,5) by (simp add: comma_end.simps [of line f])
  qed
qed

definition ends_ok :: "str \<Rightarrow> value_ends \<Rightarrow> bool" where
  "ends_ok line ends \<longleftrightarrow>
     memo_ok value_stop line (ve_unquoted ends) \<and> memo_ok value_stop line (ve_continued ends) \<and>
     length (ve_quotes ends) = 3 \<and> (\<forall>q<3. memo_ok (\<lambda>c. c = QUOTES ! q) line (ve_quotes ends ! q)) \<and>
     (case ve_chain ends of None \<Rightarrow> True | Some (f, l) \<Rightarrow> l = comma_end line f)"

lemma reach_past_commas_eq:
  assumes "ends_ok line ends" "e \<le> length line"
  shows "\<exists>ends'. reach_past_commas line e ends = (comma_end line e, ends') \<and> ends_ok line ends'"
proof (cases "starts_with [c_comma] (drop e line)")
  case False
  then show ?thesis using assms(1) by (auto simp: reach_past_commas_def comma_end.simps [of line e] starts_with_nth)
next
  case True
  then have comma: "e < length line" "line ! e = c_comma" by (simp_all add: starts_with_nth)
  obtain m where m: "comma_walk line e (ve_continued ends) = (comma_end line e, m)" "memo_ok value_stop line m"
    using comma_walk_eq [OF _ assms(2)] assms(1) by (auto simp: ends_ok_def)
  show ?thesis
  proof (cases "\<exists>f l. ve_chain ends = Some (f, l) \<and> f \<le> e \<and> e \<le> l")
    case True
    then obtain f l where f: "ve_chain ends = Some (f, l)" "f \<le> e" "e \<le> l" by blast
    then have "l = comma_end line e" using assms(1) comma_end_inside [of f e line] comma by (simp add: ends_ok_def)
    then show ?thesis using f assms(1) \<open>starts_with _ _\<close> by (simp add: reach_past_commas_def)
  next
    case False
    then have "reach_past_commas line e ends = (comma_end line e, ends\<lparr>ve_continued := m, ve_chain := Some (e, comma_end line e)\<rparr>)"
      using \<open>starts_with _ _\<close> m(1) by (auto simp: reach_past_commas_def split: option.split)
    then show ?thesis using assms(1) m(2) by (simp add: ends_ok_def)
  qed
qed

text \<open>The literal after a separator, read directly.\<close>

definition literal_at :: "str \<Rightarrow> nat \<Rightarrow> span option" where
  "literal_at line from =
     (let start = run_from is_whitespace line from in
      if start \<ge> length line then None
      else if line ! start \<in> set QUOTES then
        (let close = run_from (\<lambda>c. c \<noteq> line ! start) line (start + 1)
         in if close = length line \<or> \<not> is_literal_secret (cut line (start + 1) close) True then None
            else Some (start + 1, close))
      else
        (let e = run_from (\<lambda>c. \<not> value_stop c) line start
         in if is_literal_secret (cut line start e) False then Some (start, comma_end line e) else None))"

lemma find_at_Some:
  "find_at p s = Some k \<Longrightarrow> k < length s \<and> p (s ! k) \<and> (\<forall>j<k. \<not> p (s ! j))"
proof -
  assume "find_at p s = Some k"
  then have k: "k = run_from (\<lambda>c. \<not> p c) s 0" "k < length s"
    by (auto simp: find_at_def run_from_def Let_def split: if_splits)
  then show ?thesis using run_from_stop [of "\<lambda>c. \<not> p c" s 0] run_from_all [of 0 _ "\<lambda>c. \<not> p c" s] by auto
qed

lemma find_at_None: "find_at p s = None \<longleftrightarrow> (\<forall>c\<in>set s. \<not> p c)"
proof -
  have "length (takeWhile q s) < length s \<longleftrightarrow> (\<exists>c\<in>set s. \<not> q c)" for q by (induction s) auto
  then show ?thesis by (auto simp: find_at_def Let_def)
qed

lemma literal_after_eq:
  assumes "ends_ok line ends"
  shows "\<exists>ends'. literal_after line from ends = (literal_at line from, ends') \<and> ends_ok line ends'"
proof -
  let ?s = "run_from is_whitespace line from"
  show ?thesis
  proof (cases "?s \<ge> length line")
    case True
    then show ?thesis using assms by (simp add: literal_after_def literal_at_def)
  next
    case False
    show ?thesis
    proof (cases "find_at (\<lambda>c. c = line ! ?s) QUOTES")
      case (Some q)
      then have q: "q < 3" "QUOTES ! q = line ! ?s" "line ! ?s \<in> set QUOTES"
        using find_at_Some [OF Some] nth_mem [of q QUOTES] by (simp_all add: QUOTES_def)
      have "memo_ok (\<lambda>c. c = line ! ?s) line (ve_quotes ends ! q)"
        using assms q(1) unfolding ends_ok_def q(2) [symmetric] by blast
      moreover have "?s + 1 \<le> length line" using False by simp
      ultimately obtain m where m: "at_or_after (\<lambda>c. c = line ! ?s) line (?s + 1) (ve_quotes ends ! q)
          = (run_from (\<lambda>c. c \<noteq> line ! ?s) line (?s + 1), m)" "memo_ok (\<lambda>c. c = line ! ?s) line m"
        using at_or_after_eq by blast
      have "memo_ok (\<lambda>c. c = QUOTES ! q) line m" using m(2) unfolding q(2) .
      then have "ends_ok line (ends\<lparr>ve_quotes := (ve_quotes ends)[q := m]\<rparr>)"
        using assms q(1) by (auto simp: ends_ok_def nth_list_update)
      then show ?thesis using m(1) False Some q
        by (simp add: literal_after_def literal_at_def Let_def)
    next
      case None
      then have nq: "line ! ?s \<notin> set QUOTES" by (auto simp: find_at_None)
      obtain m where m: "at_or_after value_stop line ?s (ve_unquoted ends)
          = (run_from (\<lambda>c. \<not> value_stop c) line ?s, m)" "memo_ok value_stop line m"
        using at_or_after_eq [of value_stop line "ve_unquoted ends" ?s] assms False by (auto simp: ends_ok_def)
      let ?e = "run_from (\<lambda>c. \<not> value_stop c) line ?s"
      have ok: "ends_ok line (ends\<lparr>ve_unquoted := m\<rparr>)" using assms m(2) by (simp add: ends_ok_def)
      have "?e \<le> length line" by (rule run_from_le) (use False in simp)
      then obtain ends' where "reach_past_commas line ?e (ends\<lparr>ve_unquoted := m\<rparr>) = (comma_end line ?e, ends')" "ends_ok line ends'"
        using reach_past_commas_eq [OF ok] by blast
      then show ?thesis using m(1) False None nq ok
        by (simp add: literal_after_def literal_at_def Let_def)
    qed
  qed
qed

text \<open>The brackets before a position.\<close>

fun last_index :: "(nat \<Rightarrow> bool) \<Rightarrow> nat \<Rightarrow> nat option" where
  "last_index p 0 = None"
| "last_index p (Suc n) = (if p n then Some n else last_index p n)"

lemma last_index_Some: "last_index p n = Some k \<Longrightarrow> k < n \<and> p k \<and> (\<forall>j. k < j \<and> j < n \<longrightarrow> \<not> p j)"
  by (induction n) (auto split: if_splits simp: less_Suc_eq)

lemma last_index_None: "last_index p n = None \<longleftrightarrow> (\<forall>j<n. \<not> p j)"
  by (induction n) (auto simp: less_Suc_eq)

lemma rfind_char_None: "rfind_sub [c] s = None \<longleftrightarrow> c \<notin> set s"
  by (induction s) (auto simp: starts_with_def split: option.split)

lemma rfind_char_Some:
  "rfind_sub [c] s = Some k \<Longrightarrow> k < length s \<and> s ! k = c \<and> (\<forall>j. k < j \<and> j < length s \<longrightarrow> s ! j \<noteq> c)"
proof (induction s arbitrary: k)
  case (Cons x s)
  show ?case
  proof (cases "rfind_sub [c] s")
    case None
    then have "k = 0" "x = c" "c \<notin> set s" using Cons.prems rfind_char_None [of c s]
      by (auto simp: starts_with_def split: if_splits)
    then show ?thesis by (auto simp: nth_Cons in_set_conv_nth split: nat.split)
  next
    case (Some i)
    then have "k = Suc i" using Cons.prems by simp
    moreover have "(x # s) ! j \<noteq> c" if "k < j" "j < length (x # s)" for j
      using Cons.IH [OF Some] that \<open>k = Suc i\<close> by (cases j) auto
    ultimately show ?thesis using Cons.IH [OF Some] by simp
  qed
qed simp

definition opens_template :: "str \<Rightarrow> nat \<Rightarrow> bool" where
  "opens_template line k \<longleftrightarrow> cut line k (k + 2) \<in> {lit ''${'', lit ''{{''}"

definition brackets_at :: "str \<Rightarrow> nat \<Rightarrow> assign_state \<Rightarrow> bool" where
  "brackets_at line i st \<longleftrightarrow>
     as_last_close st = last_index (\<lambda>j. line ! j = c_rbrace) i \<and>
     as_last_open st = last_index (opens_template line) (i - 1)"

lemma note_brackets_step: "brackets_at line (i - 1) st \<Longrightarrow> brackets_at line i (note_brackets line i st)"
proof -
  assume b: "brackets_at line (i - 1) st"
  consider "i = 0" | "i = 1" | j where "i = Suc (Suc j)" by (metis One_nat_def not0_implies_Suc)
  then show ?thesis
    using b by cases (auto simp: brackets_at_def note_brackets_def opens_template_def Let_def)
qed

text \<open>A separator inside an unclosed template: an opener before it, no close since, and one after.\<close>

definition open_template :: "str \<Rightarrow> nat \<Rightarrow> bool" where
  "open_template line i \<longleftrightarrow>
     list_ex (\<lambda>k. opens_template line k \<and> list_all (\<lambda>j. line ! j \<noteq> c_rbrace) [k..<i]) [0..<i - 1] \<and>
     c_rbrace \<in> set (drop (Suc i) line)"

lemma in_template_eq:
  assumes "brackets_at line i st" "i < length line"
  shows "in_template line i st = open_template line i"
proof -
  let ?close = "\<lambda>j. line ! j = c_rbrace" and ?open = "opens_template line"
  have opener: "(\<exists>k<i - 1. ?open k \<and> (\<forall>j\<in>{k..<i}. \<not> ?close j)) \<longleftrightarrow>
      (\<exists>k. last_index ?open (i - 1) = Some k \<and> (case last_index ?close i of None \<Rightarrow> True | Some l \<Rightarrow> l < k))"
  proof (cases "last_index ?open (i - 1)")
    case None
    then have "\<forall>j<i - 1. \<not> ?open j" by (simp only: last_index_None)
    then show ?thesis unfolding None by blast
  next
    case (Some k)
    note k = last_index_Some [OF Some]
    show ?thesis
    proof (cases "last_index ?close i")
      case None
      then have "\<forall>j<i. \<not> ?close j" by (simp only: last_index_None)
      then have "\<exists>k<i - 1. ?open k \<and> (\<forall>j\<in>{k..<i}. \<not> ?close j)" using k by auto
      then show ?thesis unfolding None Some by simp
    next
      case (Some l)
      note l = last_index_Some [OF Some]
      have "l < k" if q: "q < i - 1" "?open q" "\<forall>j\<in>{q..<i}. \<not> ?close j" for q
      proof -
        have "q \<le> k" using k q by (meson not_le)
        moreover have "l < q" using l q(3) by (meson atLeastLessThan_iff not_le)
        ultimately show ?thesis by simp
      qed
      moreover have "\<exists>q<i - 1. ?open q \<and> (\<forall>j\<in>{q..<i}. \<not> ?close j)" if "l < k" using that k l by auto
      ultimately show ?thesis unfolding \<open>last_index ?open (i - 1) = Some k\<close> Some by auto
    qed
  qed
  have "(case rfind_sub [c_rbrace] line of None \<Rightarrow> False | Some cl \<Rightarrow> cl > i) \<longleftrightarrow> c_rbrace \<in> set (drop (Suc i) line)"
  proof (cases "rfind_sub [c_rbrace] line")
    case None
    then have "c_rbrace \<notin> set line" by (rule rfind_char_None [THEN iffD1])
    then have "c_rbrace \<notin> set (drop (Suc i) line)" by (meson in_set_dropD)
    then show ?thesis unfolding None by simp
  next
    case (Some cl)
    note cl = rfind_char_Some [OF Some]
    have "cl > i \<Longrightarrow> drop (Suc i) line ! (cl - Suc i) = c_rbrace \<and> cl - Suc i < length (drop (Suc i) line)"
      using cl by auto
    moreover have "cl > i" if later: "c_rbrace \<in> set (drop (Suc i) line)"
    proof -
      obtain n where "n < length (drop (Suc i) line)" "line ! (Suc i + n) = c_rbrace"
        using later by (auto simp: in_set_conv_nth)
        then have "Suc i + n < length line" "\<not> cl < Suc i + n" using cl by auto
      then show ?thesis by simp
    qed
    ultimately show ?thesis using Some by (auto simp: in_set_conv_nth)
  qed
  then show ?thesis using assms opener
    by (auto simp: in_template_def open_template_def brackets_at_def list_ex_iff list_all_iff split: option.splits)
qed

text \<open>The detector without its memories: every position on its own.\<close>

definition assignment_at :: "str \<Rightarrow> nat \<Rightarrow> span option" where
  "assignment_at line i =
     (case value_from line i of None \<Rightarrow> None
      | Some from \<Rightarrow>
          if open_template line i then None
          else case declared_name line i of None \<Rightarrow> None
            | Some key \<Rightarrow> if names_a_credential key then literal_at line from else None)"

lemma assign_step_eq:
  assumes "brackets_at line (i - 1) st" "ends_ok line (as_ends st)" "i < length line"
  shows "brackets_at line i (assign_step line st i) \<and> ends_ok line (as_ends (assign_step line st i)) \<and>
    as_spans (assign_step line st i) = as_spans st @ (case assignment_at line i of None \<Rightarrow> [] | Some s \<Rightarrow> [s])"
proof -
  let ?st = "note_brackets line i st"
  have b: "brackets_at line i ?st" by (rule note_brackets_step [OF assms(1)])
  have same: "as_ends ?st = as_ends st" "as_spans ?st = as_spans st" by (simp_all add: note_brackets_def Let_def)
  have keep: "brackets_at line i (?st\<lparr>as_ends := e, as_spans := x\<rparr>)" "brackets_at line i (?st\<lparr>as_ends := e\<rparr>)" for e x
    using b by (simp_all add: brackets_at_def)
  have lit: "\<exists>ends'. literal_after line from (as_ends ?st) = (literal_at line from, ends') \<and> ends_ok line ends'" for "from"
    using literal_after_eq assms(2) same(1) by simp
  show ?thesis
  proof (cases "\<exists>from key. value_from line i = Some from \<and> \<not> open_template line i \<and>
      declared_name line i = Some key \<and> names_a_credential key")
    case True
    then obtain f key where f: "value_from line i = Some f" "\<not> open_template line i"
        "declared_name line i = Some key" "names_a_credential key" by blast
    obtain ends' where e: "literal_after line f (as_ends ?st) = (literal_at line f, ends')" "ends_ok line ends'"
      using lit by blast
    then show ?thesis using f keep in_template_eq [OF b assms(3)] same
      by (cases "literal_at line f") (auto simp: assign_step_def assignment_at_def Let_def)
  next
    case False
    then have "assign_step line st i = ?st" "assignment_at line i = None"
      using in_template_eq [OF b assms(3)]
      by (auto simp: assign_step_def assignment_at_def Let_def split: option.split)
    then show ?thesis using b same assms(2) by simp
  qed
qed

text \<open>
  C29. The detector of assigned credentials answers what a detector without any memory answers, which
  reads every separator of the line on its own: the three kinds of memory only save time.
\<close>

theorem assignment_memory_is_exact:
  "assignment_spans line = List.map_filter (assignment_at line) [0..<length line]"
proof -
  let ?st = "\<lambda>n. foldl (assign_step line) \<lparr>as_last_close = None, as_last_open = None, as_ends = no_ends, as_spans = []\<rparr> [0..<n]"
  have "n \<le> length line \<Longrightarrow> brackets_at line (n - 1) (?st n) \<and> ends_ok line (as_ends (?st n)) \<and>
      as_spans (?st n) = List.map_filter (assignment_at line) [0..<n]" for n
  proof (induction n)
    case 0
    then show ?case by (simp add: brackets_at_def no_ends_def ends_ok_def memo_ok_def less_Suc_eq numeral_3_eq_3 all_conj_distrib)
  next
    case (Suc n)
    then show ?case using assign_step_eq [of line n "?st n"]
      by (auto simp: List.map_filter_def split: option.split)
  qed
  from this [of "length line"] show ?thesis by (simp add: assignment_spans_def)
qed

section \<open>What a detection is\<close>

text \<open>
  A span lies in the line and is longer than what the redaction keeps of it; the kept part is ASCII,
  so the code's byte slice is a slice at characters; and the character after it is not the ellipsis
  the redaction writes there.
\<close>

definition span_ok :: "str \<Rightarrow> span \<times> nat \<Rightarrow> bool" where
  "span_ok line x \<longleftrightarrow>
     (case x of ((a, b), k) \<Rightarrow>
        a + k < b \<and> b \<le> length line \<and> list_all (\<lambda>c. c < 128) (cut line a (a + k)) \<and>
        line ! (a + k) \<noteq> c_ellipsis)"

lemma span_ok_0: "span_ok line ((a, b), 0) \<longleftrightarrow> a < b \<and> b \<le> length line \<and> line ! a \<noteq> c_ellipsis"
  by (simp add: span_ok_def)

lemma ascii_chars:
  "is_alnum c \<Longrightarrow> c < 128" "is_key_char c \<Longrightarrow> c < 128" "in_run c \<Longrightarrow> c < 128" "auth_token_char c \<Longrightarrow> c < 128"
  by (auto simp: is_alnum_def is_alpha_def is_upper_def is_lower_def is_ascii_digit_def is_key_char_def
      in_run_def auth_token_char_def among_def)

definition shape_ok :: "secret_shape \<Rightarrow> bool" where
  "shape_ok p \<longleftrightarrow> sp_prefix p \<noteq> [] \<and> length (sp_prefix p) < sp_min_len p \<and> list_all (\<lambda>c. c < 128) (sp_prefix p)"

lemma shapes_ok: "list_all shape_ok SECRET_PATTERNS"
  by (simp add: SECRET_PATTERNS_def secret_pattern_def shape_ok_def)

lemma occurs_at_kept:
  "occurs_at p line a \<Longrightarrow> list_all (\<lambda>c. c < 128) p \<Longrightarrow> list_all (\<lambda>c. c < 128) (cut line a (a + length p))"
  by (simp add: occurs_at_def)

lemma pem_span_ok:
  assumes "occurs_at p line a" "list_all (\<lambda>c. c < 128) p" "pem_private_header_end line (a + length p) = Some e"
  shows "span_ok line ((a, e), length p)"
proof -
  let ?e = "run_from (\<lambda>c. \<not> (c = c_dash \<or> \<not> (c = c_space \<or> is_graphic c))) line (a + length p + 1)"
  obtain r where r: "drop (a + length p) line = c_space # r"
    using assms(3) by (auto simp: pem_private_header_end_def strip_prefix_Some_iff split: option.splits)
  then have lt: "a + length p < length line" by (metis drop_eq_Nil list.distinct(1) not_le)
  have e: "e = ?e + 5" "starts_with (lit ''-----'') (drop ?e line)"
    using assms(3) by (auto simp: pem_private_header_end_def Let_def split: option.splits if_splits)
  then obtain q where "drop ?e line = lit ''-----'' @ q" by (auto simp only: starts_with_iff)
  then have "length (drop ?e line) = 5 + length q" by (simp only: length_append length_lit) simp
  moreover have "a + length p + 1 \<le> ?e" by (rule run_from_ge)
  moreover have "line ! (a + length p) = c_space" using r by (simp add: nth_via_drop)
  ultimately show ?thesis using e(1) lt occurs_at_kept [OF assms(1,2)] by (simp add: span_ok_def)
qed

lemma length_trim_end: "length (trim_end_matches p s) \<le> length s"
  unfolding trim_end_matches_def by (metis length_dropWhile_le length_rev)

lemma span_step_ok:
  assumes "shape_ok p" "occurs_at (sp_prefix p) line a"
    "\<forall>s\<in>set (ss_spans st). span_ok line (s, length (sp_prefix p))"
    "\<forall>j. a \<le> j \<and> j < ss_token_end st \<longrightarrow> is_key_char (line ! j)" "ss_token_end st \<le> length line"
  shows "(\<forall>s\<in>set (ss_spans (span_step p line st a)). span_ok line (s, length (sp_prefix p))) \<and>
    (\<forall>j. a + length (sp_prefix p) \<le> j \<and> j < ss_token_end (span_step p line st a) \<longrightarrow> is_key_char (line ! j)) \<and>
    ss_token_end (span_step p line st a) \<le> length line"
proof -
  let ?n = "length (sp_prefix p)"
  define e where "e = token_end_at p line a (ss_token_end st)"
  have len: "a + ?n \<le> length line" using assms(2) by (rule occurs_at_length)
  have e: "e \<le> length line" "\<And>j. a + ?n \<le> j \<Longrightarrow> j < e \<Longrightarrow> is_key_char (line ! j)"
    using run_from_le [OF len] run_from_all [of "a + ?n" _ is_key_char line] assms(4,5)
    by (auto simp: e_def token_end_at_def split: if_splits)
  define token where "token = trim_end_matches (\<lambda>c. c = c_dot) (cut line a e)"
  have tok: "length token \<le> e - a" using length_trim_end [of "\<lambda>c. c = c_dot" "cut line a e"] e(1) by (simp add: token_def)
  have ok: "span_ok line ((a, a + length token), ?n)" if "accepts_token p token"
  proof -
    have n: "?n < length token" using that assms(1) by (simp add: accepts_token_def shape_ok_def)
    then have "is_key_char (line ! (a + ?n))" using tok by (intro e(2)) simp_all
    then have "line ! (a + ?n) \<noteq> c_ellipsis" using ascii_chars(2) by fastforce
    then show ?thesis using n tok e(1) occurs_at_kept [OF assms(2)] assms(1) by (simp add: span_ok_def shape_ok_def)
  qed
  show ?thesis
  proof (cases "a < ss_consumed st \<or> \<not> (sp_prefix p = PEM_PREFIX \<or> starts_a_token line a)")
    case True
    then show ?thesis using assms(3,4,5) by (simp add: span_step_def)
  next
    case False
    show ?thesis
    proof (cases "sp_prefix p = PEM_PREFIX")
      case True
      then show ?thesis using False assms pem_span_ok [OF assms(2)]
        by (auto simp: span_step_def found_span_def shape_ok_def split: option.split)
    next
      case False
      have "span_step p line st a = (let st' = st\<lparr>ss_token_end := e\<rparr> in
          if accepts_token p token then found_span (a, a + length token) st' else st')"
        using False \<open>\<not> (a < _ \<or> _)\<close> by (simp add: span_step_def e_def token_def Let_def)
      then show ?thesis using ok e assms(3) by (auto simp: found_span_def Let_def)
    qed
  qed
qed

lemma pattern_spans_ok:
  assumes "shape_ok p" "s \<in> set (pattern_spans p line)"
  shows "span_ok line (s, length (sp_prefix p))"
proof -
  let ?n = "length (sp_prefix p)"
  have p: "sp_prefix p \<noteq> []" using assms(1) by (simp add: shape_ok_def)
  have fold: "\<forall>s\<in>set (ss_spans (foldl (span_step p line) st xs)). span_ok line (s, ?n)"
    if "sorted_wrt (\<lambda>a b. a + ?n \<le> b) xs" "\<forall>a\<in>set xs. occurs_at (sp_prefix p) line a"
      "\<forall>s\<in>set (ss_spans st). span_ok line (s, ?n)"
      "\<forall>a\<in>set xs. \<forall>j. a \<le> j \<and> j < ss_token_end st \<longrightarrow> is_key_char (line ! j)" "ss_token_end st \<le> length line"
    for xs st
    using that
  proof (induction xs arbitrary: st)
    case (Cons a xs)
    note step = span_step_ok [OF assms(1), of line a st]
    have s: "(\<forall>s\<in>set (ss_spans (span_step p line st a)). span_ok line (s, ?n)) \<and>
        (\<forall>j. a + ?n \<le> j \<and> j < ss_token_end (span_step p line st a) \<longrightarrow> is_key_char (line ! j)) \<and>
        ss_token_end (span_step p line st a) \<le> length line"
      by (rule step) (use Cons.prems in auto)
    have "a + ?n \<le> b" if "b \<in> set xs" for b using that Cons.prems(1) by simp
    then have "\<forall>b\<in>set xs. \<forall>j. b \<le> j \<and> j < ss_token_end (span_step p line st a) \<longrightarrow> is_key_char (line ! j)"
      using s order_trans by blast
    then show ?case using Cons.IH [of "span_step p line st a"] s Cons.prems(1,2) by simp
  qed simp
  show ?thesis
    using fold [of "match_indices (sp_prefix p) line" "\<lparr>ss_token_end = 0, ss_consumed = 0, ss_spans = []\<rparr>"]
      assms(2) match_indices_sorted [OF p] match_indices_occurs [OF p]
    by (auto simp: pattern_spans_def)
qed

lemma jwt_in_run_ok:
  assumes "x \<in> set (jwt_in_run line a e)" "e = run_from in_run line a" "a \<le> length line"
  shows "span_ok line (x, 3)"
proof -
  let ?run = "cut line a e"
  have e: "e \<le> length line" "length ?run = e - a" using run_from_le [OF assms(3)] by (simp_all add: assms(2))
  obtain l where l1: "rfind_sub [c_dot] ?run = Some l"
    using assms(1) by (cases "rfind_sub [c_dot] ?run") (simp_all add: jwt_in_run_def)
  obtain m where l: "rfind_sub [c_dot] ?run = Some l" "rfind_sub [c_dot] (take l ?run) = Some m"
    using assms(1) l1 by (cases "rfind_sub [c_dot] (take l ?run)") (simp_all add: jwt_in_run_def)
  define first where "first = (case rfind_sub [c_dot] (take m ?run) of None \<Rightarrow> 0 | Some d \<Rightarrow> d + 1)"
  obtain at k where x: "x = (at, e)" "at = a + first + k" "k \<in> set (match_indices (lit ''eyJ'') (cut ?run first m))"
      "a + m - at \<ge> 10"
    using assms(1) l by (auto simp: jwt_in_run_def Let_def first_def [symmetric] split: if_splits simp del: lit_Cons)
  have m: "m < e - a" using rfind_char_Some [OF l(1)] rfind_char_Some [OF l(2)] e by simp
  have at: "at + 10 \<le> a + m" using x(4) by simp
  have run: "in_run (line ! j)" if "at \<le> j" "j \<le> at + 3" for j
    using run_from_all [of a j in_run line] that at m assms(2) x(2) by simp
  then have "\<forall>c\<in>set (cut line at (at + 3)). c < 128"
    using in_cut [of _ line at "at + 3"] ascii_chars(3) by fastforce
  moreover have "line ! (at + 3) \<noteq> c_ellipsis" using ascii_chars(3) [OF run [of "at + 3"]] by fastforce
  ultimately show ?thesis using x at m e by (simp add: span_ok_def list_all_iff)
qed

declare jwt_loop.simps [simp del] words_at.simps [simp del]

lemma jwt_spans_ok: "x \<in> set (jwt_spans line) \<Longrightarrow> span_ok line (x, 3)"
proof -
  have "x \<in> set (jwt_loop line i) \<Longrightarrow> span_ok line (x, 3)" for i
  proof (induction line i rule: jwt_loop.induct)
    case (1 line at)
    show ?case
    proof (cases "at < length line \<and> in_run (line ! at)")
      case True
      then show ?thesis using 1 jwt_in_run_ok [of x line at "run_from in_run line at"]
        by (auto simp: jwt_loop.simps [of line at] Let_def)
    next
      case False
      then show ?thesis using 1 by (auto simp: jwt_loop.simps [of line at] split: if_splits)
    qed
  qed
  then show "x \<in> set (jwt_spans line) \<Longrightarrow> span_ok line (x, 3)" by (simp add: jwt_spans_def)
qed

lemma decode_base64_Nil [simp]: "decode_base64 [] = None"
  by (simp add: decode_base64_def trim_end_matches_def)

lemma map_filter_mem: "y \<in> set (List.map_filter f xs) \<longleftrightarrow> (\<exists>x\<in>set xs. f x = Some y)"
  by (induction xs) (auto split: option.splits)

lemma auth_spans_ok: "x \<in> set (auth_scheme_spans line) \<Longrightarrow> span_ok line (x, 0)"
proof -
  assume "x \<in> set (auth_scheme_spans line)"
  then obtain scheme i where scheme: "scheme \<in> set AUTH_SCHEMES" "auth_span line scheme i = Some x"
    by (auto simp: auth_scheme_spans_def map_filter_mem)
  let ?s = "run_from is_whitespace line (i + length scheme)"
  let ?e = "run_from auth_token_char line ?s"
  have x: "x = (?s, ?e)" "auth_literal scheme (cut line ?s ?e)"
    using scheme by (auto simp: auth_span_def Let_def split: if_splits)
  have "cut line ?s ?e \<noteq> []" using x(2) by (auto simp: auth_literal_def split: if_splits)
  then have lt: "?s < ?e" using cut_Nil by (metis not_le)
  then have tok: "auth_token_char (line ! ?s)" "?s < length line"
    using run_from_all [of ?s ?s auth_token_char line] by simp_all
  have "?e \<le> length line" by (rule run_from_le [OF less_imp_le [OF tok(2)]])
  then show "span_ok line (x, 0)" using x lt tok ascii_chars(4) by (fastforce simp: span_ok_0)
qed

lemma url_spans_ok: "x \<in> set (url_password_spans line) \<Longrightarrow> span_ok line (x, 0)"
proof -
  assume "x \<in> set (url_password_spans line)"
  then obtain i where i: "url_password line i = Some x"
    by (auto simp: url_password_spans_def map_filter_mem)
  let ?a = "takeWhile (\<lambda>c. \<not> authority_end c) (drop (i + 3) line)"
  obtain sign colon where p: "rfind_sub [c_at] ?a = Some sign" "find_at (\<lambda>c. c = c_colon) (take sign ?a) = Some colon"
      "x = (i + 3 + colon + 1, i + 3 + colon + 1 + length (cut ?a (colon + 1) sign))"
      "cut ?a (colon + 1) sign \<noteq> []" "\<not> is_placeholder (cut ?a (colon + 1) sign)"
    using i by (auto simp: url_password_def Let_def split: option.splits if_splits)
  let ?p = "cut ?a (colon + 1) sign"
  have sign: "sign < length ?a" using rfind_char_Some [OF p(1)] by simp
  have len: "length ?p = sign - (colon + 1)" using sign by simp
  then have lt: "colon + 1 < sign" using p(4) by (metis cut_Nil not_le)
  have "c_ellipsis \<notin> set ?p" using p(5) by (simp add: is_placeholder_def)
  then have "hd ?p \<noteq> c_ellipsis" using hd_in_set [OF p(4)] by metis
  moreover have "hd ?p = line ! (i + 3 + colon + 1)"
  proof -
    have "hd ?p = ?a ! (colon + 1)" using p(4) nth_cut [of sign ?a "colon + 1" 0] sign lt by (simp add: hd_conv_nth)
    also have "\<dots> = drop (i + 3) line ! (colon + 1)" using sign lt by (intro takeWhile_nth) simp
    finally show ?thesis using sign lt length_takeWhile_le [of "\<lambda>c. \<not> authority_end c" "drop (i + 3) line"]
      by (simp add: add.assoc)
  qed
  moreover have "i + 3 + sign \<le> length line"
    using sign length_takeWhile_le [of "\<lambda>c. \<not> authority_end c" "drop (i + 3) line"] by simp
  ultimately show "span_ok line (x, 0)" using p(3) len lt by (simp add: span_ok_0)
qed

text \<open>A literal secret does not begin with the ellipsis.\<close>

lemma literal_secret_head: "is_literal_secret v q \<Longrightarrow> v \<noteq> [] \<and> hd v \<noteq> c_ellipsis"
proof -
  assume l: "is_literal_secret v q"
  then have n: "8 \<le> length (judged_prefix v)" "c_ellipsis \<notin> set (judged_prefix v)"
    by (auto simp: is_literal_secret_def Let_def MIN_LITERAL_LEN_def is_placeholder_def)
  have "judged_prefix v = [] \<or> hd (judged_prefix v) = hd v"
    by (cases v) (auto simp: judged_prefix_def)
  moreover have "judged_prefix v \<noteq> []" using n(1) by auto
  ultimately have "hd v \<noteq> c_ellipsis" using n(2) hd_in_set by metis
  moreover have "v \<noteq> []" using n(1) by (auto simp: judged_prefix_def)
  ultimately show ?thesis by blast
qed

lemma cut_hd: "b \<le> length s \<Longrightarrow> cut s a b \<noteq> [] \<Longrightarrow> a < b \<and> hd (cut s a b) = s ! a"
  using nth_cut [of b s a 0] by (metis add.right_neutral cut_Nil hd_conv_nth not_le)

lemma assignment_spans_ok: "x \<in> set (assignment_spans line) \<Longrightarrow> span_ok line (x, 0)"
proof -
  assume "x \<in> set (assignment_spans line)"
  then obtain i where "assignment_at line i = Some x"
    by (auto simp: assignment_memory_is_exact map_filter_mem)
  then obtain f where f: "literal_at line f = Some x" by (auto simp: assignment_at_def split: option.splits if_splits)
  let ?s = "run_from is_whitespace line f"
  have s: "?s < length line" using f by (auto simp: literal_at_def Let_def split: if_splits)
  show "span_ok line (x, 0)"
  proof (cases "line ! ?s \<in> set QUOTES")
    case True
    let ?c = "run_from (\<lambda>c. c \<noteq> line ! ?s) line (?s + 1)"
    have x: "x = (?s + 1, ?c)" "is_literal_secret (cut line (?s + 1) ?c) True"
      using f s True by (auto simp: literal_at_def Let_def split: if_splits)
    have "?c \<le> length line" by (rule run_from_le) (use s in simp)
    then show ?thesis using literal_secret_head [OF x(2)] cut_hd [of ?c line "?s + 1"] x(1) by (simp add: span_ok_0)
  next
    case False
    let ?e = "run_from (\<lambda>c. \<not> value_stop c) line ?s"
    have x: "x = (?s, comma_end line ?e)" "is_literal_secret (cut line ?s ?e) False"
      using f s False by (auto simp: literal_at_def Let_def split: if_splits)
    have "?e \<le> length line" by (rule run_from_le) (use s in simp)
    then show ?thesis using literal_secret_head [OF x(2)] cut_hd [of ?e line ?s] x(1) comma_end_bounds [of ?e line]
      by (auto simp: span_ok_0)
  qed
qed

lemma shell_scan_le: "shell_scan q i s \<le> i + length s"
  by (induction q i s rule: shell_scan.induct) (auto split: option.split intro: le_trans)

lemma judge_value_ok:
  assumes "x \<in> set (judge_value line client det word start0)"
  shows "span_ok line (x, 0)"
proof -
  let ?e = "shell_word_end line start0"
  define o' where "o' = (if client = Some (lit ''curl'') \<and> \<not> det
      then map_option (\<lambda>k. start0 + k + 1) (find_at (\<lambda>c. c = c_colon) (cut line start0 ?e)) else Some start0)"
  have "o' \<noteq> None"
  proof
    assume "o' = None"
    then show False using assms unfolding judge_value_def Let_def o'_def [symmetric] by simp
  qed
  then obtain start where o: "o' = Some start" by blast
  then have start: "start0 \<le> start" by (auto simp: o'_def split: if_splits)
  have x: "x = (start, ?e)" "cut line start ?e \<noteq> []"
      "is_literal_secret (filter (\<lambda>c. \<not> (c = c_quote \<or> c = c_apostrophe) \<and> \<not> is_whitespace c) (cut line start ?e))
         (c_quote \<in> set (cut line start ?e) \<or> c_apostrophe \<in> set (cut line start ?e))"
    using assms unfolding judge_value_def Let_def o'_def [symmetric] o by (simp_all split: if_splits)
  have "drop start line \<noteq> []" using x(2) by (auto simp: cut_def)
  then have "start0 \<le> length line" using start by (simp add: not_le)
  then have e: "?e \<le> length line" using shell_scan_le [of None start0 "drop start0 line"] by (simp add: shell_word_end_def)
  have "hd (cut line start ?e) \<noteq> c_ellipsis"
  proof
    assume h: "hd (cut line start ?e) = c_ellipsis"
    obtain r where "cut line start ?e = c_ellipsis # r" using x(2) h by (cases "cut line start ?e") auto
    then show False using literal_secret_head [OF x(3)] by (simp add: is_whitespace_def)
  qed
  then show ?thesis using x(1,2) cut_hd [OF e] e by (simp add: span_ok_0)
qed

lemma cli_loop_step:
  "\<exists>c' pre. cli_loop line netrc client (w # rest) = pre @ cli_loop line netrc c' rest \<and>
     (pre = [] \<or> (\<exists>det start. pre = judge_value line client det (snd w) start))"
proof -
  obtain at word where w: "w = (at, word)" by fastforce
  show ?thesis unfolding w cli_loop.simps Let_def snd_conv
    by (simp only: split: if_split option.split) blast
qed

lemma cli_loop_judged:
  "x \<in> set (cli_loop line netrc client ws) \<Longrightarrow> \<exists>c det word start. x \<in> set (judge_value line c det word start)"
proof (induction ws arbitrary: client)
  case (Cons w rest)
  then show ?case using cli_loop_step [of line netrc client w rest] by (metis Un_iff empty_iff empty_set set_append)
qed simp

lemma cli_spans_ok: "x \<in> set (cli_password_spans line) \<Longrightarrow> span_ok line (x, 0)"
  using cli_loop_judged judge_value_ok unfolding cli_password_spans_def Let_def by blast

lemma detections_ok: "(n, x) \<in> set (detections line) \<Longrightarrow> span_ok line x"
  using pattern_spans_ok shapes_ok jwt_spans_ok auth_spans_ok url_spans_ok cli_spans_ok assignment_spans_ok
  by (auto simp: detections_def CONTEXT_PATTERNS_def list_all_iff simp del: lit_Cons)

end
