(* ===== verification/Diff.thy ===== *)
theory Diff
  imports Utf8
begin

text \<open>
  The unified-diff parser of \<^verbatim>\<open>rust/dc-verify/src/lib.rs\<close>: \<open>parse_unified\<close> and everything it calls.
  The loop over the lines is a fallible machine on \<open>parse_state\<close>, one step per line, with the same
  order of tests as the source.
\<close>

section \<open>Data\<close>

datatype change_status = Added | Modified | Deleted | Renamed

record file_diff =
  fd_path :: str
  fd_old_path :: "str option"
  fd_status :: change_status
  fd_added_lines :: "(nat \<times> str) list"
  fd_removed_lines :: "str list"

definition added_line_numbers :: "file_diff \<Rightarrow> nat list" where
  "added_line_numbers f = map fst (fd_added_lines f)"

definition removed_count :: "file_diff \<Rightarrow> nat" where
  "removed_count f = (let n = length (fd_removed_lines f) in if n \<le> U32_MAX then n else U32_MAX)"

record parse_error =
  pe_line_number :: nat
  pe_line :: str
  pe_reason :: string

definition parse_err :: "nat \<Rightarrow> str \<Rightarrow> string \<Rightarrow> parse_error" where
  "parse_err n l r = \<lparr>pe_line_number = n, pe_line = l, pe_reason = r\<rparr>"

section \<open>Paths in headers\<close>

fun octal_digit :: "byte \<Rightarrow> bool" where
  "octal_digit b = (48 \<le> b \<and> b \<le> 55)"

definition octal_rest :: "byte list \<Rightarrow> byte list" where
  "octal_rest bs = takeWhile octal_digit (take 2 bs)"

definition octal_value :: "byte \<Rightarrow> byte list \<Rightarrow> nat" where
  "octal_value d bs = foldl (\<lambda>v b. v * 8 + (b - 48)) (d - 48) (octal_rest bs)"

text \<open>The loop of \<open>unquote_path\<close> over the bytes after the opening quote.\<close>

function unquote_bytes :: "byte list \<Rightarrow> byte list" where
  "unquote_bytes [] = []"
| "unquote_bytes (b # bs) =
     (if b = 34 then []
      else if b = 92 \<and> bs \<noteq> [] then
        (let e = hd bs; r = tl bs
         in if e = 97 then 7 # unquote_bytes r
            else if e = 98 then 8 # unquote_bytes r
            else if e = 102 then 12 # unquote_bytes r
            else if e = 110 then 10 # unquote_bytes r
            else if e = 114 then 13 # unquote_bytes r
            else if e = 116 then 9 # unquote_bytes r
            else if e = 118 then 11 # unquote_bytes r
            else if octal_digit e
            then (octal_value e r mod 256) # unquote_bytes (drop (length (octal_rest r)) r)
            else e # unquote_bytes r)
      else b # unquote_bytes bs)"
  by pat_completeness auto
termination
  by (relation "measure length") (auto simp: less_Suc_eq_le intro: le_less_trans)

declare unquote_bytes.simps(2) [simp del]

definition unquote_path :: "str \<Rightarrow> str" where
  "unquote_path raw0 =
     (let raw = trim_end_matches (\<lambda>c. c = c_cr) raw0
      in case strip_prefix [c_quote] raw of
           None \<Rightarrow> hd (split_on (\<lambda>c. c = c_tab) raw)
         | Some body \<Rightarrow> from_utf8_lossy (unquote_bytes (utf8_encode body)))"

fun quoted_end :: "byte list \<Rightarrow> nat \<Rightarrow> nat option" where
  "quoted_end [] i = None"
| "quoted_end (b # bs) i =
     (if b = 92 then (case bs of [] \<Rightarrow> None | _ # bs' \<Rightarrow> quoted_end bs' (i + 2))
      else if b = 34 then Some (i + 1)
      else quoted_end bs (i + 1))"

definition quoted_token_end :: "str \<Rightarrow> nat option" where
  "quoted_token_end s =
     (case utf8_encode s of
        [] \<Rightarrow> None
      | b # bs \<Rightarrow> if b \<noteq> 34 then None else quoted_end bs 1)"

definition strip_marker :: "str \<Rightarrow> str" where
  "strip_marker p =
     (case strip_prefix (lit ''a/'') p of
        Some rest \<Rightarrow> rest
      | None \<Rightarrow> (case strip_prefix (lit ''b/'') p of Some rest \<Rightarrow> rest | None \<Rightarrow> p))"

definition strip_prefix_marker :: "str \<Rightarrow> str" where
  "strip_prefix_marker p = strip_marker (unquote_path p)"

text \<open>The search for the quoted second name: each \<open> "\<close> in turn.\<close>

function find_quoted_tail :: "str \<Rightarrow> str option" where
  "find_quoted_tail s =
     (case find_sub [c_space, c_quote] s of
        None \<Rightarrow> None
      | Some at \<Rightarrow>
          (let r = drop (at + 1) s
           in if quoted_token_end r = Some (byte_len r) then Some r else find_quoted_tail r))"
  by pat_completeness auto
termination
proof (relation "measure length", goal_cases)
  case (2 s at r)
  then have "starts_with [c_space, c_quote] (drop at s)" by (simp add: find_sub_Some)
  then have "drop at s \<noteq> []" by (auto simp: starts_with_def)
  with 2 show ?case by auto
qed simp

declare find_quoted_tail.simps [simp del]

text \<open>\<open>a/P b/P\<close> with both names equal: five bytes of markers around two copies.\<close>

definition equal_halves :: "str \<Rightarrow> str option" where
  "equal_halves rest =
     (if byte_len rest < 5 then None
      else let inner = byte_len rest - 5
           in if inner mod 2 \<noteq> 0 then None
              else let half = inner div 2
                   in case byte_get 2 (2 + half) rest of
                        None \<Rightarrow> None
                      | Some name \<Rightarrow>
                          if starts_with (lit ''a/'') rest
                            \<and> byte_drop (2 + half) rest = Some (lit '' b/'' @ name)
                          then Some name else None)"

definition git_header_path :: "str \<Rightarrow> str option" where
  "git_header_path rest =
     (case quoted_token_end rest of
        Some e \<Rightarrow>
          (case byte_drop e rest of
             None \<Rightarrow> None
           | Some tail \<Rightarrow>
               map_option (\<lambda>second. strip_marker (unquote_path second)) (strip_prefix [c_space] tail))
      | None \<Rightarrow>
          if ends_with [c_quote] rest
          then map_option (\<lambda>r. strip_marker (unquote_path r)) (find_quoted_tail rest)
          else (case equal_halves rest of
                  Some name \<Rightarrow> Some name
                | None \<Rightarrow>
                    (case rfind_sub (lit '' b/'') rest of
                       Some pos \<Rightarrow> Some (drop (pos + 3) rest)
                     | None \<Rightarrow>
                         (case split_whitespace rest of
                            _ # b # _ \<Rightarrow> Some (strip_marker b)
                          | _ \<Rightarrow> None))))"

section \<open>Hunk headers\<close>

definition MAX_HUNK_VALUE :: nat where "MAX_HUNK_VALUE = 1000000000"

record hunk =
  h_new_start :: nat
  h_new_count :: nat
  h_old_count :: nat

definition split_range :: "str \<Rightarrow> (nat \<times> nat) option" where
  "split_range spec =
     (let parsed =
        (case split_once c_comma spec of
           Some (start, cnt) \<Rightarrow>
             (case parse_u32 start of
                None \<Rightarrow> None
              | Some a \<Rightarrow> (case parse_u32 cnt of None \<Rightarrow> None | Some b \<Rightarrow> Some (a, b)))
         | None \<Rightarrow> map_option (\<lambda>a. (a, 1)) (parse_u32 spec))
      in case parsed of
           None \<Rightarrow> None
         | Some (start, cnt) \<Rightarrow>
             if start > MAX_HUNK_VALUE \<or> cnt > MAX_HUNK_VALUE then None
             else Some (start, cnt))"

definition parse_hunk_header :: "str \<Rightarrow> hunk option" where
  "parse_hunk_header line =
     (case strip_prefix (lit ''@@'') line of
        None \<Rightarrow> None
      | Some body \<Rightarrow>
          (case find_sub (lit ''@@'') body of
             None \<Rightarrow> None
           | Some e \<Rightarrow>
               (case split_whitespace (take e body) of
                  p # q # _ \<Rightarrow>
                    (case (strip_prefix [c_dash] p, strip_prefix [c_plus] q) of
                       (Some old, Some new) \<Rightarrow>
                         (case (split_range old, split_range new) of
                            (Some (_, old_count), Some (new_start, new_count)) \<Rightarrow>
                              Some \<lparr>h_new_start = new_start, h_new_count = new_count,
                                     h_old_count = old_count\<rparr>
                          | _ \<Rightarrow> None)
                     | _ \<Rightarrow> None)
                | _ \<Rightarrow> None)))"

definition bump_line :: "nat \<Rightarrow> nat \<Rightarrow> str \<Rightarrow> parse_error + nat" where
  "bump_line line lineno raw =
     (if line + 1 \<le> U32_MAX then Inr (line + 1)
      else Inl (parse_err lineno raw ''line number overflowed while walking the hunk''))"

section \<open>The loop\<close>

record parse_state =
  ps_files :: "file_diff list"
  ps_current :: "file_diff option"
  ps_new_line :: nat
  ps_new_remaining :: nat
  ps_old_remaining :: nat
  ps_in_hunk :: bool
  ps_rename_from :: "str option"
  ps_prev_hunk_end :: nat
  ps_saw_content :: bool

definition init_state :: parse_state where
  "init_state = \<lparr>ps_files = [], ps_current = None, ps_new_line = 0, ps_new_remaining = 0,
     ps_old_remaining = 0, ps_in_hunk = False, ps_rename_from = None, ps_prev_hunk_end = 0,
     ps_saw_content = False\<rparr>"

definition finish_hunk :: "parse_state \<Rightarrow> nat \<Rightarrow> parse_error + unit" where
  "finish_hunk st lineno =
     guard (ps_new_remaining st = 0 \<and> ps_old_remaining st = 0)
       (parse_err lineno [] ''hunk ended before its declared line count'')"

definition push_current :: "parse_state \<Rightarrow> file_diff list" where
  "push_current st = ps_files st @ (case ps_current st of None \<Rightarrow> [] | Some f \<Rightarrow> [f])"

definition file_header :: "parse_state \<Rightarrow> nat \<Rightarrow> str \<Rightarrow> str \<Rightarrow> parse_error + parse_state" where
  "file_header st lineno raw rest =
     rbind (finish_hunk st (lineno - 1)) (\<lambda>_.
       case git_header_path rest of
         None \<Rightarrow> Inl (parse_err lineno raw ''unreadable `diff --git` header'')
       | Some p \<Rightarrow>
           Inr (st\<lparr>ps_in_hunk := False, ps_files := push_current st, ps_rename_from := None,
                   ps_prev_hunk_end := 0,
                   ps_current := Some \<lparr>fd_path = p, fd_old_path = None, fd_status = Modified,
                                       fd_added_lines = [], fd_removed_lines = []\<rparr>\<rparr>))"

text \<open>The extended header lines, read outside a hunk; \<open>None\<close> when the line is none of them.\<close>

definition meta_line :: "parse_state \<Rightarrow> file_diff \<Rightarrow> str \<Rightarrow> parse_state option" where
  "meta_line st file raw =
     (let set_file = (\<lambda>f. Some (st\<lparr>ps_current := Some f\<rparr>))
      in case strip_prefix (lit ''rename from '') raw of
           Some rest \<Rightarrow> Some (st\<lparr>ps_rename_from := Some (unquote_path rest)\<rparr>)
         | None \<Rightarrow>
      (case strip_prefix (lit ''rename to '') raw of
           Some rest \<Rightarrow>
             Some (st\<lparr>ps_current := Some (file\<lparr>fd_status := Renamed, fd_old_path := ps_rename_from st,
                                              fd_path := unquote_path rest\<rparr>),
                     ps_rename_from := None\<rparr>)
         | None \<Rightarrow>
       if starts_with (lit ''copy from '') raw then Some st
       else
      (case strip_prefix (lit ''copy to '') raw of
           Some rest \<Rightarrow> set_file (file\<lparr>fd_path := unquote_path rest\<rparr>)
         | None \<Rightarrow>
       if starts_with (lit ''new file mode'') raw then set_file (file\<lparr>fd_status := Added\<rparr>)
       else if starts_with (lit ''deleted file mode'') raw then set_file (file\<lparr>fd_status := Deleted\<rparr>)
       else
      (case strip_prefix (lit ''--- '') raw of
           Some rest \<Rightarrow>
             if rest = lit ''/dev/null'' then set_file (file\<lparr>fd_status := Added\<rparr>) else Some st
         | None \<Rightarrow>
      (case strip_prefix (lit ''+++ '') raw of
           Some rest \<Rightarrow>
             if rest = lit ''/dev/null'' then set_file (file\<lparr>fd_status := Deleted\<rparr>)
             else set_file (file\<lparr>fd_path := strip_prefix_marker rest\<rparr>)
         | None \<Rightarrow> None)))))"

definition hunk_line :: "parse_state \<Rightarrow> nat \<Rightarrow> str \<Rightarrow> parse_error + parse_state" where
  "hunk_line st lineno raw =
     rbind (finish_hunk st (lineno - 1)) (\<lambda>_.
       case parse_hunk_header raw of
         None \<Rightarrow> Inl (parse_err lineno raw ''malformed hunk header'')
       | Some h \<Rightarrow>
           if h_new_start h < ps_prev_hunk_end st
           then Inl (parse_err lineno raw ''hunk overlaps the previous hunk of the same file'')
           else Inr (st\<lparr>ps_prev_hunk_end := h_new_start h + h_new_count h,
                       ps_new_line := h_new_start h, ps_new_remaining := h_new_count h,
                       ps_old_remaining := h_old_count h, ps_in_hunk := True\<rparr>))"

definition context_line :: "parse_state \<Rightarrow> nat \<Rightarrow> str \<Rightarrow> parse_error + parse_state" where
  "context_line st lineno raw =
     (if ps_new_remaining st = 0 \<or> ps_old_remaining st = 0
      then Inl (parse_err lineno raw ''context line beyond the counts the hunk header declared'')
      else rbind (bump_line (ps_new_line st) lineno raw) (\<lambda>n.
             Inr (st\<lparr>ps_new_line := n, ps_new_remaining := ps_new_remaining st - 1,
                     ps_old_remaining := ps_old_remaining st - 1\<rparr>)))"

definition body_line :: "parse_state \<Rightarrow> file_diff \<Rightarrow> nat \<Rightarrow> str \<Rightarrow> parse_error + parse_state" where
  "body_line st file lineno raw =
     (case raw of
        [] \<Rightarrow> context_line st lineno raw
      | c # content \<Rightarrow>
          if c = c_plus then
            (if ps_new_remaining st = 0
             then Inl (parse_err lineno raw ''body line beyond the count the hunk header declared'')
             else rbind (bump_line (ps_new_line st) lineno raw) (\<lambda>bumped.
               Inr (st\<lparr>ps_current := Some (file\<lparr>fd_added_lines :=
                         fd_added_lines file @ [(ps_new_line st, content)]\<rparr>),
                       ps_new_line := bumped, ps_new_remaining := ps_new_remaining st - 1\<rparr>)))
          else if c = c_dash then
            (if ps_old_remaining st = 0
             then Inl (parse_err lineno raw ''body line beyond the count the hunk header declared'')
             else Inr (st\<lparr>ps_current := Some (file\<lparr>fd_removed_lines :=
                         fd_removed_lines file @ [content]\<rparr>),
                       ps_old_remaining := ps_old_remaining st - 1\<rparr>))
          else if c = c_space then context_line st lineno raw
          else if c = c_backslash then Inr st
          else Inl (parse_err lineno raw ''unrecognised line inside a hunk''))"

text \<open>One turn of the loop of \<open>parse_unified\<close>.\<close>

definition parse_line :: "parse_state \<Rightarrow> nat \<times> str \<Rightarrow> parse_error + parse_state" where
  "parse_line st = (\<lambda>(lineno, raw).
     case strip_prefix (lit ''diff --git '') raw of
       Some rest \<Rightarrow> file_header st lineno raw rest
     | None \<Rightarrow>
         (case ps_current st of
            None \<Rightarrow> Inr (if trim raw \<noteq> [] then st\<lparr>ps_saw_content := True\<rparr> else st)
          | Some file \<Rightarrow>
              (case (if ps_in_hunk st then None else meta_line st file raw) of
                 Some st' \<Rightarrow> Inr st'
               | None \<Rightarrow>
                   if starts_with (lit ''@@'') raw then hunk_line st lineno raw
                   else if \<not> ps_in_hunk st then Inr st
                   else body_line st file lineno raw)))"

section \<open>What a whole diff must satisfy\<close>

definition changed_paths_of :: "file_diff \<Rightarrow> str list" where
  "changed_paths_of file =
     fd_path file # (case (fd_status file, fd_old_path file) of
                       (Renamed, Some old) \<Rightarrow> if old \<noteq> fd_path file then [old] else []
                     | _ \<Rightarrow> [])"

definition changed_paths :: "file_diff list \<Rightarrow> str list" where
  "changed_paths files = concat (map changed_paths_of files)"

fun first_repeat :: "str list \<Rightarrow> str list \<Rightarrow> str option" where
  "first_repeat seen [] = None"
| "first_repeat seen (p # ps) = (if p \<in> set seen then Some p else first_repeat (p # seen) ps)"

definition reject_impossible :: "file_diff list \<Rightarrow> parse_error + unit" where
  "reject_impossible files =
     (case find (\<lambda>f. fd_status f = Deleted \<and> fd_added_lines f \<noteq> []) files of
        Some f \<Rightarrow> Inl (parse_err 0 (fd_path f) ''a deleted file carries added lines'')
      | None \<Rightarrow>
          (case first_repeat [] (changed_paths files) of
             Some p \<Rightarrow> Inl (parse_err 0 p ''one path appears more than once in the diff'')
           | None \<Rightarrow> Inr ()))"

definition numbered :: "str list \<Rightarrow> (nat \<times> str) list" where
  "numbered ls = zip [1..<Suc (length ls)] ls"

definition parse_unified :: "str \<Rightarrow> parse_error + file_diff list" where
  "parse_unified diff =
     rbind (try_fold parse_line init_state (numbered (str_lines diff))) (\<lambda>st.
     rbind (finish_hunk st (length (str_lines diff))) (\<lambda>_.
       let files = push_current st
       in rbind (reject_impossible files) (\<lambda>_.
            if files = [] \<and> ps_saw_content st
            then Inl (parse_err 1 (case str_lines diff of [] \<Rightarrow> [] | l # _ \<Rightarrow> l)
              ''input contains content but no `diff --git` header; this is not a unified diff'')
            else Inr files)))"

section \<open>The invariant of the loop\<close>

text \<open>
  Inside a hunk the next line number and what the hunk still owes add up to the declared end of
  the hunk, which two header values bound; every number already recorded lies below the next one.
\<close>

definition MAX_LINE :: nat where "MAX_LINE = 2 * MAX_HUNK_VALUE"

definition numbers_below :: "nat \<Rightarrow> file_diff \<Rightarrow> bool" where
  "numbers_below b f = (sorted_wrt (<) (added_line_numbers f) \<and> (\<forall>n\<in>set (added_line_numbers f). n < b))"

definition position_inv :: "parse_state \<Rightarrow> bool" where
  "position_inv st =
     (if ps_in_hunk st
      then ps_new_line st + ps_new_remaining st = ps_prev_hunk_end st \<and> ps_prev_hunk_end st \<le> MAX_LINE
      else ps_new_remaining st = 0 \<and> ps_old_remaining st = 0 \<and> ps_prev_hunk_end st = 0)"

definition current_inv :: "parse_state \<Rightarrow> bool" where
  "current_inv st =
     (case ps_current st of
        None \<Rightarrow> \<not> ps_in_hunk st \<and> ps_files st = []
      | Some f \<Rightarrow> if ps_in_hunk st then numbers_below (ps_new_line st) f else fd_added_lines f = [])"

definition parse_inv :: "parse_state \<Rightarrow> bool" where
  "parse_inv st = (position_inv st \<and> current_inv st \<and> list_all (numbers_below MAX_LINE) (ps_files st))"

lemmas parse_inv_defs = parse_inv_def position_inv_def current_inv_def

lemma parse_inv_init: "parse_inv init_state"
  by (simp add: parse_inv_defs init_state_def)

lemma numbers_below_mono: "numbers_below a f \<Longrightarrow> a \<le> b \<Longrightarrow> numbers_below b f"
  by (auto simp: numbers_below_def)

lemma numbers_below_empty [simp]: "fd_added_lines f = [] \<Longrightarrow> numbers_below b f"
  by (simp add: numbers_below_def added_line_numbers_def)

lemma numbers_below_push:
  "numbers_below n f \<Longrightarrow>
   numbers_below (Suc n) (f\<lparr>fd_added_lines := fd_added_lines f @ [(n, c)]\<rparr>)"
  by (auto simp: numbers_below_def added_line_numbers_def sorted_wrt_append less_Suc_eq)

lemma numbers_below_other [simp]:
  "numbers_below b (f\<lparr>fd_removed_lines := r\<rparr>) = numbers_below b f"
  by (simp add: numbers_below_def added_line_numbers_def)

lemma split_range_le:
  "split_range s = Some (a, b) \<Longrightarrow> a \<le> MAX_HUNK_VALUE \<and> b \<le> MAX_HUNK_VALUE"
  by (auto simp: split_range_def Let_def split: option.splits if_splits)

lemma parse_hunk_header_le:
  "parse_hunk_header l = Some h \<Longrightarrow> h_new_start h + h_new_count h \<le> MAX_LINE"
  by (auto simp: parse_hunk_header_def MAX_LINE_def dest!: split_range_le
      split: option.splits list.splits prod.splits)

lemma finish_hunk_Inr [simp]:
  "finish_hunk st n = Inr u \<longleftrightarrow> ps_new_remaining st = 0 \<and> ps_old_remaining st = 0"
  by (simp add: finish_hunk_def)

lemma push_current_inv: "parse_inv st \<Longrightarrow> list_all (numbers_below MAX_LINE) (push_current st)"
  by (auto simp: parse_inv_defs push_current_def split: option.splits if_splits
      elim: numbers_below_mono)

lemma file_header_inv:
  "parse_inv st \<Longrightarrow> file_header st n raw rest = Inr st' \<Longrightarrow> parse_inv st'"
  using push_current_inv [of st]
  by (auto simp: file_header_def rbind_Inr_iff parse_inv_defs split: option.splits)

lemma meta_line_inv:
  assumes "parse_inv st" "ps_current st = Some f" "\<not> ps_in_hunk st" "meta_line st f raw = Some st'"
  shows "parse_inv st'"
  using assms
  by (auto simp: meta_line_def Let_def parse_inv_defs split: option.splits if_splits)

lemma hunk_line_inv:
  assumes "parse_inv st" "ps_current st \<noteq> None" "hunk_line st n raw = Inr st'"
  shows "parse_inv st'"
  using assms
  by (auto simp: hunk_line_def rbind_Inr_iff parse_inv_defs parse_hunk_header_le
      split: option.splits if_splits elim!: numbers_below_mono)

lemma bump_line_Inr: "bump_line l n raw = Inr m \<Longrightarrow> m = Suc l"
  by (simp add: bump_line_def split: if_splits)

lemma context_line_inv:
  assumes "parse_inv st" "ps_in_hunk st" "context_line st n raw = Inr st'"
  shows "parse_inv st'"
  using assms
  by (auto simp: context_line_def rbind_Inr_iff parse_inv_defs dest!: bump_line_Inr
      split: option.splits if_splits elim!: numbers_below_mono)

lemma body_line_inv:
  assumes "parse_inv st" "ps_current st = Some f" "ps_in_hunk st" "body_line st f n raw = Inr st'"
  shows "parse_inv st'"
proof (cases raw)
  case Nil
  with assms show ?thesis by (auto simp: body_line_def elim: context_line_inv)
next
  case (Cons c content)
  consider "c = c_plus" | "c = c_dash" | "c = c_space" | "c = c_backslash"
    using assms(4) Cons by (auto simp: body_line_def split: if_splits)
  then show ?thesis
  proof cases
    case 1
    with assms Cons show ?thesis
      by (auto simp: body_line_def rbind_Inr_iff parse_inv_defs numbers_below_push
          dest!: bump_line_Inr split: if_splits)
  next
    case 2
    with assms Cons show ?thesis
      by (auto simp: body_line_def parse_inv_defs split: if_splits)
  next
    case 3
    with assms Cons show ?thesis by (auto simp: body_line_def elim: context_line_inv)
  next
    case 4
    with assms Cons show ?thesis by (simp add: body_line_def)
  qed
qed

lemma parse_line_inv: "parse_inv st \<Longrightarrow> parse_line st x = Inr st' \<Longrightarrow> parse_inv st'"
proof (cases x)
  case (Pair n raw)
  assume inv: "parse_inv st" and step: "parse_line st x = Inr st'"
  show ?thesis
  proof (cases "strip_prefix (lit ''diff --git '') raw")
    case (Some rest)
    with step Pair inv show ?thesis by (auto simp: parse_line_def intro: file_header_inv)
  next
    case None
    note np = None
    show ?thesis
    proof (cases "ps_current st")
      case None
      with np step Pair inv show ?thesis
        by (auto simp: parse_line_def parse_inv_defs split: if_splits)
    next
      case (Some f)
      with np step Pair inv show ?thesis
        by (auto simp: parse_line_def intro: hunk_line_inv body_line_inv meta_line_inv split: if_splits option.splits)
    qed
  qed
qed

lemma U32_room: "n \<le> MAX_LINE \<Longrightarrow> Suc n \<le> U32_MAX"
  by (simp add: MAX_LINE_def MAX_HUNK_VALUE_def U32_MAX_def)

definition is_overflow :: "parse_error \<Rightarrow> bool" where
  "is_overflow e = (pe_reason e = ''line number overflowed while walking the hunk'')"

lemma is_overflow_parse_err [simp]:
  "is_overflow (parse_err n l r) \<longleftrightarrow> r = ''line number overflowed while walking the hunk''"
  by (simp add: is_overflow_def parse_err_def)

lemma bump_line_room: "n \<le> MAX_LINE \<Longrightarrow> bump_line n k raw = Inr (Suc n)"
  by (simp add: bump_line_def U32_room)

lemma bump_line_inv:
  "parse_inv st \<Longrightarrow> ps_in_hunk st \<Longrightarrow>
   bump_line (ps_new_line st) k raw = Inr (Suc (ps_new_line st))"
  by (rule bump_line_room) (auto simp: parse_inv_defs)

lemma finish_hunk_err: "finish_hunk st n = Inl e \<Longrightarrow> \<not> is_overflow e"
  by (auto simp: finish_hunk_def guard_def split: if_splits)

lemma body_line_err:
  "parse_inv st \<Longrightarrow> ps_in_hunk st \<Longrightarrow> body_line st f n raw = Inl e \<Longrightarrow> \<not> is_overflow e"
  by (auto simp: body_line_def context_line_def bump_line_inv split: list.splits if_splits)

lemma header_err:
  "file_header st n raw rest = Inl e \<Longrightarrow> \<not> is_overflow e"
  "hunk_line st n raw = Inl e \<Longrightarrow> \<not> is_overflow e"
  by (auto simp: file_header_def hunk_line_def rbind_def finish_hunk_err
      split: sum.splits option.splits if_splits)

lemma parse_line_err:
  assumes "parse_inv st" and "parse_line st x = Inl e"
  shows "\<not> is_overflow e"
  using assms
  by (auto simp: parse_line_def header_err body_line_err split: prod.splits option.splits if_splits)

interpretation parser: fallible_machine parse_line parse_inv "\<lambda>e. \<not> is_overflow e"
  by unfold_locales (blast intro: parse_line_inv dest: parse_line_err)+

lemma parse_unified_Inr:
  assumes "parse_unified diff = Inr files"
  obtains st where "try_fold parse_line init_state (numbered (str_lines diff)) = Inr st"
    "parse_inv st" "files = push_current st" "reject_impossible files = Inr ()"
    "files = [] \<Longrightarrow> \<not> ps_saw_content st"
    "ps_new_remaining st = 0" "ps_old_remaining st = 0"
  using assms parser.run_inv [OF parse_inv_init]
  by (auto simp: parse_unified_def rbind_Inr_iff Let_def split: if_splits)

text \<open>
  Of an accepted diff, each file's added lines carry strictly increasing numbers below twice
  the ceiling on hunk values, so no number is repeated and none has wrapped.
\<close>

theorem added_lines_ordered:
  assumes "parse_unified diff = Inr files" and "f \<in> set files"
  shows "sorted_wrt (<) (added_line_numbers f) \<and> (\<forall>n\<in>set (added_line_numbers f). n < 2000000000)"
proof -
  obtain st where "parse_inv st" "files = push_current st"
    using parse_unified_Inr [OF assms(1)] by blast
  then have "numbers_below MAX_LINE f"
    using push_current_inv assms(2) by (auto simp: list_all_iff)
  then show ?thesis by (simp add: numbers_below_def MAX_LINE_def MAX_HUNK_VALUE_def)
qed

lemma reject_impossible_err: "reject_impossible fs = Inl e \<Longrightarrow> \<not> is_overflow e"
  by (auto simp: reject_impossible_def split: option.splits)

lemma parse_unified_err: "parse_unified diff = Inl e \<Longrightarrow> \<not> is_overflow e"
  using parser.run_err [OF parse_inv_init]
  by (auto simp: parse_unified_def rbind_def Let_def finish_hunk_err reject_impossible_err
      split: sum.splits if_splits)

text \<open>
  The line counter never overflows: with the ceiling on hunk values the parser never returns
  the overflow error, whatever the input.
\<close>

theorem parse_unified_no_overflow:
  "parse_unified diff \<noteq> Inl (parse_err n l ''line number overflowed while walking the hunk'')"
proof
  assume "parse_unified diff = Inl (parse_err n l ''line number overflowed while walking the hunk'')"
  from parse_unified_err [OF this] show False by simp
qed

lemma first_repeat_None: "first_repeat seen ps = None \<longleftrightarrow> distinct ps \<and> set ps \<inter> set seen = {}"
  by (induction ps arbitrary: seen) auto

lemma reject_impossible_Inr:
  "reject_impossible fs = Inr () \<longleftrightarrow>
   distinct (changed_paths fs) \<and> (\<forall>f\<in>set fs. fd_status f = Deleted \<longrightarrow> fd_added_lines f = [])"
proof -
  have "find (\<lambda>f. fd_status f = Deleted \<and> fd_added_lines f \<noteq> []) fs = None \<longleftrightarrow>
      (\<forall>f\<in>set fs. fd_status f = Deleted \<longrightarrow> fd_added_lines f = [])"
    by (auto simp: find_None_iff)
  moreover have "first_repeat [] (changed_paths fs) = None \<longleftrightarrow> distinct (changed_paths fs)"
    by (simp add: first_repeat_None)
  ultimately show ?thesis by (auto simp: reject_impossible_def split: option.splits)
qed

lemma parse_unified_paths:
  assumes "parse_unified diff = Inr files"
  shows "distinct (changed_paths files) \<and>
    (\<forall>f\<in>set files. fd_status f = Deleted \<longrightarrow> fd_added_lines f = [])"
proof -
  from parse_unified_Inr [OF assms] have "reject_impossible files = Inr ()" by blast
  then show ?thesis by (rule reject_impossible_Inr [THEN iffD1])
qed

text \<open>
  An accepted diff names every changed path once, rename sources included, and no deleted file
  carries added lines.
\<close>

theorem changed_paths_distinct:
  assumes "parse_unified diff = Inr files"
  shows "distinct (changed_paths files) \<and>
    list_all (\<lambda>f. fd_status f = Deleted \<longrightarrow> fd_added_lines f = []) files"
  using parse_unified_paths [OF assms] by (simp add: list_all_iff)

section \<open>Input that is not a diff\<close>

lemma parse_line_current:
  "parse_line st x = Inr st' \<Longrightarrow> ps_current st' = None \<Longrightarrow> ps_current st = None"
  by (auto simp: parse_line_def file_header_def hunk_line_def body_line_def context_line_def
      meta_line_def Let_def rbind_Inr_iff split: prod.splits option.splits if_splits list.splits)

lemma parse_line_preamble:
  "parse_line st (n, raw) = Inr st' \<Longrightarrow> ps_current st' = None \<Longrightarrow>
   ps_saw_content st' = (ps_saw_content st \<or> trim raw \<noteq> [])"
  using parse_line_current [of st "(n, raw)" st']
  by (auto simp: parse_line_def file_header_def rbind_Inr_iff split: option.splits if_splits)

lemma run_preamble:
  "try_fold parse_line st xs = Inr st' \<Longrightarrow> ps_current st' = None \<Longrightarrow>
   ps_current st = None \<and>
   ps_saw_content st' = (ps_saw_content st \<or> (\<exists>l\<in>set (map snd xs). trim l \<noteq> []))"
proof (induction xs arbitrary: st)
  case Nil
  then show ?case by simp
next
  case (Cons x xs)
  then obtain s where s: "parse_line st x = Inr s" "try_fold parse_line s xs = Inr st'"
    by (auto split: sum.splits)
  with Cons.IH Cons.prems(2) have "ps_current s = None" by blast
  with Cons.IH [OF s(2) Cons.prems(2)] s(1) show ?case
    by (cases x) (auto dest: parse_line_current simp: parse_line_preamble)
qed

lemma blank_not_header: "trim l = [] \<Longrightarrow> strip_prefix (lit ''diff --git '') l = None"
  by (auto simp: trim_Nil_iff strip_prefix_None_iff prefix_def is_whitespace_def)

lemma run_blank:
  "ps_current st = None \<Longrightarrow> \<forall>l\<in>set (map snd xs). trim l = [] \<Longrightarrow>
   try_fold parse_line st xs = Inr st"
  by (induction xs) (auto simp: parse_line_def blank_not_header simp del: lit_Cons)

lemma map_snd_numbered [simp]: "map snd (numbered ls) = ls"
  by (simp add: numbered_def del: upt_Suc)

text \<open>
  The parser reports that nothing changed exactly for input whose lines are all blank: content
  without a file header is an error, never an empty diff.
\<close>

theorem parse_unified_empty:
  "parse_unified diff = Inr [] \<longleftrightarrow> list_all (\<lambda>l. trim l = []) (str_lines diff)"
  unfolding list_all_iff
proof
  assume "parse_unified diff = Inr []"
  from parse_unified_Inr [OF this] obtain st where
    st: "try_fold parse_line init_state (numbered (str_lines diff)) = Inr st"
      "[] = push_current st" "\<not> ps_saw_content st" by metis
  then have "ps_current st = None" by (auto simp: push_current_def split: option.splits)
  from run_preamble [OF st(1) this] st(3) show "\<forall>l\<in>set (str_lines diff). trim l = []"
    by simp
next
  assume "\<forall>l\<in>set (str_lines diff). trim l = []"
  then have "try_fold parse_line init_state (numbered (str_lines diff)) = Inr init_state"
    by (intro run_blank) (simp_all add: init_state_def)
  then show "parse_unified diff = Inr []"
    by (simp add: parse_unified_def finish_hunk_def push_current_def reject_impossible_def
        changed_paths_def init_state_def guard_def)
qed

end
