(* ===== verification/Secret_Gate.thy ===== *)
theory Secret_Gate
  imports Vendor_Keys Diff
begin

text \<open>
  The secret gate of \<open>dc-verify/src/rigor.rs\<close>: \<open>scan_secrets\<close> over the added lines of a parsed diff, and
  \<open>safe_evidence\<close>, through which the other gates quote. The lemmas compose it with the detectors: what
  it blocks on, and what its findings can show.
\<close>

section \<open>Findings\<close>

datatype severity = Blocking | Advisory
datatype strength = Proven | Observed | Derived

definition strength_as_str :: "strength \<Rightarrow> str" where
  "strength_as_str s =
     (case s of Proven \<Rightarrow> lit ''proven'' | Observed \<Rightarrow> lit ''observed'' | Derived \<Rightarrow> lit ''derived'')"

record finding =
  fi_gate :: str
  fi_severity :: severity
  fi_strength :: strength
  fi_path :: str
  fi_line :: nat
  fi_evidence :: str
  fi_message :: str

definition secret_finding :: "str \<Rightarrow> nat \<Rightarrow> secret_match \<Rightarrow> finding" where
  "secret_finding path line_no secret =
     \<lparr>fi_gate = lit ''secret_scan'', fi_severity = Blocking, fi_strength = Derived, fi_path = path,
      fi_line = line_no, fi_evidence = sm_redacted secret,
      fi_message = lit ''added line contains what looks like a '' @ sm_name secret @
        lit ''; a credential in a commit is compromised even after it is deleted, because the object stays in history''\<rparr>"

definition scan_file :: "file_diff \<Rightarrow> finding list" where
  "scan_file f =
     List.map_filter (\<lambda>(line_no, content). map_option (secret_finding (fd_path f) line_no) (find_secret content))
       (fd_added_lines f)"

definition scan_secrets :: "file_diff list \<Rightarrow> finding list" where
  "scan_secrets files = concat (map scan_file files)"

definition truncate :: "str \<Rightarrow> nat \<Rightarrow> str" where
  "truncate s n = (if length s \<le> n then s else take n s @ [c_ellipsis])"

definition safe_evidence :: "str \<Rightarrow> str" where
  "safe_evidence line =
     (let trimmed = trim line in
      case find_secret trimmed of
        Some secret \<Rightarrow> lit ''<contains a '' @ sm_name secret @ lit ''; quoted text withheld>''
      | None \<Rightarrow> truncate trimmed 120)"

section \<open>What the gate blocks on\<close>

lemma find_secret_Some:
  "find_secret line = Some m \<longleftrightarrow>
     (\<exists>n a b k r. detections line = (n, (a, b), k) # r \<and> m = \<lparr>sm_name = n, sm_redacted = redact (cut line a b) k\<rparr>)"
  by (auto simp: find_secret_def split: list.split)

lemma find_secret_None: "find_secret line = None \<longleftrightarrow> detections line = []"
  by (auto simp: find_secret_def split: list.split)

lemma in_scan_secrets:
  "f \<in> set (scan_secrets files) \<longleftrightarrow>
     (\<exists>fd\<in>set files. \<exists>(n, c)\<in>set (fd_added_lines fd). \<exists>m. find_secret c = Some m \<and> f = secret_finding (fd_path fd) n m)"
proof -
  have one: "f \<in> set (scan_file fd) \<longleftrightarrow>
    (\<exists>(n, c)\<in>set (fd_added_lines fd). \<exists>m. find_secret c = Some m \<and> f = secret_finding (fd_path fd) n m)" for fd
    unfolding scan_file_def map_filter_mem by (force split: prod.split)
  show ?thesis by (simp add: scan_secrets_def one)
qed

text \<open>
  C20. The gate reports a line exactly when the diff adds that line to that file and it carries a
  credential; every report blocks.
\<close>

theorem secret_gate_exact:
  "(p, n, Blocking) \<in> (\<lambda>f. (fi_path f, fi_line f, fi_severity f)) ` set (scan_secrets files) \<longleftrightarrow>
     (\<exists>fd\<in>set files. fd_path fd = p \<and> (\<exists>c. (n, c) \<in> set (fd_added_lines fd) \<and> detections c \<noteq> []))"
proof
  assume "(p, n, Blocking) \<in> (\<lambda>f. (fi_path f, fi_line f, fi_severity f)) ` set (scan_secrets files)"
  then obtain f where f: "f \<in> set (scan_secrets files)" "fi_path f = p" "fi_line f = n" by auto
  then obtain fd k c m where fd: "fd \<in> set files" "(k, c) \<in> set (fd_added_lines fd)" "find_secret c = Some m"
      "f = secret_finding (fd_path fd) k m" by (auto simp: in_scan_secrets)
  then have "fd_path fd = p" "k = n" using f by (simp_all add: secret_finding_def)
  moreover have "detections c \<noteq> []" using fd(3) find_secret_None [of c] by auto
  ultimately show "\<exists>fd\<in>set files. fd_path fd = p \<and> (\<exists>c. (n, c) \<in> set (fd_added_lines fd) \<and> detections c \<noteq> [])"
    using fd by blast
next
  assume "\<exists>fd\<in>set files. fd_path fd = p \<and> (\<exists>c. (n, c) \<in> set (fd_added_lines fd) \<and> detections c \<noteq> [])"
  then obtain fd c where fd: "fd \<in> set files" "fd_path fd = p" "(n, c) \<in> set (fd_added_lines fd)" "detections c \<noteq> []"
    by blast
  then obtain m where m: "find_secret c = Some m" using find_secret_None [of c] by auto
  then have "secret_finding p n m \<in> set (scan_secrets files)" using fd by (auto simp: in_scan_secrets)
  moreover have "(p, n, Blocking) = (\<lambda>f. (fi_path f, fi_line f, fi_severity f)) (secret_finding p n m)"
    by (simp add: secret_finding_def)
  ultimately show "(p, n, Blocking) \<in> (\<lambda>f. (fi_path f, fi_line f, fi_severity f)) ` set (scan_secrets files)"
    by (rule rev_image_eqI)
qed

text \<open>
  C25. A finding shows of the credential only the few ASCII characters its detector keeps, fewer than the
  token has, then the marker: the rest of the token is withheld from the report.
\<close>

theorem secret_evidence_withholds:
  assumes "f \<in> set (scan_secrets files)"
  shows "\<exists>fd\<in>set files. \<exists>(n, c)\<in>set (fd_added_lines fd). \<exists>(name, (a, b), k)\<in>set (detections c).
    fi_line f = n \<and> fi_evidence f = redact (cut c a b) k \<and> k < b - a \<and> b \<le> length c \<and>
    list_all (\<lambda>x. x < 128) (take k (cut c a b)) \<and> (\<forall>x\<in>set (drop k (fi_evidence f)). marker_char x)"
proof -
  obtain fd n c m where fd: "fd \<in> set files" "(n, c) \<in> set (fd_added_lines fd)" "find_secret c = Some m"
      "f = secret_finding (fd_path fd) n m" using assms by (auto simp: in_scan_secrets)
  then obtain name a b k r where d: "detections c = (name, (a, b), k) # r" "m = \<lparr>sm_name = name, sm_redacted = redact (cut c a b) k\<rparr>"
    by (auto simp: find_secret_Some)
  have "span_ok c ((a, b), k)" by (rule detections_ok [of name]) (simp add: d)
  then have ok: "k < b - a" "b \<le> length c" "list_all (\<lambda>x. x < 128) (take k (cut c a b))"
    by (auto simp: span_ok_def cut_def)
  have "length (take k (cut c a b)) = k" using ok by simp
  then have "drop k (redact (cut c a b) k) = [c_ellipsis] @ lit '' ('' @ show_nat (byte_len (cut c a b)) @ lit '' chars)''"
    by (simp add: redact_def del: lit_Cons)
  then have "\<forall>x\<in>set (drop k (redact (cut c a b) k)). marker_char x"
    using show_nat_digit by (auto simp: marker_chars is_ascii_digit_def)
  then have "fi_line f = n \<and> fi_evidence f = redact (cut c a b) k \<and> k < b - a \<and> b \<le> length c \<and>
    list_all (\<lambda>x. x < 128) (take k (cut c a b)) \<and> (\<forall>x\<in>set (drop k (fi_evidence f)). marker_char x)"
    using ok fd(4) d(2) by (simp add: secret_finding_def)
  moreover have "(name, (a, b), k) \<in> set (detections c)" by (simp add: d(1))
  ultimately show ?thesis using fd(1,2) by blast
qed

lemma webhook_detected: "detections webhook \<noteq> []"
proof -
  have "(sp_name webhook_shape, (0, 77), length (sp_prefix webhook_shape)) \<in> set (detections webhook)"
    using webhook_spans(1,2) by (force simp: detections_def)
  then show ?thesis by auto
qed

theorem secret_evidence_withholds_witness:
  "\<exists>f\<in>set (scan_secrets [\<lparr>fd_path = lit ''a'', fd_old_path = None, fd_status = Added,
        fd_added_lines = [(3, webhook)], fd_removed_lines = []\<rparr>]).
     fi_line f = 3 \<and> (\<exists>(name, (a, b), k)\<in>set (detections webhook). fi_evidence f = redact (cut webhook a b) k \<and> k < b - a)"
proof -
  let ?fd = "\<lparr>fd_path = lit ''a'', fd_old_path = None, fd_status = Added,
        fd_added_lines = [(3, webhook)], fd_removed_lines = []\<rparr>"
  obtain m where "find_secret webhook = Some m" using webhook_detected find_secret_None [of webhook] by auto
  then have f: "secret_finding (lit ''a'') 3 m \<in> set (scan_secrets [?fd])" by (auto simp: in_scan_secrets)
  from secret_evidence_withholds [OF f] obtain name a b k where
      "(name, (a, b), k) \<in> set (detections webhook)" "fi_line (secret_finding (lit ''a'') 3 m) = 3"
      "fi_evidence (secret_finding (lit ''a'') 3 m) = redact (cut webhook a b) k" "k < b - a" by auto
  then show ?thesis by (intro bexI [OF _ f] conjI bexI [of _ "(name, (a, b), k)"]) simp_all
qed

end
