(* ===== verification/Diff_Format.thy ===== *)
theory Diff_Format
  imports Diff
begin

text \<open>
  The format \<open>parse_unified\<close> reads, from the writer's side: patches, their rendering as git writes
  them, and the proof that the parser inverts the rendering and numbers the added lines by their
  place in the new file.
\<close>

section \<open>Hunks\<close>


datatype hunk_op = Ctx str | Add str | Rem str

fun render_op :: "hunk_op \<Rightarrow> str" where
  "render_op (Ctx s) = c_space # s"
| "render_op (Add s) = c_plus # s"
| "render_op (Rem s) = c_dash # s"

fun new_count :: "hunk_op list \<Rightarrow> nat" where
  "new_count [] = 0"
| "new_count (Rem s # ops) = new_count ops"
| "new_count (op # ops) = Suc (new_count ops)"

fun old_count :: "hunk_op list \<Rightarrow> nat" where
  "old_count [] = 0"
| "old_count (Add s # ops) = old_count ops"
| "old_count (op # ops) = Suc (old_count ops)"

fun adds_from :: "nat \<Rightarrow> hunk_op list \<Rightarrow> (nat \<times> str) list" where
  "adds_from n [] = []"
| "adds_from n (Add s # ops) = (n, s) # adds_from (Suc n) ops"
| "adds_from n (Rem s # ops) = adds_from n ops"
| "adds_from n (Ctx s # ops) = adds_from (Suc n) ops"

fun rems_of :: "hunk_op list \<Rightarrow> str list" where
  "rems_of [] = []"
| "rems_of (Rem s # ops) = s # rems_of ops"
| "rems_of (op # ops) = rems_of ops"

definition put_ops :: "file_diff \<Rightarrow> nat \<Rightarrow> hunk_op list \<Rightarrow> file_diff" where
  "put_ops f n ops = f\<lparr>fd_added_lines := fd_added_lines f @ adds_from n ops,
     fd_removed_lines := fd_removed_lines f @ rems_of ops\<rparr>"

definition accepts :: "parse_state \<Rightarrow> str list \<Rightarrow> parse_state \<Rightarrow> bool" where
  "accepts s ls t = (\<forall>ns. length ns = length ls \<longrightarrow> try_fold parse_line s (zip ns ls) = Inr t)"

lemma accepts_Nil [simp]: "accepts s [] t \<longleftrightarrow> s = t"
  by (simp add: accepts_def)

lemma accepts_Cons: "(\<And>n. parse_line s (n, l) = Inr u) \<Longrightarrow> accepts u ls t \<Longrightarrow> accepts s (l # ls) t"
  by (auto simp: accepts_def length_Suc_conv)

lemma accepts_append:
  assumes "accepts s ls u" "accepts u ms t"
  shows "accepts s (ls @ ms) t"
  unfolding accepts_def
proof (intro allI impI)
  fix ns :: "nat list"
  assume len: "length ns = length (ls @ ms)"
  have "zip ns (ls @ ms) = zip (take (length ls) ns) ls @ zip (drop (length ls) ns) ms"
    by (simp add: zip_append2)
  then show "try_fold parse_line s (zip ns (ls @ ms)) = Inr t"
    using assms len by (simp add: accepts_def try_fold_append)
qed

lemma parse_line_op:
  assumes "ps_current st = Some f" "ps_in_hunk st" "c = c_plus \<or> c = c_dash \<or> c = c_space"
  shows "parse_line st (k, c # s) = body_line st f k (c # s)"
  using assms by (auto simp add: parse_line_def strip_prefix_def starts_with_def)

lemma accepts_ops:
  assumes "ps_current st = Some f" "ps_in_hunk st"
    "ps_new_remaining st = new_count ops" "ps_old_remaining st = old_count ops"
    "ps_new_line st + new_count ops \<le> MAX_LINE"
  shows "accepts st (map render_op ops)
    (st\<lparr>ps_current := Some (put_ops f (ps_new_line st) ops),
        ps_new_line := ps_new_line st + new_count ops, ps_new_remaining := 0, ps_old_remaining := 0\<rparr>)"
  using assms
proof (induction ops arbitrary: st f)
  case Nil
  then show ?case by (simp add: put_ops_def)
next
  case (Cons op ops)
  then show ?case
  proof (cases op)
    case (Ctx s)
    let ?u = "st\<lparr>ps_new_line := Suc (ps_new_line st), ps_new_remaining := new_count ops,
                 ps_old_remaining := old_count ops\<rparr>"
    have "accepts ?u (map render_op ops) (?u\<lparr>ps_current := Some (put_ops f (ps_new_line ?u) ops),
        ps_new_line := ps_new_line ?u + new_count ops, ps_new_remaining := 0, ps_old_remaining := 0\<rparr>)"
      using Cons.prems Ctx by (intro Cons.IH) auto
    with Cons.prems Ctx show ?thesis
      by (auto intro!: accepts_Cons [of _ _ ?u] simp: parse_line_op body_line_def context_line_def bump_line_room put_ops_def)
  next
    case (Add s)
    let ?u = "st\<lparr>ps_current := Some (f\<lparr>fd_added_lines := fd_added_lines f @ [(ps_new_line st, s)]\<rparr>),
       ps_new_line := Suc (ps_new_line st), ps_new_remaining := new_count ops\<rparr>"
    have "accepts ?u (map render_op ops) (?u\<lparr>ps_current := Some (put_ops (the (ps_current ?u)) (ps_new_line ?u) ops),
        ps_new_line := ps_new_line ?u + new_count ops, ps_new_remaining := 0, ps_old_remaining := 0\<rparr>)"
      using Cons.prems Add by (intro Cons.IH) auto
    with Cons.prems Add show ?thesis
      by (auto intro!: accepts_Cons [of _ _ ?u] simp: parse_line_op body_line_def bump_line_room put_ops_def)
  next
    case (Rem s)
    let ?u = "st\<lparr>ps_current := Some (f\<lparr>fd_removed_lines := fd_removed_lines f @ [s]\<rparr>),
       ps_old_remaining := old_count ops\<rparr>"
    have "accepts ?u (map render_op ops) (?u\<lparr>ps_current := Some (put_ops (the (ps_current ?u)) (ps_new_line ?u) ops),
        ps_new_line := ps_new_line ?u + new_count ops, ps_new_remaining := 0, ps_old_remaining := 0\<rparr>)"
      using Cons.prems Rem by (intro Cons.IH) auto
    with Cons.prems Rem show ?thesis
      by (auto intro!: accepts_Cons [of _ _ ?u] simp: parse_line_op body_line_def put_ops_def)
  qed
qed

record diff_hunk =
  dh_old_start :: nat
  dh_new_start :: nat
  dh_section :: str
  dh_ops :: "hunk_op list"

definition render_range :: "nat \<Rightarrow> nat \<Rightarrow> str" where
  "render_range a n = show_nat a @ c_comma # show_nat n"

definition render_header :: "diff_hunk \<Rightarrow> str" where
  "render_header h =
     lit ''@@ -'' @ render_range (dh_old_start h) (old_count (dh_ops h)) @ lit '' +'' @
     render_range (dh_new_start h) (new_count (dh_ops h)) @ lit '' @@'' @ dh_section h"

definition render_hunk :: "diff_hunk \<Rightarrow> str list" where
  "render_hunk h = render_header h # map render_op (dh_ops h)"

lemma render_range_chars:
  "c \<in> set (render_range a n) \<Longrightarrow> is_ascii_digit c \<or> c = c_comma"
  by (auto simp: render_range_def dest: show_nat_digit)

lemma split_range_render:
  "a \<le> MAX_HUNK_VALUE \<Longrightarrow> n \<le> MAX_HUNK_VALUE \<Longrightarrow> split_range (render_range a n) = Some (a, n)"
proof -
  assume le: "a \<le> MAX_HUNK_VALUE" "n \<le> MAX_HUNK_VALUE"
  have "split_once c_comma (render_range a n) = Some (show_nat a, show_nat n)"
    by (auto simp: split_once_Some_iff render_range_def is_ascii_digit_def dest: show_nat_digit)
  moreover have "a \<le> U32_MAX" "n \<le> U32_MAX" using le by (simp_all add: MAX_HUNK_VALUE_def U32_MAX_def)
  ultimately show ?thesis using le by (simp add: split_range_def parse_u32_def)
qed

lemma parse_hunk_header_render:
  assumes "dh_old_start h \<le> MAX_HUNK_VALUE" "dh_new_start h \<le> MAX_HUNK_VALUE"
    "old_count (dh_ops h) \<le> MAX_HUNK_VALUE" "new_count (dh_ops h) \<le> MAX_HUNK_VALUE"
  shows "parse_hunk_header (render_header h) =
    Some \<lparr>h_new_start = dh_new_start h, h_new_count = new_count (dh_ops h), h_old_count = old_count (dh_ops h)\<rparr>"
proof -
  let ?o = "render_range (dh_old_start h) (old_count (dh_ops h))"
  let ?n = "render_range (dh_new_start h) (new_count (dh_ops h))"
  define mid where "mid = c_space # (c_dash # ?o) @ c_space # (c_plus # ?n) @ c_space # []"
  have ws: "\<forall>c\<in>set (c_dash # ?o). \<not> is_whitespace c" "\<forall>c\<in>set (c_plus # ?n). \<not> is_whitespace c"
    and at: "64 \<notin> set mid"
    by (auto simp: mid_def is_whitespace_def is_ascii_digit_def dest!: render_range_chars)
  have sp: "is_whitespace c_space" by (simp add: is_whitespace_def)
  have "split_whitespace mid = [c_dash # ?o, c_plus # ?n]"
    unfolding mid_def
    by (simp only: split_whitespace_skip [OF sp] split_whitespace_word [OF ws(1) _ sp]
        split_whitespace_word [OF ws(2) _ sp] split_whitespace_Nil list.distinct not_False_eq_True)
  moreover have "find_sub [64, 64] (mid @ 64 # [64] @ dh_section h) = Some (length mid)"
    by (rule find_sub_first [OF at])
  moreover have "strip_prefix (lit ''@@'') (render_header h) = Some (mid @ 64 # [64] @ dh_section h)"
    by (simp add: strip_prefix_def render_header_def mid_def)
  ultimately show ?thesis
    using assms by (simp add: parse_hunk_header_def strip_prefix_def [of "[_]"] split_range_render)
qed

fun hunks_fit :: "nat \<Rightarrow> diff_hunk list \<Rightarrow> bool" where
  "hunks_fit e [] = True"
| "hunks_fit e (h # hs) =
     (e \<le> dh_new_start h \<and> dh_old_start h \<le> MAX_HUNK_VALUE \<and> dh_new_start h \<le> MAX_HUNK_VALUE \<and>
      old_count (dh_ops h) \<le> MAX_HUNK_VALUE \<and> new_count (dh_ops h) \<le> MAX_HUNK_VALUE \<and>
      hunks_fit (dh_new_start h + new_count (dh_ops h)) hs)"

definition put_hunks :: "file_diff \<Rightarrow> diff_hunk list \<Rightarrow> file_diff" where
  "put_hunks f hs = foldl (\<lambda>f h. put_ops f (dh_new_start h) (dh_ops h)) f hs"

text \<open>The state between two hunks, and after the last.\<close>

definition settled :: "parse_state \<Rightarrow> file_diff \<Rightarrow> nat \<Rightarrow> bool" where
  "settled st f e =
     (ps_current st = Some f \<and> ps_new_remaining st = 0 \<and> ps_old_remaining st = 0 \<and>
      ps_prev_hunk_end st = e)"

lemma accepts_hunk:
  assumes "settled st f e" "hunks_fit e [h]"
  shows "\<exists>st'. accepts st (render_hunk h) st' \<and>
    settled st' (put_ops f (dh_new_start h) (dh_ops h)) (dh_new_start h + new_count (dh_ops h)) \<and>
    ps_files st' = ps_files st"
proof -
  let ?u = "st\<lparr>ps_prev_hunk_end := dh_new_start h + new_count (dh_ops h), ps_new_line := dh_new_start h,
     ps_new_remaining := new_count (dh_ops h), ps_old_remaining := old_count (dh_ops h), ps_in_hunk := True\<rparr>"
  let ?t = "?u\<lparr>ps_current := Some (put_ops f (ps_new_line ?u) (dh_ops h)),
     ps_new_line := ps_new_line ?u + new_count (dh_ops h), ps_new_remaining := 0, ps_old_remaining := 0\<rparr>"
  have "parse_line st (n, render_header h) = hunk_line st n (render_header h)" for n
    using assms(1)
    by (simp add: parse_line_def render_header_def strip_prefix_def starts_with_def settled_def meta_line_def)
  then have "parse_line st (n, render_header h) = Inr ?u" for n
    using assms by (simp add: hunk_line_def finish_hunk_def guard_def parse_hunk_header_render settled_def)
  moreover have "accepts ?u (map render_op (dh_ops h)) ?t"
    using assms by (intro accepts_ops) (auto simp: settled_def MAX_LINE_def)
  ultimately have "accepts st (render_hunk h) ?t"
    unfolding render_hunk_def by (rule accepts_Cons)
  then show ?thesis by (intro exI [of _ ?t]) (simp add: settled_def)
qed

lemma accepts_hunks:
  "settled st f e \<Longrightarrow> hunks_fit e hs \<Longrightarrow>
   \<exists>st' e'. accepts st (concat (map render_hunk hs)) st' \<and> settled st' (put_hunks f hs) e' \<and>
     ps_files st' = ps_files st"
proof (induction hs arbitrary: st f e)
  case Nil
  then show ?case by (auto simp: put_hunks_def)
next
  case (Cons h hs)
  then obtain u where u: "accepts st (render_hunk h) u"
    "settled u (put_ops f (dh_new_start h) (dh_ops h)) (dh_new_start h + new_count (dh_ops h))"
    "ps_files u = ps_files st"
    using accepts_hunk [of st f e h] by auto
  from Cons.IH [OF u(2)] Cons.prems(2) obtain t e' where
    t: "accepts u (concat (map render_hunk hs)) t"
      "settled t (put_hunks (put_ops f (dh_new_start h) (dh_ops h)) hs) e'" "ps_files t = ps_files u"
    by auto
  have "accepts st (concat (map render_hunk (h # hs))) t"
    using accepts_append [OF u(1) t(1)] by simp
  with t u show ?case by (intro exI [of _ t]) (auto simp: put_hunks_def)
qed

datatype file_kind = Modify | Create | Delete | Rename str

record file_patch =
  fp_path :: str
  fp_kind :: file_kind
  fp_hunks :: "diff_hunk list"

fun source_path :: "file_kind \<Rightarrow> str \<Rightarrow> str" where
  "source_path (Rename old) p = old"
| "source_path k p = p"

fun kind_lines :: "file_kind \<Rightarrow> str \<Rightarrow> str list" where
  "kind_lines Modify p = [lit ''--- a/'' @ p, lit ''+++ b/'' @ p]"
| "kind_lines Create p = [lit ''new file mode 100644'', lit ''--- /dev/null'', lit ''+++ b/'' @ p]"
| "kind_lines Delete p = [lit ''deleted file mode 100644'', lit ''--- a/'' @ p, lit ''+++ /dev/null'']"
| "kind_lines (Rename old) p =
     [lit ''rename from '' @ old, lit ''rename to '' @ p, lit ''--- a/'' @ old, lit ''+++ b/'' @ p]"

fun kind_status :: "file_kind \<Rightarrow> change_status" where
  "kind_status Modify = Modified"
| "kind_status Create = Added"
| "kind_status Delete = Deleted"
| "kind_status (Rename old) = Renamed"

fun kind_old :: "file_kind \<Rightarrow> str option" where
  "kind_old (Rename old) = Some old"
| "kind_old k = None"

definition file_base :: "file_kind \<Rightarrow> str \<Rightarrow> file_diff" where
  "file_base k p = \<lparr>fd_path = p, fd_old_path = kind_old k, fd_status = kind_status k,
     fd_added_lines = [], fd_removed_lines = []\<rparr>"

definition file_of :: "file_patch \<Rightarrow> file_diff" where
  "file_of p = put_hunks (file_base (fp_kind p) (fp_path p)) (fp_hunks p)"

definition render_file :: "file_patch \<Rightarrow> str list" where
  "render_file p =
     (lit ''diff --git a/'' @ source_path (fp_kind p) (fp_path p) @ lit '' b/'' @ fp_path p) #
     kind_lines (fp_kind p) (fp_path p) @ concat (map render_hunk (fp_hunks p))"

definition plain_path :: "str \<Rightarrow> bool" where
  "plain_path p = (\<forall>c\<in>set p. c \<noteq> c_tab \<and> c \<noteq> c_nl \<and> c \<noteq> c_cr \<and> c \<noteq> c_quote)"

lemma unquote_plain: "plain_path p \<Longrightarrow> unquote_path p = p"
  by (auto simp: unquote_path_def plain_path_def trim_end_matches_id Let_def split_on_id
      strip_prefix_Some_iff split: option.splits)

lemma strip_prefix_marker_plain: "plain_path p \<Longrightarrow> strip_prefix_marker (98 # c_slash # p) = p"
  by (simp add: strip_prefix_marker_def strip_marker_def strip_prefix_def
      unquote_plain [of "98 # c_slash # p", unfolded plain_path_def] plain_path_def)

lemma equal_halves_same: "equal_halves (97 # c_slash # p @ lit '' b/'' @ p) = Some p"
proof -
  have "byte_drop 2 (97 # c_slash # r) = byte_drop 0 r" for r by (simp add: utf8_width_def)
  moreover have "byte_drop 0 r = Some r" for r by (cases r) auto
  moreover have "byte_drop (2 + byte_len p) (97 # c_slash # p @ lit '' b/'' @ p) = Some (lit '' b/'' @ p)"
    using byte_drop_append [of "97 # c_slash # p" "lit '' b/'' @ p"] by (simp add: utf8_width_def)
  moreover have "byte_len (97 # c_slash # p @ lit '' b/'' @ p) = 5 + 2 * byte_len p"
    by (simp add: utf8_width_def)
  moreover have "starts_with (lit ''a/'') (97 # c_slash # p @ lit '' b/'' @ p)"
    by (simp add: starts_with_def)
  ultimately show ?thesis
    unfolding equal_halves_def by (simp add: byte_get_def del: byte_len_simps byte_drop.simps lit_Cons)
qed

lemma git_header_path_plain:
  assumes "plain_path old" "plain_path p"
  shows "\<exists>q. git_header_path (lit ''a/'' @ old @ lit '' b/'' @ p) = Some q \<and> (old = p \<longrightarrow> q = p)"
proof -
  let ?r = "lit ''a/'' @ old @ lit '' b/'' @ p"
  have "c_quote \<notin> set ?r" using assms by (auto simp: plain_path_def)
  then have "\<not> ends_with [c_quote] ?r" unfolding ends_with_iff by (metis in_set_conv_decomp)
  moreover have "quoted_token_end ?r = None"
    by (simp add: quoted_token_end_def utf8_encode_def utf8_bytes_def)
  moreover have "rfind_sub (lit '' b/'') ?r \<noteq> None"
    using rfind_sub_occurs [of "lit '' b/''" "lit ''a/'' @ old" p] by simp
  moreover have "old = p \<Longrightarrow> equal_halves ?r = Some p" using equal_halves_same by simp
  ultimately show ?thesis
    by (cases "equal_halves ?r") (auto simp: git_header_path_def simp del: lit_Cons)
qed

definition at_file :: "parse_state \<Rightarrow> file_diff list \<Rightarrow> file_diff \<Rightarrow> bool" where
  "at_file st fs f = (settled st f 0 \<and> \<not> ps_in_hunk st \<and> ps_files st = fs)"

lemmas meta_eval = parse_line_def meta_line_def strip_prefix_def starts_with_def at_file_def
  settled_def file_base_def Let_def

lemma at_file_update: "at_file st fs f \<Longrightarrow> at_file (st\<lparr>ps_current := Some g, ps_rename_from := r\<rparr>) fs g"
  by (simp add: at_file_def settled_def)

lemma accepts_kind_lines:
  assumes st: "at_file st fs (file_base Modify q)" and p: "plain_path p" "plain_path (source_path k p)"
    and q: "k = Delete \<longrightarrow> q = p"
  shows "\<exists>r. accepts st (kind_lines k p) (st\<lparr>ps_current := Some (file_base k p), ps_rename_from := r\<rparr>)"
proof (cases k)
  case Modify
  let ?t = "st\<lparr>ps_current := Some (file_base k p), ps_rename_from := ps_rename_from st\<rparr>"
  have "parse_line st (n, lit ''--- a/'' @ p) = Inr st" "parse_line st (n, lit ''+++ b/'' @ p) = Inr ?t" for n
    using st p Modify by (simp_all add: meta_eval strip_prefix_marker_plain)
  from accepts_Cons [OF this(1) accepts_Cons [OF this(2)]] Modify show ?thesis
    by (intro exI [of _ "ps_rename_from st"]) simp
next
  case Create
  let ?u = "st\<lparr>ps_current := Some (file_base k q)\<rparr>"
  let ?t = "st\<lparr>ps_current := Some (file_base k p), ps_rename_from := ps_rename_from st\<rparr>"
  have "parse_line st (n, lit ''new file mode 100644'') = Inr ?u"
    "parse_line ?u (n, lit ''--- /dev/null'') = Inr ?u" "parse_line ?u (n, lit ''+++ b/'' @ p) = Inr ?t" for n
    using st p Create by (simp_all add: meta_eval strip_prefix_marker_plain)
  from accepts_Cons [OF this(1) accepts_Cons [OF this(2) accepts_Cons [OF this(3)]]] Create show ?thesis
    by (intro exI [of _ "ps_rename_from st"]) simp
next
  case Delete
  let ?u = "st\<lparr>ps_current := Some (file_base k p)\<rparr>"
  let ?t = "st\<lparr>ps_current := Some (file_base k p), ps_rename_from := ps_rename_from st\<rparr>"
  have "parse_line st (n, lit ''deleted file mode 100644'') = Inr ?u"
    "parse_line ?u (n, lit ''--- a/'' @ p) = Inr ?u" "parse_line ?u (n, lit ''+++ /dev/null'') = Inr ?t" for n
    using st q Delete by (simp_all add: meta_eval)
  from accepts_Cons [OF this(1) accepts_Cons [OF this(2) accepts_Cons [OF this(3)]]] Delete show ?thesis
    by (intro exI [of _ "ps_rename_from st"]) simp
next
  case (Rename old)
  let ?u = "st\<lparr>ps_rename_from := Some old\<rparr>"
  let ?t = "st\<lparr>ps_current := Some (file_base k p), ps_rename_from := None\<rparr>"
  have "parse_line st (n, lit ''rename from '' @ old) = Inr ?u" "parse_line ?u (n, lit ''rename to '' @ p) = Inr ?t"
    "parse_line ?t (n, lit ''--- a/'' @ old) = Inr ?t" "parse_line ?t (n, lit ''+++ b/'' @ p) = Inr ?t" for n
    using st p Rename by (simp_all add: meta_eval strip_prefix_marker_plain unquote_plain)
  from accepts_Cons [OF this(1) accepts_Cons [OF this(2) accepts_Cons [OF this(3) accepts_Cons [OF this(4)]]]]
    Rename show ?thesis by (intro exI [of _ None]) simp
qed

definition op_text_ok :: "str \<Rightarrow> bool" where
  "op_text_ok s = (c_nl \<notin> set s \<and> (s = [] \<or> last s \<noteq> c_cr))"

fun op_ok :: "hunk_op \<Rightarrow> bool" where
  "op_ok (Ctx s) = op_text_ok s"
| "op_ok (Add s) = op_text_ok s"
| "op_ok (Rem s) = op_text_ok s"

definition hunk_ok :: "diff_hunk \<Rightarrow> bool" where
  "hunk_ok h = (op_text_ok (dh_section h) \<and> list_all op_ok (dh_ops h))"

definition patch_ok :: "file_patch \<Rightarrow> bool" where
  "patch_ok p = (plain_path (fp_path p) \<and> plain_path (source_path (fp_kind p) (fp_path p)) \<and>
     hunks_fit 0 (fp_hunks p) \<and> list_all hunk_ok (fp_hunks p) \<and>
     (fp_kind p = Delete \<longrightarrow> fd_added_lines (file_of p) = []))"

lemma accepts_file:
  assumes "ps_new_remaining st = 0" "ps_old_remaining st = 0" "patch_ok p"
  shows "\<exists>st' e. accepts st (render_file p) st' \<and> settled st' (file_of p) e \<and>
    ps_files st' = push_current st"
proof -
  let ?rest = "lit ''a/'' @ source_path (fp_kind p) (fp_path p) @ lit '' b/'' @ fp_path p"
  obtain q where q: "git_header_path ?rest = Some q" "source_path (fp_kind p) (fp_path p) = fp_path p \<longrightarrow> q = fp_path p"
    using git_header_path_plain assms(3) unfolding patch_ok_def by blast
  let ?u = "st\<lparr>ps_in_hunk := False, ps_files := push_current st, ps_rename_from := None,
                   ps_prev_hunk_end := 0, ps_current := Some (file_base Modify q)\<rparr>"
  have "strip_prefix (lit ''diff --git '') (lit ''diff --git '' @ ?rest) = Some ?rest" by (rule strip_prefix_append)
  then have "parse_line st (n, lit ''diff --git '' @ ?rest) = Inr ?u" for n
    using q(1) assms(1,2)
    by (simp add: parse_line_def file_header_def finish_hunk_def guard_def file_base_def del: lit_Cons)
  moreover have "lit ''diff --git '' @ ?rest =
      lit ''diff --git a/'' @ source_path (fp_kind p) (fp_path p) @ lit '' b/'' @ fp_path p" by simp
  ultimately have head: "parse_line st (n, lit ''diff --git a/'' @ source_path (fp_kind p) (fp_path p) @ lit '' b/'' @ fp_path p) = Inr ?u" for n
    by metis
  have "at_file ?u (push_current st) (file_base Modify q)"
    using assms by (simp add: at_file_def settled_def)
  moreover from this obtain r where
    k: "accepts ?u (kind_lines (fp_kind p) (fp_path p))
      (?u\<lparr>ps_current := Some (file_base (fp_kind p) (fp_path p)), ps_rename_from := r\<rparr>)" (is "accepts _ _ ?t")
    using accepts_kind_lines assms(3) q(2) by (fastforce simp: patch_ok_def)
  ultimately have "at_file ?t (push_current st) (file_base (fp_kind p) (fp_path p))"
    by (intro at_file_update)
  then obtain w e where w: "accepts ?t (concat (map render_hunk (fp_hunks p))) w"
    "settled w (file_of p) e" "ps_files w = push_current st"
    using accepts_hunks [of ?t _ 0] assms(3) unfolding at_file_def patch_ok_def file_of_def by metis
  have "accepts st (render_file p) w"
    unfolding render_file_def by (rule accepts_Cons [OF head accepts_append [OF k w(1)]])
  with w(2,3) show ?thesis by blast
qed

lemma accepts_files:
  assumes "ps_new_remaining st = 0" "ps_old_remaining st = 0" "list_all patch_ok ps"
  shows "\<exists>st'. accepts st (concat (map render_file ps)) st' \<and>
    ps_new_remaining st' = 0 \<and> ps_old_remaining st' = 0 \<and>
    push_current st' = push_current st @ map file_of ps"
  using assms
proof (induction ps arbitrary: st)
  case Nil
  then show ?case by auto
next
  case (Cons p ps)
  then obtain u e where u: "accepts st (render_file p) u" "settled u (file_of p) e" "ps_files u = push_current st"
    using accepts_file [of st p] by auto
  with Cons.IH [of u] Cons.prems obtain t where t: "accepts u (concat (map render_file ps)) t"
    "ps_new_remaining t = 0" "ps_old_remaining t = 0" "push_current t = push_current u @ map file_of ps"
    by (auto simp: settled_def)
  have "push_current u = push_current st @ [file_of p]"
    using u by (simp add: push_current_def settled_def)
  with t u(1) show ?case by (intro exI [of _ t]) (auto intro: accepts_append)
qed

lemma str_lines_unlines:
  "list_all op_text_ok ls \<Longrightarrow> str_lines (concat (map (\<lambda>l. l @ [c_nl]) ls)) = ls"
proof (induction ls)
  case (Cons l ls)
  then have "str_lines (l @ c_nl # concat (map (\<lambda>l. l @ [c_nl]) ls)) = l # ls"
    by (subst str_lines_line) (auto simp: op_text_ok_def)
  then show ?case by simp
qed simp

lemma plain_text_ok: "plain_path p \<Longrightarrow> op_text_ok p"
  by (cases p rule: rev_cases) (auto simp: plain_path_def op_text_ok_def)

lemma render_op_ok: "op_ok op \<Longrightarrow> op_text_ok (render_op op)"
  by (cases op) (auto simp: op_text_ok_def)

lemma render_header_ok: "op_text_ok (dh_section h) \<Longrightarrow> op_text_ok (render_header h)"
proof -
  assume "op_text_ok (dh_section h)"
  moreover have "c_nl \<notin> set (render_range a n)" for a n
    by (auto simp: is_ascii_digit_def dest: render_range_chars)
  ultimately show ?thesis by (auto simp: render_header_def op_text_ok_def)
qed

lemma kind_lines_ok:
  "plain_path p \<Longrightarrow> plain_path (source_path k p) \<Longrightarrow> list_all op_text_ok (kind_lines k p)"
  by (cases k) (auto dest!: plain_text_ok simp: op_text_ok_def)

lemma render_file_ok: "patch_ok p \<Longrightarrow> list_all op_text_ok (render_file p)"
proof -
  assume p: "patch_ok p"
  have "list_all op_text_ok (render_hunk h)" if "h \<in> set (fp_hunks p)" for h
    using p that by (auto simp: patch_ok_def hunk_ok_def list_all_iff render_hunk_def
        intro: render_op_ok render_header_ok)
  moreover have "op_text_ok (lit ''diff --git a/'' @ source_path (fp_kind p) (fp_path p) @ lit '' b/'' @ fp_path p)"
    using p plain_text_ok [of "fp_path p"] plain_text_ok [of "source_path (fp_kind p) (fp_path p)"]
    by (auto simp: patch_ok_def op_text_ok_def)
  ultimately show ?thesis
    using p kind_lines_ok by (auto simp: render_file_def patch_ok_def list_all_iff simp del: lit_Cons)
qed

definition render_diff :: "file_patch list \<Rightarrow> str" where
  "render_diff ps = concat (map (\<lambda>l. l @ [c_nl]) (concat (map render_file ps)))"

lemma put_hunks_keeps [simp]:
  "fd_status (put_hunks f hs) = fd_status f" "fd_path (put_hunks f hs) = fd_path f"
  "fd_old_path (put_hunks f hs) = fd_old_path f"
  by (induction hs arbitrary: f) (simp_all add: put_hunks_def put_ops_def)

lemma file_of_status: "fd_status (file_of p) = Deleted \<longleftrightarrow> fp_kind p = Delete"
  by (cases "fp_kind p") (simp_all add: file_of_def file_base_def)

lemma parse_render:
  assumes "list_all patch_ok ps" and "distinct (changed_paths (map file_of ps))"
  shows "parse_unified (render_diff ps) = Inr (map file_of ps)"
proof -
  let ?ls = "concat (map render_file ps)"
  have lines: "str_lines (render_diff ps) = ?ls"
    unfolding render_diff_def
    by (rule str_lines_unlines) (use assms(1) render_file_ok in \<open>fastforce simp: list_all_iff\<close>)
  obtain st where st: "accepts init_state ?ls st" "ps_new_remaining st = 0" "ps_old_remaining st = 0"
    "push_current st = map file_of ps"
    using accepts_files [of init_state ps] assms(1) by (auto simp: init_state_def push_current_def)
  have "reject_impossible (map file_of ps) = Inr ()"
    unfolding reject_impossible_Inr
    using assms by (auto simp: list_all_iff patch_ok_def file_of_status)
  moreover have "ps = [] \<Longrightarrow> \<not> ps_saw_content st" using st(1) by (auto simp: init_state_def)
  ultimately show ?thesis
    using st by (auto simp: parse_unified_def lines numbered_def accepts_def finish_hunk_def guard_def Let_def simp del: upt_Suc)
qed

text \<open>
  C12. Parsing a rendered diff gives back its files: paths, rename sources, statuses, the removed
  lines and the added lines with the numbers their hunks give them. The patches may create, modify,
  delete and rename files, with any number of ordered hunks of any content.
\<close>

theorem parse_rendered_diff:
  assumes "list_all patch_ok ps" and "distinct (changed_paths (map file_of ps))"
  shows "parse_unified (render_diff ps) = Inr (map file_of ps)"
  using assms by (rule parse_render)

section \<open>The numbers are the new file's\<close>

fun new_side :: "hunk_op list \<Rightarrow> str list" where
  "new_side [] = []"
| "new_side (Rem s # ops) = new_side ops"
| "new_side (Ctx s # ops) = s # new_side ops"
| "new_side (Add s # ops) = s # new_side ops"

definition hunk_shows :: "str list \<Rightarrow> diff_hunk \<Rightarrow> bool" where
  "hunk_shows new h =
     (new_side (dh_ops h) = [] \<or>
      1 \<le> dh_new_start h \<and>
      take (length (new_side (dh_ops h))) (drop (dh_new_start h - 1) new) = new_side (dh_ops h))"

definition line_is :: "str list \<Rightarrow> nat \<times> str \<Rightarrow> bool" where
  "line_is new = (\<lambda>(n, s). 1 \<le> n \<and> n \<le> length new \<and> new ! (n - 1) = s)"

lemma adds_from_new_side:
  "(n, s) \<in> set (adds_from k ops) \<Longrightarrow>
   k \<le> n \<and> n - k < length (new_side ops) \<and> new_side ops ! (n - k) = s"
proof (induction k ops rule: adds_from.induct)
  case (2 k t ops)
  then show ?case by (auto simp: nth_Cons' Suc_diff_le split: if_splits)
next
  case (4 k t ops)
  then show ?case by (auto simp: nth_Cons')
qed auto

lemma hunk_adds_are_lines:
  assumes "hunk_shows new h" "x \<in> set (adds_from (dh_new_start h) (dh_ops h))"
  shows "line_is new x"
proof -
  obtain n s where x: "x = (n, s)" by (cases x)
  with assms(2) have a: "dh_new_start h \<le> n" "n - dh_new_start h < length (new_side (dh_ops h))"
    "new_side (dh_ops h) ! (n - dh_new_start h) = s" using adds_from_new_side by blast+
  then have h: "1 \<le> dh_new_start h" "take (length (new_side (dh_ops h))) (drop (dh_new_start h - 1) new) = new_side (dh_ops h)"
    using assms(1) by (auto simp: hunk_shows_def)
  from slice_nth [OF h(2) a(2)] a h(1) show ?thesis
    by (auto simp: line_is_def x)
qed

lemma put_hunks_added:
  "fd_added_lines (put_hunks f hs) =
   fd_added_lines f @ concat (map (\<lambda>h. adds_from (dh_new_start h) (dh_ops h)) hs)"
  by (induction hs arbitrary: f) (simp_all add: put_hunks_def put_ops_def)

text \<open>
  C24. The numbers of the added lines are positions in the changed file: where a patch's hunks show
  the lines of the file's new content, line \<open>n\<close> of that content is the text recorded with \<open>n\<close>.
\<close>

theorem added_lines_index_new_file:
  assumes "list_all patch_ok ps" and "distinct (changed_paths (map file_of ps))"
    and "parse_unified (render_diff ps) = Inr files" and "i < length ps"
    and "list_all (hunk_shows new) (fp_hunks (ps ! i))"
  shows "list_all (line_is new) (fd_added_lines (files ! i))"
proof -
  have "files ! i = file_of (ps ! i)"
    using parse_render [OF assms(1,2)] assms(3,4) by simp
  then show ?thesis
    using assms(5) hunk_adds_are_lines
    by (auto simp: file_of_def file_base_def put_hunks_added list_all_iff)
qed

definition demo_patches :: "file_patch list" where
  "demo_patches =
     [\<lparr>fp_path = lit ''a b.c'', fp_kind = Modify,
       fp_hunks = [\<lparr>dh_old_start = 1, dh_new_start = 1, dh_section = [],
                    dh_ops = [Ctx (lit ''x''), Rem (lit ''y''), Add (lit ''z''), Add (lit ''w'')]\<rparr>,
                   \<lparr>dh_old_start = 9, dh_new_start = 10, dh_section = lit '' f()'',
                    dh_ops = [Add (lit ''-- q''), Ctx []]\<rparr>]\<rparr>,
      \<lparr>fp_path = lit ''new'', fp_kind = Rename (lit ''old''), fp_hunks = []\<rparr>]"

lemma demo_patches_ok:
  "list_all patch_ok demo_patches" "distinct (changed_paths (map file_of demo_patches))"
  by (simp_all add: demo_patches_def patch_ok_def hunk_ok_def op_text_ok_def plain_path_def
      MAX_HUNK_VALUE_def file_of_def file_base_def put_hunks_def put_ops_def changed_paths_def
      changed_paths_of_def)

definition demo_files :: "file_diff list" where
  "demo_files =
     [\<lparr>fd_path = lit ''a b.c'', fd_old_path = None, fd_status = Modified,
       fd_added_lines = [(2, lit ''z''), (3, lit ''w''), (10, lit ''-- q'')],
       fd_removed_lines = [lit ''y'']\<rparr>,
      \<lparr>fd_path = lit ''new'', fd_old_path = Some (lit ''old''), fd_status = Renamed,
       fd_added_lines = [], fd_removed_lines = []\<rparr>]"

lemma demo_files_of: "map file_of demo_patches = demo_files"
  by (simp add: demo_patches_def demo_files_def file_of_def file_base_def put_hunks_def put_ops_def)

theorem parse_rendered_diff_witness: "parse_unified (render_diff demo_patches) = Inr demo_files"
  using parse_rendered_diff [OF demo_patches_ok] by (simp only: demo_files_of)

theorem added_lines_index_new_file_witness:
  "list_all (line_is [lit ''x'', lit ''z'', lit ''w'', [], [], [], [], [], [], lit ''-- q'', []])
     [(2, lit ''z''), (3, lit ''w''), (10, lit ''-- q'')]"
proof -
  let ?new = "[lit ''x'', lit ''z'', lit ''w'', [], [], [], [], [], [], lit ''-- q'', []]"
  have "parse_unified (render_diff demo_patches) = Inr demo_files"
    using parse_render [OF demo_patches_ok] by (simp only: demo_files_of)
  moreover have "list_all (hunk_shows ?new) (fp_hunks (demo_patches ! 0))" "0 < length demo_patches"
    by (simp_all add: demo_patches_def hunk_shows_def)
  ultimately have "list_all (line_is ?new) (fd_added_lines (demo_files ! 0))"
    using added_lines_index_new_file [OF demo_patches_ok] by blast
  then show ?thesis by (simp add: demo_files_def)
qed

theorem added_lines_ordered_witness:
  "sorted_wrt (<) (added_line_numbers (demo_files ! 0)) \<and> demo_files ! 0 \<in> set demo_files"
proof -
  have "parse_unified (render_diff demo_patches) = Inr demo_files"
    using parse_render [OF demo_patches_ok] by (simp only: demo_files_of)
  moreover have "demo_files ! 0 \<in> set demo_files" by (simp add: demo_files_def)
  ultimately show ?thesis using added_lines_ordered by blast
qed

theorem changed_paths_distinct_witness:
  "distinct (changed_paths demo_files) \<and> length (changed_paths demo_files) = 3"
proof -
  have "parse_unified (render_diff demo_patches) = Inr demo_files"
    using parse_render [OF demo_patches_ok] by (simp only: demo_files_of)
  from changed_paths_distinct [OF this] show ?thesis
    by (simp add: demo_files_def changed_paths_def changed_paths_of_def)
qed

end
