(* ===== verification/Glob.thy ===== *)
theory Glob
  imports Prelude
begin

text \<open>
  The matcher of \<^verbatim>\<open>rust/dc-glob/src/lib.rs\<close>: CPython's \<open>fnmatch\<close> dialect, compiled to tokens and
  matched by a loop that keeps one backtrack point and a step budget.

  The declarative meaning of a token list is \<open>tok_match\<close>; the lemmas show that the loop decides it
  within its budget, for every pattern and name the size caps let through.
\<close>

section \<open>Names, tokens and patterns\<close>

definition MAX_UNITS :: nat where "MAX_UNITS = 16384"

text \<open>\<open>Name::new\<close>.\<close>

definition name_new :: "str \<Rightarrow> str option" where
  "name_new name =
     (if byte_len name > MAX_UNITS * 4 then None
      else if length name > MAX_UNITS then None
      else Some name)"

record char_class =
  negated :: bool
  singles :: "uchar list"
  ranges :: "(uchar \<times> uchar) list"

datatype token = Star | AnyTok | Class char_class | Literal uchar

record compiled_pattern =
  tokens :: "token list"
  units :: nat

text \<open>\<open>CharClass::contains\<close>.\<close>

definition class_contains :: "char_class \<Rightarrow> uchar \<Rightarrow> bool" where
  "class_contains cc c =
     (let hit = List.member (singles cc) c \<or> list_ex (\<lambda>(lo, hi). lo \<le> c \<and> c \<le> hi) (ranges cc)
      in hit \<noteq> negated cc)"

section \<open>Character classes\<close>

text \<open>
  \<open>dashed_class\<close>, in the steps of its body: cut at each dash that can be a range operator, put a
  trailing dash back, merge around backwards ranges from the right, then read ranges and singles.
\<close>

function cut_chunks :: "str \<Rightarrow> nat \<Rightarrow> nat \<Rightarrow> str list \<Rightarrow> str list \<times> nat" where
  "cut_chunks stuff k start chunks =
     (let idx = scan_while (\<lambda>c. c \<noteq> c_dash) stuff k
      in if idx < length stuff
         then cut_chunks stuff (idx + 3) (idx + 1) (chunks @ [drop start (take idx stuff)])
         else (chunks, start))"
  by pat_completeness auto
termination
proof (relation "measure (\<lambda>(stuff, k, start, chunks). length stuff - k)", goal_cases)
  case (2 stuff k start chunks x)
  then show ?case using scan_while_ge [of k "\<lambda>c. c \<noteq> c_dash" stuff] by auto
qed simp

declare cut_chunks.simps [simp del]

definition close_chunks :: "str \<Rightarrow> str list \<times> nat \<Rightarrow> str list" where
  "close_chunks stuff = (\<lambda>(chunks, start).
     if start < length stuff then chunks @ [drop start stuff]
     else if chunks \<noteq> [] then butlast chunks @ [last chunks @ [c_dash]]
     else chunks)"

fun merge_chunks :: "nat \<Rightarrow> str list \<Rightarrow> str list" where
  "merge_chunks (Suc (Suc j)) chunks =
     (let a = chunks ! j; b = chunks ! Suc j
      in if a = [] \<or> b = [] then merge_chunks (Suc j) chunks
         else if last a > hd b
         then merge_chunks (Suc j)
                (take j chunks @ [butlast a @ tl b] @ drop (Suc (Suc j)) chunks)
         else merge_chunks (Suc j) chunks)"
| "merge_chunks _ chunks = chunks"

fun flag_chunks :: "str list \<Rightarrow> (uchar \<times> bool) list" where
  "flag_chunks [] = []"
| "flag_chunks [ch] = map (\<lambda>c. (c, False)) ch"
| "flag_chunks (ch # chs) = map (\<lambda>c. (c, False)) ch @ (c_dash, True) # flag_chunks chs"

fun read_class :: "(uchar \<times> bool) list \<Rightarrow> char_class \<Rightarrow> char_class" where
  "read_class ((a, fa) # (b, True) # (c, fc) # rest) cc =
     read_class rest (cc\<lparr>ranges := ranges cc @ [(a, c)]\<rparr>)"
| "read_class ((a, fa) # rest) cc = read_class rest (cc\<lparr>singles := singles cc @ [a]\<rparr>)"
| "read_class [] cc = cc"

definition dashed_class :: "bool \<Rightarrow> str \<Rightarrow> char_class" where
  "dashed_class neg body =
     (let stuff = (if neg then [c_bang] else []) @ body;
          chunks = close_chunks stuff (cut_chunks stuff (if neg then 2 else 1) 0 []);
          merged = merge_chunks (length chunks) chunks;
          toks = flag_chunks merged;
          empty = \<lparr>negated = False, singles = [], ranges = []\<rparr>
      in case toks of
           (c, f) # rest \<Rightarrow>
             if c = c_bang \<and> \<not> f then read_class rest (empty\<lparr>negated := True\<rparr>)
             else read_class toks empty
         | [] \<Rightarrow> empty)"

definition char_at :: "str \<Rightarrow> nat \<Rightarrow> uchar option" where
  "char_at pat i = (if i < length pat then Some (pat ! i) else None)"

text \<open>\<open>parse_class\<close>: the class that opens at index \<open>open\<close>, with the index of its closing bracket.\<close>

definition parse_class :: "str \<Rightarrow> nat \<Rightarrow> (char_class \<times> nat) option" where
  "parse_class pat opn =
     (let neg = (char_at pat (opn + 1) = Some c_bang);
          body_start = (if neg then opn + 2 else opn + 1);
          i = (if char_at pat body_start = Some c_rbracket then body_start + 1 else body_start);
          close = scan_while (\<lambda>c. c \<noteq> c_rbracket) pat i
      in if close \<ge> length pat then None
         else let body = drop body_start (take close pat)
              in if body = [] then None
                 else if List.member body c_dash then Some (dashed_class neg body, close)
                 else Some (\<lparr>negated = neg, singles = body, ranges = []\<rparr>, close))"

section \<open>Compilation\<close>

lemma parse_class_close:
  "parse_class pat opn = Some (cc, close) \<Longrightarrow> opn < close \<and> close < length pat"
proof -
  assume p: "parse_class pat opn = Some (cc, close)"
  define bs where "bs = (if char_at pat (opn + 1) = Some c_bang then opn + 2 else opn + 1)"
  define i where "i = (if char_at pat bs = Some c_rbracket then bs + 1 else bs)"
  have "close = scan_while (\<lambda>c. c \<noteq> c_rbracket) pat i" "close < length pat"
    using p by (auto simp: parse_class_def Let_def bs_def i_def split: if_splits)
  moreover have "opn < i" by (simp add: i_def bs_def)
  ultimately show ?thesis using scan_while_ge [of i "\<lambda>c. c \<noteq> c_rbracket" pat] by simp
qed

function compile_from :: "str \<Rightarrow> nat \<Rightarrow> token list" where
  "compile_from pat i =
     (if i < length pat then
        (if pat ! i = c_star then
           Star # compile_from pat (scan_while (\<lambda>c. c = c_star) pat i)
         else if pat ! i = c_question then AnyTok # compile_from pat (i + 1)
         else if pat ! i = c_lbracket then
           (case parse_class pat i of
              Some (cc, close) \<Rightarrow> Class cc # compile_from pat (close + 1)
            | None \<Rightarrow> Literal c_lbracket # compile_from pat (i + 1))
         else Literal (pat ! i) # compile_from pat (i + 1))
      else [])"
  by pat_completeness auto
termination
proof (relation "measure (\<lambda>(pat, i). length pat - i)", goal_cases)
  case 1
  then show ?case by simp
next
  case (2 pat i)
  then have "scan_while (\<lambda>c. c = c_star) pat i = scan_while (\<lambda>c. c = c_star) pat (Suc i)"
    by (subst scan_while.simps) simp
  then show ?case using 2 scan_while_ge [of "Suc i" "\<lambda>c. c = c_star" pat] by simp
qed (auto dest!: parse_class_close)

declare compile_from.simps [simp del]

text \<open>\<open>Pattern::compile\<close>.\<close>

definition compile :: "str \<Rightarrow> compiled_pattern option" where
  "compile pattern =
     (if byte_len pattern > MAX_UNITS * 4 then None
      else if length pattern > MAX_UNITS then None
      else Some \<lparr>tokens = compile_from pattern 0, units = length pattern\<rparr>)"

section \<open>The matcher\<close>

type_synonym star_pos = "(nat \<times> nat) option"

datatype step_result = Done bool | Continue nat nat star_pos

definition token_accepts :: "token \<Rightarrow> uchar \<Rightarrow> bool" where
  "token_accepts t c =
     (case t of Star \<Rightarrow> False | AnyTok \<Rightarrow> True | Class cc \<Rightarrow> class_contains cc c | Literal d \<Rightarrow> c = d)"

definition backtrack :: "str \<Rightarrow> star_pos \<Rightarrow> step_result" where
  "backtrack tx star =
     (case star of
        Some (star_pi, star_ti) \<Rightarrow>
          if star_ti < length tx then Continue star_pi (star_ti + 1) (Some (star_pi, star_ti + 1))
          else Done False
      | None \<Rightarrow> Done False)"

text \<open>One turn of the loop of \<open>match_tokens\<close>.\<close>

definition match_step :: "token list \<Rightarrow> str \<Rightarrow> nat \<Rightarrow> nat \<Rightarrow> star_pos \<Rightarrow> step_result" where
  "match_step toks tx pi ti star =
     (if pi < length toks then
        (if toks ! pi = Star then Continue (pi + 1) ti (Some (pi + 1, ti))
         else if ti < length tx \<and> token_accepts (toks ! pi) (tx ! ti)
         then Continue (pi + 1) (ti + 1) star
         else backtrack tx star)
      else if ti = length tx then Done True
      else backtrack tx star)"

function match_loop :: "token list \<Rightarrow> str \<Rightarrow> nat \<Rightarrow> nat \<Rightarrow> nat \<Rightarrow> nat \<Rightarrow> star_pos \<Rightarrow> bool option" where
  "match_loop toks tx limit steps pi ti star =
     (if steps + 1 > limit then None
      else case match_step toks tx pi ti star of
             Done b \<Rightarrow> Some b
           | Continue pi' ti' star' \<Rightarrow> match_loop toks tx limit (steps + 1) pi' ti' star')"
  by pat_completeness auto
termination
  by (relation "measure (\<lambda>(toks, tx, limit, steps, pi, ti, star). limit - steps)") auto

declare match_loop.simps [simp del]

definition step_limit :: "nat \<Rightarrow> nat \<Rightarrow> nat" where
  "step_limit u n = saturating_add (saturating_mul (saturating_mul (u + 1) (n + 1)) 4) 8"

definition match_tokens :: "token list \<Rightarrow> nat \<Rightarrow> str \<Rightarrow> bool option" where
  "match_tokens toks u tx = match_loop toks tx (step_limit u (length tx)) 0 0 0 None"

text \<open>\<open>try_matches\<close>, \<open>matches\<close> and \<open>matches_any\<close>, the entry points.\<close>

definition pattern_try_matches :: "compiled_pattern \<Rightarrow> str \<Rightarrow> bool option" where
  "pattern_try_matches p name = match_tokens (tokens p) (units p) name"

definition try_matches :: "str \<Rightarrow> str \<Rightarrow> bool option" where
  "try_matches pattern name =
     (case compile pattern of
        None \<Rightarrow> None
      | Some p \<Rightarrow> (case name_new name of None \<Rightarrow> None | Some n \<Rightarrow> pattern_try_matches p n))"

definition matches :: "str \<Rightarrow> str \<Rightarrow> bool" where
  "matches pattern name = (case try_matches pattern name of Some b \<Rightarrow> b | None \<Rightarrow> False)"

definition matches_any :: "str list \<Rightarrow> str \<Rightarrow> bool" where
  "matches_any patterns name = list_ex (\<lambda>p. matches p name) patterns"

section \<open>What a pattern means\<close>

text \<open>The language of a token list: a star stands for any run of characters.\<close>

fun tok_match :: "token list \<Rightarrow> str \<Rightarrow> bool" where
  "tok_match [] s = (s = [])"
| "tok_match (Star # ts) s = list_ex (\<lambda>k. tok_match ts (drop k s)) [0..<Suc (length s)]"
| "tok_match (t # ts) s = (case s of [] \<Rightarrow> False | c # cs \<Rightarrow> token_accepts t c \<and> tok_match ts cs)"

lemma tok_match_Star: "tok_match (Star # ts) s \<longleftrightarrow> (\<exists>k\<le>length s. tok_match ts (drop k s))"
  by (auto simp: list_ex_iff less_Suc_eq_le simp del: upt_Suc)

lemma tok_match_Cons:
  "t \<noteq> Star \<Longrightarrow>
   tok_match (t # ts) s \<longleftrightarrow> s \<noteq> [] \<and> token_accepts t (hd s) \<and> tok_match ts (tl s)"
  by (cases t) (auto split: list.splits)

declare tok_match.simps [simp del]
declare tok_match.simps(1) [simp]

lemma tok_match_starfree:
  assumes "Star \<notin> set m"
  shows "tok_match (m @ ts) s \<Longrightarrow> length m \<le> length s \<and> tok_match ts (drop (length m) s)"
  using assms
proof (induction m arbitrary: s)
  case Nil
  then show ?case by simp
next
  case (Cons t m)
  then have "t \<noteq> Star" by auto
  with Cons.prems(1) have s: "s \<noteq> []" and "tok_match (m @ ts) (tl s)"
    by (auto simp: tok_match_Cons)
  with Cons.IH [of "tl s"] Cons.prems(2)
  have "length m \<le> length (tl s)" "tok_match ts (drop (length m) (tl s))" by auto
  with s show ?case by (cases s) auto
qed

subsection \<open>The loop decides it\<close>

text \<open>
  The invariant of the loop. With a saved star at \<open>(sp, st)\<close> the tokens from \<open>sp\<close> to \<open>pi\<close> are star
  free and consumed exactly the tx from \<open>st\<close> to \<open>ti\<close>; what remains to be decided is the match from
  here, or from the star given more of the tx.
\<close>

definition loop_inv :: "token list \<Rightarrow> str \<Rightarrow> nat \<Rightarrow> nat \<Rightarrow> star_pos \<Rightarrow> bool" where
  "loop_inv toks tx pi ti star \<longleftrightarrow>
     pi \<le> length toks \<and> ti \<le> length tx \<and>
     (case star of None \<Rightarrow> True
      | Some (sp, st) \<Rightarrow>
          sp \<le> pi \<and> ti = st + (pi - sp) \<and> Star \<notin> set (drop sp (take pi toks)))"

definition pending :: "token list \<Rightarrow> str \<Rightarrow> nat \<Rightarrow> nat \<Rightarrow> star_pos \<Rightarrow> bool" where
  "pending toks tx pi ti star \<longleftrightarrow>
     tok_match (drop pi toks) (drop ti tx) \<or>
     (case star of None \<Rightarrow> False
      | Some (sp, st) \<Rightarrow>
          (\<exists>k. st < k \<and> k \<le> length tx \<and> tok_match (drop sp toks) (drop k tx)))"

lemma drop_take_Suc:
  "sp \<le> pi \<Longrightarrow> pi < length xs \<Longrightarrow> drop sp (take (Suc pi) xs) = drop sp (take pi xs) @ [xs ! pi]"
  by (simp add: take_Suc_conv_app_nth)

lemma drop_split: "sp \<le> pi \<Longrightarrow> drop sp xs = drop sp (take pi xs) @ drop pi xs"
  by (metis append_take_drop_id drop_append drop_drop le_add_diff_inverse2 length_take
      min.absorb_iff2 nat_le_linear take_all drop_take take_drop add.commute)

lemma backtrack_pending:
  assumes inv: "loop_inv toks tx pi ti star"
    and stuck: "\<not> tok_match (drop pi toks) (drop ti tx)"
  shows "case backtrack tx star of
           Done b \<Rightarrow> pending toks tx pi ti star = b
         | Continue pi' ti' star' \<Rightarrow>
             loop_inv toks tx pi' ti' star' \<and>
             pending toks tx pi' ti' star' = pending toks tx pi ti star"
proof (cases star)
  case None
  with stuck show ?thesis by (simp add: backtrack_def pending_def)
next
  case (Some p)
  then obtain sp st where star: "star = Some (sp, st)" by (cases p) auto
  show ?thesis
  proof (cases "st < length tx")
    case True
    have "(\<exists>k. st < k \<and> k \<le> length tx \<and> tok_match (drop sp toks) (drop k tx)) \<longleftrightarrow>
          tok_match (drop sp toks) (drop (Suc st) tx) \<or>
          (\<exists>k. Suc st < k \<and> k \<le> length tx \<and> tok_match (drop sp toks) (drop k tx))"
      using True by (auto simp: Suc_le_eq intro: Suc_lessD) (metis Suc_lessI)
    with True star inv stuck show ?thesis
      by (auto simp: backtrack_def pending_def loop_inv_def)
  next
    case False
    with star stuck show ?thesis by (auto simp: backtrack_def pending_def)
  qed
qed

lemma star_pending:
  assumes inv: "loop_inv toks tx pi ti star" and "pi < length toks" "toks ! pi = Star"
  shows "pending toks tx (Suc pi) ti (Some (Suc pi, ti)) = pending toks tx pi ti star"
proof -
  let ?rest = "drop (Suc pi) toks"
  have rest: "drop pi toks = Star # ?rest"
    using assms(2,3) by (metis Cons_nth_drop_Suc)
  have ti: "ti \<le> length tx" using inv by (simp add: loop_inv_def)
  have here: "tok_match (drop pi toks) (drop ti tx) \<longleftrightarrow>
              (\<exists>k. ti \<le> k \<and> k \<le> length tx \<and> tok_match ?rest (drop k tx))"
  proof -
    have "tok_match (drop pi toks) (drop ti tx) \<longleftrightarrow>
          (\<exists>j\<le>length tx - ti. tok_match ?rest (drop (j + ti) tx))"
      by (simp add: rest tok_match_Star)
    also have "\<dots> \<longleftrightarrow> (\<exists>k. ti \<le> k \<and> k \<le> length tx \<and> tok_match ?rest (drop k tx))"
      using ti by (metis add.commute diff_le_mono le_add2 le_add_diff_inverse2 le_diff_conv2)
    finally show ?thesis .
  qed
  have new: "pending toks tx (Suc pi) ti (Some (Suc pi, ti)) \<longleftrightarrow>
             (\<exists>k. ti \<le> k \<and> k \<le> length tx \<and> tok_match ?rest (drop k tx))"
    using ti by (auto simp: pending_def intro: less_imp_le) (metis le_neq_implies_less)
  have old: "tok_match (drop pi toks) (drop ti tx)"
    if star: "star = Some (sp, st)" and k: "st < k" "k \<le> length tx"
      and m: "tok_match (drop sp toks) (drop k tx)" for sp st k
  proof -
    let ?mid = "drop sp (take pi toks)"
    have sp: "sp \<le> pi" "ti = st + (pi - sp)" "Star \<notin> set ?mid" "length ?mid = pi - sp"
      using inv star assms(2) by (auto simp: loop_inv_def)
    from m have "tok_match (?mid @ drop pi toks) (drop k tx)"
      using drop_split [OF sp(1)] by metis
    from tok_match_starfree [OF sp(3) this]
    have len: "pi - sp \<le> length tx - k" and "tok_match (Star # ?rest) (drop (k + (pi - sp)) tx)"
      using sp(4) rest by (auto simp: add.commute)
    then obtain j where "j \<le> length tx - (k + (pi - sp))"
      "tok_match ?rest (drop (j + (k + (pi - sp))) tx)"
      by (auto simp: tok_match_Star)
    with len k sp(2) show ?thesis
      unfolding here by (intro exI [of _ "j + (k + (pi - sp))"]) auto
  qed
  show ?thesis
  proof (cases star)
    case None
    then show ?thesis using here new by (simp add: pending_def [of _ _ pi])
  next
    case (Some q)
    then obtain sp st where "star = Some (sp, st)" by (cases q) auto
    with old here new show ?thesis unfolding pending_def [of _ _ pi] by auto
  qed
qed

lemma match_step_pending:
  assumes inv: "loop_inv toks tx pi ti star"
  shows "case match_step toks tx pi ti star of
           Done b \<Rightarrow> pending toks tx pi ti star = b
         | Continue pi' ti' star' \<Rightarrow>
             loop_inv toks tx pi' ti' star' \<and>
             pending toks tx pi' ti' star' = pending toks tx pi ti star"
proof -
  have le: "pi \<le> length toks" "ti \<le> length tx" using inv by (auto simp: loop_inv_def)
  consider (star) "pi < length toks" "toks ! pi = Star"
    | (go) "pi < length toks" "toks ! pi \<noteq> Star" "ti < length tx"
        "token_accepts (toks ! pi) (tx ! ti)"
    | (fail) "pi < length toks" "toks ! pi \<noteq> Star"
        "\<not> (ti < length tx \<and> token_accepts (toks ! pi) (tx ! ti))"
    | (win) "pi = length toks" "ti = length tx"
    | (rest) "pi = length toks" "ti < length tx"
    using le by linarith
  then show ?thesis
  proof cases
    case star
    then have "loop_inv toks tx (Suc pi) ti (Some (Suc pi, ti))"
      using le by (simp add: loop_inv_def)
    with star star_pending [OF inv star] show ?thesis by (simp add: match_step_def)
  next
    case go
    have d: "drop pi toks = toks ! pi # drop (Suc pi) toks"
      "drop ti tx = tx ! ti # drop (Suc ti) tx"
      using go by (simp_all add: Cons_nth_drop_Suc)
    have "loop_inv toks tx (Suc pi) (Suc ti) star"
      using inv go by (auto simp: loop_inv_def drop_take_Suc split: option.splits)
    with go d show ?thesis by (auto simp: match_step_def pending_def tok_match_Cons)
  next
    case fail
    have d: "drop pi toks = toks ! pi # drop (Suc pi) toks"
      using fail by (simp add: Cons_nth_drop_Suc)
    have "\<not> tok_match (drop pi toks) (drop ti tx)"
      using fail by (auto simp: d tok_match_Cons hd_drop_conv_nth)
    with fail backtrack_pending [OF inv] show ?thesis by (auto simp: match_step_def)
  next
    case win
    then show ?thesis by (simp add: match_step_def pending_def)
  next
    case rest
    then have "\<not> tok_match (drop pi toks) (drop ti tx)" by simp
    with rest backtrack_pending [OF inv] show ?thesis by (auto simp: match_step_def)
  qed
qed

subsection \<open>The budget is enough\<close>

definition loop_rank :: "token list \<Rightarrow> str \<Rightarrow> nat \<Rightarrow> star_pos \<Rightarrow> nat" where
  "loop_rank toks tx pi star =
     (case star of None \<Rightarrow> length tx + 1 | Some (sp, st) \<Rightarrow> length tx - st) * (length toks + 1)
     + (length toks - pi)"

lemma match_step_rank:
  assumes inv: "loop_inv toks tx pi ti star"
    and step: "match_step toks tx pi ti star = Continue pi' ti' star'"
  shows "loop_rank toks tx pi' star' < loop_rank toks tx pi star"
proof -
  let ?T = "length toks" and ?N = "length tx"
  have retry: "loop_rank toks tx pi' star' < loop_rank toks tx pi star"
    if b: "backtrack tx star = Continue pi' ti' star'"
  proof -
    from b obtain sp st where q: "star = Some (sp, st)" "st < ?N" "pi' = sp" "star' = Some (sp, Suc st)"
      by (auto simp: backtrack_def split: option.splits if_splits)
    then have "?N - st = Suc (?N - Suc st)" by simp
    then have "loop_rank toks tx pi star = (?T + 1) + (?N - Suc st) * (?T + 1) + (?T - pi)"
      using q by (simp add: loop_rank_def del: mult_Suc_right)
    with q show ?thesis by (simp add: loop_rank_def del: mult_Suc_right)
  qed
  show ?thesis
  proof (cases "pi < ?T \<and> toks ! pi = Star")
    case True
    with step have q: "pi' = Suc pi" "star' = Some (Suc pi, ti)" by (auto simp: match_step_def)
    have "?N - ti \<le> (case star of None \<Rightarrow> ?N + 1 | Some (sp, st) \<Rightarrow> ?N - st)"
      using inv by (auto simp: loop_inv_def split: option.splits)
    then have "(?N - ti) * (?T + 1) \<le> (case star of None \<Rightarrow> ?N + 1 | Some (sp, st) \<Rightarrow> ?N - st) * (?T + 1)"
      by (rule mult_le_mono1)
    moreover have "?T - Suc pi < ?T - pi" using True by auto
    ultimately show ?thesis unfolding loop_rank_def q option.case prod.case by (rule add_le_less_mono)
  next
    case False
    with step retry show ?thesis
      by (auto simp: match_step_def loop_rank_def split: if_splits)
  qed
qed

lemma match_loop_decides:
  assumes "loop_inv toks tx pi ti star" and "steps + loop_rank toks tx pi star < limit"
  shows "match_loop toks tx limit steps pi ti star = Some (pending toks tx pi ti star)"
  using assms
proof (induction toks tx limit steps pi ti star rule: match_loop.induct)
  case (1 toks tx limit steps pi ti star)
  note sp = match_step_pending [OF "1.prems"(1)]
  show ?case
  proof (cases "match_step toks tx pi ti star")
    case (Done b)
    with sp "1.prems" show ?thesis by (simp add: match_loop.simps [of toks tx limit steps])
  next
    case (Continue pi' ti' star')
    with match_step_rank [OF "1.prems"(1)] "1.prems"(2)
    have "Suc steps + loop_rank toks tx pi' star' < limit" by fastforce
    with Continue sp "1.IH" [OF _ Continue] "1.prems"
    show ?thesis by (simp add: match_loop.simps [of toks tx limit steps])
  qed
qed

lemma step_limit_enough:
  assumes "t \<le> u" and "u \<le> MAX_UNITS" and "n \<le> MAX_UNITS"
  shows "(n + 1) * (t + 1) + t < step_limit u n"
proof -
  have "(n + 1) * (t + 1) \<le> (u + 1) * (n + 1)"
    using assms(1) by (metis add_le_mono1 mult.commute mult_le_mono1)
  moreover have "t \<le> (u + 1) * (n + 1)" using assms(1) by simp
  moreover have b: "(u + 1) * (n + 1) \<le> 16385 * 16385"
    using assms(2,3) by (intro mult_mono) (auto simp: MAX_UNITS_def)
  moreover from b have "step_limit u n = (u + 1) * (n + 1) * 4 + 8"
    by (simp add: step_limit_def saturating_mul_def saturating_add_def USIZE_MAX_def min_def)
  ultimately show ?thesis by linarith
qed

lemma match_tokens_decides:
  assumes "length toks \<le> u" and "u \<le> MAX_UNITS" and "length tx \<le> MAX_UNITS"
  shows "match_tokens toks u tx = Some (tok_match toks tx)"
proof -
  have "loop_rank toks tx 0 None = (length tx + 1) * (length toks + 1) + length toks"
    by (simp add: loop_rank_def)
  with step_limit_enough [OF assms] have "0 + loop_rank toks tx 0 None < step_limit u (length tx)"
    by simp
  from match_loop_decides [OF _ this] show ?thesis
    by (simp add: match_tokens_def loop_inv_def pending_def)
qed

section \<open>Compiled patterns\<close>

lemma length_compile_from: "length (compile_from pat i) \<le> length pat - i"
proof (induction pat i rule: compile_from.induct)
  case (1 pat i)
  show ?case
  proof (cases "i < length pat")
    case False
    then show ?thesis by (simp add: compile_from.simps [of pat i])
  next
    case True
    consider (star) "pat ! i = c_star" | (cls) cc close where "pat ! i = c_lbracket"
        "parse_class pat i = Some (cc, close)"
      | (other) "pat ! i \<noteq> c_star" "pat ! i = c_lbracket \<longrightarrow> parse_class pat i = None"
      by (cases "parse_class pat i") auto
    then show ?thesis
    proof cases
      case star
      have "scan_while (\<lambda>c. c = c_star) pat i = scan_while (\<lambda>c. c = c_star) pat (Suc i)"
        using True star by (subst scan_while.simps) simp
      with scan_while_ge [of "Suc i" "\<lambda>c. c = c_star" pat] "1.IH"(1) [OF True star] star True
      show ?thesis by (subst compile_from.simps) auto
    next
      case cls
      with parse_class_close [OF cls(2)] "1.IH"(4) [OF True _ _ cls(1) cls(2) refl] True
      show ?thesis by (subst compile_from.simps) auto
    next
      case other
      then have "length (compile_from pat (i + 1)) \<le> length pat - (i + 1)"
        using True "1.IH"(2,3,5) by blast
      moreover have "length (compile_from pat i) = Suc (length (compile_from pat (i + 1)))"
        using True other by (subst compile_from.simps) (auto split: option.splits)
      ultimately show ?thesis using True by simp
    qed
  qed
qed

definition within_caps :: "str \<Rightarrow> str \<Rightarrow> bool" where
  "within_caps pattern name \<longleftrightarrow> length pattern \<le> MAX_UNITS \<and> length name \<le> MAX_UNITS"

lemma byte_cap_redundant: "length s \<le> MAX_UNITS \<Longrightarrow> \<not> byte_len s > MAX_UNITS * 4"
  using byte_len_bounds [of s] by auto

lemma compile_eq:
  "compile p = (if length p \<le> MAX_UNITS
                then Some \<lparr>tokens = compile_from p 0, units = length p\<rparr> else None)"
  using byte_cap_redundant [of p] by (auto simp: compile_def)

lemma name_new_eq: "name_new s = (if length s \<le> MAX_UNITS then Some s else None)"
  using byte_cap_redundant [of s] by (auto simp: name_new_def)

lemma try_matches_eq:
  "try_matches p s = (if within_caps p s then Some (tok_match (compile_from p 0) s) else None)"
  using match_tokens_decides [of "compile_from p 0" "length p" s] length_compile_from [of p 0]
  by (auto simp: try_matches_def compile_eq name_new_eq pattern_try_matches_def within_caps_def)

lemma matches_eq: "matches p s \<longleftrightarrow> within_caps p s \<and> tok_match (compile_from p 0) s"
  by (simp add: matches_def try_matches_eq)

subsection \<open>Plain text and one star\<close>

definition plain_char :: "uchar \<Rightarrow> bool" where
  "plain_char c \<longleftrightarrow> c \<noteq> c_star \<and> c \<noteq> c_question \<and> c \<noteq> c_lbracket"

abbreviation plain :: "str \<Rightarrow> bool" where
  "plain p \<equiv> list_all plain_char p"

lemma compile_from_plain:
  assumes "i \<le> k" and "k \<le> length p" and "\<And>j. i \<le> j \<Longrightarrow> j < k \<Longrightarrow> plain_char (p ! j)"
  shows "compile_from p i = map Literal (drop i (take k p)) @ compile_from p k"
  using assms
proof (induction "k - i" arbitrary: i)
  case 0
  then show ?case by simp
next
  case (Suc n)
  then have i: "i < k" "i < length p" "plain_char (p ! i)" by auto
  then have "compile_from p i = Literal (p ! i) # compile_from p (Suc i)"
    by (subst compile_from.simps) (simp add: plain_char_def)
  moreover have "drop i (take k p) = p ! i # drop (Suc i) (take k p)"
    using i Suc.prems(2) by (metis Cons_nth_drop_Suc length_take min.absorb2 nth_take)
  ultimately show ?case using Suc.hyps(1) [of "Suc i"] Suc.hyps(2) Suc.prems by simp
qed

lemma compile_from_end [simp]: "compile_from p (length p) = []"
  by (subst compile_from.simps) simp

lemma compile_plain: "plain p \<Longrightarrow> compile_from p 0 = map Literal p"
  using compile_from_plain [of 0 "length p" p] by (simp add: list_all_length)

lemma compile_one_star:
  assumes "plain a" and "plain b"
  shows "compile_from (a @ c_star # b) 0 = map Literal a @ Star # map Literal b"
proof -
  let ?p = "a @ c_star # b"
  have "compile_from ?p 0 = map Literal a @ compile_from ?p (length a)"
    using compile_from_plain [of 0 "length a" ?p] assms(1)
    by (auto simp: list_all_length nth_append)
  moreover have "scan_while (\<lambda>c. c = c_star) ?p (length a) = Suc (length a)"
    using assms(2)
    by (subst scan_while.simps, subst scan_while.simps)
       (auto simp: nth_append list_all_length plain_char_def)
  then have "compile_from ?p (length a) = Star # compile_from ?p (Suc (length a))"
    by (subst compile_from.simps) simp
  moreover have "compile_from ?p (Suc (length a)) = map Literal b"
    using compile_from_plain [of "Suc (length a)" "length ?p" ?p] compile_from_end [of ?p] assms(2)
    by (auto simp: nth_append list_all_length)
  ultimately show ?thesis by simp
qed

lemma tok_match_Literal: "tok_match (Literal c # ts) s \<longleftrightarrow> (\<exists>r. s = c # r \<and> tok_match ts r)"
  by (cases s) (auto simp: tok_match_Cons token_accepts_def)

lemma tok_match_plain: "tok_match (map Literal p @ ts) s \<longleftrightarrow> (\<exists>r. s = p @ r \<and> tok_match ts r)"
  by (induction p arbitrary: s) (auto simp: tok_match_Literal)

lemma tok_match_Star_iff: "tok_match (Star # ts) s \<longleftrightarrow> (\<exists>m r. s = m @ r \<and> tok_match ts r)"
proof
  assume "tok_match (Star # ts) s"
  then obtain k where "tok_match ts (drop k s)" by (auto simp: tok_match_Star)
  then show "\<exists>m r. s = m @ r \<and> tok_match ts r" by (metis append_take_drop_id)
next
  assume "\<exists>m r. s = m @ r \<and> tok_match ts r"
  then obtain m r where "s = m @ r" "tok_match ts r" by blast
  then show "tok_match (Star # ts) s"
    by (auto simp: tok_match_Star intro!: exI [of _ "length m"])
qed

lemmas tok_match_iffs = tok_match_plain tok_match_Star_iff tok_match_Literal

lemma matches_plain_iff: "plain p \<Longrightarrow> matches p s \<longleftrightarrow> s = p \<and> length p \<le> MAX_UNITS"
  using tok_match_plain [of p "[]" s] by (auto simp: matches_eq compile_plain within_caps_def)

subsection \<open>Bracketed sets\<close>

lemma parse_class_body:
  assumes neg: "char_at pat (opn + 1) = Some c_bang \<longleftrightarrow> neg"
    and bs: "bs = (if neg then opn + 2 else opn + 1)"
    and dr: "drop bs pat = body @ c_rbracket # r"
    and body: "body \<noteq> []" "c_rbracket \<notin> set body" "c_dash \<notin> set body"
  shows "parse_class pat opn =
         Some (\<lparr>negated = neg, singles = body, ranges = []\<rparr>, bs + length body)"
proof -
  have lt: "bs < length pat" using dr by (metis drop_all leI list.discI Nil_is_append_conv)
  have len: "length pat = bs + length body + 1 + length r"
    using arg_cong [OF dr, of length] lt by auto
  have "pat ! bs = hd body" using dr lt body(1) by (metis hd_append2 hd_drop_conv_nth)
  then have first: "char_at pat bs \<noteq> Some c_rbracket"
    using body(1,2) by (metis char_at_def hd_in_set option.inject option.distinct(1))
  have "takeWhile (\<lambda>c. c \<noteq> c_rbracket) (drop bs pat) = body"
    unfolding dr using body(2) by (subst takeWhile_append2) auto
  then have sc: "scan_while (\<lambda>c. c \<noteq> c_rbracket) pat bs = bs + length body"
    using lt by (subst scan_while_eq) auto
  have cut: "drop bs (take (bs + length body) pat) = body"
    by (simp add: drop_take dr)
  have "bs + length body < length pat" using len by simp
  with neg first sc cut body show ?thesis
    unfolding parse_class_def Let_def neg bs [symmetric] by (simp add: List.member_iff)
qed

lemma tok_match_Class_single:
  "tok_match [Class cc] s \<longleftrightarrow> (\<exists>c. s = [c] \<and> class_contains cc c)"
  by (cases s) (auto simp: tok_match_Cons token_accepts_def)

lemma compile_class:
  assumes "pat ! i = c_lbracket" "i < length pat" "parse_class pat i = Some (cc, close)"
  shows "compile_from pat i = Class cc # compile_from pat (close + 1)"
  using assms by (subst compile_from.simps) simp

definition bracketed :: "bool \<Rightarrow> str \<Rightarrow> str" where
  "bracketed neg body = c_lbracket # (if neg then [c_bang] else []) @ body @ [c_rbracket]"

lemma compile_bracketed:
  assumes "body \<noteq> []" "c_rbracket \<notin> set body" "c_dash \<notin> set body" "hd body \<noteq> c_bang"
  shows "compile_from (bracketed neg body) 0 = [Class \<lparr>negated = neg, singles = body, ranges = []\<rparr>]"
proof -
  let ?p = "bracketed neg body" and ?bs = "if neg then 2 else 1 :: nat"
  have "char_at ?p (0 + 1) = Some c_bang \<longleftrightarrow> neg"
    using assms(1,4) by (cases body) (auto simp: char_at_def bracketed_def)
  moreover have "drop ?bs ?p = body @ c_rbracket # []"
    by (simp add: bracketed_def numeral_2_eq_2)
  ultimately have "parse_class ?p 0 =
      Some (\<lparr>negated = neg, singles = body, ranges = []\<rparr>, ?bs + length body)"
    using assms by (intro parse_class_body) auto
  from compile_class [OF _ _ this]
  have "compile_from ?p 0 = Class \<lparr>negated = neg, singles = body, ranges = []\<rparr> #
      compile_from ?p (?bs + length body + 1)" by (simp add: bracketed_def)
  moreover have "?bs + length body + 1 = length ?p" by (simp add: bracketed_def)
  ultimately show ?thesis by (metis compile_from_end)
qed

section \<open>Properties\<close>

text \<open>
  C7. The matcher is total within its size caps: for every pattern and name of at most
  \<open>MAX_UNITS\<close> scalars the loop answers before its step budget runs out, and the answer is the
  meaning of the compiled pattern; past the caps, and only there, the answer is undecided.
\<close>

theorem try_matches_decides:
  "try_matches p s =
     (if length p \<le> MAX_UNITS \<and> length s \<le> MAX_UNITS
      then Some (tok_match (compile_from p 0) s) else None)"
  by (simp add: try_matches_eq within_caps_def)

text \<open>
  A star stands for any run of characters, path separators included: a pattern of plain text
  around one star matches exactly the names that start and end with those texts (apart).
\<close>

theorem star_crosses_separators:
  assumes "plain a" and "plain b" and "length a + length b < MAX_UNITS" and "length s \<le> MAX_UNITS"
  shows "matches (a @ c_star # b) s \<longleftrightarrow> (\<exists>m. s = a @ m @ b)"
  using assms tok_match_plain [of b "[]"]
  by (auto simp: matches_eq compile_one_star tok_match_plain tok_match_Star_iff within_caps_def)

theorem star_crosses_separators_witness:
  "matches (lit ''src/*.rs'') (lit ''src/a/b.rs'')"
proof -
  have "matches (lit ''src/'' @ c_star # lit ''.rs'') (lit ''src/a/b.rs'') \<longleftrightarrow>
      (\<exists>m. lit ''src/a/b.rs'' = lit ''src/'' @ m @ lit ''.rs'')"
    by (rule star_crosses_separators) (simp_all add: plain_char_def MAX_UNITS_def)
  moreover have "lit ''src/a/b.rs'' = lit ''src/'' @ lit ''a/b'' @ lit ''.rs''" by simp
  ultimately show ?thesis by simp
qed

text \<open>
  A set without ranges matches one character: a member, or with a leading \<open>!\<close> a character that
  is none of them. A caret in the set is a member like any other.
\<close>

theorem bracketed_set:
  assumes "body \<noteq> []" and "c_rbracket \<notin> set body" and "c_dash \<notin> set body" and "hd body \<noteq> c_bang"
    and "length body + 3 \<le> MAX_UNITS" and "length s \<le> MAX_UNITS"
  shows "matches (bracketed neg body) s \<longleftrightarrow> (\<exists>c. s = [c] \<and> (c \<in> set body) \<noteq> neg)"
proof -
  have "within_caps (bracketed neg body) s"
    using assms(5,6) by (simp add: within_caps_def bracketed_def)
  then show ?thesis
    by (simp add: matches_eq compile_bracketed assms(1-4) tok_match_Class_single
        class_contains_def List.member_iff)
qed

theorem bracketed_set_witness:
  "matches (lit ''[^a]'') (lit ''^'') \<and> \<not> matches (lit ''[!a]'') (lit ''a'')"
proof -
  have "bracketed False (lit ''^a'') = lit ''[^a]''" "bracketed True (lit ''a'') = lit ''[!a]''"
    by (simp_all add: bracketed_def)
  moreover have "matches (bracketed False (lit ''^a'')) (lit ''^'') \<longleftrightarrow>
      (\<exists>c. lit ''^'' = [c] \<and> (c \<in> set (lit ''^a'')) \<noteq> False)"
    by (rule bracketed_set) (simp_all add: MAX_UNITS_def)
  moreover have "matches (bracketed True (lit ''a'')) (lit ''a'') \<longleftrightarrow>
      (\<exists>c. lit ''a'' = [c] \<and> (c \<in> set (lit ''a'')) \<noteq> True)"
    by (rule bracketed_set) (simp_all add: MAX_UNITS_def)
  ultimately show ?thesis by auto
qed

end
