(* ===== verification/Scope.thy ===== *)
theory Scope
  imports Diff_Format Glob
begin

text \<open>
  The scope check of \<^verbatim>\<open>rust/dc-verify/src/lib.rs\<close>: changed paths judged against the planned entries of
  a task. The matcher is a parameter of the loop; \<open>classify_scope\<close> applies it to the dc-glob model,
  and what the check relies on of a matcher is the locale \<open>path_matcher\<close>.
\<close>

section \<open>Definitions\<close>

record scope_report =
  sr_in_scope :: "str list"
  sr_orphans :: "str list"
  sr_untouched_planned :: "str list"

definition is_clean :: "scope_report \<Rightarrow> bool" where
  "is_clean r = (sr_orphans r = [])"

definition normalize_candidate :: "str \<Rightarrow> str" where
  "normalize_candidate path = strip_dot_slash (replace_char c_backslash c_slash path)"

text \<open>The inner loop over the patterns: which of them the candidate hits.\<close>

definition pattern_hits :: "(str \<Rightarrow> str \<Rightarrow> bool) \<Rightarrow> str list \<Rightarrow> str \<Rightarrow> bool list" where
  "pattern_hits m patterns candidate = map (\<lambda>p. candidate = p \<or> m p candidate) patterns"

record scope_state =
  ss_in_scope :: "str list"
  ss_orphans :: "str list"
  ss_matched :: "bool list"

definition classify_path ::
  "(str \<Rightarrow> str \<Rightarrow> bool) \<Rightarrow> str list \<Rightarrow> scope_state \<Rightarrow> str \<Rightarrow> scope_state" where
  "classify_path m patterns st path =
     (let candidate = normalize_candidate path;
          hits = pattern_hits m patterns candidate;
          st' = st\<lparr>ss_matched := map2 (\<or>) (ss_matched st) hits\<rparr>
      in if list_ex id hits
         then st'\<lparr>ss_in_scope := ss_in_scope st' @ [candidate]\<rparr>
         else st'\<lparr>ss_orphans := ss_orphans st' @ [candidate]\<rparr>)"

definition classify_scope_with ::
  "(str \<Rightarrow> str \<Rightarrow> bool) \<Rightarrow> file_diff list \<Rightarrow> str list \<Rightarrow> scope_report" where
  "classify_scope_with m files planned =
     (let patterns = map normalize_candidate planned;
          st = foldl (classify_path m patterns)
                 \<lparr>ss_in_scope = [], ss_orphans = [], ss_matched = map (\<lambda>_. False) planned\<rparr>
                 (changed_paths files);
          untouched = map snd (filter (\<lambda>(hit, _). \<not> hit) (zip (ss_matched st) planned))
      in \<lparr>sr_in_scope = sort (ss_in_scope st), sr_orphans = sort (ss_orphans st),
          sr_untouched_planned = sort untouched\<rparr>)"

definition classify_scope :: "file_diff list \<Rightarrow> str list \<Rightarrow> scope_report" where
  "classify_scope files planned = classify_scope_with matches files planned"

section \<open>Normalised paths\<close>

lemma replace_char_id: "a \<noteq> b \<Longrightarrow> a \<notin> set s \<Longrightarrow> replace_char a b s = s"
  unfolding replace_char_def by (rule map_idI) auto

lemma set_replace_char: "a \<noteq> b \<Longrightarrow> a \<notin> set (replace_char a b s)"
  by (auto simp: replace_char_def)

lemma normalize_no_backslash: "c_backslash \<notin> set (normalize_candidate p)"
  using set_strip_dot_slash set_replace_char [of c_backslash c_slash p]
  by (fastforce simp: normalize_candidate_def)

lemma normalize_idem [simp]: "normalize_candidate (normalize_candidate p) = normalize_candidate p"
proof -
  have "replace_char c_backslash c_slash (normalize_candidate p) = normalize_candidate p"
    by (rule replace_char_id) (simp_all add: normalize_no_backslash)
  then show ?thesis
    by (subst normalize_candidate_def) (simp add: normalize_candidate_def)
qed

section \<open>What the loop computes\<close>

definition covers :: "(str \<Rightarrow> str \<Rightarrow> bool) \<Rightarrow> str \<Rightarrow> str \<Rightarrow> bool" where
  "covers m entry path =
     (let p = normalize_candidate entry; c = normalize_candidate path in c = p \<or> m p c)"

lemma list_ex_pattern_hits:
  "list_ex id (pattern_hits m (map normalize_candidate planned) (normalize_candidate path)) \<longleftrightarrow>
   list_ex (\<lambda>e. covers m e path) planned"
  by (simp add: pattern_hits_def covers_def list_ex_iff Let_def)

lemma matched_after:
  "length fl = length planned \<Longrightarrow>
   map2 (\<or>) fl (pattern_hits m (map normalize_candidate planned) (normalize_candidate path)) =
   map2 (\<lambda>b e. b \<or> covers m e path) fl planned"
  by (rule nth_equalityI) (auto simp: pattern_hits_def covers_def Let_def)

lemma map2_twice:
  "map2 g (map2 f xs ys) ys = map2 (\<lambda>x y. g (f x y) y) xs ys"
  by (induction xs arbitrary: ys) (auto simp: zip_Cons1 split: list.splits)

lemma classify_paths:
  fixes m :: "str \<Rightarrow> str \<Rightarrow> bool"
  defines "hit \<equiv> \<lambda>planned path. list_ex (\<lambda>e. covers m e path) planned"
  assumes "length (ss_matched st) = length planned"
  shows "foldl (classify_path m (map normalize_candidate planned)) st paths =
    \<lparr>ss_in_scope = ss_in_scope st @ map normalize_candidate (filter (hit planned) paths),
     ss_orphans = ss_orphans st @ map normalize_candidate (filter (\<lambda>p. \<not> hit planned p) paths),
     ss_matched = map2 (\<lambda>b e. b \<or> list_ex (covers m e) paths) (ss_matched st) planned\<rparr>"
  using assms(2)
proof (induction paths arbitrary: st)
  case Nil
  then show ?case
    by (cases st) (auto simp: map2_map_map intro!: nth_equalityI)
next
  case (Cons path paths)
  let ?st = "classify_path m (map normalize_candidate planned) st path"
  have m: "ss_matched ?st = map2 (\<lambda>b e. b \<or> covers m e path) (ss_matched st) planned"
    using matched_after [OF Cons.prems] by (simp add: classify_path_def Let_def)
  then have len: "length (ss_matched ?st) = length planned" using Cons.prems by simp
  have io: "ss_in_scope ?st = ss_in_scope st @ (if hit planned path then [normalize_candidate path] else [])"
    "ss_orphans ?st = ss_orphans st @ (if hit planned path then [] else [normalize_candidate path])"
    by (simp_all add: classify_path_def Let_def list_ex_pattern_hits hit_def)
  show ?case
    unfolding foldl.simps Cons.IH [OF len] m io by (simp add: map2_twice disj_assoc)
qed

lemma classify_scope_with_eq:
  "classify_scope_with m files planned =
   \<lparr>sr_in_scope = sort (map normalize_candidate
        (filter (\<lambda>p. list_ex (\<lambda>e. covers m e p) planned) (changed_paths files))),
    sr_orphans = sort (map normalize_candidate
        (filter (\<lambda>p. \<not> list_ex (\<lambda>e. covers m e p) planned) (changed_paths files))),
    sr_untouched_planned = sort (filter (\<lambda>e. \<not> list_ex (covers m e) (changed_paths files)) planned)\<rparr>"
proof -
  let ?hit = "\<lambda>e. list_ex (covers m e) (changed_paths files)"
  have fl: "map2 (\<lambda>b e. b \<or> ?hit e) (map (\<lambda>_. False) planned) planned = map ?hit planned"
    by (rule nth_equalityI) auto
  have "map snd (filter (\<lambda>(h, _). \<not> h) (zip (map ?hit planned) planned)) =
      filter (\<lambda>e. \<not> ?hit e) planned"
    by (induction planned) auto
  then show ?thesis
    by (simp add: classify_scope_with_def Let_def classify_paths fl)
qed

section \<open>What the check relies on of a matcher\<close>

text \<open>
  The laws of \<open>dc_glob::matches\<close> the plan entries depend on: text without metacharacters matches
  only itself, and \<open>dir/*\<close> reaches everything below \<open>dir\<close> (up to the matcher's size cap).
\<close>

locale path_matcher =
  fixes m :: "str \<Rightarrow> str \<Rightarrow> bool" and cap :: nat
  assumes plain_match: "plain p \<Longrightarrow> m p s \<Longrightarrow> s = p"
    and tree_match: "plain d \<Longrightarrow> length (d @ r) < cap \<Longrightarrow> m (d @ [c_slash, c_star]) (d @ c_slash # r)"
    and tree_only: "plain d \<Longrightarrow> m (d @ [c_slash, c_star]) s \<Longrightarrow> \<exists>r. s = d @ c_slash # r"
begin

lemma covers_plain:
  "plain (normalize_candidate e) \<Longrightarrow>
   covers m e path \<longleftrightarrow> normalize_candidate path = normalize_candidate e"
  using plain_match by (auto simp: covers_def Let_def)

lemma in_scope_iff:
  "p \<in> set (sr_in_scope (classify_scope_with m files planned)) \<longleftrightarrow>
   (\<exists>path\<in>set (changed_paths files). p = normalize_candidate path \<and>
     list_ex (\<lambda>e. covers m e path) planned)"
  by (auto simp: classify_scope_with_eq)

lemma orphans_iff:
  "p \<in> set (sr_orphans (classify_scope_with m files planned)) \<longleftrightarrow>
   (\<exists>path\<in>set (changed_paths files). p = normalize_candidate path \<and>
     \<not> list_ex (\<lambda>e. covers m e path) planned)"
  by (auto simp: classify_scope_with_eq)

lemma partition:
  "mset (sr_in_scope (classify_scope_with m files planned)) +
   mset (sr_orphans (classify_scope_with m files planned)) =
   mset (map normalize_candidate (changed_paths files))"
  by (simp only: classify_scope_with_eq scope_report.simps mset_sort mset_map_filter_split)

lemma clean_iff:
  "is_clean (classify_scope_with m files planned) \<longleftrightarrow>
   list_all (\<lambda>path. list_ex (\<lambda>e. covers m e path) planned) (changed_paths files)"
  by (auto simp: is_clean_def classify_scope_with_eq filter_empty_conv list_all_iff)

lemma clean_plain:
  assumes "list_all (\<lambda>e. plain (normalize_candidate e)) planned"
  shows "is_clean (classify_scope_with m files planned) \<longleftrightarrow>
    set (map normalize_candidate (changed_paths files)) \<subseteq> set (map normalize_candidate planned)"
  using assms covers_plain by (fastforce simp: clean_iff list_all_iff list_ex_iff)

lemma orphans_antimono:
  "set planned \<subseteq> set planned' \<Longrightarrow>
   set (sr_orphans (classify_scope_with m files planned')) \<subseteq>
   set (sr_orphans (classify_scope_with m files planned))"
  unfolding subset_iff orphans_iff list_ex_iff by blast

end

lemma matches_tree:
  assumes "plain d"
  shows "matches (d @ [c_slash, c_star]) s \<longleftrightarrow>
    (\<exists>r. s = d @ c_slash # r) \<and> length d + 2 \<le> MAX_UNITS \<and> length s \<le> MAX_UNITS"
proof -
  have "compile_from (d @ [c_slash, c_star]) 0 = map Literal (d @ [c_slash]) @ Star # map Literal []"
    using compile_one_star [of "d @ [c_slash]" "[]"] assms by (simp add: plain_char_def)
  moreover have "tok_match (Star # map Literal []) r" for r
    unfolding tok_match_Star_iff by (intro exI [of _ r] exI [of _ "[]"]) simp
  ultimately have "tok_match (compile_from (d @ [c_slash, c_star]) 0) s \<longleftrightarrow> (\<exists>r. s = (d @ [c_slash]) @ r)"
    by (simp only: tok_match_plain) simp
  then show ?thesis by (auto simp: matches_eq within_caps_def)
qed

interpretation dc_glob: path_matcher matches "MAX_UNITS - 1"
  by unfold_locales (auto simp: matches_plain_iff matches_tree)

section \<open>Properties of the scope check\<close>

text \<open>The plan allows a normalised path: it is an entry, or the declarative meaning of one covers it.\<close>

definition allowed :: "str list \<Rightarrow> str \<Rightarrow> bool" where
  "allowed planned p \<longleftrightarrow>
     (\<exists>e\<in>set planned. let q = normalize_candidate e
        in p = q \<or> length q \<le> MAX_UNITS \<and> length p \<le> MAX_UNITS \<and> tok_match (compile_from q 0) p)"

lemma allowed_covers: "list_ex (\<lambda>e. covers matches e path) planned \<longleftrightarrow> allowed planned (normalize_candidate path)"
  by (simp add: allowed_def covers_def list_ex_iff matches_eq within_caps_def Let_def)

text \<open>
  C37. Every changed path, rename sources included, is reported once for each time the diff changes it,
  in its normalised spelling and in exactly one of two sorted lists: in scope when it is a planned
  entry or in the meaning of a planned pattern, an orphan when it is neither. So no spelling of one
  path is in scope while another is an orphan. The untouched entries are those that allow no changed
  path, in order.
\<close>

theorem scope_partition:
  "let r = classify_scope files planned; paths = map normalize_candidate (changed_paths files)
   in mset (sr_in_scope r) + mset (sr_orphans r) = mset paths \<and>
      sorted (sr_in_scope r) \<and> sorted (sr_orphans r) \<and>
      set (sr_in_scope r) = {p \<in> set paths. allowed planned p} \<and>
      set (sr_orphans r) = {p \<in> set paths. \<not> allowed planned p} \<and>
      sr_untouched_planned r = sort (filter (\<lambda>e. \<not> (\<exists>p\<in>set paths. allowed [e] p)) planned)"
proof -
  let ?r = "classify_scope files planned" and ?paths = "map normalize_candidate (changed_paths files)"
  have "mset (sr_in_scope ?r) + mset (sr_orphans ?r) = mset ?paths"
    unfolding classify_scope_def by (rule dc_glob.partition)
  moreover have "sorted (sr_in_scope ?r)" "sorted (sr_orphans ?r)"
    by (simp_all add: classify_scope_def classify_scope_with_eq)
  moreover have "set (sr_in_scope ?r) = {p \<in> set ?paths. allowed planned p}"
      "set (sr_orphans ?r) = {p \<in> set ?paths. \<not> allowed planned p}"
    unfolding classify_scope_def by (auto simp: dc_glob.in_scope_iff dc_glob.orphans_iff allowed_covers)
  moreover have "list_ex (covers matches e) ps \<longleftrightarrow> (\<exists>p\<in>normalize_candidate ` set ps. allowed [e] p)" for e ps
    using allowed_covers [of _ "[e]"] by (auto simp: list_ex_iff)
  then have "sr_untouched_planned ?r = sort (filter (\<lambda>e. \<not> (\<exists>p\<in>set ?paths. allowed [e] p)) planned)"
    by (simp add: classify_scope_def classify_scope_with_eq)
  ultimately show ?thesis by (simp only: Let_def)
qed

text \<open>
  With a plan of literal entries the scope is clean exactly when every changed path is one of
  them, both sides read with backslashes and leading \<open>./\<close> normalised; and the report of untouched
  entries is then exactly the entries no changed path equals.
\<close>

theorem scope_of_literal_plan:
  assumes "list_all (\<lambda>e. plain (normalize_candidate e)) planned"
  shows "(is_clean (classify_scope files planned) \<longleftrightarrow>
      set (map normalize_candidate (changed_paths files)) \<subseteq> set (map normalize_candidate planned)) \<and>
    sr_untouched_planned (classify_scope files planned) =
      sort (filter (\<lambda>e. normalize_candidate e \<notin> set (map normalize_candidate (changed_paths files))) planned)"
proof
  show "is_clean (classify_scope files planned) \<longleftrightarrow>
      set (map normalize_candidate (changed_paths files)) \<subseteq> set (map normalize_candidate planned)"
    unfolding classify_scope_def by (rule dc_glob.clean_plain [OF assms])
  have "list_ex (covers matches e) ps \<longleftrightarrow> normalize_candidate e \<in> set (map normalize_candidate ps)"
    if "e \<in> set planned" for e ps
  proof -
    have "plain (normalize_candidate e)" using assms that by (simp add: list_all_iff)
    then show ?thesis by (auto simp: list_ex_iff dc_glob.covers_plain image_iff intro: sym)
  qed
  then show "sr_untouched_planned (classify_scope files planned) =
      sort (filter (\<lambda>e. normalize_candidate e \<notin> set (map normalize_candidate (changed_paths files))) planned)"
    by (simp add: classify_scope_def classify_scope_with_eq cong: filter_cong)
qed

text \<open>
  A plan naming only the destination of a rename does not authorise it: a rename whose source
  no entry covers leaves that source among the orphans, and the scope is not clean.
\<close>

theorem rename_source_is_orphan:
  assumes "f \<in> set files" and "fd_status f = Renamed" and "fd_old_path f = Some old"
    and "old \<noteq> fd_path f" and "\<not> list_ex (\<lambda>e. covers matches e old) planned"
  shows "normalize_candidate old \<in> set (sr_orphans (classify_scope files planned)) \<and>
    \<not> is_clean (classify_scope files planned)"
proof -
  have "old \<in> set (changed_paths_of f)" using assms(2-4) by (simp add: changed_paths_of_def)
  then have "old \<in> set (changed_paths files)" using assms(1) by (auto simp: changed_paths_def)
  then have "normalize_candidate old \<in> set (sr_orphans (classify_scope files planned))"
    unfolding classify_scope_def dc_glob.orphans_iff using assms(5) by blast
  then show ?thesis by (auto simp: is_clean_def)
qed

text \<open>
  Widening a plan never makes a file an orphan: entries added to a plan, in any order and
  with any pattern, only shrink the set of orphans.
\<close>

theorem wider_plan_fewer_orphans:
  assumes "set planned \<subseteq> set planned'"
  shows "set (sr_orphans (classify_scope files planned')) \<subseteq> set (sr_orphans (classify_scope files planned))"
  unfolding classify_scope_def by (rule dc_glob.orphans_antimono [OF assms])

definition demo_plan :: "str list" where "demo_plan = [lit ''./a b.c'', lit ''new'', lit ''gone'']"

theorem scope_of_literal_plan_witness:
  "\<not> is_clean (classify_scope demo_files demo_plan) \<and>
   sr_untouched_planned (classify_scope demo_files demo_plan) = [lit ''gone'']"
proof -
  have "list_all (\<lambda>e. plain (normalize_candidate e)) demo_plan"
    by (simp add: demo_plan_def normalize_candidate_def replace_char_def plain_char_def)
  note * = scope_of_literal_plan [OF this]
  show ?thesis
    unfolding * [THEN conjunct1] * [THEN conjunct2]
    by (simp add: demo_plan_def normalize_candidate_def replace_char_def demo_files_def
        changed_paths_def changed_paths_of_def)
qed

theorem rename_source_is_orphan_witness:
  "lit ''old'' \<in> set (sr_orphans (classify_scope demo_files demo_plan))"
proof -
  have "plain (normalize_candidate e)" if "e \<in> set demo_plan" for e
    using that by (auto simp: demo_plan_def normalize_candidate_def replace_char_def plain_char_def)
  then have "\<not> list_ex (\<lambda>e. covers matches e (lit ''old'')) demo_plan"
    by (simp add: list_ex_iff dc_glob.covers_plain)
      (simp add: demo_plan_def normalize_candidate_def replace_char_def)
  then have "normalize_candidate (lit ''old'') \<in> set (sr_orphans (classify_scope demo_files demo_plan))"
    using rename_source_is_orphan [of "demo_files ! 1" demo_files "lit ''old''" demo_plan]
    by (simp add: demo_files_def)
  then show ?thesis by (simp add: normalize_candidate_def replace_char_def)
qed

theorem wider_plan_fewer_orphans_witness:
  "set (sr_orphans (classify_scope demo_files demo_plan)) \<subseteq> set (sr_orphans (classify_scope demo_files []))"
  by (rule wider_plan_fewer_orphans) simp

end
