(* ===== verification/Substance.thy ===== *)
theory Substance
  imports Diff
begin

text \<open>
  The substance gate, \<^verbatim>\<open>rust/dc-verify/src/substance.rs\<close>: every added line of a parsed diff falls into one
  of five buckets. The Unicode tables behind \<open>char::is_alphanumeric\<close> and \<open>char::to_lowercase\<close> are the
  parameters \<open>alnum\<close> and \<open>lower\<close>; \<open>HashSet<&str>\<close> is a set of strings.
\<close>

section \<open>Definitions\<close>

datatype line_class = Substantive | Trivial | Moved | Repeated | Generated

record file_substance =
  fs_path :: str
  fs_added_lines :: nat
  fs_substantive_lines :: nat

record substance_report =
  su_added_lines :: nat
  su_substantive_lines :: nat
  su_trivial :: nat
  su_moved :: nat
  su_repeated :: nat
  su_generated :: nat
  su_files :: "file_substance list"

definition MIN_LINES_TO_JUDGE :: nat where "MIN_LINES_TO_JUDGE = 20"
definition LOW_SUBSTANCE_NUMERATOR :: nat where "LOW_SUBSTANCE_NUMERATOR = 1"
definition LOW_SUBSTANCE_DENOMINATOR :: nat where "LOW_SUBSTANCE_DENOMINATOR = 4"

definition judged :: "substance_report \<Rightarrow> bool" where
  "judged r = (su_added_lines r \<ge> MIN_LINES_TO_JUDGE)"

definition is_low :: "substance_report \<Rightarrow> bool" where
  "is_low r =
     (judged r \<and>
      su_substantive_lines r * LOW_SUBSTANCE_DENOMINATOR < su_added_lines r * LOW_SUBSTANCE_NUMERATOR)"

definition STRUCTURAL_WORDS :: "str list" where
  "STRUCTURAL_WORDS = map lit
     [''else'', ''end'', ''end;'', ''endif'', ''#endif'', ''fi'', ''done'', ''esac'', ''endfunction'',
      ''endmodule'', ''endwhile'', ''endfor'', ''then'', ''do'', ''begin'', ''loop'', ''}else{'']"

definition squeeze :: "(uchar \<Rightarrow> bool) \<Rightarrow> (uchar \<Rightarrow> str) \<Rightarrow> str \<Rightarrow> str" where
  "squeeze alnum lower s = concat (map lower (filter alnum s))"

text \<open>The run counter: false as soon as three alphanumeric characters stand together.\<close>

fun no_long_run :: "(uchar \<Rightarrow> bool) \<Rightarrow> nat \<Rightarrow> str \<Rightarrow> bool" where
  "no_long_run alnum run [] = True"
| "no_long_run alnum run (c # cs) =
     (if alnum c then (if run + 1 \<ge> 3 then False else no_long_run alnum (run + 1) cs)
      else no_long_run alnum 0 cs)"

definition is_trivial :: "(uchar \<Rightarrow> bool) \<Rightarrow> (uchar \<Rightarrow> str) \<Rightarrow> str \<Rightarrow> bool" where
  "is_trivial alnum lower trimmed =
     (if trimmed = [] then True
      else let squeezed = squeeze alnum lower trimmed
           in if squeezed \<noteq> [] \<and>
                 list_ex (\<lambda>word. squeeze alnum lower word = squeezed) STRUCTURAL_WORDS
              then True
              else no_long_run alnum 0 trimmed)"

definition GENERATED_SEGMENTS :: "str list" where
  "GENERATED_SEGMENTS = map lit
     [''vendor'', ''node_modules'', ''third_party'', ''thirdparty'', ''__pycache__'', ''__snapshots__'']"

definition GENERATED_NAMES :: "str list" where
  "GENERATED_NAMES = map lit
     [''Cargo.lock'', ''package-lock.json'', ''pnpm-lock.yaml'', ''yarn.lock'', ''go.sum'', ''poetry.lock'',
      ''Gemfile.lock'', ''composer.lock'', ''uv.lock'', ''Pipfile.lock'']"

definition GENERATED_SUFFIXES :: "str list" where
  "GENERATED_SUFFIXES = map lit
     [''.pb.go'', ''.pb.cc'', ''.pb.h'', ''_pb2.py'', ''_pb2_grpc.py'', ''_generated.go'', ''_gen.go'',
      ''.generated.ts'', ''.generated.js'', ''.g.dart'', ''.freezed.dart'', ''.min.js'', ''.min.css'', ''.snap'']"

definition path_sep :: "uchar \<Rightarrow> bool" where
  "path_sep c = (c = c_slash \<or> c = c_backslash)"

definition is_generated_path :: "str \<Rightarrow> bool" where
  "is_generated_path path =
     (if list_ex (\<lambda>segment. segment \<in> set GENERATED_SEGMENTS) (split_on path_sep path) then True
      else let name = last (split_on path_sep path)
           in if name \<in> set GENERATED_NAMES then True
              else list_ex (\<lambda>suffix. ends_with suffix name) GENERATED_SUFFIXES)"

definition classify_line ::
  "(uchar \<Rightarrow> bool) \<Rightarrow> (uchar \<Rightarrow> str) \<Rightarrow> str \<Rightarrow> bool \<Rightarrow> str set \<Rightarrow> bool \<Rightarrow> line_class" where
  "classify_line alnum lower trimmed gen removed first_occurrence =
     (if gen then Generated
      else if is_trivial alnum lower trimmed then Trivial
      else if trimmed \<in> removed then Moved
      else if \<not> first_occurrence then Repeated
      else Substantive)"

fun count_class :: "line_class \<Rightarrow> substance_report \<Rightarrow> substance_report" where
  "count_class Substantive r = r\<lparr>su_substantive_lines := su_substantive_lines r + 1\<rparr>"
| "count_class Trivial r = r\<lparr>su_trivial := su_trivial r + 1\<rparr>"
| "count_class Moved r = r\<lparr>su_moved := su_moved r + 1\<rparr>"
| "count_class Repeated r = r\<lparr>su_repeated := su_repeated r + 1\<rparr>"
| "count_class Generated r = r\<lparr>su_generated := su_generated r + 1\<rparr>"

record measure_state =
  ms_seen_added :: "str set"
  ms_report :: substance_report
  ms_file_substantive :: nat

text \<open>One added line: the body of the inner loop of \<open>measure\<close>.\<close>

definition measure_line ::
  "(uchar \<Rightarrow> bool) \<Rightarrow> (uchar \<Rightarrow> str) \<Rightarrow> str set \<Rightarrow> bool \<Rightarrow> measure_state \<Rightarrow> nat \<times> str \<Rightarrow> measure_state" where
  "measure_line alnum lower removed gen st = (\<lambda>(_, content).
     let trimmed = trim content;
         first_occurrence = trimmed \<notin> ms_seen_added st;
         cl = classify_line alnum lower trimmed gen removed first_occurrence;
         r = count_class cl (ms_report st)
     in \<lparr>ms_seen_added = insert trimmed (ms_seen_added st),
         ms_report = r\<lparr>su_added_lines := su_added_lines r + 1\<rparr>,
         ms_file_substantive = (if cl = Substantive then ms_file_substantive st + 1
                                else ms_file_substantive st)\<rparr>)"

definition measure_file ::
  "(uchar \<Rightarrow> bool) \<Rightarrow> (uchar \<Rightarrow> str) \<Rightarrow> str set \<Rightarrow> measure_state \<Rightarrow> file_diff \<Rightarrow> measure_state" where
  "measure_file alnum lower removed st file =
     (if fd_added_lines file = [] then st
      else let st' = foldl (measure_line alnum lower removed (is_generated_path (fd_path file)))
                       (st\<lparr>ms_file_substantive := 0\<rparr>) (fd_added_lines file);
               r = ms_report st'
           in st'\<lparr>ms_report := r\<lparr>su_files := su_files r @
                [\<lparr>fs_path = fd_path file, fs_added_lines = length (fd_added_lines file),
                  fs_substantive_lines = ms_file_substantive st'\<rparr>]\<rparr>\<rparr>)"

definition empty_report :: substance_report where
  "empty_report = \<lparr>su_added_lines = 0, su_substantive_lines = 0, su_trivial = 0, su_moved = 0,
     su_repeated = 0, su_generated = 0, su_files = []\<rparr>"

definition removed_texts :: "file_diff list \<Rightarrow> str set" where
  "removed_texts files = set (map trim (concat (map fd_removed_lines files)))"

definition measure_files ::
  "(uchar \<Rightarrow> bool) \<Rightarrow> (uchar \<Rightarrow> str) \<Rightarrow> file_diff list \<Rightarrow> measure_state" where
  "measure_files alnum lower files =
     foldl (measure_file alnum lower (removed_texts files))
       \<lparr>ms_seen_added = {}, ms_report = empty_report, ms_file_substantive = 0\<rparr> files"

definition measure_diff ::
  "(uchar \<Rightarrow> bool) \<Rightarrow> (uchar \<Rightarrow> str) \<Rightarrow> file_diff list \<Rightarrow> substance_report" where
  "measure_diff alnum lower files =
     (let r = ms_report (measure_files alnum lower files)
      in r\<lparr>su_files := sort_key fs_path (su_files r)\<rparr>)"

section \<open>The loop as a list of classes\<close>

text \<open>
  Every added line of the diff as its trimmed text and whether its file is generated, in order; and
  the class each of them gets from what came before.
\<close>

definition tag_lines :: "file_diff \<Rightarrow> (str \<times> bool) list" where
  "tag_lines f = map (\<lambda>(_, c). (trim c, is_generated_path (fd_path f))) (fd_added_lines f)"

definition tagged :: "file_diff list \<Rightarrow> (str \<times> bool) list" where
  "tagged files = concat (map tag_lines files)"

fun classes ::
  "(uchar \<Rightarrow> bool) \<Rightarrow> (uchar \<Rightarrow> str) \<Rightarrow> str set \<Rightarrow> str set \<Rightarrow> (str \<times> bool) list \<Rightarrow> line_class list" where
  "classes alnum lower removed seen [] = []"
| "classes alnum lower removed seen ((t, g) # xs) =
     classify_line alnum lower t g removed (t \<notin> seen) #
     classes alnum lower removed (insert t seen) xs"

definition tally :: "substance_report \<Rightarrow> line_class list \<Rightarrow> substance_report" where
  "tally r cs = foldl (\<lambda>r c. let r = count_class c r in r\<lparr>su_added_lines := su_added_lines r + 1\<rparr>) r cs"

lemma tally_counts:
  "su_substantive_lines (tally r cs) = su_substantive_lines r + count_list cs Substantive"
  "su_trivial (tally r cs) = su_trivial r + count_list cs Trivial"
  "su_moved (tally r cs) = su_moved r + count_list cs Moved"
  "su_repeated (tally r cs) = su_repeated r + count_list cs Repeated"
  "su_generated (tally r cs) = su_generated r + count_list cs Generated"
  "su_added_lines (tally r cs) = su_added_lines r + length cs"
  "su_files (tally r cs) = su_files r"
proof (induction cs arbitrary: r)
  case (Cons c cs)
  { case 1 show ?case using Cons(1) by (cases c) (simp_all add: tally_def Let_def) }
  { case 2 show ?case using Cons(2) by (cases c) (simp_all add: tally_def Let_def) }
  { case 3 show ?case using Cons(3) by (cases c) (simp_all add: tally_def Let_def) }
  { case 4 show ?case using Cons(4) by (cases c) (simp_all add: tally_def Let_def) }
  { case 5 show ?case using Cons(5) by (cases c) (simp_all add: tally_def Let_def) }
  { case 6 show ?case using Cons(6) by (cases c) (simp_all add: tally_def Let_def) }
  { case 7 show ?case using Cons(7) by (cases c) (simp_all add: tally_def Let_def) }
qed (simp_all add: tally_def)

lemma tally_append: "tally r (xs @ ys) = tally (tally r xs) ys"
  by (simp add: tally_def)

lemma length_classes [simp]: "length (classes alnum lower removed seen xs) = length xs"
  by (induction alnum lower removed seen xs rule: classes.induct) simp_all

lemma classes_append:
  "classes alnum lower removed seen (xs @ ys) =
   classes alnum lower removed seen xs @ classes alnum lower removed (seen \<union> fst ` set xs) ys"
  by (induction alnum lower removed seen xs rule: classes.induct) (simp_all add: insert_commute)

lemma measure_lines:
  "foldl (measure_line alnum lower removed g) st ls =
   (let cs = classes alnum lower removed (ms_seen_added st) (map (\<lambda>(_, c). (trim c, g)) ls)
    in \<lparr>ms_seen_added = ms_seen_added st \<union> trim ` snd ` set ls,
        ms_report = tally (ms_report st) cs,
        ms_file_substantive = ms_file_substantive st + count_list cs Substantive\<rparr>)"
proof (induction ls arbitrary: st)
  case Nil
  then show ?case by (simp add: tally_def)
next
  case (Cons l ls)
  then show ?case
    by (cases l) (simp add: measure_line_def Let_def tally_def insert_commute)
qed

text \<open>The counts of a report, without its files.\<close>

definition counts :: "substance_report \<Rightarrow> substance_report" where
  "counts r = r\<lparr>su_files := []\<rparr>"

lemma counts_fields [simp]:
  "su_substantive_lines (counts r) = su_substantive_lines r" "su_trivial (counts r) = su_trivial r"
  "su_moved (counts r) = su_moved r" "su_repeated (counts r) = su_repeated r"
  "su_generated (counts r) = su_generated r" "su_added_lines (counts r) = su_added_lines r"
  by (simp_all add: counts_def)

lemma counts_tally: "counts (tally r cs) = tally (counts r) cs"
  by (rule substance_report.equality) (simp_all add: tally_counts, simp add: counts_def)

definition file_share :: "file_diff \<Rightarrow> line_class list \<Rightarrow> file_substance" where
  "file_share f cs = \<lparr>fs_path = fd_path f, fs_added_lines = length (fd_added_lines f),
     fs_substantive_lines = count_list cs Substantive\<rparr>"

lemma measure_file_eq:
  "let st' = measure_file alnum lower removed st f;
       cs = classes alnum lower removed (ms_seen_added st) (tag_lines f)
   in ms_seen_added st' = ms_seen_added st \<union> fst ` set (tag_lines f) \<and>
      counts (ms_report st') = tally (counts (ms_report st)) cs \<and>
      su_files (ms_report st') = su_files (ms_report st) @
        (if fd_added_lines f = [] then [] else [file_share f cs])"
proof (cases "fd_added_lines f = []")
  case True
  then show ?thesis by (simp add: measure_file_def tag_lines_def tally_def)
next
  case False
  have "fst ` set (tag_lines f) = trim ` snd ` set (fd_added_lines f)"
    by (force simp: tag_lines_def)
  with False show ?thesis
    by (simp add: measure_file_def measure_lines Let_def tally_counts file_share_def tag_lines_def
        counts_tally [symmetric]) (simp add: counts_def)
qed

lemma measure_file_facts:
  "ms_seen_added (measure_file alnum lower removed st f) = ms_seen_added st \<union> fst ` set (tag_lines f)"
  "counts (ms_report (measure_file alnum lower removed st f)) =
     tally (counts (ms_report st)) (classes alnum lower removed (ms_seen_added st) (tag_lines f))"
  "su_files (ms_report (measure_file alnum lower removed st f)) = su_files (ms_report st) @
     (if fd_added_lines f = [] then []
      else [file_share f (classes alnum lower removed (ms_seen_added st) (tag_lines f))])"
  using measure_file_eq [of alnum lower removed st f] by (simp_all add: Let_def)

lemma measure_all:
  fixes alnum lower removed
  defines "run \<equiv> foldl (measure_file alnum lower removed)"
  shows "counts (ms_report (run st files)) =
      tally (counts (ms_report st)) (classes alnum lower removed (ms_seen_added st) (tagged files))"
    and "map fs_path (su_files (ms_report (run st files))) =
      map fs_path (su_files (ms_report st)) @
      map fd_path (filter (\<lambda>f. fd_added_lines f \<noteq> []) files)"
    and "sum_list (map fs_added_lines (su_files (ms_report (run st files)))) =
      sum_list (map fs_added_lines (su_files (ms_report st))) + length (tagged files)"
    and "sum_list (map fs_substantive_lines (su_files (ms_report (run st files)))) =
      sum_list (map fs_substantive_lines (su_files (ms_report st))) +
      count_list (classes alnum lower removed (ms_seen_added st) (tagged files)) Substantive"
proof (induction files arbitrary: st)
  case Nil
  { case 1 show ?case by (simp add: run_def tagged_def tally_def) }
  { case 2 show ?case by (simp add: run_def) }
  { case 3 show ?case by (simp add: run_def tagged_def) }
  { case 4 show ?case by (simp add: run_def tagged_def) }
next
  case (Cons f files)
  have run: "run st (f # files) = run (measure_file alnum lower removed st f) files" for st
    by (simp add: run_def)
  have tag: "tagged (f # files) = tag_lines f @ tagged files" by (simp add: tagged_def)
  have nil: "fd_added_lines f = [] \<Longrightarrow> tag_lines f = []" by (simp add: tag_lines_def)
  have len: "length (tag_lines f) = length (fd_added_lines f)" by (simp add: tag_lines_def)
  note facts = measure_file_facts [of alnum lower removed _ f]
  { case 1 show ?case
      unfolding run tag Cons.IH(1) facts classes_append tally_append .. }
  { case 2 show ?case
      unfolding run Cons.IH(2) facts by (simp add: file_share_def) }
  { case 3 show ?case
      unfolding run tag Cons.IH(3) facts by (simp add: file_share_def nil len) }
  { case 4 show ?case
      unfolding run tag Cons.IH(4) facts classes_append by (simp add: file_share_def nil) }
qed

lemma sum_list_sort_key:
  fixes f :: "'a \<Rightarrow> nat"
  shows "sum_list (map f (sort_key k xs)) = sum_list (map f xs)"
  by (metis mset_map mset_sort sum_mset_sum_list)

lemma length_tagged: "length (tagged files) = sum_list (map (\<lambda>f. length (fd_added_lines f)) files)"
  by (simp add: tagged_def length_concat tag_lines_def o_def)

definition diff_classes ::
  "(uchar \<Rightarrow> bool) \<Rightarrow> (uchar \<Rightarrow> str) \<Rightarrow> file_diff list \<Rightarrow> line_class list" where
  "diff_classes alnum lower files = classes alnum lower (removed_texts files) {} (tagged files)"

lemma measure_diff_counts:
  "counts (measure_diff alnum lower files) = tally empty_report (diff_classes alnum lower files)"
proof -
  have "counts (measure_diff alnum lower files) = counts (ms_report (measure_files alnum lower files))"
    by (simp add: measure_diff_def counts_def Let_def)
  then show ?thesis
    by (simp add: measure_files_def measure_all diff_classes_def) (simp add: counts_def empty_report_def)
qed

lemma measure_diff_fields:
  "su_substantive_lines (measure_diff alnum lower files) = count_list (diff_classes alnum lower files) Substantive"
  "su_trivial (measure_diff alnum lower files) = count_list (diff_classes alnum lower files) Trivial"
  "su_moved (measure_diff alnum lower files) = count_list (diff_classes alnum lower files) Moved"
  "su_repeated (measure_diff alnum lower files) = count_list (diff_classes alnum lower files) Repeated"
  "su_generated (measure_diff alnum lower files) = count_list (diff_classes alnum lower files) Generated"
  "su_added_lines (measure_diff alnum lower files) = length (tagged files)"
  using measure_diff_counts [of alnum lower files, THEN arg_cong, of su_substantive_lines]
    measure_diff_counts [of alnum lower files, THEN arg_cong, of su_trivial]
    measure_diff_counts [of alnum lower files, THEN arg_cong, of su_moved]
    measure_diff_counts [of alnum lower files, THEN arg_cong, of su_repeated]
    measure_diff_counts [of alnum lower files, THEN arg_cong, of su_generated]
    measure_diff_counts [of alnum lower files, THEN arg_cong, of su_added_lines]
  by (simp_all add: tally_counts empty_report_def) (simp add: diff_classes_def)

lemma class_counts_total:
  "count_list cs Substantive + count_list cs Trivial + count_list cs Moved + count_list cs Repeated +
   count_list cs Generated = length cs"
proof (induction cs)
  case (Cons c cs)
  then show ?case by (cases c) auto
qed simp

text \<open>Which texts end up substantive: those first added by a hand-written file, new and not trivial.\<close>

lemma substantive_texts:
  "count_list (classes alnum lower removed seen xs) Substantive =
   card {t. map_of xs t = Some False \<and> t \<notin> seen \<and> t \<notin> removed \<and> \<not> is_trivial alnum lower t}"
proof (induction alnum lower removed seen xs rule: classes.induct)
  case (1 alnum lower removed seen)
  then show ?case by simp
next
  case (2 alnum lower removed seen t g xs)
  let ?S = "\<lambda>xs seen. {u. map_of xs u = Some False \<and> u \<notin> seen \<and> u \<notin> removed \<and> \<not> is_trivial alnum lower u}"
  have fin: "finite (?S xs s)" for s
    by (rule finite_subset [OF _ finite_set [of "map fst xs"]])
      (force dest: map_of_SomeD)
  define rest where "rest = ?S xs (insert t seen)"
  let ?new = "\<not> g \<and> t \<notin> seen \<and> t \<notin> removed \<and> \<not> is_trivial alnum lower t"
  have "?S ((t, g) # xs) seen = (if ?new then insert t rest else rest)"
    by (auto simp: rest_def split: if_splits)
  moreover have "t \<notin> rest" by (simp add: rest_def)
  moreover have "finite rest" unfolding rest_def by (rule fin)
  ultimately have "card (?S ((t, g) # xs) seen) = (if ?new then 1 else 0) + card rest"
    by (simp_all only: card_insert_disjoint split: if_splits) simp_all
  then show ?case using 2 by (simp add: classify_line_def rest_def)
qed

lemma substantive_card:
  "su_substantive_lines (measure_diff alnum lower files) =
   card {t. map_of (tagged files) t = Some False \<and> t \<notin> removed_texts files \<and>
            \<not> is_trivial alnum lower t}"
  unfolding measure_diff_fields diff_classes_def substantive_texts by simp

section \<open>Properties of the gate\<close>

text \<open>
  The buckets partition the added lines: their sizes sum to the number of added lines of the
  diff, the per-file shares sum to the totals, and the files listed are those that added a line,
  sorted by path.
\<close>

theorem buckets_partition:
  "let r = measure_diff alnum lower files
   in su_substantive_lines r + su_trivial r + su_moved r + su_repeated r + su_generated r =
        su_added_lines r \<and>
      su_added_lines r = sum_list (map (\<lambda>f. length (fd_added_lines f)) files) \<and>
      sum_list (map fs_added_lines (su_files r)) = su_added_lines r \<and>
      sum_list (map fs_substantive_lines (su_files r)) = su_substantive_lines r \<and>
      sorted (map fs_path (su_files r)) \<and>
      mset (map fs_path (su_files r)) = mset (map fd_path (filter (\<lambda>f. fd_added_lines f \<noteq> []) files))"
proof -
  let ?r = "measure_diff alnum lower files"
  let ?fs = "su_files (ms_report (measure_files alnum lower files))"
  have fs: "su_files ?r = sort_key fs_path ?fs" by (simp add: measure_diff_def Let_def)
  have "mset (map fs_path ?fs) = mset (map fd_path (filter (\<lambda>f. fd_added_lines f \<noteq> []) files))"
    by (simp only: measure_files_def measure_all) (simp add: empty_report_def)
  then have "mset (map fs_path (su_files ?r)) = mset (map fd_path (filter (\<lambda>f. fd_added_lines f \<noteq> []) files))"
    by (simp add: fs)
  moreover have "sum_list (map fs_added_lines (su_files ?r)) = length (tagged files)"
    unfolding fs sum_list_sort_key measure_files_def measure_all by (simp add: empty_report_def)
  moreover have "sum_list (map fs_substantive_lines (su_files ?r)) = count_list (diff_classes alnum lower files) Substantive"
    unfolding fs sum_list_sort_key measure_files_def measure_all by (simp add: empty_report_def diff_classes_def)
  moreover have "length (diff_classes alnum lower files) = length (tagged files)" by (simp add: diff_classes_def)
  ultimately show ?thesis
    unfolding Let_def measure_diff_fields class_counts_total
    by (simp add: length_tagged [symmetric]) (simp add: fs)
qed

text \<open>The trimmed texts a diff adds by hand, and those its generated files add.\<close>

definition texts_added :: "bool \<Rightarrow> file_diff list \<Rightarrow> str set" where
  "texts_added generated files =
     {trim c | f n c. f \<in> set files \<and> is_generated_path (fd_path f) = generated \<and> (n, c) \<in> set (fd_added_lines f)}"

lemma texts_added_tagged: "t \<in> texts_added g files \<longleftrightarrow> (t, g) \<in> set (tagged files)"
  by (force simp: texts_added_def tagged_def tag_lines_def)

lemma first_by_hand:
  assumes "texts_added True files \<inter> texts_added False files = {}"
  shows "map_of (tagged files) t = Some False \<longleftrightarrow> t \<in> texts_added False files"
proof
  show "map_of (tagged files) t = Some False \<Longrightarrow> t \<in> texts_added False files"
    by (simp add: texts_added_tagged map_of_SomeD)
  assume t: "t \<in> texts_added False files"
  then obtain g where g: "map_of (tagged files) t = Some g"
    using weak_map_of_SomeI by (fastforce simp: texts_added_tagged)
  then have "t \<in> texts_added g files" by (simp add: texts_added_tagged map_of_SomeD)
  then show "map_of (tagged files) t = Some False" using assms t g by (cases g) auto
qed

text \<open>
  C39. When no generated file adds a text that is also added by hand, the measure is the new work: the
  substantive lines are the distinct texts added by hand that no file removes and that are not
  structure, and a diff is low exactly when it adds twenty lines or more and less than a quarter of
  that number of such texts. (A generated twin that comes first is \<open>generated_twin_is_repeat\<close>.)
\<close>

theorem substantive_counts_new_texts:
  assumes "texts_added True files \<inter> texts_added False files = {}"
  shows "let r = measure_diff alnum lower files;
             new = card {t \<in> texts_added False files. t \<notin> removed_texts files \<and> \<not> is_trivial alnum lower t};
             added = sum_list (map (\<lambda>f. length (fd_added_lines f)) files)
         in su_substantive_lines r = new \<and> (is_low r \<longleftrightarrow> 20 \<le> added \<and> 4 * new < added)"
proof -
  have "su_added_lines (measure_diff alnum lower files) = sum_list (map (\<lambda>f. length (fd_added_lines f)) files)"
    by (simp add: measure_diff_fields length_tagged)
  then show ?thesis
    by (simp add: Let_def substantive_card first_by_hand [OF assms] is_low_def judged_def MIN_LINES_TO_JUDGE_def
        LOW_SUBSTANCE_NUMERATOR_def LOW_SUBSTANCE_DENOMINATOR_def mult.commute)
qed

text \<open>
  A relocation is measured as one: when every added line of a diff of twenty lines or more is
  structure or the trimmed text of a removed line, nothing is substantive and the report is low.
\<close>

theorem pure_move_is_low:
  assumes "MIN_LINES_TO_JUDGE \<le> sum_list (map (\<lambda>f. length (fd_added_lines f)) files)"
    and "\<And>f n c. f \<in> set files \<Longrightarrow> (n, c) \<in> set (fd_added_lines f) \<Longrightarrow>
      trim c \<in> removed_texts files \<or> is_trivial alnum lower (trim c)"
  shows "su_substantive_lines (measure_diff alnum lower files) = 0 \<and> is_low (measure_diff alnum lower files)"
proof -
  have none: "{t. map_of (tagged files) t = Some False \<and> t \<notin> removed_texts files \<and> \<not> is_trivial alnum lower t} = {}"
  proof (rule ccontr)
    assume "\<not> ?thesis"
    then obtain t where t: "map_of (tagged files) t = Some False" "t \<notin> removed_texts files" "\<not> is_trivial alnum lower t"
      by blast
    from map_of_SomeD [OF t(1)] obtain f n c where "f \<in> set files" "(n, c) \<in> set (fd_added_lines f)" "t = trim c"
      by (auto simp: tagged_def tag_lines_def)
    with assms(2) t(2,3) show False by blast
  qed
  then have "su_substantive_lines (measure_diff alnum lower files) = 0"
    unfolding substantive_card none by simp
  moreover have "su_added_lines (measure_diff alnum lower files) = sum_list (map (\<lambda>f. length (fd_added_lines f)) files)"
    by (simp add: measure_diff_fields length_tagged)
  ultimately show ?thesis
    using assms(1) by (simp add: is_low_def judged_def LOW_SUBSTANCE_NUMERATOR_def MIN_LINES_TO_JUDGE_def)
qed

text \<open>
  A hand-written line whose twin an earlier generated file added is scored as a repeat, never as
  substantive, although it is the first hand-written occurrence.
\<close>

theorem generated_twin_is_repeat:
  assumes "is_generated_path (fd_path g)" and "\<not> is_generated_path (fd_path h)"
    and "fd_added_lines g = [(i, c)]" and "fd_added_lines h = [(j, c)]"
    and "fd_removed_lines g = []" and "fd_removed_lines h = []" and "\<not> is_trivial alnum lower (trim c)"
  shows "su_substantive_lines (measure_diff alnum lower [g, h]) = 0 \<and>
    su_repeated (measure_diff alnum lower [g, h]) = 1 \<and>
    su_substantive_lines (measure_diff alnum lower [h, g]) = 1"
  using assms
  by (simp add: measure_diff_fields diff_classes_def tagged_def tag_lines_def removed_texts_def classify_line_def)

section \<open>Concrete diffs\<close>

definition ascii_alnum :: "uchar \<Rightarrow> bool" where
  "ascii_alnum c = (48 \<le> c \<and> c \<le> 57 \<or> 65 \<le> c \<and> c \<le> 90 \<or> 97 \<le> c \<and> c \<le> 122)"

definition ascii_lower :: "uchar \<Rightarrow> str" where
  "ascii_lower c = [if 65 \<le> c \<and> c \<le> 90 then c + 32 else c]"

definition file_adding :: "string \<Rightarrow> (nat \<times> str) list \<Rightarrow> str list \<Rightarrow> file_diff" where
  "file_adding p added removed = \<lparr>fd_path = lit p, fd_old_path = None, fd_status = Modified,
     fd_added_lines = added, fd_removed_lines = removed\<rparr>"

lemma trim_demo: "trim (lit ''  let x'') = lit ''let x''" "trim (lit ''let x'') = lit ''let x''"
  by (simp_all add: trim_def trim_matches_def trim_end_matches_def trim_start_matches_def is_whitespace_def)

lemma demo_not_trivial: "\<not> is_trivial ascii_alnum ascii_lower (lit ''let x'')"
  by code_simp

lemma demo_generated:
  "is_generated_path (lit ''web/yarn.lock'')" "\<not> is_generated_path (lit ''src/a.rs'')"
  by code_simp+

theorem substantive_counts_new_texts_witness:
  "su_substantive_lines (measure_diff ascii_alnum ascii_lower [file_adding ''src/a.rs'' [(1, lit ''let x'')] []]) = 1"
proof -
  let ?fs = "[file_adding ''src/a.rs'' [(1, lit ''let x'')] []]"
  have t: "texts_added False ?fs = {lit ''let x''}" "texts_added True ?fs = {}" "removed_texts ?fs = {}"
    using demo_generated(2) by (auto simp: texts_added_def file_adding_def removed_texts_def trim_demo simp del: lit_Cons)
  have "{t \<in> {lit ''let x''}. t \<notin> ({} :: str set) \<and> \<not> is_trivial ascii_alnum ascii_lower t} = {lit ''let x''}"
    using demo_not_trivial by auto
  then have new: "card {u \<in> texts_added False ?fs. u \<notin> removed_texts ?fs \<and> \<not> is_trivial ascii_alnum ascii_lower u} = 1"
    unfolding t by (simp only: card.insert [of "{}"] finite.emptyI card.empty empty_iff not_False_eq_True One_nat_def)
  have "texts_added True ?fs \<inter> texts_added False ?fs = {}" unfolding t by (rule Int_empty_left)
  from substantive_counts_new_texts [OF this, of ascii_alnum ascii_lower, unfolded Let_def, THEN conjunct1]
  show ?thesis using new by (rule trans)
qed

theorem pure_move_is_low_witness:
  "is_low (measure_diff ascii_alnum ascii_lower
     [file_adding ''b.rs'' (replicate 20 (1, lit ''  let x'')) [],
      file_adding ''a.rs'' [] [lit ''let x'']])"
proof -
  let ?fs = "[file_adding ''b.rs'' (replicate 20 (1, lit ''  let x'')) [], file_adding ''a.rs'' [] [lit ''let x'']]"
  have "MIN_LINES_TO_JUDGE \<le> sum_list (map (\<lambda>f. length (fd_added_lines f)) ?fs)"
    by (simp add: file_adding_def MIN_LINES_TO_JUDGE_def)
  moreover have "trim c \<in> removed_texts ?fs" if "f \<in> set ?fs" "(n, c) \<in> set (fd_added_lines f)" for f n c
    using that by (auto simp: file_adding_def removed_texts_def trim_demo simp del: lit_Cons split: if_splits)
  ultimately show ?thesis using pure_move_is_low [of ?fs] by blast
qed

theorem generated_twin_is_repeat_witness:
  "su_substantive_lines (measure_diff ascii_alnum ascii_lower
     [file_adding ''web/yarn.lock'' [(1, lit ''let x'')] [], file_adding ''src/a.rs'' [(1, lit ''let x'')] []]) = 0"
proof -
  have "\<not> is_trivial ascii_alnum ascii_lower (trim (lit ''let x''))"
    unfolding trim_demo by (rule demo_not_trivial)
  with demo_generated show ?thesis
    using generated_twin_is_repeat [of "file_adding ''web/yarn.lock'' [(1, lit ''let x'')] []"
        "file_adding ''src/a.rs'' [(1, lit ''let x'')] []" 1 "lit ''let x''" 1 ascii_alnum ascii_lower]
    by (simp add: file_adding_def del: lit_Cons)
qed

end
