(* ===== verification/Path_Rules.thy ===== *)
theory Path_Rules
  imports Glob
begin

text \<open>
  The path rules of \<^verbatim>\<open>rust/dc-glob/src/secret_paths.rs\<close> and \<^verbatim>\<open>test_paths.rs\<close>: which paths hold
  credentials, and which are tests.

  Lower-casing comes from the Unicode tables of Rust's standard library; it is an argument of the
  definitions that call it (\<open>lower\<close> for \<open>char::to_lowercase\<close>, \<open>str_lower\<close> for \<open>str::to_lowercase\<close>).
\<close>

section \<open>Credential paths\<close>

definition SECRET_PATH_PATTERNS :: "str list" where
  "SECRET_PATH_PATTERNS = map lit
     [''.env'', ''.env.*'', ''**/.env'', ''**/.env.*'', ''credentials/**'', ''**/credentials/**'',
      ''secrets/**'', ''**/secrets/**'', ''*.pem'', ''*.key'', ''**/id_rsa'', ''**/id_dsa'',
      ''**/id_ecdsa'', ''**/id_ed25519'', ''id_rsa'', ''id_dsa'', ''id_ecdsa'', ''id_ed25519'',
      ''.npmrc'', ''**/.npmrc'', ''.pypirc'', ''**/.pypirc'', ''.netrc'', ''**/.netrc'',
      ''.aws/credentials'', ''**/.aws/credentials'', ''.envrc'', ''**/.envrc'',
      ''.git-credentials'', ''**/.git-credentials'', ''*.p12'']"

definition fold_char :: "(uchar \<Rightarrow> str) \<Rightarrow> uchar \<Rightarrow> uchar" where
  "fold_char lower c =
     (if c = 383 then 115 else case lower c of [] \<Rightarrow> c | d # _ \<Rightarrow> d)"

definition fold_str :: "(uchar \<Rightarrow> str) \<Rightarrow> str \<Rightarrow> str" where
  "fold_str lower s = map (fold_char lower) s"

definition compiled :: "compiled_pattern option list" where
  "compiled = map compile SECRET_PATH_PATTERNS"

definition is_secret_path :: "(uchar \<Rightarrow> str) \<Rightarrow> str \<Rightarrow> bool" where
  "is_secret_path lower path =
     (let slashed = replace_char c_backslash c_slash path;
          relative = strip_dot_slash slashed;
          folded = fold_str lower relative
      in case name_new folded of
           None \<Rightarrow> True
         | Some name \<Rightarrow>
             list_ex (\<lambda>p. case p of
                 None \<Rightarrow> True
               | Some c \<Rightarrow> (case pattern_try_matches c name of Some b \<Rightarrow> b | None \<Rightarrow> True)) compiled)"

section \<open>Test paths\<close>

definition TEST_DIRECTORIES :: "str list" where
  "TEST_DIRECTORIES = map lit
     [''test'', ''tests'', ''spec'', ''specs'', ''__tests__'', ''testing'', ''e2e'', ''testdata'']"

definition in_test_directory :: "(str \<Rightarrow> str) \<Rightarrow> str \<Rightarrow> bool" where
  "in_test_directory str_lower path =
     (case rsplit_once c_slash (replace_char c_backslash c_slash path) of
        None \<Rightarrow> False
      | Some (directories, _) \<Rightarrow>
          list_ex (\<lambda>segment. List.member TEST_DIRECTORIES (str_lower segment))
            (split_on (\<lambda>c. c = c_slash) directories))"

definition is_test_file_name :: "(str \<Rightarrow> str) \<Rightarrow> str \<Rightarrow> bool" where
  "is_test_file_name str_lower file_name =
     (let lowered = str_lower file_name;
          stem = hd (split_on (\<lambda>c. c = c_dot) file_name);
          lowered_stem = hd (split_on (\<lambda>c. c = c_dot) lowered)
      in starts_with (lit ''test_'') lowered
       \<or> starts_with (lit ''spec_'') lowered
       \<or> list_ex (\<lambda>mid. contains_sub (lit mid) lowered)
           [''.test.'', ''.spec.'', ''_test.'', ''_spec.'', ''-test.'', ''-spec.'']
       \<or> List.member (map lit [''test'', ''tests'', ''spec'', ''specs'']) lowered_stem
       \<or> list_ex (\<lambda>suf. ends_with (lit suf) stem) [''Test'', ''Tests'', ''Spec'', ''Specs''])"

definition is_test_path :: "(str \<Rightarrow> str) \<Rightarrow> str \<Rightarrow> bool" where
  "is_test_path str_lower path =
     (let normalized = replace_char c_backslash c_slash path;
          file_name = last (split_on (\<lambda>c. c = c_slash) normalized)
      in in_test_directory str_lower normalized \<or> is_test_file_name str_lower file_name)"

section \<open>The fixture reader\<close>

text \<open>
  \<open>parse_test_path_rows\<close> reads the rows of \<^verbatim>\<open>protocols/test-paths/v1.json\<close>; each refusal is a
  constructor (the message texts are not modelled).
\<close>

datatype rows_error =
    NotAString str
  | BadEscape str
  | PathWithoutTest
  | TestWithoutPath
  | NotBoolean str
  | LastRowWithoutTest
  | NoRows

fun unescape_rows :: "str \<Rightarrow> str \<Rightarrow> rows_error + str" where
  "unescape_rows raw [] = Inr []"
| "unescape_rows raw (c # cs) =
     (if c \<noteq> c_backslash then map_sum id (Cons c) (unescape_rows raw cs)
      else case cs of
          [] \<Rightarrow> Inl (BadEscape raw)
        | e # cs' \<Rightarrow>
            if e = c_backslash \<or> e = c_quote \<or> e = c_slash
            then map_sum id (Cons e) (unescape_rows raw cs')
            else Inl (BadEscape raw))"

definition unquote :: "str \<Rightarrow> rows_error + str" where
  "unquote raw =
     (case strip_prefix [c_quote] raw of
        None \<Rightarrow> Inl (NotAString raw)
      | Some rest \<Rightarrow>
          (case strip_suffix [c_quote] rest of
             None \<Rightarrow> Inl (NotAString raw)
           | Some body \<Rightarrow> unescape_rows raw body))"

type_synonym rows_state = "(str \<times> bool) list \<times> str option"

definition rows_line :: "rows_state \<Rightarrow> str \<Rightarrow> rows_error + rows_state" where
  "rows_line st l =
     (let line = trim_end_matches (\<lambda>c. c = c_comma) (trim l); (rows, pending_path) = st
      in case strip_prefix (lit ''\"path\":'') line of
           Some raw \<Rightarrow>
             if pending_path \<noteq> None then Inl PathWithoutTest
             else map_sum id (\<lambda>p. (rows, Some p)) (unquote (trim raw))
         | None \<Rightarrow>
             (case strip_prefix (lit ''\"test\":'') line of
                None \<Rightarrow> Inr st
              | Some flag \<Rightarrow>
                  (case pending_path of
                     None \<Rightarrow> Inl TestWithoutPath
                   | Some path \<Rightarrow>
                       if trim flag = lit ''true'' then Inr (rows @ [(path, True)], None)
                       else if trim flag = lit ''false'' then Inr (rows @ [(path, False)], None)
                       else Inl (NotBoolean (trim flag)))))"

definition parse_test_path_rows :: "str \<Rightarrow> rows_error + (str \<times> bool) list" where
  "parse_test_path_rows json =
     rbind (try_fold rows_line ([], None) (str_lines json)) (\<lambda>(rows, pending_path).
       if pending_path \<noteq> None then Inl LastRowWithoutTest
       else if rows = [] then Inl NoRows
       else Inr rows)"

section \<open>Components of a path\<close>

abbreviation components :: "str \<Rightarrow> str list" where
  "components s \<equiv> split_on (\<lambda>c. c = c_slash) s"

lemma components_split: "components (a @ c_slash # b) = components a @ components b"
  by (rule split_on_append_seps) simp

lemma components_id: "c_slash \<notin> set d \<Longrightarrow> components d = [d]"
  by (rule split_on_id) auto

lemma last_components_iff:
  assumes "c_slash \<notin> set n"
  shows "last (components s) = n \<longleftrightarrow> s = n \<or> (\<exists>m. s = m @ c_slash # n)"
proof (cases "c_slash \<in> set s")
  case True
  then obtain a b where s: "s = a @ c_slash # b" "c_slash \<notin> set b"
    by (metis split_list_last)
  then have "last (components s) = b" by (simp add: components_split components_id)
  moreover have "s \<noteq> n" using True assms by blast
  moreover have "(\<exists>m. s = m @ c_slash # n) \<longleftrightarrow> b = n"
    using s assms by (metis rsplit_once_Some_iff option.inject prod.inject)
  ultimately show ?thesis by blast
next
  case False
  then show ?thesis by (auto simp: components_id)
qed

lemma butlast_components_iff:
  assumes "c_slash \<notin> set d"
  shows "d \<in> set (butlast (components s)) \<longleftrightarrow>
         (\<exists>r. s = d @ c_slash # r) \<or> (\<exists>m r. s = m @ c_slash # d @ c_slash # r)"
proof (induction s rule: length_induct)
  case (1 s)
  show ?case
  proof (cases "c_slash \<in> set s")
    case False
    then show ?thesis by (auto simp: components_id)
  next
    case True
    then obtain a b where s: "s = a @ c_slash # b" "c_slash \<notin> set a"
      by (metis split_list_first)
    then have "butlast (components s) = a # butlast (components b)"
      by (simp add: components_split components_id)
    then have "d \<in> set (butlast (components s)) \<longleftrightarrow> d = a \<or> d \<in> set (butlast (components b))"
      by simp
    also have "\<dots> \<longleftrightarrow> d = a \<or> (\<exists>r. b = d @ c_slash # r) \<or> (\<exists>m r. b = m @ c_slash # d @ c_slash # r)"
      using 1 s by simp
    also have "\<dots> \<longleftrightarrow> (\<exists>r. s = d @ c_slash # r) \<or> (\<exists>m r. s = m @ c_slash # d @ c_slash # r)"
    proof -
      have first: "(\<exists>r. s = d @ c_slash # r) \<longleftrightarrow> d = a"
        using s assms by (metis split_once_Some_iff option.inject prod.inject)
      have "(\<exists>m r. s = m @ c_slash # d @ c_slash # r) \<longleftrightarrow>
            (\<exists>r. b = d @ c_slash # r) \<or> (\<exists>m r. b = m @ c_slash # d @ c_slash # r)"
        unfolding s(1) first_sep_conv [OF s(2)] by blast
      with first show ?thesis by blast
    qed
    finally show ?thesis .
  qed
qed

lemma component_prefix_iff:
  assumes "c_slash \<notin> set p"
  shows "(\<exists>c\<in>set (components s). starts_with p c) \<longleftrightarrow>
         starts_with p s \<or> (\<exists>m r. s = m @ c_slash # p @ r)"
proof (induction s rule: length_induct)
  case (1 s)
  have split: "starts_with p (a @ c_slash # b) \<longleftrightarrow> starts_with p a"
    if "c_slash \<notin> set a" for a b
  proof
    assume "starts_with p (a @ c_slash # b)"
    then obtain r where r: "a @ c_slash # b = p @ r" by (auto simp: starts_with_iff)
    then consider us where "p = a @ us" "us @ r = c_slash # b" | us where "a = p @ us"
      by (metis append_eq_append_conv2)
    then show "starts_with p a"
      by cases (use assms in \<open>auto simp: starts_with_iff append_eq_Cons_conv\<close>)
  qed (auto simp: starts_with_iff)
  show ?case
  proof (cases "c_slash \<in> set s")
    case False
    then show ?thesis by (auto simp: components_id)
  next
    case True
    then obtain a b where s: "s = a @ c_slash # b" "c_slash \<notin> set a"
      by (metis split_list_first)
    then have "(\<exists>c\<in>set (components s). starts_with p c) \<longleftrightarrow>
        starts_with p a \<or> starts_with p b \<or> (\<exists>m r. b = m @ c_slash # p @ r)"
      using 1 by (auto simp: components_split components_id)
    moreover have "(\<exists>m r. s = m @ c_slash # p @ r) \<longleftrightarrow>
        starts_with p b \<or> (\<exists>m r. b = m @ c_slash # p @ r)"
      unfolding s(1) first_sep_conv [OF s(2)] starts_with_iff by blast
    ultimately show ?thesis using split [OF s(2)] s(1) by blast
  qed
qed

section \<open>What the deny list covers\<close>

lemma secret_tokens:
  "map (\<lambda>p. compile_from p 0) SECRET_PATH_PATTERNS =
     [map Literal (lit ''.env''),
      map Literal (lit ''.env.'') @ [Star],
      [Star] @ map Literal (lit ''/.env''),
      [Star] @ map Literal (lit ''/.env.'') @ [Star],
      map Literal (lit ''credentials/'') @ [Star],
      [Star] @ map Literal (lit ''/credentials/'') @ [Star],
      map Literal (lit ''secrets/'') @ [Star],
      [Star] @ map Literal (lit ''/secrets/'') @ [Star],
      [Star] @ map Literal (lit ''.pem''),
      [Star] @ map Literal (lit ''.key''),
      [Star] @ map Literal (lit ''/id_rsa''),
      [Star] @ map Literal (lit ''/id_dsa''),
      [Star] @ map Literal (lit ''/id_ecdsa''),
      [Star] @ map Literal (lit ''/id_ed25519''),
      map Literal (lit ''id_rsa''),
      map Literal (lit ''id_dsa''),
      map Literal (lit ''id_ecdsa''),
      map Literal (lit ''id_ed25519''),
      map Literal (lit ''.npmrc''),
      [Star] @ map Literal (lit ''/.npmrc''),
      map Literal (lit ''.pypirc''),
      [Star] @ map Literal (lit ''/.pypirc''),
      map Literal (lit ''.netrc''),
      [Star] @ map Literal (lit ''/.netrc''),
      map Literal (lit ''.aws/credentials''),
      [Star] @ map Literal (lit ''/.aws/credentials''),
      map Literal (lit ''.envrc''),
      [Star] @ map Literal (lit ''/.envrc''),
      map Literal (lit ''.git-credentials''),
      [Star] @ map Literal (lit ''/.git-credentials''),
      [Star] @ map Literal (lit ''.p12'')]"
  by code_simp

lemma secret_patterns_short: "list_all (\<lambda>p. length p \<le> MAX_UNITS) SECRET_PATH_PATTERNS"
  by code_simp

lemma is_secret_path_eq:
  "is_secret_path lower path \<longleftrightarrow>
     (let f = fold_str lower (strip_dot_slash (replace_char c_backslash c_slash path))
      in MAX_UNITS < length f \<or>
         list_ex (\<lambda>ts. tok_match ts f) (map (\<lambda>p. compile_from p 0) SECRET_PATH_PATTERNS))"
proof -
  have one: "(case compile p of None \<Rightarrow> True
      | Some c \<Rightarrow> (case pattern_try_matches c f of Some b \<Rightarrow> b | None \<Rightarrow> True)) =
      tok_match (compile_from p 0) f"
    if "p \<in> set SECRET_PATH_PATTERNS" "length f \<le> MAX_UNITS" for p f
    using match_tokens_decides [of "compile_from p 0" "length p" f] length_compile_from [of p 0]
      secret_patterns_short that
    by (auto simp: compile_eq pattern_try_matches_def list_all_iff)
  then show ?thesis
    by (auto simp: is_secret_path_def compiled_def Let_def name_new_eq list_ex_iff
        simp del: option.case_distrib)
qed

lemma tok_match_exact: "tok_match (map Literal p) s \<longleftrightarrow> s = p"
  using tok_match_plain [of p "[]" s] by simp

lemma tok_match_any_end: "tok_match [Star] s"
  by (simp add: tok_match_Star_iff)

text \<open>The same rule read off the components of the path.\<close>

definition SECRET_DIRECTORIES :: "str list" where
  "SECRET_DIRECTORIES = map lit [''credentials'', ''secrets'']"

definition SECRET_NAMES :: "string list" where
  "SECRET_NAMES =
     [''.env'', ''id_rsa'', ''id_dsa'', ''id_ecdsa'', ''id_ed25519'', ''.npmrc'', ''.pypirc'',
      ''.netrc'', ''.envrc'', ''.git-credentials'']"

definition SECRET_SUFFIXES :: "str list" where
  "SECRET_SUFFIXES = map lit [''.pem'', ''.key'', ''.p12'']"

definition secret_by_component :: "str \<Rightarrow> bool" where
  "secret_by_component f \<longleftrightarrow>
     (\<exists>d\<in>set (butlast (components f)). d \<in> set SECRET_DIRECTORIES) \<or>
     last (components f) \<in> lit ` set SECRET_NAMES \<or>
     (\<exists>c\<in>set (components f). starts_with (lit ''.env.'') c) \<or>
     (\<exists>e\<in>set SECRET_SUFFIXES. ends_with e f) \<or>
     (f = lit ''.aws/credentials'' \<or> ends_with (lit ''/.aws/credentials'') f)"

definition name_at :: "string \<Rightarrow> str \<Rightarrow> bool" where
  "name_at n f \<longleftrightarrow> f = lit n \<or> (\<exists>m. f = m @ c_slash # lit n)"

definition dir_at :: "string \<Rightarrow> str \<Rightarrow> bool" where
  "dir_at d f \<longleftrightarrow> (\<exists>r. f = lit d @ c_slash # r) \<or> (\<exists>m r. f = m @ c_slash # lit d @ c_slash # r)"

lemma name_at_tokens:
  "name_at n f \<longleftrightarrow> tok_match (map Literal (lit n)) f \<or>
     tok_match ([Star] @ map Literal (lit (CHR ''/'' # n))) f"
  by (simp add: name_at_def tok_match_exact tok_match_Star_iff
      tok_match_exact [of "c_slash # lit n", simplified])

lemma dir_at_tokens:
  "dir_at d f \<longleftrightarrow> tok_match (map Literal (lit (d @ ''/'')) @ [Star]) f \<or>
     tok_match ([Star] @ map Literal (lit (CHR ''/'' # d @ ''/'')) @ [Star]) f"
proof -
  have "lit (d @ ''/'') = lit d @ [c_slash]" "lit (CHR ''/'' # d @ ''/'') = c_slash # lit d @ [c_slash]"
    by (simp_all add: lit_def)
  then show ?thesis
    unfolding dir_at_def append_Cons append_Nil tok_match_Star_iff tok_match_plain
    by (auto simp: tok_match_any_end)
qed

lemma secret_by_component_eq:
  "secret_by_component f \<longleftrightarrow>
     dir_at ''credentials'' f \<or> dir_at ''secrets'' f \<or>
     list_ex (\<lambda>n. name_at n f) SECRET_NAMES \<or>
     tok_match (map Literal (lit ''.env.'') @ [Star]) f \<or>
     tok_match ([Star] @ map Literal (lit ''/.env.'') @ [Star]) f \<or>
     tok_match ([Star] @ map Literal (lit ''.pem'')) f \<or>
     tok_match ([Star] @ map Literal (lit ''.key'')) f \<or>
     tok_match ([Star] @ map Literal (lit ''.p12'')) f \<or>
     tok_match (map Literal (lit ''.aws/credentials'')) f \<or>
     tok_match ([Star] @ map Literal (lit ''/.aws/credentials'')) f"
proof -
  have dirs: "(\<exists>d\<in>set (butlast (components f)). d \<in> set SECRET_DIRECTORIES) \<longleftrightarrow>
      dir_at ''credentials'' f \<or> dir_at ''secrets'' f"
    using butlast_components_iff [of "lit ''credentials''" f]
      butlast_components_iff [of "lit ''secrets''" f]
    unfolding SECRET_DIRECTORIES_def dir_at_def by auto
  have name: "last (components f) = lit n \<longleftrightarrow> name_at n f" if "c_slash \<notin> set (lit n)" for n
    using last_components_iff [OF that] by (simp add: name_at_def)
  have "\<forall>n\<in>set SECRET_NAMES. c_slash \<notin> set (lit n)" by code_simp
  then have names: "last (components f) \<in> lit ` set SECRET_NAMES \<longleftrightarrow>
      list_ex (\<lambda>n. name_at n f) SECRET_NAMES"
    using name unfolding list_ex_iff image_iff by blast
  have env: "(\<exists>c\<in>set (components f). starts_with (lit ''.env.'') c) \<longleftrightarrow>
      tok_match (map Literal (lit ''.env.'') @ [Star]) f \<or>
      tok_match ([Star] @ map Literal (lit ''/.env.'') @ [Star]) f"
    using component_prefix_iff [of "lit ''.env.''" f]
    unfolding append_Cons append_Nil tok_match_Star_iff tok_match_plain starts_with_iff
    by (auto simp: tok_match_any_end)
  have ends: "ends_with e f \<longleftrightarrow> tok_match ([Star] @ map Literal e) f" for e
    by (simp add: ends_with_iff tok_match_Star_iff tok_match_exact)
  show ?thesis
    unfolding secret_by_component_def dirs names env
    by (simp only: SECRET_SUFFIXES_def list.map list.set bex_simps ends tok_match_exact) blast
qed

lemma secret_tokens_by_component:
  "list_ex (\<lambda>ts. tok_match ts f) (map (\<lambda>p. compile_from p 0) SECRET_PATH_PATTERNS) \<longleftrightarrow>
   secret_by_component f"
  unfolding secret_tokens secret_by_component_eq SECRET_NAMES_def list_ex_Nil_iff list_ex_Cons_iff name_at_tokens
    dir_at_tokens append_Cons append_Nil
  by blast

section \<open>Properties\<close>

text \<open>
  The deny list read component by component: after backslashes become slashes, leading
  \<open>./\<close> are dropped and case is folded, a path is secret exactly when it is past the matcher's cap,
  a directory component is \<open>secrets\<close> or \<open>credentials\<close>, its file name is one of the credential file
  names, a component starts with \<open>.env.\<close>, it ends in \<open>.pem\<close>, \<open>.key\<close> or \<open>.p12\<close>, or it is
  \<open>.aws/credentials\<close> at any depth. No match is ever left undecided.
\<close>

theorem is_secret_path_by_component:
  "is_secret_path lower path \<longleftrightarrow>
     (let f = fold_str lower (strip_dot_slash (replace_char c_backslash c_slash path))
      in MAX_UNITS < length f \<or> secret_by_component f)"
  by (simp only: is_secret_path_eq secret_tokens_by_component)

lemma replace_char_append [simp]:
  "replace_char a b (xs @ ys) = replace_char a b xs @ replace_char a b ys"
  by (simp add: replace_char_def)

lemma replace_char_Cons [simp]:
  "replace_char a b (x # xs) = (if x = a then b else x) # replace_char a b xs"
  by (simp add: replace_char_def)

lemma replace_char_idem [simp]:
  "replace_char c_backslash c_slash (replace_char c_backslash c_slash s) =
   replace_char c_backslash c_slash s"
  by (simp add: replace_char_def)

lemma in_test_directory_components:
  "in_test_directory str_lower path \<longleftrightarrow>
     (\<exists>d\<in>set (butlast (components (replace_char c_backslash c_slash path))).
        str_lower d \<in> set TEST_DIRECTORIES)"
proof (cases "rsplit_once c_slash (replace_char c_backslash c_slash path)")
  case None
  then have "components (replace_char c_backslash c_slash path) =
      [replace_char c_backslash c_slash path]"
    by (intro components_id) (simp add: rsplit_once_None_iff)
  with None show ?thesis by (simp add: in_test_directory_def)
next
  case (Some ab)
  then obtain a b where ab: "ab = (a, b)" by (cases ab)
  with Some have p: "replace_char c_backslash c_slash path = a @ c_slash # b" "c_slash \<notin> set b"
    by (simp_all add: rsplit_once_Some_iff)
  then have "butlast (components (replace_char c_backslash c_slash path)) = components a"
    by (simp add: components_split components_id butlast_append)
  with Some ab show ?thesis
    by (simp add: in_test_directory_def list_ex_iff List.member_iff)
qed

text \<open>
  Moving a tree under a directory does not change which of its files are tests, except that
  everything beneath a test directory is one: \<open>d/s\<close> is a test path exactly when \<open>s\<close> is, or a
  component of \<open>d\<close> (either separator) is a test directory up to case.
\<close>

theorem is_test_path_under_directory:
  "is_test_path str_lower (d @ c_slash # s) \<longleftrightarrow>
     is_test_path str_lower s \<or>
     (\<exists>c\<in>set (components (replace_char c_backslash c_slash d)). str_lower c \<in> set TEST_DIRECTORIES)"
  by (auto simp: is_test_path_def Let_def in_test_directory_components components_split
      butlast_append)

section \<open>Reading back rendered rows\<close>

fun escape_rows :: "str \<Rightarrow> str" where
  "escape_rows [] = []"
| "escape_rows (c # cs) =
     (if c = c_backslash \<or> c = c_quote then c_backslash # c # escape_rows cs else c # escape_rows cs)"

definition render_row :: "str \<times> bool \<Rightarrow> str" where
  "render_row = (\<lambda>(p, t).
     lit ''   \"path\": \"'' @ escape_rows p @ lit ''\",'' @ [c_nl] @
     lit ''   \"test\": '' @ lit (if t then ''true'' else ''false'') @ [c_nl])"

definition render_rows :: "(str \<times> bool) list \<Rightarrow> str" where
  "render_rows rows = concat (map render_row rows)"

lemma unescape_escape: "unescape_rows raw (escape_rows p) = Inr p"
  by (induction p) auto

lemma escape_rows_no_newline: "c_nl \<notin> set p \<Longrightarrow> c_nl \<notin> set (escape_rows p)"
  by (induction p) auto

lemma trim_quoted:
  assumes "\<not> is_whitespace a" and "\<not> is_whitespace b" and "list_all is_whitespace w"
  shows "trim (w @ a # m @ [b]) = a # m @ [b]" "trim (w @ [a]) = [a]"
  using assms by (simp_all add: trim_def trim_matches_def trim_start_matches_def
      trim_end_matches_def list_all_iff)

lemma rows_line_path:
  "rows_line (rows, None) (lit ''   \"path\": \"'' @ escape_rows p @ lit ''\",'') = Inr (rows, Some p)"
proof -
  let ?E = "escape_rows p"
  have t: "trim (lit ''   \"path\": \"'' @ ?E @ lit ''\",'') = lit ''\"path\": \"'' @ ?E @ lit ''\",''"
    using trim_quoted(1) [of c_quote c_comma "[32, 32, 32]" "tl (lit ''\"path\": \"'') @ ?E @ [c_quote]"]
    by (simp add: is_whitespace_def)
  have e: "trim_end_matches (\<lambda>c. c = c_comma) (lit ''\"path\": \"'' @ ?E @ lit ''\",'') =
      lit ''\"path\":'' @ [32] @ c_quote # ?E @ [c_quote]"
    by (simp add: trim_end_matches_def)
  have q: "trim ([32] @ c_quote # ?E @ [c_quote]) = c_quote # ?E @ [c_quote]"
    by (rule trim_quoted(1)) (simp_all add: is_whitespace_def)
  have u: "unquote (c_quote # ?E @ [c_quote]) = Inr p"
    using strip_prefix_append [of "[c_quote]" "?E @ [c_quote]"]
      strip_suffix_Some_iff [of "[c_quote]" "?E @ [c_quote]" ?E]
    by (simp add: unquote_def unescape_escape)
  show ?thesis
    unfolding rows_line_def t e Let_def prod.case strip_prefix_append option.case q u by simp
qed

lemma rows_line_test:
  "rows_line (rows, Some p) (lit ''   \"test\": '' @ lit (if t then ''true'' else ''false'')) =
     Inr (rows @ [(p, t)], None)"
  by (cases t) (simp_all add: rows_line_def trim_def trim_matches_def trim_start_matches_def
      trim_end_matches_def is_whitespace_def strip_prefix_def)

lemma str_lines_render_row:
  assumes "c_nl \<notin> set p"
  shows "str_lines (render_row (p, t) @ rest) =
    (lit ''   \"path\": \"'' @ escape_rows p @ lit ''\",'') #
    (lit ''   \"test\": '' @ lit (if t then ''true'' else ''false'')) # str_lines rest"
proof -
  let ?path = "lit ''   \"path\": \"'' @ escape_rows p @ lit ''\",''"
    and ?test = "lit ''   \"test\": '' @ lit (if t then ''true'' else ''false'')"
  have row: "render_row (p, t) @ rest = ?path @ c_nl # (?test @ c_nl # rest)"
    by (simp add: render_row_def)
  have path: "str_lines (?path @ c_nl # b) = ?path # str_lines b" for b
    using escape_rows_no_newline [OF assms] by (intro str_lines_line) auto
  have test: "str_lines (?test @ c_nl # b) = ?test # str_lines b" for b
    by (intro str_lines_line) auto
  show ?thesis unfolding row path test by (rule refl)
qed

lemma rows_lines_render:
  "list_all (\<lambda>(p, t). c_nl \<notin> set p) rows \<Longrightarrow>
   try_fold rows_line (acc, None) (str_lines (render_rows rows)) = Inr (acc @ rows, None)"
proof (induction rows arbitrary: acc)
  case Nil
  then show ?case by (simp add: render_rows_def)
next
  case (Cons r rows)
  obtain p t where r: "r = (p, t)" by (cases r)
  have split: "render_rows (r # rows) = render_row (p, t) @ render_rows rows"
    by (simp add: render_rows_def r)
  from Cons.prems r have p: "c_nl \<notin> set p" by simp
  have "try_fold rows_line (acc, None) (str_lines (render_rows (r # rows))) =
      try_fold rows_line (acc @ [(p, t)], None) (str_lines (render_rows rows))"
    unfolding split str_lines_render_row [OF p] try_fold.simps rows_line_path rows_line_test sum.case
    by (rule refl)
  with Cons.IH [of "acc @ [(p, t)]"] Cons.prems r show ?case by simp
qed

text \<open>
  Reading a rendered fixture gives back its rows: whatever the paths (without a newline), with
  quotes and backslashes escaped as JSON writes them, \<open>parse_test_path_rows\<close> returns exactly the
  rows that were written, in order.
\<close>

theorem parse_rendered_rows:
  assumes "rows \<noteq> []" and "list_all (\<lambda>(p, t). c_nl \<notin> set p) rows"
  shows "parse_test_path_rows (render_rows rows) = Inr rows"
  using assms rows_lines_render [of rows "[]"] by (simp add: parse_test_path_rows_def)

theorem parse_rendered_rows_witness:
  "parse_test_path_rows (render_rows [(lit ''a/b_test.go'', True), ([c_backslash, c_quote], False)]) =
     Inr [(lit ''a/b_test.go'', True), ([c_backslash, c_quote], False)]"
  by (rule parse_rendered_rows) simp_all

end
