(* ===== verification/Coverage.thy ===== *)
theory Coverage
  imports Diff Path_Rules
begin

text \<open>
  Coverage ingestion and the diff-coverage gate: \<^verbatim>\<open>rust/dc-verify/src/coverage.rs\<close> (Go cover profiles
  and LCOV) and \<open>intersect_coverage\<close> of \<^verbatim>\<open>rust/dc-verify/src/rigor.rs\<close>.

  The Go modules found under the repository root and the directories an absolute LCOV path is
  reduced against come from the file system and are arguments, as is the Unicode lower-casing of
  the test-path rules. A \<open>BTreeMap\<close> is an association list
  with distinct keys, read in key order by \<open>finish\<close>. Paths are Unix paths.
\<close>

section \<open>Coverage reports\<close>

definition MAX_COVERED_SPAN :: nat where "MAX_COVERED_SPAN = 1000000"
definition MAX_COVERED_LINES :: nat where "MAX_COVERED_LINES = 4000000"

record coverage_error =
  ce_line_number :: nat
  ce_line :: str
  ce_reason :: string

definition cov_err :: "nat \<Rightarrow> str \<Rightarrow> string \<Rightarrow> coverage_error" where
  "cov_err n l r = \<lparr>ce_line_number = n, ce_line = l, ce_reason = r\<rparr>"

record file_coverage =
  fc_path :: str
  fc_covered_lines :: "nat list"

record go_module =
  gm_path :: str
  gm_dir :: str

type_synonym line_map = "(str \<times> nat list) list"

definition entry_or_default :: "str \<Rightarrow> line_map \<Rightarrow> line_map" where
  "entry_or_default k m = (if k \<in> set (map fst m) then m else m @ [(k, [])])"

definition push_lines :: "str \<Rightarrow> nat list \<Rightarrow> line_map \<Rightarrow> line_map" where
  "push_lines k ns m = map (\<lambda>(p, ls). if p = k then (p, ls @ ns) else (p, ls)) m"

definition finish :: "line_map \<Rightarrow> file_coverage list" where
  "finish covered =
     map (\<lambda>(p, ls). \<lparr>fc_path = p, fc_covered_lines = remdups_adj (sort ls)\<rparr>) (sort_key fst covered)"

section \<open>Go cover profiles\<close>

text \<open>The last of the longest modules, as \<open>max_by_key\<close> picks it.\<close>

fun longest_module :: "go_module list \<Rightarrow> go_module option \<Rightarrow> go_module option" where
  "longest_module [] best = best"
| "longest_module (m # ms) best =
     (case best of
        None \<Rightarrow> longest_module ms (Some m)
      | Some b \<Rightarrow> longest_module ms (if byte_len (gm_path b) \<le> byte_len (gm_path m) then Some m else Some b))"

definition normalise_go_path :: "str \<Rightarrow> go_module list \<Rightarrow> str" where
  "normalise_go_path path modules =
     (if modules = [] then
        (case split_once c_slash path of
           Some (_, rest) \<Rightarrow>
             if c_slash \<in> set rest \<or> ends_with (lit ''.go'') rest then rest else path
         | None \<Rightarrow> path)
      else
        (case longest_module
                (filter (\<lambda>m. case strip_prefix (gm_path m) path of
                               Some rest \<Rightarrow> starts_with [c_slash] rest
                             | None \<Rightarrow> False) modules) None of
           Some m \<Rightarrow>
             (let rest = drop (length (gm_path m) + 1) path
              in if gm_dir m = [] then rest else gm_dir m @ c_slash # rest)
         | None \<Rightarrow> path))"

record go_block =
  gb_path :: str
  gb_start :: nat
  gb_end :: nat
  gb_count :: nat

text \<open>One line of the profile after the header, up to the checks on its span.\<close>

definition parse_go_block :: "nat \<Rightarrow> str \<Rightarrow> coverage_error + go_block" where
  "parse_go_block lineno line =
     (let bad = (\<lambda>reason. Inl (cov_err lineno line reason))
      in case rsplit_once c_space line of
           None \<Rightarrow> bad ''expected `location numStmts count`''
         | Some (location, counts) \<Rightarrow>
      (case parse_u64 counts of
           None \<Rightarrow> bad ''execution count is not a number''
         | Some cnt \<Rightarrow>
      (case rsplit_once c_space location of
           None \<Rightarrow> bad ''expected a statement count before the execution count''
         | Some (location, _) \<Rightarrow>
      (case split_once c_colon location of
           None \<Rightarrow> bad ''expected `path:span`''
         | Some (path, span) \<Rightarrow>
      (case split_once c_comma span of
           None \<Rightarrow> bad ''expected `start,end` in the span''
         | Some (start, stop) \<Rightarrow>
      (case parse_u32 (hd (split_on (\<lambda>c. c = c_dot) start)) of
           None \<Rightarrow> bad ''start line is not a number''
         | Some start_line \<Rightarrow>
      (case parse_u32 (hd (split_on (\<lambda>c. c = c_dot) stop)) of
           None \<Rightarrow> bad ''end line is not a number''
         | Some end_line \<Rightarrow>
             if end_line < start_line then bad ''the block ends before it starts''
             else if end_line - start_line + 1 > MAX_COVERED_SPAN
             then bad ''the block spans more lines than any real source file''
             else Inr \<lparr>gb_path = path, gb_start = start_line, gb_end = end_line,
                       gb_count = cnt\<rparr>)))))))"

record cover_state =
  cs_covered :: line_map
  cs_seen_any :: bool
  cs_materialised :: nat

definition cover_init :: cover_state where
  "cover_init = \<lparr>cs_covered = [], cs_seen_any = False, cs_materialised = 0\<rparr>"

definition block_lines :: "go_block \<Rightarrow> nat list" where
  "block_lines b = [gb_start b..<Suc (gb_end b)]"

definition add_block ::
  "go_module list \<Rightarrow> nat \<Rightarrow> str \<Rightarrow> cover_state \<Rightarrow> go_block \<Rightarrow> coverage_error + cover_state" where
  "add_block modules lineno line st b =
     (let key = normalise_go_path (gb_path b) modules;
          st' = st\<lparr>cs_seen_any := True, cs_covered := entry_or_default key (cs_covered st)\<rparr>
      in if gb_count b > 0 then
           (let total = min (cs_materialised st + (gb_end b - gb_start b + 1)) U64_MAX
            in if total > MAX_COVERED_LINES
               then Inl (cov_err lineno line
                 ''the profile's blocks together cover more lines than any real measurement'')
               else Inr (st'\<lparr>cs_materialised := total,
                            cs_covered := push_lines key (block_lines b) (cs_covered st')\<rparr>))
         else Inr st')"

definition go_line ::
  "go_module list \<Rightarrow> cover_state \<Rightarrow> nat \<times> str \<Rightarrow> coverage_error + cover_state" where
  "go_line modules st = (\<lambda>(lineno, raw).
     let line = trim raw
     in if line = [] \<or> starts_with (lit ''mode:'') line then Inr st
        else rbind (parse_go_block lineno line) (add_block modules lineno line st))"

definition parse_go :: "go_module list \<Rightarrow> str \<Rightarrow> coverage_error + file_coverage list" where
  "parse_go modules raw =
     rbind (try_fold (go_line modules) cover_init (numbered (str_lines raw))) (\<lambda>st.
       if \<not> cs_seen_any st
       then Inl (cov_err 0 []
         ''the profile has a header but no coverage blocks; the run measured nothing'')
       else Inr (finish (cs_covered st)))"

section \<open>LCOV\<close>

definition has_root :: "str \<Rightarrow> bool" where
  "has_root p = starts_with [c_slash] p"

text \<open>
  The components of a Unix path: the root, then the non-empty segments other than \<open>.\<close> (a leading
  \<open>.\<close> of a relative path is kept).
\<close>

definition path_components :: "str \<Rightarrow> str list" where
  "path_components p =
     (let segs = split_on (\<lambda>c. c = c_slash) p;
          normal = filter (\<lambda>c. c \<noteq> [] \<and> c \<noteq> [c_dot])
      in if has_root p then [c_slash] # normal segs
         else if hd segs = [c_dot] then [c_dot] # normal segs
         else normal segs)"

fun join_slash :: "str list \<Rightarrow> str" where
  "join_slash [] = []"
| "join_slash [s] = s"
| "join_slash (s # ss) = s @ c_slash # join_slash ss"

fun first_below :: "str list \<Rightarrow> str list \<Rightarrow> str option" where
  "first_below comps [] = None"
| "first_below comps (base # bases) =
     (case strip_prefix (path_components base) comps of
        None \<Rightarrow> first_below comps bases
      | Some rest \<Rightarrow> if rest \<noteq> [] then Some (join_slash rest) else first_below comps bases)"

definition normalise_lcov_path :: "str list \<Rightarrow> str \<Rightarrow> str" where
  "normalise_lcov_path bases path =
     (let trimmed = strip_dot_slash path
      in if \<not> has_root trimmed then trimmed
         else case first_below (path_components trimmed) bases of Some r \<Rightarrow> r | None \<Rightarrow> trimmed)"

record lcov_state =
  lc_cover :: cover_state
  lc_current :: "str option"

definition lcov_record ::
  "nat \<Rightarrow> str \<Rightarrow> lcov_state \<Rightarrow> str \<Rightarrow> coverage_error + lcov_state" where
  "lcov_record lineno line st record =
     (let bad = (\<lambda>reason. Inl (cov_err lineno line reason)); cov = lc_cover st
      in case lc_current st of
           None \<Rightarrow> bad ''a DA record appeared before any SF record''
         | Some file \<Rightarrow>
      (case split_once c_comma record of
           None \<Rightarrow> bad ''expected `DA:line,hits`''
         | Some (line_no, hits) \<Rightarrow>
      (case parse_u32 (trim line_no) of
           None \<Rightarrow> bad ''DA line number is not a number''
         | Some n \<Rightarrow>
      (case parse_u64 (trim (hd (split_on (\<lambda>c. c = c_comma) hits))) of
           None \<Rightarrow> bad ''DA hit count is not a number''
         | Some h \<Rightarrow>
             if h > 0 then
               (if cs_materialised cov + 1 > MAX_COVERED_LINES
                then bad ''the report covers more lines than any real measurement''
                else Inr (st\<lparr>lc_cover := cov\<lparr>cs_seen_any := True,
                       cs_materialised := cs_materialised cov + 1,
                       cs_covered := push_lines file [n] (entry_or_default file (cs_covered cov))\<rparr>\<rparr>))
             else Inr (st\<lparr>lc_cover := cov\<lparr>cs_seen_any := True\<rparr>\<rparr>)))))"

definition lcov_line ::
  "str list \<Rightarrow> lcov_state \<Rightarrow> nat \<times> str \<Rightarrow> coverage_error + lcov_state" where
  "lcov_line bases st = (\<lambda>(lineno, raw).
     let line = trim raw
     in case strip_prefix (lit ''SF:'') line of
          Some p \<Rightarrow>
            (let path = trim p
             in if path = [] then Inl (cov_err lineno line ''SF record names no file'')
                else let key = normalise_lcov_path bases path; cov = lc_cover st
                     in Inr (st\<lparr>lc_cover := cov\<lparr>cs_covered := entry_or_default key (cs_covered cov)\<rparr>,
                                lc_current := Some key\<rparr>))
        | None \<Rightarrow>
            (case strip_prefix (lit ''DA:'') line of
               Some rec \<Rightarrow> lcov_record lineno line st rec
             | None \<Rightarrow>
                 Inr (if line = lit ''end_of_record'' then st\<lparr>lc_current := None\<rparr> else st)))"

definition parse_lcov :: "str list \<Rightarrow> str \<Rightarrow> coverage_error + file_coverage list" where
  "parse_lcov bases raw =
     rbind (try_fold (lcov_line bases) \<lparr>lc_cover = cover_init, lc_current = None\<rparr>
              (numbered (str_lines raw))) (\<lambda>st.
       if \<not> cs_seen_any (lc_cover st)
       then Inl (cov_err 0 [] ''the LCOV report has no DA records; the run measured no lines'')
       else Inr (finish (cs_covered (lc_cover st))))"

definition parse_with_root ::
  "go_module list \<Rightarrow> str list \<Rightarrow> str \<Rightarrow> coverage_error + file_coverage list" where
  "parse_with_root modules bases raw =
     (let trimmed = trim_start raw
      in if trimmed = []
         then Inl (cov_err 0 [] ''the coverage file is empty; no measurement was recorded'')
         else if starts_with (lit ''mode:'') trimmed then parse_go modules raw
         else if starts_with (lit ''TN:'') trimmed \<or> starts_with (lit ''SF:'') trimmed
         then parse_lcov bases raw
         else Inl (cov_err 1 (case str_lines trimmed of [] \<Rightarrow> [] | l # _ \<Rightarrow> l)
           ''unrecognised coverage format (expected a Go coverprofile starting `mode:` or LCOV starting `TN:`/`SF:`)''))"

section \<open>The intersection with a diff\<close>

record coverage_gap =
  cg_path :: str
  cg_uncovered_lines :: "nat list"
  cg_added_lines :: nat

record coverage_report =
  cr_gaps :: "coverage_gap list"
  cr_unmeasured :: "str list"
  cr_skipped_by_type :: "str list"

definition coverage_is_clean :: "coverage_report \<Rightarrow> bool" where
  "coverage_is_clean r = (cr_gaps r = [] \<and> cr_unmeasured r = [])"

definition EXECUTABLE :: "str list" where
  "EXECUTABLE = map lit
     [''.go'', ''.rs'', ''.py'', ''.ts'', ''.tsx'', ''.js'', ''.jsx'', ''.mjs'', ''.cjs'', ''.mts'', ''.cts'',
      ''.java'', ''.kt'', ''.kts'', ''.scala'', ''.swift'', ''.rb'', ''.php'', ''.cs'', ''.c'', ''.cc'', ''.cpp'',
      ''.h'', ''.hpp'', ''.sh'', ''.bash'', ''.zsh'', ''.ps1'', ''.pl'', ''.lua'']"

definition is_executable_source :: "(str \<Rightarrow> str) \<Rightarrow> str \<Rightarrow> bool" where
  "is_executable_source str_lower path =
     (if is_test_path str_lower path then False else list_ex (\<lambda>ext. ends_with ext path) EXECUTABLE)"

text \<open>\<open>slice::binary_search\<close>: halving until the element or an empty range is left.\<close>

function binary_search :: "nat list \<Rightarrow> nat \<Rightarrow> bool" where
  "binary_search xs x =
     (if xs = [] then False
      else let mid = length xs div 2
           in if xs ! mid = x then True
              else if xs ! mid < x then binary_search (drop (mid + 1) xs) x
              else binary_search (take mid xs) x)"
  by pat_completeness auto
termination
  by (relation "measure (\<lambda>(xs, _). length xs)") (auto simp: neq_Nil_conv)

declare binary_search.simps [simp del]

definition intersect_file ::
  "(str \<Rightarrow> str) \<Rightarrow> file_coverage list \<Rightarrow> coverage_report \<Rightarrow> file_diff \<Rightarrow> coverage_report" where
  "intersect_file str_lower coverage report file =
     (let added = added_line_numbers file
      in if fd_status file = Deleted then report
         else if added = [] then report
         else if \<not> is_executable_source str_lower (fd_path file)
         then report\<lparr>cr_skipped_by_type := cr_skipped_by_type report @ [fd_path file]\<rparr>
         else case find (\<lambda>c. fc_path c = fd_path file) coverage of
                None \<Rightarrow> report\<lparr>cr_unmeasured := cr_unmeasured report @ [fd_path file]\<rparr>
              | Some entry \<Rightarrow>
                  (let ls = fc_covered_lines entry;
                       srt = (if sorted ls then ls else sort ls);
                       uncovered = filter (\<lambda>n. \<not> binary_search srt n) added
                   in if uncovered \<noteq> []
                      then report\<lparr>cr_gaps := cr_gaps report @
                             [\<lparr>cg_path = fd_path file, cg_uncovered_lines = uncovered,
                               cg_added_lines = length added\<rparr>]\<rparr>
                      else report))"

definition intersect_coverage ::
  "(str \<Rightarrow> str) \<Rightarrow> file_diff list \<Rightarrow> file_coverage list \<Rightarrow> coverage_report" where
  "intersect_coverage str_lower files coverage =
     (let r = foldl (intersect_file str_lower coverage)
                \<lparr>cr_gaps = [], cr_unmeasured = [], cr_skipped_by_type = []\<rparr> files
      in \<lparr>cr_gaps = sort_key cg_path (cr_gaps r), cr_unmeasured = sort (cr_unmeasured r),
          cr_skipped_by_type = sort (cr_skipped_by_type r)\<rparr>)"

section \<open>Sorted line lists\<close>

lemma strict_dedup: "sorted xs \<Longrightarrow> sorted_wrt (<) (remdups_adj xs)" for xs :: "nat list"
proof (induction xs rule: remdups_adj.induct)
  case (3 x y xs)
  then show ?case by (cases "x = y") (auto simp: le_less_trans dest: order_le_imp_less_or_eq)
qed auto

lemma binary_search_iff: "sorted xs \<Longrightarrow> binary_search xs x \<longleftrightarrow> x \<in> set xs"
proof (induction xs x rule: binary_search.induct)
  case (1 xs x)
  show ?case
  proof (cases "xs = []")
    case True
    then show ?thesis by (simp add: binary_search.simps)
  next
    case False
    define m where "m = length xs div 2"
    have m: "m < length xs" using False by (simp add: m_def)
    have parts: "xs = take m xs @ xs ! m # drop (Suc m) xs" using m by (simp add: id_take_nth_drop)
    have srt: "sorted (take m xs @ xs ! m # drop (Suc m) xs)" using 1(3) parts by simp
    then have lo: "\<forall>y\<in>set (take m xs). y \<le> xs ! m" and hi: "\<forall>y\<in>set (drop (Suc m) xs). xs ! m \<le> y"
      and "sorted (take m xs)" "sorted (drop (Suc m) xs)" by (auto simp: sorted_append)
    moreover have "x \<in> set xs \<longleftrightarrow> x \<in> set (take m xs) \<or> x = xs ! m \<or> x \<in> set (drop (Suc m) xs)"
      by (subst parts) auto
    ultimately show ?thesis
      using 1(1,2) False by (subst binary_search.simps) (auto simp: Let_def m_def [symmetric])
  qed
qed

section \<open>The map of covered lines\<close>

definition lines_at :: "line_map \<Rightarrow> str \<Rightarrow> nat set" where
  "lines_at m p = (case map_of m p of None \<Rightarrow> {} | Some ls \<Rightarrow> set ls)"

definition line_total :: "line_map \<Rightarrow> nat" where
  "line_total m = sum_list (map (\<lambda>(_, ls). length ls) m)"

lemma entry_facts [simp]:
  "distinct (map fst m) \<Longrightarrow> distinct (map fst (entry_or_default k m))"
  "set (map fst (entry_or_default k m)) = insert k (set (map fst m))"
  "lines_at (entry_or_default k m) p = lines_at m p"
  "line_total (entry_or_default k m) = line_total m"
  by (auto simp: entry_or_default_def lines_at_def line_total_def map_of_append
      map_add_def split: option.splits)

lemma entry_not_Nil [simp]: "entry_or_default k m \<noteq> []"
  by (auto simp: entry_or_default_def)

lemma push_Nil_iff [simp]: "push_lines k ns m = [] \<longleftrightarrow> m = []"
  by (simp add: push_lines_def)

lemma keys_push [simp]: "map fst (push_lines k ns m) = map fst m"
  by (auto simp: push_lines_def)

lemma map_of_push: "map_of (push_lines k ns m) p = map_option (\<lambda>ls. if p = k then ls @ ns else ls) (map_of m p)"
  by (induction m) (auto simp: push_lines_def)

lemma lines_at_push:
  "k \<in> set (map fst m) \<Longrightarrow> lines_at (push_lines k ns m) p = lines_at m p \<union> (if p = k then set ns else {})"
proof (cases "map_of m p")
  case None
  moreover assume "k \<in> set (map fst m)"
  ultimately have "p \<noteq> k" by (auto simp: map_of_eq_None_iff)
  with None show ?thesis by (simp add: lines_at_def map_of_push)
qed (simp add: lines_at_def map_of_push)

lemma line_total_push_absent: "k \<notin> set (map fst m) \<Longrightarrow> line_total (push_lines k ns m) = line_total m"
proof -
  assume "k \<notin> set (map fst m)"
  then have "push_lines k ns m = m" by (induction m) (auto simp: push_lines_def)
  then show ?thesis by simp
qed

lemma line_total_push:
  "distinct (map fst m) \<Longrightarrow> k \<in> set (map fst m) \<Longrightarrow>
   line_total (push_lines k ns m) = line_total m + length ns"
proof (induction m)
  case (Cons x m)
  obtain p ls where x: "x = (p, ls)" by (cases x)
  show ?case
  proof (cases "p = k")
    case True
    with Cons.prems x have "k \<notin> set (map fst m)" by simp
    from line_total_push_absent [OF this] show ?thesis
      by (simp add: push_lines_def line_total_def x True)
  next
    case False
    with Cons x show ?thesis by (simp add: push_lines_def line_total_def)
  qed
qed simp

lemma finish_entries:
  assumes "distinct (map fst m)"
  shows "(\<exists>c\<in>set (finish m). fc_path c = p \<and> n \<in> set (fc_covered_lines c)) \<longleftrightarrow> n \<in> lines_at m p"
proof -
  have "(\<exists>c\<in>set (finish m). fc_path c = p \<and> n \<in> set (fc_covered_lines c)) \<longleftrightarrow>
      (\<exists>ls. (p, ls) \<in> set m \<and> n \<in> set ls)"
    by (force simp: finish_def)
  moreover have "(p, ls) \<in> set m \<longleftrightarrow> map_of m p = Some ls" for ls
    using assms by simp
  ultimately show ?thesis by (simp add: lines_at_def split: option.splits)
qed

lemma finish_shape:
  assumes "distinct (map fst m)"
  shows "sorted_wrt (<) (map fc_path (finish m))"
    and "c \<in> set (finish m) \<Longrightarrow> sorted_wrt (<) (fc_covered_lines c)"
    and "sum_list (map (\<lambda>c. length (fc_covered_lines c)) (finish m)) \<le> line_total m"
proof -
  have paths: "map fc_path (finish m) = map fst (sort_key fst m)" by (auto simp: finish_def)
  have "distinct (map fst (sort_key fst m))"
    using assms by (metis distinct_map distinct_sort set_sort)
  then show "sorted_wrt (<) (map fc_path (finish m))"
    by (simp add: paths strict_sorted_iff)
  show "c \<in> set (finish m) \<Longrightarrow> sorted_wrt (<) (fc_covered_lines c)"
    by (auto simp: finish_def strict_dedup)
  have "sum_list (map (\<lambda>c. length (fc_covered_lines c)) (finish m)) \<le> line_total (sort_key fst m)"
    unfolding finish_def line_total_def
    by (auto simp: o_def split_def intro!: sum_list_mono order_trans [OF remdups_adj_length])
  also have "\<dots> = line_total m"
    unfolding line_total_def by (metis mset_map mset_sort sum_mset_sum_list)
  finally show "sum_list (map (\<lambda>c. length (fc_covered_lines c)) (finish m)) \<le> line_total m" .
qed

section \<open>The invariant of both parsers\<close>

definition cover_inv :: "cover_state \<Rightarrow> bool" where
  "cover_inv st =
     (distinct (map fst (cs_covered st)) \<and> cs_materialised st = line_total (cs_covered st) \<and>
      cs_materialised st \<le> MAX_COVERED_LINES \<and> (cs_seen_any st \<longrightarrow> cs_covered st \<noteq> []))"

lemma cover_inv_init: "cover_inv cover_init"
  by (simp add: cover_inv_def cover_init_def line_total_def)

lemma add_block_Inr:
  assumes "cover_inv st" "add_block modules n l st b = Inr st'" "gb_start b \<le> gb_end b"
  shows "cover_inv st' \<and>
    (\<forall>p. lines_at (cs_covered st') p = lines_at (cs_covered st) p \<union>
      (if gb_count b > 0 \<and> p = normalise_go_path (gb_path b) modules then {gb_start b..gb_end b} else {})) \<and>
    cs_seen_any st'"
proof -
  let ?k = "normalise_go_path (gb_path b) modules"
  let ?e = "entry_or_default ?k (cs_covered st)"
  have d: "distinct (map fst ?e)" and k: "?k \<in> set (map fst ?e)"
    using assms(1) by (simp_all add: cover_inv_def del: set_map)
  have len: "length (block_lines b) = gb_end b - gb_start b + 1"
    and set: "set (block_lines b) = {gb_start b..gb_end b}"
    using assms(3) by (auto simp: block_lines_def)
  have small: "MAX_COVERED_LINES < U64_MAX" by (simp add: MAX_COVERED_LINES_def U64_MAX_def)
  show ?thesis
    using assms d small
    by (auto simp: add_block_def Let_def cover_inv_def line_total_push [OF d k] lines_at_push [OF k]
        len set split: if_splits)
qed

lemma parse_go_block_ordered: "parse_go_block n l = Inr b \<Longrightarrow> gb_start b \<le> gb_end b"
  by (auto simp: parse_go_block_def Let_def split: option.splits if_splits)

definition profile_block :: "str \<Rightarrow> go_block \<Rightarrow> bool" where
  "profile_block raw b =
     (trim raw \<noteq> [] \<and> \<not> starts_with (lit ''mode:'') (trim raw) \<and>
      (case parse_go_block 0 (trim raw) of Inl _ \<Rightarrow> False | Inr b' \<Rightarrow> b' = b))"

lemma parse_go_block_lineno: "parse_go_block n l = Inr b \<longleftrightarrow> parse_go_block m l = Inr b"
  by (simp add: parse_go_block_def Let_def split: option.splits)

lemma go_line_Inr:
  assumes "cover_inv st" "go_line modules st (n, raw) = Inr st'"
  shows "cover_inv st' \<and>
    (\<forall>p. lines_at (cs_covered st') p = lines_at (cs_covered st) p \<union>
      {k. \<exists>b. profile_block raw b \<and> gb_count b > 0 \<and> p = normalise_go_path (gb_path b) modules \<and>
              gb_start b \<le> k \<and> k \<le> gb_end b})"
proof (cases "trim raw = [] \<or> starts_with (lit ''mode:'') (trim raw)")
  case True
  with assms show ?thesis by (auto simp: go_line_def Let_def profile_block_def)
next
  case False
  with assms(2) obtain b where b: "parse_go_block n (trim raw) = Inr b" "add_block modules n (trim raw) st b = Inr st'"
    by (auto simp: go_line_def Let_def rbind_Inr_iff simp del: lit_Cons)
  then have "parse_go_block 0 (trim raw) = Inr b" using parse_go_block_lineno by blast
  then have "profile_block raw b' \<longleftrightarrow> b' = b" for b' using False by (auto simp: profile_block_def)
  moreover note add_block_Inr [OF assms(1) b(2) parse_go_block_ordered [OF b(1)]]
  ultimately show ?thesis by auto
qed

interpretation go_profile: fallible_machine "go_line modules" cover_inv "\<lambda>_. True" for modules
  by unfold_locales (auto dest: go_line_Inr)

definition lcov_inv :: "lcov_state \<Rightarrow> bool" where
  "lcov_inv st = (cover_inv (lc_cover st) \<and> (lc_current st = None \<or> cs_covered (lc_cover st) \<noteq> []))"

lemma lcov_line_inv:
  assumes "lcov_inv st" "lcov_line bases st x = Inr st'"
  shows "lcov_inv st'"
proof -
  have push: "line_total (push_lines k [n] (entry_or_default k m)) = line_total m + 1"
    if "distinct (map fst m)" for k n m
    using that line_total_push [of "entry_or_default k m" k "[n]"] by (simp del: set_map)
  show ?thesis
    using assms
    by (auto simp: lcov_line_def lcov_record_def Let_def lcov_inv_def cover_inv_def push
        split: prod.splits option.splits if_splits)
qed

interpretation lcov_report: fallible_machine "lcov_line bases" lcov_inv "\<lambda>_. True" for bases
  by unfold_locales (auto dest: lcov_line_inv)

lemma go_lines:
  assumes "cover_inv st" "try_fold (go_line modules) st xs = Inr st'"
  shows "lines_at (cs_covered st') p = lines_at (cs_covered st) p \<union>
      {k. \<exists>x\<in>set xs. \<exists>b. profile_block (snd x) b \<and> gb_count b > 0 \<and>
          p = normalise_go_path (gb_path b) modules \<and> gb_start b \<le> k \<and> k \<le> gb_end b}"
  using assms
proof (induction xs arbitrary: st)
  case Nil
  then show ?case by simp
next
  case (Cons x xs)
  then obtain u where u: "go_line modules st x = Inr u" "try_fold (go_line modules) u xs = Inr st'"
    by (auto split: sum.splits)
  obtain n raw where x: "x = (n, raw)" by (cases x)
  from go_line_Inr [OF Cons.prems(1)] u(1) x have "cover_inv u" and
    eq: "lines_at (cs_covered u) p = lines_at (cs_covered st) p \<union>
      {k. \<exists>b. profile_block raw b \<and> gb_count b > 0 \<and> p = normalise_go_path (gb_path b) modules \<and>
              gb_start b \<le> k \<and> k \<le> gb_end b}"
    by blast+
  show ?case unfolding Cons.IH [OF \<open>cover_inv u\<close> u(2)] eq x by auto
qed

lemma parse_with_root_inv:
  assumes "parse_with_root modules bases raw = Inr fcs"
  obtains st where "cover_inv st" "fcs = finish (cs_covered st)" "cs_seen_any st"
proof -
  consider "parse_go modules raw = Inr fcs" | "parse_lcov bases raw = Inr fcs"
    using assms by (auto simp: parse_with_root_def Let_def split: if_splits)
  then show ?thesis
  proof cases
    case 1
    then show ?thesis
      using go_profile.run_inv [OF cover_inv_init] that
      by (auto simp: parse_go_def rbind_Inr_iff split: if_splits)
  next
    case 2
    then show ?thesis
      using lcov_report.run_inv [of "\<lparr>lc_cover = cover_init, lc_current = None\<rparr>"] cover_inv_init that
      by (auto simp: parse_lcov_def lcov_inv_def rbind_Inr_iff split: if_splits)
  qed
qed

section \<open>The intersection as four buckets\<close>

definition asked :: "(str \<Rightarrow> str) \<Rightarrow> file_diff \<Rightarrow> bool" where
  "asked str_lower f = (fd_status f \<noteq> Deleted \<and> fd_added_lines f \<noteq> [] \<and> is_executable_source str_lower (fd_path f))"

definition missed :: "file_coverage list \<Rightarrow> file_diff \<Rightarrow> nat list" where
  "missed coverage f =
     (case find (\<lambda>c. fc_path c = fd_path f) coverage of
        None \<Rightarrow> []
      | Some c \<Rightarrow> filter (\<lambda>n. n \<notin> set (fc_covered_lines c)) (added_line_numbers f))"

definition gap_of :: "file_coverage list \<Rightarrow> file_diff \<Rightarrow> coverage_gap" where
  "gap_of coverage f = \<lparr>cg_path = fd_path f, cg_uncovered_lines = missed coverage f,
     cg_added_lines = length (fd_added_lines f)\<rparr>"

definition measured :: "file_coverage list \<Rightarrow> file_diff \<Rightarrow> bool" where
  "measured coverage f = (\<exists>c\<in>set coverage. fc_path c = fd_path f)"

lemma find_measured: "find (\<lambda>c. fc_path c = fd_path f) coverage = None \<longleftrightarrow> \<not> measured coverage f"
  by (auto simp: find_None_iff measured_def)

lemma binary_search_sorted:
  "binary_search (if sorted ls then ls else sort ls) n \<longleftrightarrow> n \<in> set ls"
  by (simp add: binary_search_iff)

lemma intersect_file_eq:
  "intersect_file str_lower coverage r f =
   \<lparr>cr_gaps = cr_gaps r @ (if asked str_lower f \<and> missed coverage f \<noteq> [] then [gap_of coverage f] else []),
    cr_unmeasured = cr_unmeasured r @ (if asked str_lower f \<and> \<not> measured coverage f then [fd_path f] else []),
    cr_skipped_by_type = cr_skipped_by_type r @
      (if fd_status f \<noteq> Deleted \<and> fd_added_lines f \<noteq> [] \<and> \<not> is_executable_source str_lower (fd_path f)
       then [fd_path f] else [])\<rparr>"
proof (cases "find (\<lambda>c. fc_path c = fd_path f) coverage")
  case None
  then have "\<not> measured coverage f" by (simp add: find_measured)
  with None show ?thesis
    by (simp add: intersect_file_def asked_def missed_def added_line_numbers_def)
next
  case (Some c)
  then have "measured coverage f" by (metis find_measured option.discI)
  with Some show ?thesis
    by (simp add: intersect_file_def asked_def missed_def gap_of_def added_line_numbers_def Let_def
        binary_search_sorted)
qed

lemma intersect_files:
  "foldl (intersect_file str_lower coverage) r files =
   \<lparr>cr_gaps = cr_gaps r @ map (gap_of coverage)
      (filter (\<lambda>f. asked str_lower f \<and> missed coverage f \<noteq> []) files),
    cr_unmeasured = cr_unmeasured r @
      map fd_path (filter (\<lambda>f. asked str_lower f \<and> \<not> measured coverage f) files),
    cr_skipped_by_type = cr_skipped_by_type r @ map fd_path (filter (\<lambda>f. fd_status f \<noteq> Deleted \<and>
      fd_added_lines f \<noteq> [] \<and> \<not> is_executable_source str_lower (fd_path f)) files)\<rparr>"
  by (induction files arbitrary: r) (simp_all add: intersect_file_eq)

section \<open>Properties of the coverage gate\<close>

text \<open>
  Whatever report is accepted, Go profile or LCOV, it lists each file once in path order, each
  with strictly increasing line numbers, and at most four million lines in all.
\<close>

theorem coverage_report_shape:
  assumes "parse_with_root modules bases raw = Inr fcs"
  shows "sorted_wrt (<) (map fc_path fcs) \<and>
    list_all (\<lambda>c. sorted_wrt (<) (fc_covered_lines c)) fcs \<and>
    sum_list (map (\<lambda>c. length (fc_covered_lines c)) fcs) \<le> MAX_COVERED_LINES"
proof -
  obtain st where st: "cover_inv st" "fcs = finish (cs_covered st)"
    using parse_with_root_inv [OF assms] by blast
  then have d: "distinct (map fst (cs_covered st))" by (simp add: cover_inv_def)
  from finish_shape(3) [OF d] st have "sum_list (map (\<lambda>c. length (fc_covered_lines c)) fcs) \<le> MAX_COVERED_LINES"
    by (simp add: cover_inv_def)
  then show ?thesis using finish_shape(1,2) [OF d] st(2) by (simp add: list_all_iff)
qed

text \<open>
  C38. A line of a Go profile counts as covered exactly when some block with a positive count, of a
  path that normalises to the file, spans it: no block is lost and no line is invented.
\<close>

theorem go_covered_iff:
  assumes "parse_go modules raw = Inr fcs"
  shows "(\<exists>c\<in>set fcs. fc_path c = p \<and> n \<in> set (fc_covered_lines c)) \<longleftrightarrow>
    (\<exists>l\<in>set (str_lines raw). \<exists>b. profile_block l b \<and> gb_count b > 0 \<and>
       normalise_go_path (gb_path b) modules = p \<and> gb_start b \<le> n \<and> n \<le> gb_end b)"
proof -
  obtain st where st: "try_fold (go_line modules) cover_init (numbered (str_lines raw)) = Inr st"
    "fcs = finish (cs_covered st)"
    using assms by (auto simp: parse_go_def rbind_Inr_iff split: if_splits)
  have d: "distinct (map fst (cs_covered st))"
    using go_profile.run_inv [OF cover_inv_init st(1)] by (simp add: cover_inv_def)
  have "set (str_lines raw) = snd ` set (numbered (str_lines raw))"
    by (metis list.set_map map_snd_numbered)
  then show ?thesis
    unfolding st(2) finish_entries [OF d] go_lines [OF cover_inv_init st(1)]
    by (auto simp: cover_init_def lines_at_def)
qed

text \<open>
  An accepted coverage report is never an empty measurement: a file with nothing but white
  space, a profile of no blocks and an LCOV report of no records are errors.
\<close>

theorem coverage_never_empty:
  assumes "parse_with_root modules bases raw = Inr fcs"
  shows "fcs \<noteq> []"
proof -
  obtain st where "cover_inv st" "fcs = finish (cs_covered st)" "cs_seen_any st"
    using parse_with_root_inv [OF assms] by blast
  then show ?thesis by (simp add: cover_inv_def finish_def)
qed

text \<open>
  The coverage gate is clean exactly when every changed, executable, non-test file that adds a
  line has a coverage entry and every added line is in it, whether or not the entry's lines were
  sorted.
\<close>

theorem coverage_clean_iff:
  "coverage_is_clean (intersect_coverage str_lower files coverage) \<longleftrightarrow>
   list_all (\<lambda>f. asked str_lower f \<longrightarrow> measured coverage f \<and> missed coverage f = []) files"
  by (auto simp: coverage_is_clean_def intersect_coverage_def Let_def intersect_files filter_empty_conv list_all_iff)

section \<open>A concrete profile\<close>

definition demo_profile :: str where
  "demo_profile = lit ''mode: set'' @ c_nl # lit ''m/a.go:2.1,3.9 1 4'' @ [c_nl]"

lemma demo_lines: "str_lines demo_profile = [lit ''mode: set'', lit ''m/a.go:2.1,3.9 1 4'']"
  by (simp add: demo_profile_def str_lines_def Let_def chomp_cr_def)

lemma demo_block:
  "parse_go_block n (lit ''m/a.go:2.1,3.9 1 4'') =
   Inr \<lparr>gb_path = lit ''m/a.go'', gb_start = 2, gb_end = 3, gb_count = 4\<rparr>"
  by (simp add: parse_go_block_def rsplit_once_def parse_u64_def parse_u32_def parse_unsigned_def
      parse_digits_def is_ascii_digit_def dec_value_def U64_MAX_def U32_MAX_def MAX_COVERED_SPAN_def)

definition demo_coverage :: "file_coverage list" where
  "demo_coverage = [\<lparr>fc_path = lit ''a.go'', fc_covered_lines = [2, 3]\<rparr>]"

lemma demo_parse_go: "parse_go [] demo_profile = Inr demo_coverage"
  by (simp add: parse_go_def demo_lines demo_coverage_def numbered_def go_line_def trim_word
      is_whitespace_def demo_block [simplified] starts_with_def cover_init_def add_block_def
      normalise_go_path_def ends_with_def entry_or_default_def push_lines_def block_lines_def
      MAX_COVERED_LINES_def U64_MAX_def finish_def upt_rec)

lemma demo_parse: "parse_with_root [] [] demo_profile = Inr demo_coverage"
proof -
  have "trim_start demo_profile = demo_profile"
    by (simp add: trim_start_def trim_start_matches_def demo_profile_def is_whitespace_def)
  moreover have "starts_with (lit ''mode:'') demo_profile" "demo_profile \<noteq> []"
    by (simp_all add: demo_profile_def starts_with_def)
  ultimately show ?thesis by (simp add: parse_with_root_def demo_parse_go del: lit_Cons)
qed

theorem coverage_report_shape_witness:
  "list_all (\<lambda>c. sorted_wrt (<) (fc_covered_lines c)) demo_coverage \<and>
   sum_list (map (\<lambda>c. length (fc_covered_lines c)) demo_coverage) = 2"
  using coverage_report_shape [OF demo_parse] by (simp add: demo_coverage_def)

theorem go_covered_iff_witness:
  "\<exists>l\<in>set (str_lines demo_profile). \<exists>b. profile_block l b \<and> gb_count b > 0 \<and>
     normalise_go_path (gb_path b) [] = lit ''a.go'' \<and> gb_start b \<le> 3 \<and> 3 \<le> gb_end b"
  using go_covered_iff [OF demo_parse_go, of "lit ''a.go''" 3] by (simp add: demo_coverage_def)

theorem coverage_never_empty_witness: "demo_coverage \<noteq> []"
  by (rule coverage_never_empty [OF demo_parse])

lemma demo_executable: "is_executable_source (\<lambda>s. s) (lit ''a.go'')"
  by code_simp

theorem coverage_clean_iff_witness:
  "coverage_is_clean (intersect_coverage (\<lambda>s. s)
     [\<lparr>fd_path = lit ''a.go'', fd_old_path = None, fd_status = Modified,
       fd_added_lines = [(3, lit ''x'')], fd_removed_lines = []\<rparr>] demo_coverage)"
  using demo_executable
  by (simp add: coverage_clean_iff asked_def measured_def missed_def demo_coverage_def added_line_numbers_def del: lit_Cons)

end
