(* ===== verification/Evidence.thy ===== *)
theory Evidence
  imports Complex_Main Utf8 Path_Rules
begin

text \<open>
  The acceptance checks of \<^verbatim>\<open>rust/dc-evidence/src\<close> (\<^verbatim>\<open>types.rs\<close>, \<^verbatim>\<open>strict_json.rs\<close>, \<^verbatim>\<open>lib.rs\<close>): contracts and
  evidence bundles, their validation, the journal rules and the verdict of \<open>verify\<close>.

  SHA-256, the JSON parser and the derived deserialisers are third-party or generated code: they are
  the fields of the argument \<open>codec\<close>. A JSON object is the list of its members; a \<open>BTreeMap\<close> is an
  association list, a \<open>BTreeSet\<close> a set.
\<close>

section \<open>Types\<close>

text \<open>\<open>serde_json::Number\<close>: a \<open>u64\<close>, a negative \<open>i64\<close> or a finite \<open>f64\<close>, the last by its value.\<close>

datatype json_number = PosInt nat | NegInt int | Float rat

datatype json =
    JNull
  | JBool bool
  | JNumber json_number
  | JString str
  | JArray "json list"
  | JObject "(str \<times> json) list"

datatype pred_op = Exists | Equals json | NotEquals json | Contains json | Minimum json

record criterion =
  cr_id :: str
  cr_fact :: str
  cr_required :: bool
  cr_predicate :: pred_op

record contract =
  ct_schema_version :: nat
  ct_id :: str
  ct_criteria :: "criterion list"

datatype outcome_kind = Success | Business

record outcome =
  oc_id :: str
  oc_kind :: outcome_kind

datatype intervention_status = Requested | Returned | Abandoned

record intervention =
  iv_id :: str
  iv_sequence :: nat
  iv_reason_code :: str
  iv_status :: intervention_status

record human_action =
  ha_id :: str
  ha_sequence :: nat
  ha_kind :: str
  ha_intervention_id :: str

record recovery_applied =
  ra_id :: str
  ra_sequence :: nat
  ra_step_id :: str

record locator_hit =
  lh_target :: str
  lh_strategy_index :: nat
  lh_sequence :: nat

record epoch_transition =
  et_sequence :: nat
  et_from_epoch :: nat
  et_to_epoch :: nat
  et_reason :: str

datatype disposition = Succeeded | NotDispatched | DFailed | Unknown | Cancelled | Denied

record action =
  ac_id :: str
  ac_sequence :: nat
  ac_disposition :: disposition

record observation =
  ob_sequence :: nat
  ob_run_id :: str
  ob_session_id :: str
  ob_epoch :: nat
  ob_after_action_id :: str
  ob_facts :: "(str \<times> json) list"
  ob_artifact_ids :: "str list"

record artifact =
  ar_id :: str
  ar_path :: str
  ar_sha256 :: str
  ar_size_bytes :: nat

record evidence_bundle =
  bu_schema_version :: nat
  bu_run_id :: str
  bu_session_id :: str
  bu_epoch :: nat
  bu_epoch_transitions :: "epoch_transition list"
  bu_contract_sha256 :: str
  bu_capability_sha256 :: str
  bu_policy_sha256 :: "str option"
  bu_outcome :: "outcome option"
  bu_journal_complete :: bool
  bu_degraded :: "str list"
  bu_actions :: "action list"
  bu_observations :: "observation list"
  bu_artifacts :: "artifact list"
  bu_interventions :: "intervention list"
  bu_human_actions :: "human_action list"
  bu_recoveries :: "recovery_applied list"
  bu_locator_hits :: "locator_hit list"

record expected_run =
  ex_run_id :: str
  ex_session_id :: str
  ex_epoch :: nat
  ex_contract_sha256 :: str
  ex_capability_sha256 :: str

datatype verdict = Passed | Failed | Incomplete

definition combine :: "verdict \<Rightarrow> verdict \<Rightarrow> verdict" where
  "combine a b =
     (if a = Failed \<or> b = Failed then Failed
      else if a = Incomplete \<or> b = Incomplete then Incomplete
      else Passed)"

record criterion_result =
  re_id :: str
  re_required :: bool
  re_verdict :: verdict
  re_reason :: string

record issue =
  is_code :: string
  is_verdict :: verdict

record report =
  rp_ok :: bool
  rp_evidence_schema_version :: nat
  rp_verdict :: verdict
  rp_contract_sha256 :: str
  rp_bundle_sha256 :: str
  rp_run_id :: str
  rp_criteria :: "criterion_result list"
  rp_issues :: "issue list"

definition report_issue :: "string \<Rightarrow> verdict \<Rightarrow> report \<Rightarrow> report" where
  "report_issue code v r =
     r\<lparr>rp_issues := (if list_ex (\<lambda>i. is_code i = code) (rp_issues r) then rp_issues r
                     else rp_issues r @ [\<lparr>is_code = code, is_verdict = v\<rparr>]),
       rp_verdict := combine (rp_verdict r) v\<rparr>"

record codec =
  cd_sha256 :: "byte list \<Rightarrow> str"
  cd_json :: "byte list \<Rightarrow> str + json"
  cd_contract :: "byte list \<Rightarrow> str + contract"
  cd_bundle :: "byte list \<Rightarrow> str + evidence_bundle"

definition SCHEMA_VERSION :: nat where "SCHEMA_VERSION = 1"
definition MAX_CONTRACT_BYTES :: nat where "MAX_CONTRACT_BYTES = 1024 * 1024"
definition MAX_BUNDLE_BYTES :: nat where "MAX_BUNDLE_BYTES = 4 * 1024 * 1024"
definition MAX_ARTIFACT_BYTES :: nat where "MAX_ARTIFACT_BYTES = 16 * 1024 * 1024"
definition MAX_TOTAL_ARTIFACT_BYTES :: nat where "MAX_TOTAL_ARTIFACT_BYTES = 64 * 1024 * 1024"
definition MAX_ARTIFACTS :: nat where "MAX_ARTIFACTS = 128"
definition MAX_EVENTS :: nat where "MAX_EVENTS = 4096"
definition MAX_CRITERIA :: nat where "MAX_CRITERIA = 256"

section \<open>Strict JSON\<close>

text \<open>The visitor of \<^verbatim>\<open>strict_json.rs\<close> on the document the parser reads: unique keys, at every level.\<close>

fun unique_keys :: "json \<Rightarrow> bool" where
  "unique_keys (JArray vs) = list_all unique_keys vs"
| "unique_keys (JObject ms) = (distinct (map fst ms) \<and> list_all (\<lambda>m. unique_keys (snd m)) ms)"
| "unique_keys v = True"

definition strict_validate :: "codec \<Rightarrow> byte list \<Rightarrow> str + unit" where
  "strict_validate cd bytes =
     rbind (cd_json cd bytes) (\<lambda>v. guard (unique_keys v) (lit ''duplicate object key''))"

definition parse_input :: "codec \<Rightarrow> (byte list \<Rightarrow> str + 'a) \<Rightarrow> byte list \<Rightarrow> nat \<Rightarrow> str + 'a" where
  "parse_input cd decode bytes limit =
     (if length bytes > limit
      then Inl (lit ''input exceeds '' @ show_nat limit @ lit '' byte limit'')
      else case strict_validate cd bytes of
             Inl e \<Rightarrow> Inl (lit ''invalid JSON: '' @ e)
           | Inr _ \<Rightarrow>
               (case decode bytes of
                  Inl e \<Rightarrow> Inl (lit ''invalid protocol shape: '' @ e)
                | Inr x \<Rightarrow> Inr x))"

section \<open>Identifiers, digests, paths and numbers\<close>

definition is_control :: "uchar \<Rightarrow> bool" where
  "is_control c = (c < 32 \<or> 127 \<le> c \<and> c \<le> 159)"

definition check_identifier :: "str \<Rightarrow> str + unit" where
  "check_identifier v =
     guard (\<not> (v = [] \<or> byte_len v > 256 \<or> list_ex is_control v))
       (lit ''identifier must contain 1..256 bytes without control characters'')"

definition hex_digit :: "byte \<Rightarrow> bool" where
  "hex_digit b = (48 \<le> b \<and> b \<le> 57 \<or> 97 \<le> b \<and> b \<le> 102)"

definition check_digest :: "str \<Rightarrow> str + unit" where
  "check_digest v =
     guard (\<not> (byte_len v \<noteq> 64 \<or> \<not> list_all hex_digit (utf8_encode v)))
       (lit ''digest must be 64 lowercase hexadecimal characters'')"

definition ascii_upper :: "uchar \<Rightarrow> uchar" where
  "ascii_upper c = (if 97 \<le> c \<and> c \<le> 122 then c - 32 else c)"

definition reserved_stem :: "str \<Rightarrow> bool" where
  "reserved_stem stem =
     (stem \<in> set (map lit [''CON'', ''PRN'', ''AUX'', ''NUL'']) \<or>
      byte_len stem = 4 \<and> (starts_with (lit ''COM'') stem \<or> starts_with (lit ''LPT'') stem) \<and>
      is_ascii_digit (utf8_encode stem ! 3))"

definition check_component :: "str \<Rightarrow> str + unit" where
  "check_component c =
     (if c = [] \<or> c = [c_dot] \<or> c = [c_dot, c_dot] \<or> ends_with [c_dot] c \<or> ends_with [c_space] c \<or>
         list_ex is_control c
      then Inl (lit ''invalid artifact path component'')
      else if reserved_stem (map ascii_upper (hd (split_on (\<lambda>x. x = c_dot) c)))
      then Inl (lit ''reserved platform artifact path'')
      else Inr ())"

definition validate_artifact_path :: "str \<Rightarrow> str + unit" where
  "validate_artifact_path path =
     (if path = [] \<or> byte_len path > 1024 \<or>
         list_ex (\<lambda>c. c = c_backslash \<or> c = c_colon \<or> c = 0) path
      then Inl (lit ''invalid artifact relative path'')
      else try_fold (\<lambda>_ c. check_component c) () (split_on (\<lambda>c. c = c_slash) path))"

text \<open>
  \<open>as f64\<close> of an unsigned integer: the nearest value with 53 significant bits, ties to even.
\<close>

fun bit_length :: "nat \<Rightarrow> nat" where
  "bit_length n = (if n = 0 then 0 else Suc (bit_length (n div 2)))"

declare bit_length.simps [simp del]

definition f64_of_nat :: "nat \<Rightarrow> nat" where
  "f64_of_nat n =
     (let k = bit_length n - 53
      in if k = 0 then n
         else let q = n div 2 ^ k; r = n mod 2 ^ k; half = 2 ^ (k - 1)
              in (if r > half \<or> r = half \<and> odd q then q + 1 else q) * 2 ^ k)"

fun as_f64 :: "json \<Rightarrow> rat option" where
  "as_f64 (JNumber (PosInt n)) = Some (of_nat (f64_of_nat n))"
| "as_f64 (JNumber (NegInt i)) = Some (- of_nat (f64_of_nat (nat (- i))))"
| "as_f64 (JNumber (Float x)) = Some x"
| "as_f64 v = None"

definition safe_number :: "json \<Rightarrow> bool" where
  "safe_number v = (case as_f64 v of None \<Rightarrow> False | Some x \<Rightarrow> \<bar>x\<bar> \<le> 9007199254740991)"

section \<open>Contracts\<close>

definition check_predicate :: "pred_op \<Rightarrow> str + unit" where
  "check_predicate p =
     (case p of
        Minimum v \<Rightarrow>
          guard (safe_number v)
            (lit ''minimum requires a finite number within the exact JSON integer range'')
      | Contains v \<Rightarrow>
          (case v of
             JString _ \<Rightarrow> Inr ()
           | JArray _ \<Rightarrow> Inr ()
           | _ \<Rightarrow> Inl (lit ''contains requires a string or array''))
      | _ \<Rightarrow> Inr ())"

definition check_criterion :: "str set \<Rightarrow> criterion \<Rightarrow> str + str set" where
  "check_criterion ids c =
     rbind (check_identifier (cr_id c)) (\<lambda>_.
     rbind (check_identifier (cr_fact c)) (\<lambda>_.
       if cr_id c \<in> ids then Inl (lit ''duplicate criterion id'')
       else rbind (check_predicate (cr_predicate c)) (\<lambda>_. Inr (insert (cr_id c) ids))))"

definition parse_contract :: "codec \<Rightarrow> byte list \<Rightarrow> str + contract" where
  "parse_contract cd bytes =
     rbind (parse_input cd (cd_contract cd) bytes MAX_CONTRACT_BYTES) (\<lambda>c.
       if ct_schema_version c \<noteq> SCHEMA_VERSION
       then Inl (lit ''unsupported contract schema_version'')
       else rbind (check_identifier (ct_id c)) (\<lambda>_.
         if ct_criteria c = [] \<or> length (ct_criteria c) > MAX_CRITERIA
         then Inl (lit ''contract must contain 1..256 criteria'')
         else if \<not> list_ex cr_required (ct_criteria c)
         then Inl (lit ''contract must contain a required criterion'')
         else rbind (try_fold check_criterion {} (ct_criteria c)) (\<lambda>_. Inr c)))"

section \<open>Bundles\<close>

definition check_intervention :: "nat \<times> str set \<Rightarrow> intervention \<Rightarrow> str + nat \<times> str set" where
  "check_intervention = (\<lambda>(prior, ids) i.
     rbind (check_identifier (iv_id i)) (\<lambda>_.
     rbind (check_identifier (iv_reason_code i)) (\<lambda>_.
       if iv_sequence i = 0 \<or> iv_sequence i \<le> prior
       then Inl (lit ''intervention sequences must be positive and strictly increasing'')
       else if iv_id i \<in> ids then Inl (lit ''duplicate intervention id'')
       else Inr (iv_sequence i, insert (iv_id i) ids))))"

definition check_human_action ::
  "str set \<Rightarrow> nat \<times> str set \<Rightarrow> human_action \<Rightarrow> str + nat \<times> str set" where
  "check_human_action intervention_ids = (\<lambda>(prior, ids) a.
     rbind (check_identifier (ha_id a)) (\<lambda>_.
     rbind (check_identifier (ha_kind a)) (\<lambda>_.
     rbind (check_identifier (ha_intervention_id a)) (\<lambda>_.
       if ha_sequence a = 0 \<or> ha_sequence a \<le> prior
       then Inl (lit ''human_action sequences must be positive and strictly increasing'')
       else if ha_id a \<in> ids then Inl (lit ''duplicate human_action id'')
       else if ha_intervention_id a \<notin> intervention_ids
       then Inl (lit ''human_action references unknown intervention_id'')
       else Inr (ha_sequence a, insert (ha_id a) ids)))))"

definition check_recovery ::
  "nat \<times> (str \<times> nat) set \<Rightarrow> recovery_applied \<Rightarrow> str + nat \<times> (str \<times> nat) set" where
  "check_recovery = (\<lambda>(prior, keys) r.
     rbind (check_identifier (ra_id r)) (\<lambda>_.
     rbind (check_identifier (ra_step_id r)) (\<lambda>_.
       if ra_sequence r = 0 \<or> ra_sequence r \<le> prior
       then Inl (lit ''recovery sequences must be positive and strictly increasing'')
       else if (ra_id r, ra_sequence r) \<in> keys then Inl (lit ''duplicate recovery id/sequence'')
       else Inr (ra_sequence r, insert (ra_id r, ra_sequence r) keys))))"

definition check_locator_hit :: "nat \<Rightarrow> locator_hit \<Rightarrow> str + nat" where
  "check_locator_hit prior h =
     rbind (check_identifier (lh_target h)) (\<lambda>_.
       if lh_sequence h = 0 \<or> lh_sequence h \<le> prior
       then Inl (lit ''locator_hit sequences must be positive and strictly increasing'')
       else Inr (lh_sequence h))"

definition validate_side_records :: "evidence_bundle \<Rightarrow> str + unit" where
  "validate_side_records b =
     rbind (try_fold check_intervention (0, {}) (bu_interventions b)) (\<lambda>(_, intervention_ids).
     rbind (try_fold (check_human_action intervention_ids) (0, {}) (bu_human_actions b)) (\<lambda>_.
     rbind (try_fold check_recovery (0, {}) (bu_recoveries b)) (\<lambda>_.
     rbind (try_fold check_locator_hit 0 (bu_locator_hits b)) (\<lambda>_. Inr ()))))"

record artifact_scan =
  as_ids :: "str set"
  as_paths :: "str set"
  as_total_bytes :: nat

definition check_artifact :: "artifact_scan \<Rightarrow> artifact \<Rightarrow> str + artifact_scan" where
  "check_artifact st a =
     rbind (check_identifier (ar_id a)) (\<lambda>_.
     rbind (check_digest (ar_sha256 a)) (\<lambda>_.
     rbind (validate_artifact_path (ar_path a)) (\<lambda>_.
       if ar_id a \<in> as_ids st \<or> ar_path a \<in> as_paths st
       then Inl (lit ''duplicate artifact id or path'')
       else if ar_size_bytes a > MAX_ARTIFACT_BYTES
       then Inl (lit ''artifact exceeds 16 MiB limit'')
       else Inr \<lparr>as_ids = insert (ar_id a) (as_ids st), as_paths = insert (ar_path a) (as_paths st),
                 as_total_bytes = as_total_bytes st + ar_size_bytes a\<rparr>)))"

definition check_bundle :: "evidence_bundle \<Rightarrow> str + unit" where
  "check_bundle b =
     (if bu_schema_version b \<noteq> SCHEMA_VERSION
      then Inl (lit ''unsupported bundle schema_version'')
      else
        rbind (check_identifier (bu_run_id b)) (\<lambda>_.
        rbind (check_identifier (bu_session_id b)) (\<lambda>_.
        rbind (guard (bu_epoch b \<noteq> 0) (lit ''epoch must be positive'')) (\<lambda>_.
        rbind (check_digest (bu_contract_sha256 b)) (\<lambda>_.
        rbind (check_digest (bu_capability_sha256 b)) (\<lambda>_.
        rbind (case bu_policy_sha256 b of None \<Rightarrow> Inr () | Some d \<Rightarrow> check_digest d) (\<lambda>_.
        rbind (case bu_outcome b of None \<Rightarrow> Inr () | Some oc \<Rightarrow> check_identifier (oc_id oc)) (\<lambda>_.
        if length (bu_actions b) + length (bu_observations b) + length (bu_epoch_transitions b) >
           MAX_EVENTS
        then Inl (lit ''journal exceeds 4096 event limit'')
        else if length (bu_artifacts b) > MAX_ARTIFACTS
        then Inl (lit ''artifact count exceeds 128'')
        else if length (bu_degraded b) > MAX_CRITERIA
        then Inl (lit ''degraded diagnostic count exceeds 256'')
        else if length (bu_interventions b) > MAX_CRITERIA \<or>
           length (bu_human_actions b) > MAX_CRITERIA \<or> length (bu_recoveries b) > MAX_CRITERIA \<or>
           length (bu_locator_hits b) > MAX_CRITERIA
        then Inl (lit ''interventions, human_actions, recoveries, or locator_hits exceed 256'')
        else
          rbind (validate_side_records b) (\<lambda>_.
          rbind (try_fold check_artifact \<lparr>as_ids = {}, as_paths = {}, as_total_bytes = 0\<rparr>
                   (bu_artifacts b)) (\<lambda>st.
            guard (as_total_bytes st \<le> MAX_TOTAL_ARTIFACT_BYTES)
              (lit ''artifacts exceed 64 MiB aggregate limit'')))))))))))"

definition parse_bundle :: "codec \<Rightarrow> byte list \<Rightarrow> str + evidence_bundle" where
  "parse_bundle cd bytes =
     rbind (parse_input cd (cd_bundle cd) bytes MAX_BUNDLE_BYTES) (\<lambda>b.
       rbind (check_bundle b) (\<lambda>_. Inr b))"

section \<open>The journal\<close>

record epoch_scan =
  ep_prior :: nat
  ep_active :: nat
  ep_sequences :: "nat set"
  ep_at :: "(nat \<times> nat) list"

definition bt_insert :: "'k \<Rightarrow> 'v \<Rightarrow> ('k \<times> 'v) list \<Rightarrow> ('k \<times> 'v) list" where
  "bt_insert k v m = filter (\<lambda>(k', _). k' \<noteq> k) m @ [(k, v)]"

text \<open>\<open>epoch_at_sequence.range(..s).next_back()\<close>: the entry with the greatest key below \<open>s\<close>.\<close>

definition epoch_before :: "nat \<Rightarrow> (nat \<times> nat) list \<Rightarrow> nat option" where
  "epoch_before s m =
     (let below = sort_key fst (filter (\<lambda>(k, _). k < s) m)
      in if below = [] then None else Some (snd (last below)))"

definition transition_step :: "epoch_scan \<Rightarrow> epoch_transition \<Rightarrow> str + epoch_scan" where
  "transition_step st t =
     rbind (check_identifier (et_reason t)) (\<lambda>_.
       if et_sequence t \<le> ep_prior st \<or> et_sequence t \<in> ep_sequences st \<or>
          et_from_epoch t \<noteq> ep_active st \<or> et_to_epoch t \<le> ep_active st
       then Inl (lit ''invalid epoch transition sequence or chain'')
       else Inr \<lparr>ep_prior = et_sequence t, ep_active = et_to_epoch t,
                 ep_sequences = insert (et_sequence t) (ep_sequences st),
                 ep_at = bt_insert (et_sequence t) (et_to_epoch t) (ep_at st)\<rparr>)"

record action_scan =
  an_prior :: nat
  an_sequences :: "nat set"
  an_actions :: "(str \<times> nat) list"
  an_report :: report

definition disposition_issue :: "disposition \<Rightarrow> report \<Rightarrow> report" where
  "disposition_issue d r =
     (case d of
        Succeeded \<Rightarrow> r
      | NotDispatched \<Rightarrow> r
      | DFailed \<Rightarrow> report_issue ''action_failed'' Failed r
      | _ \<Rightarrow> report_issue ''action_not_completed'' Incomplete r)"

definition action_step :: "action_scan \<Rightarrow> action \<Rightarrow> str + action_scan" where
  "action_step st a =
     rbind (check_identifier (ac_id a)) (\<lambda>_.
       if ac_id a \<in> set (map fst (an_actions st)) \<or> ac_sequence a \<le> an_prior st \<or>
          ac_sequence a \<in> an_sequences st
       then Inl (lit ''duplicate or unordered action id/sequence'')
       else Inr \<lparr>an_prior = ac_sequence a, an_sequences = insert (ac_sequence a) (an_sequences st),
                 an_actions = bt_insert (ac_id a) (ac_sequence a) (an_actions st),
                 an_report = disposition_issue (ac_disposition a) (an_report st)\<rparr>)"

record observation_scan =
  on_prior :: nat
  on_sequences :: "nat set"
  on_observed :: "str set"
  on_report :: report

definition issue_if :: "bool \<Rightarrow> string \<Rightarrow> verdict \<Rightarrow> report \<Rightarrow> report" where
  "issue_if b code v r = (if b then report_issue code v r else r)"

definition artifact_refs_ok :: "str set \<Rightarrow> str list \<Rightarrow> bool" where
  "artifact_refs_ok known ids = (list_all (\<lambda>i. i \<in> known) ids \<and> distinct ids)"

definition observation_issues ::
  "evidence_bundle \<Rightarrow> (nat \<times> nat) list \<Rightarrow> observation \<Rightarrow> nat \<Rightarrow> report \<Rightarrow> report" where
  "observation_issues b epochs ob act_seq r0 =
     (let r1 = issue_if (ob_run_id ob \<noteq> bu_run_id b \<or> ob_session_id ob \<noteq> bu_session_id b \<or>
                         Some (ob_epoch ob) \<noteq> epoch_before (ob_sequence ob) epochs)
                 ''observation_binding_mismatch'' Failed r0;
          r2 = issue_if (list_ex (\<lambda>a. ac_id a = ob_after_action_id ob \<and>
                                      ac_disposition a = NotDispatched) (bu_actions b))
                 ''observation_claims_undispatched_action'' Failed r1;
          r3 = issue_if (ob_sequence ob \<le> act_seq) ''observation_precedes_action'' Failed r2
      in issue_if (list_ex (\<lambda>a. ac_disposition a \<noteq> NotDispatched \<and> ac_sequence a > act_seq \<and>
                                ac_sequence a < ob_sequence ob) (bu_actions b))
           ''observation_references_stale_action'' Failed r3)"

definition observation_step ::
  "evidence_bundle \<Rightarrow> (nat \<times> nat) list \<Rightarrow> (str \<times> nat) list \<Rightarrow> observation_scan \<Rightarrow> observation \<Rightarrow>
   str + observation_scan" where
  "observation_step b epochs actions st ob =
     (if ob_sequence ob \<le> on_prior st \<or> ob_sequence ob \<in> on_sequences st
      then Inl (lit ''duplicate or unordered observation sequence'')
      else case map_of actions (ob_after_action_id ob) of
             None \<Rightarrow> Inl (lit ''observation references unknown action'')
           | Some act_seq \<Rightarrow>
               (if \<not> artifact_refs_ok (set (map ar_id (bu_artifacts b))) (ob_artifact_ids ob)
                then Inl (lit ''unknown or duplicate observation artifact reference'')
                else if length (ob_facts ob) > MAX_CRITERIA
                then Inl (lit ''observation exceeds 256 facts'')
                else rbind (try_fold (\<lambda>_ k. check_identifier k) () (map fst (ob_facts ob))) (\<lambda>_.
                  Inr \<lparr>on_prior = ob_sequence ob,
                       on_sequences = insert (ob_sequence ob) (on_sequences st),
                       on_observed = insert (ob_after_action_id ob) (on_observed st),
                       on_report = observation_issues b epochs ob act_seq (on_report st)\<rparr>)))"

definition final_epoch_unobserved :: "evidence_bundle \<Rightarrow> bool" where
  "final_epoch_unobserved b =
     (bu_epoch_transitions b \<noteq> [] \<and>
      (bu_observations b = [] \<or>
       ob_sequence (last (bu_observations b)) \<le> et_sequence (last (bu_epoch_transitions b))))"

definition final_action_unobserved :: "evidence_bundle \<Rightarrow> bool" where
  "final_action_unobserved b =
     (bu_actions b \<noteq> [] \<and> bu_observations b \<noteq> [] \<and>
      (let a = last (bu_actions b); ob = last (bu_observations b)
       in ob_after_action_id ob \<noteq> ac_id a \<or> ob_sequence ob \<le> ac_sequence a))"

definition validate_journal :: "evidence_bundle \<Rightarrow> report \<Rightarrow> str + report" where
  "validate_journal b r =
     (let r1 = issue_if (bu_actions b = [] \<or> bu_observations b = [])
                 ''empty_action_or_observation_journal'' Incomplete r
      in rbind (try_fold transition_step
                  \<lparr>ep_prior = 0, ep_active = bu_epoch b, ep_sequences = {}, ep_at = [(0, bu_epoch b)]\<rparr>
                  (bu_epoch_transitions b)) (\<lambda>ep.
         let r2 = issue_if (final_epoch_unobserved b) ''final_epoch_unobserved'' Incomplete r1
         in if bu_actions b = [] then Inr r2
            else rbind (try_fold action_step
                          \<lparr>an_prior = 0, an_sequences = ep_sequences ep, an_actions = [], an_report = r2\<rparr>
                          (bu_actions b)) (\<lambda>an.
                 rbind (try_fold (observation_step b (ep_at ep) (an_actions an))
                          \<lparr>on_prior = 0, on_sequences = an_sequences an, on_observed = {},
                           on_report = an_report an\<rparr>
                          (bu_observations b)) (\<lambda>on.
                   let r3 = issue_if (list_ex (\<lambda>a. ac_disposition a \<noteq> NotDispatched \<and>
                                                    ac_id a \<notin> on_observed on) (bu_actions b))
                              ''action_has_no_post_observation'' Incomplete (on_report on)
                   in Inr (issue_if (final_action_unobserved b) ''final_action_unobserved'' Incomplete r3)))))"

section \<open>Facts, predicates and the verdict\<close>

definition human_control_returned :: "evidence_bundle \<Rightarrow> bool" where
  "human_control_returned b =
     (if bu_interventions b = [] then False
      else let latest = Max (set (map iv_sequence (bu_interventions b)))
           in list_all (\<lambda>i. iv_status i = Returned)
                (filter (\<lambda>i. iv_sequence i = latest) (bu_interventions b)))"

definition kind_text :: "outcome_kind \<Rightarrow> str" where
  "kind_text k = (case k of Success \<Rightarrow> lit ''success'' | Business \<Rightarrow> lit ''business'')"

definition resolve_fact :: "evidence_bundle \<Rightarrow> observation option \<Rightarrow> str \<Rightarrow> json option" where
  "resolve_fact b latest name =
     (if name = lit ''outcome.id'' then map_option (\<lambda>oc. JString (oc_id oc)) (bu_outcome b)
      else if name = lit ''outcome.kind''
      then map_option (\<lambda>oc. JString (kind_text (oc_kind oc))) (bu_outcome b)
      else if name = lit ''human_control_returned'' then Some (JBool (human_control_returned b))
      else case latest of None \<Rightarrow> None | Some ob \<Rightarrow> map_of (ob_facts ob) name)"

text \<open>
  Equality of \<open>serde_json\<close> values. An object keeps its members in the order of the document (the
  workspace builds it over an index map), and its equality disregards that order.
\<close>

lemma member_size: "m \<in> set ms \<Longrightarrow> size (snd m) < size (JObject ms)"
proof (induction ms)
  case (Cons a ms)
  then show ?case by (cases a) auto
qed simp

lemma element_size: "(x, y) \<in> set (zip xs ys) \<Longrightarrow> size x < size (JArray xs)"
proof -
  have "z \<in> set xs \<Longrightarrow> size z < size (JArray xs)" for z by (induction xs) auto
  then show "(x, y) \<in> set (zip xs ys) \<Longrightarrow> size x < size (JArray xs)" by (simp only: set_zip_leftD)
qed

function json_eq :: "json \<Rightarrow> json \<Rightarrow> bool" where
  "json_eq a b =
     (case (a, b) of
        (JArray xs, JArray ys) \<Rightarrow> length xs = length ys \<and> (\<forall>(x, y)\<in>set (zip xs ys). json_eq x y)
      | (JObject ms, JObject ns) \<Rightarrow>
          length ms = length ns \<and>
          (\<forall>m\<in>set ms. case map_of ns (fst m) of Some v \<Rightarrow> json_eq (snd m) v | None \<Rightarrow> False)
      | _ \<Rightarrow> a = b)"
  by pat_completeness auto
termination
  by (relation "measure (size \<circ> fst)") (auto intro: element_size member_size simp del: json.size)

declare json_eq.simps [simp del]

lemma json_eq_scalars [simp]:
  "json_eq JNull v \<longleftrightarrow> v = JNull" "json_eq (JBool b) v \<longleftrightarrow> v = JBool b"
  "json_eq (JNumber n) v \<longleftrightarrow> v = JNumber n" "json_eq (JString s) v \<longleftrightarrow> v = JString s"
  by (auto simp: json_eq.simps)

lemma json_eq_reorder:
  assumes "distinct (map fst ms)" "mset ns = mset ms" "\<And>m. m \<in> set ms \<Longrightarrow> json_eq (snd m) (snd m)"
  shows "json_eq (JObject ms) (JObject ns)"
proof -
  have "distinct (map fst ns)" "set ns = set ms" "length ns = length ms"
    using assms(1,2) by (metis mset_map mset_eq_imp_distinct_iff, metis mset_eq_setD, metis mset_eq_length)
  then have "map_of ns (fst m) = Some (snd m)" if "m \<in> set ms" for m
    using that map_of_is_SomeI [of ns "fst m" "snd m"] by simp
  then show ?thesis using assms(3) \<open>length ns = length ms\<close> by (subst json_eq.simps) simp
qed

definition judge :: "bool \<Rightarrow> verdict \<times> string" where
  "judge b = (if b then (Passed, ''predicate satisfied'') else (Failed, ''predicate not satisfied''))"

definition eval_predicate :: "pred_op \<Rightarrow> json \<Rightarrow> verdict \<times> string" where
  "eval_predicate p actual =
     (case p of
        Exists \<Rightarrow> judge (actual \<noteq> JNull)
      | Equals v \<Rightarrow> judge (json_eq actual v)
      | NotEquals v \<Rightarrow> judge (\<not> json_eq actual v)
      | Contains v \<Rightarrow>
          (case (actual, v) of
             (JString a, JString e) \<Rightarrow> judge (contains_sub e a)
           | (JArray a, JArray e) \<Rightarrow> judge (list_all (\<lambda>x. list_ex (\<lambda>y. json_eq y x) a) e)
           | _ \<Rightarrow> (Incomplete, ''contains observation type mismatch''))
      | Minimum v \<Rightarrow>
          if \<not> safe_number actual
          then (Incomplete, ''minimum observation is not an exact-range finite number'')
          else (case (as_f64 actual, as_f64 v) of
                  (Some a, Some e) \<Rightarrow> judge (a \<ge> e)
                | _ \<Rightarrow> (Incomplete, ''minimum observation type mismatch'')))"

type_synonym artifact_inputs = "(str \<times> (str + byte list)) list"

definition artifact_step ::
  "codec \<Rightarrow> artifact_inputs \<Rightarrow> nat \<times> report \<Rightarrow> artifact \<Rightarrow> str + nat \<times> report" where
  "artifact_step cd inputs = (\<lambda>(total, r) a.
     case map_of inputs (ar_id a) of
       Some (Inr bytes) \<Rightarrow>
         if length bytes > MAX_ARTIFACT_BYTES
         then Inl (lit ''provided artifact exceeds byte limit'')
         else if total + length bytes > MAX_TOTAL_ARTIFACT_BYTES
         then Inl (lit ''provided artifacts exceed aggregate byte limit'')
         else Inr (total + length bytes,
                issue_if (length bytes \<noteq> ar_size_bytes a \<or> cd_sha256 cd bytes \<noteq> ar_sha256 a)
                  ''artifact_integrity_mismatch'' Failed r)
     | _ \<Rightarrow> Inr (total, report_issue ''artifact_unavailable'' Incomplete r))"

definition judge_criterion ::
  "evidence_bundle \<Rightarrow> bool \<Rightarrow> criterion \<Rightarrow> criterion_result" where
  "judge_criterion b journal_valid c =
     (let latest = (if bu_observations b = [] then None else Some (last (bu_observations b)));
          (v, reason) =
            (if \<not> journal_valid then (Incomplete, ''evidence prerequisites not satisfied'')
             else case resolve_fact b latest (cr_fact c) of
                    Some x \<Rightarrow> eval_predicate (cr_predicate c) x
                  | None \<Rightarrow> (Incomplete, ''required observation fact is missing''))
      in \<lparr>re_id = cr_id c, re_required = cr_required c, re_verdict = v, re_reason = reason\<rparr>)"

definition push_criterion :: "evidence_bundle \<Rightarrow> bool \<Rightarrow> report \<Rightarrow> criterion \<Rightarrow> report" where
  "push_criterion b journal_valid r c =
     (let res = judge_criterion b journal_valid c
      in r\<lparr>rp_criteria := rp_criteria r @ [res],
           rp_verdict := (if cr_required c then combine (rp_verdict r) (re_verdict res)
                          else rp_verdict r)\<rparr>)"

definition binding_mismatch :: "codec \<Rightarrow> byte list \<Rightarrow> evidence_bundle \<Rightarrow> expected_run \<Rightarrow> bool" where
  "binding_mismatch cd contract_bytes b ex =
     (cd_sha256 cd contract_bytes \<noteq> ex_contract_sha256 ex \<or>
      bu_contract_sha256 b \<noteq> ex_contract_sha256 ex \<or>
      bu_capability_sha256 b \<noteq> ex_capability_sha256 ex \<or>
      bu_run_id b \<noteq> ex_run_id ex \<or> bu_session_id b \<noteq> ex_session_id ex \<or>
      bu_epoch b \<noteq> ex_epoch ex)"

definition fresh_report :: "codec \<Rightarrow> byte list \<Rightarrow> byte list \<Rightarrow> expected_run \<Rightarrow> report" where
  "fresh_report cd contract_bytes bundle_bytes ex =
     \<lparr>rp_ok = True, rp_evidence_schema_version = SCHEMA_VERSION, rp_verdict = Passed,
      rp_contract_sha256 = cd_sha256 cd contract_bytes, rp_bundle_sha256 = cd_sha256 cd bundle_bytes,
      rp_run_id = ex_run_id ex, rp_criteria = [], rp_issues = []\<rparr>"

definition verify ::
  "codec \<Rightarrow> byte list \<Rightarrow> byte list \<Rightarrow> expected_run \<Rightarrow> artifact_inputs \<Rightarrow> str + report" where
  "verify cd contract_bytes bundle_bytes ex inputs =
     rbind (parse_contract cd contract_bytes) (\<lambda>contract.
     rbind (parse_bundle cd bundle_bytes) (\<lambda>b.
     rbind (check_identifier (ex_run_id ex)) (\<lambda>_.
     rbind (check_identifier (ex_session_id ex)) (\<lambda>_.
     rbind (check_digest (ex_contract_sha256 ex)) (\<lambda>_.
     rbind (check_digest (ex_capability_sha256 ex)) (\<lambda>_.
     rbind (guard (ex_epoch ex \<noteq> 0) (lit ''expected epoch must be positive'')) (\<lambda>_.
       let r0 = fresh_report cd contract_bytes bundle_bytes ex;
           r1 = issue_if (binding_mismatch cd contract_bytes b ex) ''binding_mismatch'' Failed r0;
           r2 = issue_if (\<not> bu_journal_complete b \<or> bu_degraded b \<noteq> [])
                  ''journal_incomplete_or_degraded'' Incomplete r1
       in rbind (validate_journal b r2) (\<lambda>r3.
          rbind (try_fold (artifact_step cd inputs) (0, r3) (bu_artifacts b)) (\<lambda>(_, r4).
            if list_ex (\<lambda>k. k \<notin> set (map ar_id (bu_artifacts b))) (map fst inputs)
            then Inl (lit ''provided artifact is not declared in bundle'')
            else Inr (foldl (push_criterion b (rp_issues r4 = [])) r4 (ct_criteria contract)))))))))))"

end
