(* ===== verification/Verdict.thy ===== *)
theory Verdict
  imports Evidence
begin

text \<open>
  What \<open>verify\<close> of the dc-evidence model guarantees: the verdict order, the invariant of reports, the
  exact conditions under which the journal rules raise nothing, the meaning of a passed run, and the
  bounds and containment facts of parsed bundles.
\<close>

section \<open>The order of verdicts\<close>

fun severity :: "verdict \<Rightarrow> nat" where
  "severity Passed = 0"
| "severity Incomplete = 1"
| "severity Failed = 2"

instantiation verdict :: linorder
begin

definition less_eq_verdict :: "verdict \<Rightarrow> verdict \<Rightarrow> bool" where
  "less_eq_verdict a b = (severity a \<le> severity b)"

definition less_verdict :: "verdict \<Rightarrow> verdict \<Rightarrow> bool" where
  "less_verdict a b = (severity a < severity b)"

instance
proof
  fix a b :: verdict
  show "a \<le> b \<Longrightarrow> b \<le> a \<Longrightarrow> a = b"
    by (cases a; cases b) (simp_all add: less_eq_verdict_def)
qed (auto simp: less_eq_verdict_def less_verdict_def)

end

lemma combine_max: "combine a b = max a b"
  by (cases a; cases b) (simp_all add: combine_def max_def less_eq_verdict_def)

lemma Passed_least [simp]: "Passed \<le> v" "max Passed v = v" "max v Passed = v"
  by (simp_all add: max_def less_eq_verdict_def) (cases v; simp)+

lemma le_Passed [simp]: "v \<le> Passed \<longleftrightarrow> v = Passed"
  by (cases v) (simp_all add: less_eq_verdict_def)

text \<open>The worst of a list of verdicts.\<close>

definition worst :: "verdict list \<Rightarrow> verdict" where
  "worst vs = foldr max vs Passed"

lemma worst_simps [simp]:
  "worst [] = Passed" "worst (v # vs) = max v (worst vs)" "worst (vs @ ws) = max (worst vs) (worst ws)"
  by (induction vs) (auto simp: worst_def max.assoc)

lemma worst_Passed: "worst vs = Passed \<longleftrightarrow> list_all (\<lambda>v. v = Passed) vs"
  by (induction vs) (auto simp: max_def split: if_splits)

lemma worst_ge: "v \<in> set vs \<Longrightarrow> v \<le> worst vs"
  by (induction vs) (auto simp: le_max_iff_disj)

section \<open>Issues\<close>

definition INCOMPLETE_CODES :: "string list" where
  "INCOMPLETE_CODES =
     [''journal_incomplete_or_degraded'', ''artifact_unavailable'', ''empty_action_or_observation_journal'',
      ''final_epoch_unobserved'', ''action_not_completed'', ''action_has_no_post_observation'',
      ''final_action_unobserved'']"

definition code_verdict :: "string \<Rightarrow> verdict" where
  "code_verdict c = (if c \<in> set INCOMPLETE_CODES then Incomplete else Failed)"

lemma code_verdict_eval [simp]:
  "code_verdict ''journal_incomplete_or_degraded'' = Incomplete"
  "code_verdict ''artifact_unavailable'' = Incomplete"
  "code_verdict ''empty_action_or_observation_journal'' = Incomplete"
  "code_verdict ''final_epoch_unobserved'' = Incomplete"
  "code_verdict ''action_not_completed'' = Incomplete"
  "code_verdict ''action_has_no_post_observation'' = Incomplete"
  "code_verdict ''final_action_unobserved'' = Incomplete"
  "code_verdict ''binding_mismatch'' = Failed"
  "code_verdict ''artifact_integrity_mismatch'' = Failed"
  "code_verdict ''action_failed'' = Failed"
  "code_verdict ''observation_binding_mismatch'' = Failed"
  "code_verdict ''observation_claims_undispatched_action'' = Failed"
  "code_verdict ''observation_precedes_action'' = Failed"
  "code_verdict ''observation_references_stale_action'' = Failed"
  by (simp_all add: code_verdict_def INCOMPLETE_CODES_def)

text \<open>
  What every report satisfies: the verdict is the worst of its issues and of its required criteria,
  and an issue has the verdict of its code.
\<close>

definition report_inv :: "report \<Rightarrow> bool" where
  "report_inv r =
     (list_all (\<lambda>i. is_verdict i = code_verdict (is_code i)) (rp_issues r) \<and>
      rp_verdict r = worst (map is_verdict (rp_issues r) @ map re_verdict (filter re_required (rp_criteria r))))"

lemma report_issue_inv:
  assumes "report_inv r"
  shows "report_inv (report_issue c (code_verdict c) r)"
proof (cases "list_ex (\<lambda>i. is_code i = c) (rp_issues r)")
  case True
  then obtain i where i: "i \<in> set (rp_issues r)" "is_code i = c" by (auto simp: list_ex_iff)
  with assms have "code_verdict c \<in> set (map is_verdict (rp_issues r))"
    by (force simp: report_inv_def list_all_iff)
  then have "code_verdict c \<le> worst (map is_verdict (rp_issues r))" by (rule worst_ge)
  with assms True show ?thesis
    by (auto simp: report_issue_def report_inv_def combine_max max_def split: if_splits)
next
  case False
  with assms show ?thesis
    by (simp add: report_issue_def report_inv_def combine_max ac_simps)
qed

lemma issue_if_inv: "report_inv r \<Longrightarrow> v = code_verdict c \<Longrightarrow> report_inv (issue_if b c v r)"
  by (simp add: issue_if_def report_issue_inv)

lemma report_issue_not_Nil [simp]: "rp_issues (report_issue c v r) \<noteq> []"
  by (auto simp: report_issue_def)

lemma issue_if_Nil [simp]: "rp_issues (issue_if b c v r) = [] \<longleftrightarrow> \<not> b \<and> rp_issues r = []"
  by (simp add: issue_if_def)

lemma report_issue_criteria [simp]:
  "rp_criteria (report_issue c v r) = rp_criteria r" "rp_criteria (issue_if b c v r) = rp_criteria r"
  by (simp_all add: report_issue_def issue_if_def)

lemma disposition_issue_facts [simp]:
  "rp_issues (disposition_issue d r) = [] \<longleftrightarrow> (d = Succeeded \<or> d = NotDispatched) \<and> rp_issues r = []"
  "rp_criteria (disposition_issue d r) = rp_criteria r"
  by (cases d; simp add: disposition_issue_def)+

lemma disposition_issue_inv: "report_inv r \<Longrightarrow> report_inv (disposition_issue d r)"
  using report_issue_inv [of r "''action_failed''"] report_issue_inv [of r "''action_not_completed''"]
  by (cases d) (simp_all add: disposition_issue_def)

lemma observation_issues_inv: "report_inv r \<Longrightarrow> report_inv (observation_issues b ep ob n r)"
  by (simp add: observation_issues_def Let_def issue_if_inv)

lemma observation_issues_criteria [simp]: "rp_criteria (observation_issues b ep ob n r) = rp_criteria r"
  by (simp add: observation_issues_def Let_def)

section \<open>The journal machines\<close>

interpretation actions: fallible_machine action_step "\<lambda>st. report_inv (an_report st) \<and> rp_criteria (an_report st) = []" "\<lambda>_. True"
  by unfold_locales (auto simp: action_step_def rbind_Inr_iff disposition_issue_inv split: if_splits)

interpretation observations: fallible_machine "observation_step b ep acts" "\<lambda>st. report_inv (on_report st) \<and> rp_criteria (on_report st) = []" "\<lambda>_. True" for b ep acts
  by unfold_locales (auto simp: observation_step_def rbind_Inr_iff observation_issues_inv split: if_splits option.splits)

interpretation artifacts: fallible_machine "artifact_step cd inputs" "\<lambda>st. report_inv (snd st) \<and> rp_criteria (snd st) = []" "\<lambda>_. True" for cd inputs
proof unfold_locales
  fix s a s'
  assume "report_inv (snd s) \<and> rp_criteria (snd s) = []" "artifact_step cd inputs s a = Inr s'"
  then show "report_inv (snd s') \<and> rp_criteria (snd s') = []"
    using report_issue_inv [of "snd s" "''artifact_unavailable''"]
    by (auto simp: artifact_step_def issue_if_inv split: prod.splits option.splits sum.splits if_splits)
qed simp

definition before_actions :: "evidence_bundle \<Rightarrow> report \<Rightarrow> report" where
  "before_actions b r = issue_if (final_epoch_unobserved b) ''final_epoch_unobserved'' Incomplete
     (issue_if (bu_actions b = [] \<or> bu_observations b = []) ''empty_action_or_observation_journal'' Incomplete r)"

definition after_observations :: "evidence_bundle \<Rightarrow> str set \<Rightarrow> report \<Rightarrow> report" where
  "after_observations b observed r =
     issue_if (final_action_unobserved b) ''final_action_unobserved'' Incomplete
       (issue_if (list_ex (\<lambda>a. ac_disposition a \<noteq> NotDispatched \<and> ac_id a \<notin> observed) (bu_actions b))
         ''action_has_no_post_observation'' Incomplete r)"

abbreviation epoch_start :: "evidence_bundle \<Rightarrow> epoch_scan" where
  "epoch_start b \<equiv> \<lparr>ep_prior = 0, ep_active = bu_epoch b, ep_sequences = {}, ep_at = [(0, bu_epoch b)]\<rparr>"

abbreviation action_start :: "epoch_scan \<Rightarrow> report \<Rightarrow> action_scan" where
  "action_start ep r \<equiv> \<lparr>an_prior = 0, an_sequences = ep_sequences ep, an_actions = [], an_report = r\<rparr>"

abbreviation observation_start :: "action_scan \<Rightarrow> observation_scan" where
  "observation_start an \<equiv> \<lparr>on_prior = 0, on_sequences = an_sequences an, on_observed = {}, on_report = an_report an\<rparr>"

lemma validate_journal_eq:
  "validate_journal b r =
   rbind (try_fold transition_step (epoch_start b) (bu_epoch_transitions b)) (\<lambda>ep.
     if bu_actions b = [] then Inr (before_actions b r)
     else rbind (try_fold action_step (action_start ep (before_actions b r)) (bu_actions b)) (\<lambda>an.
          rbind (try_fold (observation_step b (ep_at ep) (an_actions an)) (observation_start an)
                   (bu_observations b)) (\<lambda>on.
            Inr (after_observations b (on_observed on) (on_report on)))))"
  by (simp only: validate_journal_def before_actions_def after_observations_def Let_def)

lemma validate_journal_runs:
  assumes "validate_journal b r = Inr r'"
  obtains (empty) ep where "bu_actions b = []" "r' = before_actions b r"
      "try_fold transition_step (epoch_start b) (bu_epoch_transitions b) = Inr ep"
    | (runs) ep an on where "bu_actions b \<noteq> []"
      "try_fold transition_step (epoch_start b) (bu_epoch_transitions b) = Inr ep"
      "try_fold action_step (action_start ep (before_actions b r)) (bu_actions b) = Inr an"
      "try_fold (observation_step b (ep_at ep) (an_actions an)) (observation_start an) (bu_observations b) = Inr on"
      "r' = after_observations b (on_observed on) (on_report on)"
  using assms by (auto simp: validate_journal_eq rbind_Inr_iff split: if_splits)

lemma validate_journal_inv:
  assumes "validate_journal b r = Inr r'" "report_inv r" "rp_criteria r = []"
  shows "report_inv r' \<and> rp_criteria r' = []"
  using assms(1)
proof (cases rule: validate_journal_runs)
  case (empty ep)
  with assms(2,3) show ?thesis by (simp add: before_actions_def issue_if_inv)
next
  case (runs ep an on)
  have "report_inv (before_actions b r)" "rp_criteria (before_actions b r) = []"
    using assms(2,3) by (simp_all add: before_actions_def issue_if_inv)
  with actions.run_inv [OF _ runs(3)] have "report_inv (an_report an) \<and> rp_criteria (an_report an) = []" by simp
  with observations.run_inv [OF _ runs(4)] have "report_inv (on_report on) \<and> rp_criteria (on_report on) = []" by simp
  then show ?thesis by (simp add: runs(5) after_observations_def issue_if_inv)
qed


section \<open>What a journal without issues shows\<close>

definition dispatched :: "action \<Rightarrow> bool" where
  "dispatched a = (ac_disposition a \<noteq> NotDispatched)"

lemma run_transitions:
  assumes "try_fold transition_step st ts = Inr st'"
  shows "ep_at st' = foldl (\<lambda>m t. bt_insert (et_sequence t) (et_to_epoch t) m) (ep_at st) ts \<and>
    sorted_wrt (<) (ep_prior st # map et_sequence ts)"
  using assms
proof (induction ts arbitrary: st)
  case (Cons t ts)
  then obtain u where u: "transition_step st t = Inr u" "try_fold transition_step u ts = Inr st'"
    by (auto split: sum.splits)
  then have "ep_prior st < et_sequence t" "ep_prior u = et_sequence t"
    "ep_at u = bt_insert (et_sequence t) (et_to_epoch t) (ep_at st)"
    by (auto simp: transition_step_def rbind_Inr_iff split: if_splits)
  with Cons.IH [OF u(2)] show ?case by auto
qed simp

lemma bt_insert_new: "k \<notin> set (map fst m) \<Longrightarrow> bt_insert k v m = m @ [(k, v)]"
  by (force simp: bt_insert_def filter_id_conv)

lemma foldl_bt_insert:
  "distinct (map fst (m @ kvs)) \<Longrightarrow> foldl (\<lambda>m (k, v). bt_insert k v m) m kvs = m @ kvs"
proof (induction kvs arbitrary: m)
  case (Cons kv kvs)
  obtain k v where kv: "kv = (k, v)" by (cases kv)
  with Cons.prems have "k \<notin> set (map fst m)" by auto
  with Cons kv show ?case by (simp add: bt_insert_new)
qed simp

text \<open>The epoch in force just before a sequence number.\<close>

definition epoch_in_force :: "evidence_bundle \<Rightarrow> nat \<Rightarrow> nat" where
  "epoch_in_force b s =
     (let ts = filter (\<lambda>t. et_sequence t < s) (bu_epoch_transitions b)
      in if ts = [] then bu_epoch b else et_to_epoch (last ts))"

lemma epoch_before_in_force:
  assumes "try_fold transition_step (epoch_start b) (bu_epoch_transitions b) = Inr ep" "0 < s"
  shows "epoch_before s (ep_at ep) = Some (epoch_in_force b s)"
proof -
  let ?kvs = "map (\<lambda>t. (et_sequence t, et_to_epoch t)) (bu_epoch_transitions b)"
  let ?m = "(0, bu_epoch b) # ?kvs"
  from run_transitions [OF assms(1)] have
    eq: "ep_at ep = foldl (\<lambda>m t. bt_insert (et_sequence t) (et_to_epoch t) m) [(0, bu_epoch b)] (bu_epoch_transitions b)"
    and srt: "sorted_wrt (<) (map fst ?m)" by (auto simp: o_def)
  have "foldl (\<lambda>m t. bt_insert (et_sequence t) (et_to_epoch t) m) m0 ts =
      foldl (\<lambda>m (k, v). bt_insert k v m) m0 (map (\<lambda>t. (et_sequence t, et_to_epoch t)) ts)" for m0 ts
    by (induction ts arbitrary: m0) simp_all
  note conv = this
  have "distinct (map fst ([(0, bu_epoch b)] @ ?kvs))"
    using srt strict_sorted_iff by (metis append_Cons append_Nil)
  from foldl_bt_insert [OF this] have m: "ep_at ep = ?m"
    unfolding eq conv by simp
  have "sorted (map fst ?m)" using srt strict_sorted_iff by blast
  then have "sorted (map fst (filter (\<lambda>(k, _). k < s) ?m))"
    by (rule sorted_filter)
  then have "sort_key fst (filter (\<lambda>(k, _). k < s) ?m) = filter (\<lambda>(k, _). k < s) ?m"
    by (rule sort_key_id_if_sorted)
  moreover have "filter (\<lambda>(k, _). k < s) ?kvs =
      map (\<lambda>t. (et_sequence t, et_to_epoch t)) (filter (\<lambda>t. et_sequence t < s) (bu_epoch_transitions b))"
    by (simp add: filter_map o_def)
  ultimately show ?thesis
    using assms(2) by (simp add: epoch_before_def m epoch_in_force_def Let_def last_map)
qed

lemma action_step_Inr:
  assumes "action_step st a = Inr u"
  shows "an_prior st < ac_sequence a" "an_prior u = ac_sequence a"
    "ac_id a \<notin> set (map fst (an_actions st))"
    "an_actions u = an_actions st @ [(ac_id a, ac_sequence a)]"
    "an_report u = disposition_issue (ac_disposition a) (an_report st)"
proof -
  show new: "ac_id a \<notin> set (map fst (an_actions st))"
    using assms by (auto simp: action_step_def rbind_Inr_iff split: if_splits)
  show "an_prior st < ac_sequence a" "an_prior u = ac_sequence a"
    "an_report u = disposition_issue (ac_disposition a) (an_report st)"
    using assms by (auto simp: action_step_def rbind_Inr_iff split: if_splits)
  have "an_actions u = bt_insert (ac_id a) (ac_sequence a) (an_actions st)"
    using assms by (auto simp: action_step_def rbind_Inr_iff split: if_splits)
  then show "an_actions u = an_actions st @ [(ac_id a, ac_sequence a)]"
    by (simp only: bt_insert_new [OF new])
qed

lemma run_actions_distinct:
  "try_fold action_step st as = Inr st' \<Longrightarrow> distinct (map fst (an_actions st)) \<Longrightarrow>
   distinct (map fst (an_actions st'))"
  by (erule try_fold_inv) (use action_step_Inr(3,4) in \<open>auto simp del: set_map\<close>)

definition completed :: "action \<Rightarrow> bool" where
  "completed a = (ac_disposition a = Succeeded \<or> ac_disposition a = NotDispatched)"

lemma run_actions:
  assumes "try_fold action_step st as = Inr st'"
  shows "an_actions st' = an_actions st @ map (\<lambda>a. (ac_id a, ac_sequence a)) as \<and>
    sorted_wrt (<) (an_prior st # map ac_sequence as) \<and>
    (rp_issues (an_report st') = [] \<longleftrightarrow> rp_issues (an_report st) = [] \<and> list_all completed as)"
  using assms
proof (induction as arbitrary: st)
  case (Cons a as)
  then obtain u where u: "action_step st a = Inr u" "try_fold action_step u as = Inr st'"
    by (auto split: sum.splits)
  note u' = action_step_Inr [OF u(1)]
  have "rp_issues (an_report u) = [] \<longleftrightarrow> rp_issues (an_report st) = [] \<and> completed a"
    by (auto simp: u'(5) completed_def)
  with Cons.IH [OF u(2)] u'(1,2,4) show ?case by auto
qed simp

text \<open>What an observation must be for the journal rules to raise nothing about it.\<close>

definition observation_ok :: "evidence_bundle \<Rightarrow> observation \<Rightarrow> bool" where
  "observation_ok b ob =
     (ob_run_id ob = bu_run_id b \<and> ob_session_id ob = bu_session_id b \<and>
      ob_epoch ob = epoch_in_force b (ob_sequence ob) \<and>
      (\<exists>a\<in>set (bu_actions b). ac_id a = ob_after_action_id ob \<and> dispatched a \<and>
         ac_sequence a < ob_sequence ob \<and>
         (\<forall>a'\<in>set (bu_actions b). dispatched a' \<longrightarrow> ac_sequence a' < ob_sequence ob \<longrightarrow>
            ac_sequence a' \<le> ac_sequence a)))"

lemma observation_issues_Nil:
  assumes "distinct (map ac_id (bu_actions b))" "a \<in> set (bu_actions b)" "ac_id a = ob_after_action_id ob"
    and "epoch_before (ob_sequence ob) ep = Some (epoch_in_force b (ob_sequence ob))"
  shows "rp_issues (observation_issues b ep ob (ac_sequence a) r) = [] \<longleftrightarrow> rp_issues r = [] \<and> observation_ok b ob"
proof -
  have "a' = a" if "a' \<in> set (bu_actions b)" "ac_id a' = ob_after_action_id ob" for a'
    using assms(1-3) that by (metis distinct_map inj_onD)
  then have ex: "(\<exists>a'\<in>set (bu_actions b). ac_id a' = ob_after_action_id ob \<and> P a') \<longleftrightarrow> P a" for P
    using assms(2,3) by blast
  have "observation_ok b ob \<longleftrightarrow> ob_run_id ob = bu_run_id b \<and> ob_session_id ob = bu_session_id b \<and>
      ob_epoch ob = epoch_in_force b (ob_sequence ob) \<and> dispatched a \<and> ac_sequence a < ob_sequence ob \<and>
      (\<forall>a'\<in>set (bu_actions b). dispatched a' \<longrightarrow> ac_sequence a' < ob_sequence ob \<longrightarrow> ac_sequence a' \<le> ac_sequence a)"
    unfolding observation_ok_def ex ..
  moreover have "list_ex (\<lambda>a. ac_id a = ob_after_action_id ob \<and> ac_disposition a = NotDispatched) (bu_actions b) \<longleftrightarrow> \<not> dispatched a"
    unfolding list_ex_iff ex dispatched_def by simp
  moreover have "list_ex (\<lambda>a'. ac_disposition a' \<noteq> NotDispatched \<and> ac_sequence a' > ac_sequence a \<and>
      ac_sequence a' < ob_sequence ob) (bu_actions b) \<longleftrightarrow>
      \<not> (\<forall>a'\<in>set (bu_actions b). dispatched a' \<longrightarrow> ac_sequence a' < ob_sequence ob \<longrightarrow> ac_sequence a' \<le> ac_sequence a)"
    unfolding list_ex_iff dispatched_def by (auto simp: not_le)
  ultimately show ?thesis
    unfolding observation_issues_def Let_def issue_if_Nil assms(4) by (auto simp: not_le)
qed

lemma run_observations:
  assumes "try_fold (observation_step b ep acts) st obs = Inr st'"
    and "acts = map (\<lambda>a. (ac_id a, ac_sequence a)) (bu_actions b)" "distinct (map ac_id (bu_actions b))"
    and "\<And>s. 0 < s \<Longrightarrow> epoch_before s ep = Some (epoch_in_force b s)"
  shows "sorted_wrt (<) (on_prior st # map ob_sequence obs) \<and>
    on_observed st' = on_observed st \<union> ob_after_action_id ` set obs \<and>
    (rp_issues (on_report st') = [] \<longleftrightarrow> rp_issues (on_report st) = [] \<and> list_all (observation_ok b) obs)"
  using assms(1)
proof (induction obs arbitrary: st)
  case (Cons ob obs)
  then obtain u where u: "observation_step b ep acts st ob = Inr u" "try_fold (observation_step b ep acts) u obs = Inr st'"
    by (auto split: sum.splits)
  then obtain n where n: "map_of acts (ob_after_action_id ob) = Some n" "on_prior st < ob_sequence ob"
    "on_prior u = ob_sequence ob" "on_observed u = insert (ob_after_action_id ob) (on_observed st)"
    "on_report u = observation_issues b ep ob n (on_report st)"
    by (auto simp: observation_step_def rbind_Inr_iff split: if_splits option.splits)
  from map_of_SomeD [OF n(1)] obtain a where a: "a \<in> set (bu_actions b)" "ac_id a = ob_after_action_id ob" "n = ac_sequence a"
    by (auto simp: assms(2))
  have "rp_issues (on_report u) = [] \<longleftrightarrow> rp_issues (on_report st) = [] \<and> observation_ok b ob"
    unfolding n(5) a(3) using n(2) by (intro observation_issues_Nil assms(3,4) a) simp
  with Cons.IH [OF u(2)] n show ?case by auto
qed simp

text \<open>The whole journal.\<close>

definition journal_ok :: "evidence_bundle \<Rightarrow> bool" where
  "journal_ok b =
     (bu_observations b \<noteq> [] \<and>
      list_all completed (bu_actions b) \<and>
      list_all (observation_ok b) (bu_observations b) \<and>
      list_all (\<lambda>a. dispatched a \<longrightarrow> ac_id a \<in> ob_after_action_id ` set (bu_observations b)) (bu_actions b) \<and>
      bu_actions b \<noteq> [] \<and>
      ob_after_action_id (last (bu_observations b)) = ac_id (last (bu_actions b)) \<and>
      ac_sequence (last (bu_actions b)) < ob_sequence (last (bu_observations b)) \<and>
      (bu_epoch_transitions b = [] \<or>
       et_sequence (last (bu_epoch_transitions b)) < ob_sequence (last (bu_observations b))))"

lemma validate_journal_Nil:
  assumes "validate_journal b r = Inr r'"
  shows "rp_issues r' = [] \<longleftrightarrow> rp_issues r = [] \<and> journal_ok b"
  using assms
proof (cases rule: validate_journal_runs)
  case (empty ep)
  then show ?thesis by (simp add: before_actions_def journal_ok_def)
next
  case (runs ep an on)
  have acts: "an_actions an = map (\<lambda>a. (ac_id a, ac_sequence a)) (bu_actions b)"
    "rp_issues (an_report an) = [] \<longleftrightarrow> rp_issues (before_actions b r) = [] \<and> list_all completed (bu_actions b)"
    using run_actions [OF runs(3)] by simp_all
  have d: "distinct (map ac_id (bu_actions b))"
    using run_actions_distinct [OF runs(3)] by (simp add: acts(1) o_def)
  have ep: "0 < s \<Longrightarrow> epoch_before s (ep_at ep) = Some (epoch_in_force b s)" for s
    by (rule epoch_before_in_force [OF runs(2)])
  note obs = run_observations [OF runs(4) acts(1) d ep, simplified]
  have bef: "rp_issues (before_actions b r) = [] \<longleftrightarrow> rp_issues r = [] \<and> bu_observations b \<noteq> [] \<and> \<not> final_epoch_unobserved b"
    using runs(1) by (auto simp: before_actions_def)
  have "rp_issues r' = [] \<longleftrightarrow> \<not> final_action_unobserved b \<and>
      list_all (\<lambda>a. dispatched a \<longrightarrow> ac_id a \<in> ob_after_action_id ` set (bu_observations b)) (bu_actions b) \<and>
      rp_issues r = [] \<and> bu_observations b \<noteq> [] \<and> \<not> final_epoch_unobserved b \<and>
      list_all completed (bu_actions b) \<and>
      list_all (observation_ok b) (bu_observations b)"
    unfolding runs(5) after_observations_def
    by (simp add: obs acts(2) bef list_ex_iff list_all_iff dispatched_def) blast
  also have "\<dots> \<longleftrightarrow> rp_issues r = [] \<and> journal_ok b"
    using runs(1) by (auto simp: journal_ok_def final_action_unobserved_def final_epoch_unobserved_def Let_def not_le)
  finally show ?thesis .
qed


section \<open>The verdict\<close>

lemma run_artifacts:
  assumes "try_fold (artifact_step cd inputs) st as = Inr st'"
  shows "rp_issues (snd st') = [] \<longleftrightarrow> rp_issues (snd st) = [] \<and>
    list_all (\<lambda>a. \<exists>bytes. map_of inputs (ar_id a) = Some (Inr bytes) \<and>
      length bytes = ar_size_bytes a \<and> cd_sha256 cd bytes = ar_sha256 a) as"
  using assms
proof (induction as arbitrary: st)
  case (Cons a as)
  then obtain u where u: "artifact_step cd inputs st a = Inr u" "try_fold (artifact_step cd inputs) u as = Inr st'"
    by (auto split: sum.splits)
  have "rp_issues (snd u) = [] \<longleftrightarrow> rp_issues (snd st) = [] \<and>
    (\<exists>bytes. map_of inputs (ar_id a) = Some (Inr bytes) \<and>
      length bytes = ar_size_bytes a \<and> cd_sha256 cd bytes = ar_sha256 a)"
    using u(1) by (auto simp: artifact_step_def split: prod.splits option.splits sum.splits if_splits)
  with Cons.IH [OF u(2)] show ?case by auto
qed simp

lemma push_criteria:
  "rp_issues (foldl (push_criterion b v) r cs) = rp_issues r"
  "rp_criteria (foldl (push_criterion b v) r cs) = rp_criteria r @ map (judge_criterion b v) cs"
  by (induction cs arbitrary: r) (simp_all add: push_criterion_def Let_def)

lemma judge_criterion_required [simp]:
  "re_required (judge_criterion b v c) = cr_required c" "re_id (judge_criterion b v c) = cr_id c"
  by (simp_all add: judge_criterion_def Let_def split: prod.splits)

lemma push_criteria_inv: "report_inv r \<Longrightarrow> report_inv (foldl (push_criterion b v) r cs)"
proof (induction cs arbitrary: r)
  case (Cons c cs)
  have "report_inv (push_criterion b v r c)"
    using Cons.prems by (simp add: report_inv_def push_criterion_def Let_def combine_max ac_simps)
  with Cons.IH show ?case by simp
qed simp

lemma verify_runs:
  assumes "verify cd contract_bytes bundle_bytes ex inputs = Inr r"
  obtains contract b r3 t r4 where
    "parse_contract cd contract_bytes = Inr contract" "parse_bundle cd bundle_bytes = Inr b"
    "validate_journal b
       (issue_if (\<not> bu_journal_complete b \<or> bu_degraded b \<noteq> []) ''journal_incomplete_or_degraded'' Incomplete
         (issue_if (binding_mismatch cd contract_bytes b ex) ''binding_mismatch'' Failed
           (fresh_report cd contract_bytes bundle_bytes ex))) = Inr r3"
    "try_fold (artifact_step cd inputs) (0, r3) (bu_artifacts b) = Inr (t, r4)"
    "r = foldl (push_criterion b (rp_issues r4 = [])) r4 (ct_criteria contract)"
  using assms by (auto simp: verify_def rbind_Inr_iff Let_def split: if_splits)

text \<open>All evidence rules at once, for a bundle read with its contract.\<close>

definition evidence_ok ::
  "codec \<Rightarrow> byte list \<Rightarrow> expected_run \<Rightarrow> artifact_inputs \<Rightarrow> evidence_bundle \<Rightarrow> bool" where
  "evidence_ok cd contract_bytes ex inputs b =
     (\<not> binding_mismatch cd contract_bytes b ex \<and> bu_journal_complete b \<and> bu_degraded b = [] \<and>
      journal_ok b \<and>
      list_all (\<lambda>a. \<exists>bytes. map_of inputs (ar_id a) = Some (Inr bytes) \<and>
        length bytes = ar_size_bytes a \<and> cd_sha256 cd bytes = ar_sha256 a) (bu_artifacts b))"

lemma verify_facts:
  assumes "verify cd contract_bytes bundle_bytes ex inputs = Inr r"
  obtains contract b where
    "parse_contract cd contract_bytes = Inr contract" "parse_bundle cd bundle_bytes = Inr b"
    "report_inv r" "rp_issues r = [] \<longleftrightarrow> evidence_ok cd contract_bytes ex inputs b"
    "rp_criteria r = map (judge_criterion b (evidence_ok cd contract_bytes ex inputs b)) (ct_criteria contract)"
proof -
  from assms obtain contract b r3 t r4 where v:
    "parse_contract cd contract_bytes = Inr contract" "parse_bundle cd bundle_bytes = Inr b"
    "validate_journal b
       (issue_if (\<not> bu_journal_complete b \<or> bu_degraded b \<noteq> []) ''journal_incomplete_or_degraded'' Incomplete
         (issue_if (binding_mismatch cd contract_bytes b ex) ''binding_mismatch'' Failed
           (fresh_report cd contract_bytes bundle_bytes ex))) = Inr r3"
    "try_fold (artifact_step cd inputs) (0, r3) (bu_artifacts b) = Inr (t, r4)"
    "r = foldl (push_criterion b (rp_issues r4 = [])) r4 (ct_criteria contract)"
    by (rule verify_runs)
  have "report_inv (fresh_report cd contract_bytes bundle_bytes ex)" "rp_criteria (fresh_report cd contract_bytes bundle_bytes ex) = []"
    "rp_issues (fresh_report cd contract_bytes bundle_bytes ex) = []"
    by (simp_all add: fresh_report_def report_inv_def)
  then have r3: "report_inv r3 \<and> rp_criteria r3 = []"
    "rp_issues r3 = [] \<longleftrightarrow> \<not> binding_mismatch cd contract_bytes b ex \<and> bu_journal_complete b \<and> bu_degraded b = [] \<and> journal_ok b"
    using validate_journal_inv [OF v(3)] validate_journal_Nil [OF v(3)] by (auto simp: issue_if_inv)
  from artifacts.run_inv [OF _ v(4)] r3(1) have r4: "report_inv r4" "rp_criteria r4 = []" by simp_all
  have "rp_issues r4 = [] \<longleftrightarrow> evidence_ok cd contract_bytes ex inputs b"
    using run_artifacts [OF v(4)] r3(2) by (auto simp: evidence_ok_def)
  then show thesis
    using that [OF v(1,2)] push_criteria_inv [OF r4(1)] r4(2) by (simp add: v(5) push_criteria)
qed


lemma issue_not_passed: "report_inv r \<Longrightarrow> i \<in> set (rp_issues r) \<Longrightarrow> is_verdict i \<noteq> Passed"
  by (auto simp: report_inv_def list_all_iff code_verdict_def)

lemma report_passed_iff:
  "report_inv r \<Longrightarrow> rp_verdict r = Passed \<longleftrightarrow>
   rp_issues r = [] \<and> list_all (\<lambda>c. re_required c \<longrightarrow> re_verdict c = Passed) (rp_criteria r)"
proof -
  assume inv: "report_inv r"
  have "rp_verdict r = Passed \<longleftrightarrow>
      list_all (\<lambda>v. v = Passed) (map is_verdict (rp_issues r) @ map re_verdict (filter re_required (rp_criteria r)))"
    using inv worst_Passed unfolding report_inv_def by metis
  moreover have "list_all (\<lambda>v. v = Passed) (map is_verdict (rp_issues r)) \<longleftrightarrow> rp_issues r = []"
    using issue_not_passed [OF inv] by (cases "rp_issues r") auto
  ultimately show ?thesis by (auto simp: list_all_iff)
qed

lemma parse_contract_required:
  "parse_contract cd bytes = Inr c \<Longrightarrow> list_ex cr_required (ct_criteria c)"
  by (auto simp: parse_contract_def rbind_Inr_iff split: if_splits)

definition criterion_met :: "evidence_bundle \<Rightarrow> criterion \<Rightarrow> bool" where
  "criterion_met b c =
     (\<exists>v. resolve_fact b (Some (last (bu_observations b))) (cr_fact c) = Some v \<and>
          fst (eval_predicate (cr_predicate c) v) = Passed)"

lemma judge_criterion_met:
  "bu_observations b \<noteq> [] \<Longrightarrow> re_verdict (judge_criterion b True c) = Passed \<longleftrightarrow> criterion_met b c"
  by (auto simp: judge_criterion_def criterion_met_def Let_def split: prod.splits option.splits)

lemma judge_criterion_invalid [simp]: "re_verdict (judge_criterion b False c) = Incomplete"
  by (simp add: judge_criterion_def)

section \<open>Properties of the verdict\<close>

text \<open>
  C1. A run passes exactly when everything it must show is shown: the contract, capability, run,
  session and epoch are the admitted ones; the journal is complete and not degraded; every action
  completed, every dispatched action was observed, each observation is of the latest dispatched
  action of its epoch, and the last observation follows the last action and the last epoch change;
  every declared artifact was provided with its size and digest; and every required criterion
  holds of its fact in the final observation or the bundle record.
\<close>

theorem verify_passed_iff:
  assumes "verify cd contract_bytes bundle_bytes ex inputs = Inr r"
    and "parse_contract cd contract_bytes = Inr contract" and "parse_bundle cd bundle_bytes = Inr b"
  shows "rp_verdict r = Passed \<longleftrightarrow>
    cd_sha256 cd contract_bytes = ex_contract_sha256 ex \<and> bu_contract_sha256 b = ex_contract_sha256 ex \<and>
    bu_capability_sha256 b = ex_capability_sha256 ex \<and> bu_run_id b = ex_run_id ex \<and>
    bu_session_id b = ex_session_id ex \<and> bu_epoch b = ex_epoch ex \<and>
    bu_journal_complete b \<and> bu_degraded b = [] \<and> journal_ok b \<and>
    (\<forall>a\<in>set (bu_artifacts b). \<exists>bytes. map_of inputs (ar_id a) = Some (Inr bytes) \<and>
       length bytes = ar_size_bytes a \<and> cd_sha256 cd bytes = ar_sha256 a) \<and>
    (\<forall>c\<in>set (ct_criteria contract). cr_required c \<longrightarrow> criterion_met b c)"
proof -
  have ok: "report_inv r" "rp_issues r = [] \<longleftrightarrow> evidence_ok cd contract_bytes ex inputs b"
    "rp_criteria r = map (judge_criterion b (evidence_ok cd contract_bytes ex inputs b)) (ct_criteria contract)"
    using verify_facts [OF assms(1)] assms(2,3) by (metis sum.inject(2))+
  have "rp_verdict r = Passed \<longleftrightarrow> evidence_ok cd contract_bytes ex inputs b \<and>
      (\<forall>c\<in>set (ct_criteria contract). cr_required c \<longrightarrow> criterion_met b c)"
  proof (cases "evidence_ok cd contract_bytes ex inputs b")
    case True
    then have "bu_observations b \<noteq> []" by (simp add: evidence_ok_def journal_ok_def)
    with True show ?thesis
      unfolding report_passed_iff [OF ok(1)] ok(2,3) by (simp add: list_all_iff judge_criterion_met)
  qed (simp add: report_passed_iff [OF ok(1)] ok(2))
  then show ?thesis by (auto simp: evidence_ok_def binding_mismatch_def list_all_iff)
qed

text \<open>
  The verdict is the worst of the recorded issues and of the required criteria, in the order
  passed, incomplete, failed: optional criteria never change it, and recording one issue code
  twice loses nothing.
\<close>

theorem verdict_is_worst:
  assumes "verify cd contract_bytes bundle_bytes ex inputs = Inr r"
  shows "rp_verdict r =
    worst (map is_verdict (rp_issues r) @ map re_verdict (filter re_required (rp_criteria r)))"
proof -
  from assms have "report_inv r" by (rule verify_facts)
  then show ?thesis unfolding report_inv_def by (rule conjunct2)
qed

text \<open>
  A run with any issue cannot pass and proves no criterion: every criterion of the contract is
  reported, in order, and each of them is incomplete.
\<close>

theorem issues_block_criteria:
  assumes "verify cd contract_bytes bundle_bytes ex inputs = Inr r" and "rp_issues r \<noteq> []"
    and "parse_contract cd contract_bytes = Inr contract"
  shows "rp_verdict r \<noteq> Passed \<and> list_all (\<lambda>c. re_verdict c = Incomplete) (rp_criteria r) \<and>
    map re_id (rp_criteria r) = map cr_id (ct_criteria contract)"
proof -
  obtain b where ok: "report_inv r" "rp_issues r = [] \<longleftrightarrow> evidence_ok cd contract_bytes ex inputs b"
    "rp_criteria r = map (judge_criterion b (evidence_ok cd contract_bytes ex inputs b)) (ct_criteria contract)"
    using verify_facts [OF assms(1)] assms(3) by (metis sum.inject(2))
  with assms(2) show ?thesis
    by (auto simp: report_passed_iff list_all_iff)
qed


section \<open>Side records and artifacts\<close>

lemma run_interventions:
  assumes "try_fold check_intervention (p, ids) is = Inr (p', ids')"
  shows "sorted_wrt (<) (p # map iv_sequence is) \<and> ids' = ids \<union> iv_id ` set is \<and>
    distinct (map iv_id is) \<and> iv_id ` set is \<inter> ids = {}"
  using assms
proof (induction "is" arbitrary: p ids)
  case (Cons i "is")
  then have step: "p < iv_sequence i" "iv_id i \<notin> ids"
    "try_fold check_intervention (iv_sequence i, insert (iv_id i) ids) is = Inr (p', ids')"
    by (auto simp: check_intervention_def rbind_def split: sum.splits if_splits)
  from Cons.IH [OF step(3)] step(1,2) show ?case by auto
qed simp

lemma side_records_interventions:
  assumes "validate_side_records b = Inr ()"
  shows "sorted_wrt (<) (map iv_sequence (bu_interventions b))" "distinct (map iv_id (bu_interventions b))"
proof -
  obtain p ids where "try_fold check_intervention (0, {}) (bu_interventions b) = Inr (p, ids)"
    using assms by (auto simp: validate_side_records_def rbind_Inr_iff)
  from run_interventions [OF this] show "sorted_wrt (<) (map iv_sequence (bu_interventions b))"
    "distinct (map iv_id (bu_interventions b))" by simp_all
qed

lemma strict_sorted_last_Max:
  "xs \<noteq> [] \<Longrightarrow> sorted_wrt (<) xs \<Longrightarrow> Max (set xs) = last xs" for xs :: "nat list"
proof (rule Max_eqI)
  fix y
  assume "xs \<noteq> []" "sorted_wrt (<) xs" "y \<in> set xs"
  then show "y \<le> last xs"
    by (cases xs rule: rev_cases) (auto simp: sorted_wrt_append)
qed simp_all

text \<open>
  Of a validated bundle, control counts as returned exactly when there is an intervention and
  the last one listed was returned: an earlier hand-back never masks a later open one.
\<close>

theorem human_control_returned_iff_last:
  assumes "validate_side_records b = Inr ()"
  shows "human_control_returned b \<longleftrightarrow>
    bu_interventions b \<noteq> [] \<and> iv_status (last (bu_interventions b)) = Returned"
proof (cases "bu_interventions b = []")
  case False
  let ?is = "bu_interventions b"
  have srt: "sorted_wrt (<) (map iv_sequence ?is)" by (rule side_records_interventions(1) [OF assms])
  have "Max (set (map iv_sequence ?is)) = iv_sequence (last ?is)"
    using strict_sorted_last_Max [OF _ srt] False by (simp add: last_map)
  moreover have "distinct (map iv_sequence ?is)" using srt strict_sorted_iff by blast
  then have "filter (\<lambda>i. iv_sequence i = iv_sequence (last ?is)) ?is = [last ?is]"
    using False by (cases ?is rule: rev_cases) (auto simp: filter_empty_conv image_iff)
  ultimately show ?thesis using False by (simp add: human_control_returned_def Let_def)
qed (simp add: human_control_returned_def)

text \<open>Walking a relative path from a directory, \<open>.\<close> and \<open>..\<close> resolved.\<close>

fun walk :: "str list \<Rightarrow> str list \<Rightarrow> str list" where
  "walk dir [] = dir"
| "walk dir (c # cs) =
     walk (if c = [] \<or> c = [c_dot] then dir else if c = [c_dot, c_dot] then butlast dir else dir @ [c]) cs"

definition component_ok :: "str \<Rightarrow> bool" where
  "component_ok c =
     (c \<noteq> [] \<and> c \<noteq> [c_dot] \<and> c \<noteq> [c_dot, c_dot] \<and> last c \<noteq> c_dot \<and> last c \<noteq> c_space \<and>
      list_all (\<lambda>x. \<not> is_control x \<and> x \<noteq> c_backslash \<and> x \<noteq> c_colon \<and> x \<noteq> c_slash) c \<and>
      \<not> reserved_stem (map ascii_upper (hd (split_on (\<lambda>x. x = c_dot) c))))"

lemma ends_with_last: "ends_with [x] c \<longleftrightarrow> c \<noteq> [] \<and> last c = x"
  by (cases c rule: rev_cases) (auto simp: ends_with_iff)

lemma path_components_ok:
  assumes "validate_artifact_path p = Inr ()"
  shows "list_all component_ok (split_on (\<lambda>c. c = c_slash) p)"
proof -
  from assms have
    chars: "\<forall>x\<in>set p. x \<noteq> c_backslash \<and> x \<noteq> c_colon" and
    comps: "list_all (\<lambda>c. check_component c = Inr ()) (split_on (\<lambda>c. c = c_slash) p)"
    by (auto simp: validate_artifact_path_def try_fold_unit list_all_iff list_ex_iff split: if_splits)
  show ?thesis
    unfolding list_all_iff
  proof
    fix c
    assume c: "c \<in> set (split_on (\<lambda>c. c = c_slash) p)"
    then have "\<forall>x\<in>set c. x \<noteq> c_slash \<and> x \<in> set p" using split_on_pieces by fast
    with c chars comps show "component_ok c"
      by (auto simp: component_ok_def check_component_def list_all_iff list_ex_iff ends_with_last split: if_splits)
  qed
qed

lemma walk_ok: "list_all component_ok cs \<Longrightarrow> walk dir cs = dir @ cs"
  by (induction cs arbitrary: dir) (auto simp: component_ok_def)

text \<open>
  An accepted artifact path names a file strictly below the directory it is resolved in: no
  component is empty, \<open>.\<close> or \<open>..\<close>, none holds a separator, drive or control character, and none is a
  reserved device name.
\<close>

theorem artifact_path_contained:
  assumes "validate_artifact_path p = Inr ()"
  shows "walk dir (split_on (\<lambda>c. c = c_slash) p) = dir @ split_on (\<lambda>c. c = c_slash) p \<and>
    split_on (\<lambda>c. c = c_slash) p \<noteq> [] \<and> list_all component_ok (split_on (\<lambda>c. c = c_slash) p)"
  using path_components_ok [OF assms] walk_ok by simp

lemma run_artifact_checks:
  assumes "try_fold check_artifact st as = Inr st'"
  shows "as_total_bytes st' = as_total_bytes st + sum_list (map ar_size_bytes as) \<and>
    distinct (map ar_id as) \<and> ar_id ` set as \<inter> as_ids st = {} \<and>
    distinct (map ar_path as) \<and> ar_path ` set as \<inter> as_paths st = {} \<and>
    list_all (\<lambda>a. validate_artifact_path (ar_path a) = Inr () \<and> check_digest (ar_sha256 a) = Inr () \<and>
      ar_size_bytes a \<le> MAX_ARTIFACT_BYTES) as"
  using assms
proof (induction as arbitrary: st)
  case (Cons a as)
  then obtain u where u: "check_artifact st a = Inr u" "try_fold check_artifact u as = Inr st'"
    by (auto split: sum.splits)
  then have "ar_id a \<notin> as_ids st" "ar_path a \<notin> as_paths st" "ar_size_bytes a \<le> MAX_ARTIFACT_BYTES"
    "validate_artifact_path (ar_path a) = Inr ()" "check_digest (ar_sha256 a) = Inr ()"
    "as_ids u = insert (ar_id a) (as_ids st)" "as_paths u = insert (ar_path a) (as_paths st)"
    "as_total_bytes u = as_total_bytes st + ar_size_bytes a"
    by (auto simp: check_artifact_def rbind_Inr_iff split: if_splits)
  with Cons.IH [OF u(2)] show ?case by auto
qed simp

text \<open>
  A parsed bundle is within its limits: at most 4096 journal events and 128 artifacts with
  distinct identifiers and distinct contained paths, 64 MiB in all, so the running sum of sizes never
  comes near the width of its 64-bit counter, and intervention identifiers are distinct.
\<close>

theorem parsed_bundle_bounded:
  assumes "parse_bundle cd bytes = Inr b"
  shows "length (bu_actions b) + length (bu_observations b) + length (bu_epoch_transitions b) \<le> 4096 \<and>
    length (bu_artifacts b) \<le> 128 \<and> distinct (map ar_id (bu_artifacts b)) \<and>
    distinct (map ar_path (bu_artifacts b)) \<and>
    list_all (\<lambda>a. list_all component_ok (split_on (\<lambda>c. c = c_slash) (ar_path a))) (bu_artifacts b) \<and>
    sum_list (map ar_size_bytes (bu_artifacts b)) \<le> 64 * 1024 * 1024 \<and>
    distinct (map iv_id (bu_interventions b))"
proof -
  from assms have "check_bundle b = Inr ()" by (auto simp: parse_bundle_def rbind_Inr_iff)
  then obtain st where
    side: "validate_side_records b = Inr ()" and
    arts: "try_fold check_artifact \<lparr>as_ids = {}, as_paths = {}, as_total_bytes = 0\<rparr> (bu_artifacts b) = Inr st" and
    lim: "as_total_bytes st \<le> MAX_TOTAL_ARTIFACT_BYTES"
      "length (bu_actions b) + length (bu_observations b) + length (bu_epoch_transitions b) \<le> MAX_EVENTS"
      "length (bu_artifacts b) \<le> MAX_ARTIFACTS"
    by (auto simp: check_bundle_def rbind_Inr_iff split: if_splits)
  from run_artifact_checks [OF arts] have
    "as_total_bytes st = sum_list (map ar_size_bytes (bu_artifacts b))"
    "distinct (map ar_id (bu_artifacts b))" "distinct (map ar_path (bu_artifacts b))"
    "list_all (\<lambda>a. validate_artifact_path (ar_path a) = Inr ()) (bu_artifacts b)"
    by (simp_all add: list_all_iff)
  with lim side_records_interventions(2) [OF side] path_components_ok show ?thesis
    by (auto simp: MAX_EVENTS_def MAX_ARTIFACTS_def MAX_TOTAL_ARTIFACT_BYTES_def list_all_iff)
qed


section \<open>A concrete run\<close>

definition demo_hash :: str where "demo_hash = replicate 64 97"

definition demo_contract :: contract where
  "demo_contract = \<lparr>ct_schema_version = 1, ct_id = lit ''c'',
     ct_criteria = [\<lparr>cr_id = lit ''done'', cr_fact = lit ''state'', cr_required = True,
                     cr_predicate = Equals (JBool True)\<rparr>]\<rparr>"

definition demo_bundle :: evidence_bundle where
  "demo_bundle = \<lparr>bu_schema_version = 1, bu_run_id = lit ''r'', bu_session_id = lit ''s'', bu_epoch = 1,
     bu_epoch_transitions = [], bu_contract_sha256 = demo_hash, bu_capability_sha256 = demo_hash,
     bu_policy_sha256 = None, bu_outcome = None, bu_journal_complete = True, bu_degraded = [],
     bu_actions = [\<lparr>ac_id = lit ''a'', ac_sequence = 1, ac_disposition = Succeeded\<rparr>],
     bu_observations = [\<lparr>ob_sequence = 2, ob_run_id = lit ''r'', ob_session_id = lit ''s'', ob_epoch = 1,
       ob_after_action_id = lit ''a'', ob_facts = [(lit ''state'', JBool True)], ob_artifact_ids = []\<rparr>],
     bu_artifacts = [\<lparr>ar_id = lit ''log'', ar_path = lit ''out/log.txt'', ar_sha256 = demo_hash, ar_size_bytes = 3\<rparr>],
     bu_interventions = [\<lparr>iv_id = lit ''i'', iv_sequence = 5, iv_reason_code = lit ''stuck'', iv_status = Returned\<rparr>],
     bu_human_actions = [], bu_recoveries = [], bu_locator_hits = []\<rparr>"

definition demo_codec :: codec where
  "demo_codec = \<lparr>cd_sha256 = (\<lambda>_. demo_hash), cd_json = (\<lambda>_. Inr JNull),
     cd_contract = (\<lambda>_. Inr demo_contract), cd_bundle = (\<lambda>_. Inr demo_bundle)\<rparr>"

definition demo_expected :: expected_run where
  "demo_expected = \<lparr>ex_run_id = lit ''r'', ex_session_id = lit ''s'', ex_epoch = 1,
     ex_contract_sha256 = demo_hash, ex_capability_sha256 = demo_hash\<rparr>"

definition demo_report :: "verdict \<Rightarrow> criterion_result \<Rightarrow> issue list \<Rightarrow> report" where
  "demo_report v c is = \<lparr>rp_ok = True, rp_evidence_schema_version = 1, rp_verdict = v,
     rp_contract_sha256 = demo_hash, rp_bundle_sha256 = demo_hash, rp_run_id = lit ''r'',
     rp_criteria = [c], rp_issues = is\<rparr>"

lemmas demo_defs = demo_contract_def demo_bundle_def demo_expected_def demo_report_def

lemma check_demo_hash [simp]: "check_digest demo_hash = Inr ()"
  by (simp add: check_digest_def demo_hash_def byte_len_def utf8_width_def utf8_encode_def utf8_bytes_def
      list_all_iff guard_def hex_digit_def sum_list_replicate map_replicate)

lemma demo_path: "validate_artifact_path (lit ''out/log.txt'') = Inr ()"
  by (simp add: validate_artifact_path_def utf8_width_def check_component_def ends_with_def starts_with_def
      is_control_def reserved_stem_def ascii_upper_def)

lemma demo_parse_contract: "parse_contract demo_codec [] = Inr demo_contract"
  by (simp add: parse_contract_def parse_input_def strict_validate_def demo_codec_def guard_def demo_contract_def
      SCHEMA_VERSION_def MAX_CRITERIA_def check_criterion_def check_identifier_def utf8_width_def is_control_def
      check_predicate_def)

lemma demo_side_records: "validate_side_records demo_bundle = Inr ()"
  by (simp add: validate_side_records_def demo_bundle_def check_intervention_def check_identifier_def
      utf8_width_def is_control_def guard_def)

lemma demo_parse_bundle: "parse_bundle demo_codec [] = Inr demo_bundle"
  using demo_side_records demo_path
  by (simp add: parse_bundle_def check_bundle_def parse_input_def strict_validate_def demo_codec_def guard_def
      demo_bundle_def SCHEMA_VERSION_def MAX_CRITERIA_def MAX_ARTIFACTS_def MAX_EVENTS_def check_identifier_def
      utf8_width_def is_control_def check_artifact_def MAX_ARTIFACT_BYTES_def MAX_TOTAL_ARTIFACT_BYTES_def)

lemma demo_journal:
  "validate_journal demo_bundle r = Inr r"
  by (simp add: validate_journal_def demo_bundle_def issue_if_def final_epoch_unobserved_def action_step_def
      check_identifier_def utf8_width_def is_control_def guard_def bt_insert_def disposition_issue_def
      observation_step_def artifact_refs_ok_def MAX_CRITERIA_def observation_issues_def epoch_before_def
      final_action_unobserved_def)

definition demo_passed :: report where
  "demo_passed = demo_report Passed \<lparr>re_id = lit ''done'', re_required = True, re_verdict = Passed,
     re_reason = ''predicate satisfied''\<rparr> []"

definition demo_incomplete :: report where
  "demo_incomplete = demo_report Incomplete \<lparr>re_id = lit ''done'', re_required = True, re_verdict = Incomplete,
     re_reason = ''evidence prerequisites not satisfied''\<rparr>
     [\<lparr>is_code = ''artifact_unavailable'', is_verdict = Incomplete\<rparr>]"

lemmas demo_verify_defs = verify_def demo_parse_contract demo_parse_bundle demo_journal
  demo_expected_def check_identifier_def utf8_width_def is_control_def guard_def issue_if_def
  fresh_report_def SCHEMA_VERSION_def artifact_step_def MAX_ARTIFACT_BYTES_def
  MAX_TOTAL_ARTIFACT_BYTES_def push_criterion_def judge_criterion_def resolve_fact_def
  eval_predicate_def judge_def combine_def binding_mismatch_def report_issue_def demo_report_def

lemma demo_verify:
  "verify demo_codec [] [] demo_expected [(lit ''log'', Inr [1, 2, 3])] = Inr demo_passed"
  unfolding demo_passed_def
  by (simp add: demo_verify_defs) (simp add: demo_bundle_def demo_contract_def demo_codec_def demo_verify_defs)

lemma demo_verify_missing:
  "verify demo_codec [] [] demo_expected [] = Inr demo_incomplete"
  unfolding demo_incomplete_def
  by (simp add: demo_verify_defs) (simp add: demo_bundle_def demo_contract_def demo_codec_def demo_verify_defs)

theorem verify_passed_iff_witness:
  "journal_ok demo_bundle \<and> criterion_met demo_bundle (hd (ct_criteria demo_contract))"
  using verify_passed_iff [OF demo_verify demo_parse_contract demo_parse_bundle]
  by (simp add: demo_passed_def demo_report_def) (simp add: demo_contract_def)

theorem verdict_is_worst_witness: "worst [Incomplete, Incomplete] = Incomplete"
  using verdict_is_worst [OF demo_verify_missing] by (simp add: demo_incomplete_def demo_report_def)

theorem issues_block_criteria_witness:
  "rp_verdict demo_incomplete \<noteq> Passed \<and> map re_id (rp_criteria demo_incomplete) = [lit ''done'']"
  using issues_block_criteria [OF demo_verify_missing _ demo_parse_contract]
  by (simp add: demo_incomplete_def demo_report_def demo_contract_def)

theorem human_control_returned_iff_last_witness: "human_control_returned demo_bundle"
  using human_control_returned_iff_last [OF demo_side_records] by (simp add: demo_bundle_def)

theorem artifact_path_contained_witness:
  "walk [lit ''base''] [lit ''out'', lit ''log.txt''] = [lit ''base'', lit ''out'', lit ''log.txt'']"
  using artifact_path_contained [OF demo_path, of "[lit ''base'']"] by simp

theorem parsed_bundle_bounded_witness:
  "distinct (map ar_id (bu_artifacts demo_bundle)) \<and> sum_list (map ar_size_bytes (bu_artifacts demo_bundle)) = 3"
  using parsed_bundle_bounded [OF demo_parse_bundle] by (simp add: demo_bundle_def)
end
