(* ===== verification/Iso_Time.thy ===== *)
theory Iso_Time
  imports Utf8 "HOL-Library.Signed_Division" "HOL-Library.Monad_Syntax"
begin

text \<open>
  The clock arithmetic of \<open>dc-store/src/lib.rs\<close>: \<open>format_iso_utc\<close>, \<open>parse_iso_utc\<close>,
  \<open>epoch_from_civil\<close>, \<open>civil_from_epoch\<close> and \<open>validate_ttl\<close>. Every lease expiry goes through these
  functions on its way into and out of the database. Numbers are \<open>i64\<close> in the source; the model
  computes on \<open>int\<close> with the truncating division of Rust (\<open>sdiv\<close>, \<open>smod\<close>), and the values stay
  far from the ends of \<open>i64\<close>: a year has four characters and an offset field two.

  The theory proves the round trip from an epoch to its text and back, and what the parser accepts
  beyond a calendar date.
\<close>

section \<open>The calendar\<close>

definition epoch_from_civil :: "int \<Rightarrow> int \<Rightarrow> int \<Rightarrow> int" where
  "epoch_from_civil y0 m d =
     (let y = (if m \<le> 2 then y0 - 1 else y0);
          era = (if y \<ge> 0 then y else y - 399) sdiv 400;
          yoe = y - era * 400;
          mp = (m + 9) smod 12;
          doy = (153 * mp + 2) sdiv 5 + d - 1;
          doe = yoe * 365 + yoe sdiv 4 - yoe sdiv 100 + doy
      in era * 146097 + doe - 719468)"

definition civil_from_epoch :: "int \<Rightarrow> int \<times> int \<times> int \<times> int \<times> int \<times> int" where
  "civil_from_epoch epoch =
     (let days = epoch div 86400;
          secs = epoch mod 86400;
          z = days + 719468;
          era = (if z \<ge> 0 then z else z - 146096) sdiv 146097;
          doe = z - era * 146097;
          yoe = (doe - doe sdiv 1460 + doe sdiv 36524 - doe sdiv 146096) sdiv 365;
          y = yoe + era * 400;
          doy = doe - (365 * yoe + yoe sdiv 4 - yoe sdiv 100);
          mp = (5 * doy + 2) sdiv 153;
          d = doy - (153 * mp + 2) sdiv 5 + 1;
          m = (if mp < 10 then mp + 3 else mp - 9);
          y' = (if m \<le> 2 then y + 1 else y)
      in (y', m, d, secs sdiv 3600, (secs smod 3600) sdiv 60, secs smod 60))"

text \<open>\<open>{n:0w}\<close>: at least \<open>w\<close> characters, the sign first and then zeros.\<close>

definition pad_nat :: "nat \<Rightarrow> nat \<Rightarrow> str" where
  "pad_nat w n = replicate (w - length (show_nat n)) 48 @ show_nat n"

definition pad_int :: "nat \<Rightarrow> int \<Rightarrow> str" where
  "pad_int w n = (if n < 0 then c_dash # pad_nat (w - 1) (nat (- n)) else pad_nat w (nat n))"

definition format_iso_utc :: "int \<Rightarrow> str" where
  "format_iso_utc epoch =
     (case civil_from_epoch epoch of
        (y, mo, d, h, mi, s) \<Rightarrow>
          pad_int 4 y @ lit ''-'' @ pad_int 2 mo @ lit ''-'' @ pad_int 2 d @ lit ''T'' @
          pad_int 2 h @ lit '':'' @ pad_int 2 mi @ lit '':'' @ pad_int 2 s @ lit ''+00:00'')"

definition MAX_TTL_SECONDS :: int where "MAX_TTL_SECONDS = 30 * 24 * 60 * 60"

text \<open>\<open>Inl\<close> carries the refused value, which the caller wraps as \<open>BadTtl\<close>.\<close>

definition validate_ttl :: "int \<Rightarrow> int + unit" where
  "validate_ttl ttl_seconds =
     (if ttl_seconds \<le> 0 \<or> ttl_seconds > MAX_TTL_SECONDS then Inl ttl_seconds else Inr ())"

section \<open>Reading a timestamp\<close>

text \<open>\<open>text.get(a..b)?.parse::<i64>().ok()\<close>.\<close>

definition iso_num :: "str \<Rightarrow> nat \<Rightarrow> nat \<Rightarrow> int option" where
  "iso_num s a b = (case byte_get a b s of None \<Rightarrow> None | Some t \<Rightarrow> parse_i64 t)"

definition is_sign :: "uchar \<Rightarrow> bool" where
  "is_sign c = (c = c_plus \<or> c = c_dash)"

text \<open>
  The offset that may follow the nineteen bytes of date and time: \<open>None\<close> is the \<open>?\<close> on the hour
  field, an unreadable minute field counts as zero.
\<close>

definition iso_offset :: "str \<Rightarrow> int option" where
  "iso_offset rest0 =
     (let rest = trim_start_matches (\<lambda>c. c = c_dot \<or> is_ascii_digit c) rest0
      in case dropWhile (\<lambda>c. \<not> is_sign c) rest of
           [] \<Rightarrow> Some 0
         | sg # off \<Rightarrow>
             (case iso_num off 0 2 of
                None \<Rightarrow> None
              | Some oh \<Rightarrow>
                  let sign = (if sg = c_plus then 1 else - 1);
                      om_text = (case byte_get 3 5 off of Some t \<Rightarrow> Some t | None \<Rightarrow> byte_get 2 4 off);
                      om = (case om_text of
                              None \<Rightarrow> 0
                            | Some t \<Rightarrow> (case parse_i64 t of None \<Rightarrow> 0 | Some n \<Rightarrow> n))
                  in Some (sign * (oh * 3600 + om * 60))))"

text \<open>The separators are compared as bytes of the encoded text.\<close>

definition iso_separators :: "str \<Rightarrow> bool" where
  "iso_separators s =
     (let bytes = utf8_encode s
      in bytes ! 4 = 45 \<and> bytes ! 7 = 45 \<and> (bytes ! 10 = 84 \<or> bytes ! 10 = 32))"

definition iso_in_range :: "int \<Rightarrow> int \<Rightarrow> int \<Rightarrow> int \<Rightarrow> int \<Rightarrow> bool" where
  "iso_in_range month day hour minute second \<longleftrightarrow>
     (1 \<le> month \<and> month \<le> 12) \<and> (1 \<le> day \<and> day \<le> 31) \<and>
     \<not> hour > 23 \<and> \<not> minute > 59 \<and> \<not> second > 59"

definition parse_iso_utc :: "str \<Rightarrow> int option" where
  "parse_iso_utc value =
     (let s = trim value
      in if byte_len s < 19 then None
         else do {
           year \<leftarrow> iso_num s 0 4;
           month \<leftarrow> iso_num s 5 7;
           day \<leftarrow> iso_num s 8 10;
           hour \<leftarrow> iso_num s 11 13;
           minute \<leftarrow> iso_num s 14 16;
           second \<leftarrow> iso_num s 17 19;
           if \<not> iso_separators s then None
           else if \<not> iso_in_range month day hour minute second then None
           else do {
             rest \<leftarrow> byte_drop 19 s;
             off \<leftarrow> iso_offset rest;
             Some (epoch_from_civil year month day * 86400 + hour * 3600 + minute * 60 + second - off)
           }
         })"

section \<open>The calendar functions are inverse\<close>

lemma sdiv_nonneg: "0 \<le> (a::int) \<Longrightarrow> 0 < b \<Longrightarrow> a sdiv b = a div b"
  by (cases "a = 0") (simp_all add: signed_divide_int_def)

lemma smod_nonneg: "0 \<le> (a::int) \<Longrightarrow> 0 < b \<Longrightarrow> a smod b = a mod b"
  by (cases "a = 0") (simp_all add: signed_modulo_int_def)

text \<open>The idiom \<open>if y >= 0 { y } else { y - (n - 1) } / n\<close> is floor division.\<close>

lemma floor_by_sdiv:
  assumes "0 < n"
  shows "(if y \<ge> 0 then y else y - (n - 1)) sdiv n = (y::int) div n"
proof (cases "y \<ge> 0")
  case False
  then have "(y - (n - 1)) sdiv n = - ((- y + (n - 1)) div n)"
    using assms by (simp add: signed_divide_int_def)
  also have "(- y + (n - 1)) div n = (- y - 1) div n + 1"
    using assms div_add_self2 [of n "- y - 1"] by (simp add: algebra_simps)
  also have "(- y - 1) div n = - (y div n) - 1"
  proof -
    have "- y - 1 = (- (y div n) - 1) * n + (n - 1 - y mod n)"
      using div_mult_mod_eq [of y n] by (simp add: algebra_simps)
    moreover have "0 \<le> n - 1 - y mod n" "n - 1 - y mod n < n"
      using assms pos_mod_bound [of n y] pos_mod_sign [of n y] by linarith+
    ultimately show ?thesis by (intro int_div_pos_eq [where r = "n - 1 - y mod n"]) (auto simp: algebra_simps)
  qed
  finally show ?thesis using False by simp
qed (simp add: sdiv_nonneg assms)

lemma era_floor:
  "(if y \<ge> 0 then y else y - 399) sdiv 400 = (y::int) div 400"
  "(if y \<ge> 0 then y else y - 146096) sdiv 146097 = (y::int) div 146097"
  using floor_by_sdiv [of 400 y] floor_by_sdiv [of 146097 y] by (auto split: if_splits)

text \<open>
  \<open>year_start y\<close> is the first day of the \<open>y\<close>-th March-based year of an era and \<open>year_scale doe\<close> the
  numerator of \<open>yoe\<close>; a day lies in the year \<open>y\<close> of its era exactly when the quotient is \<open>y\<close>.
\<close>

definition year_start :: "int \<Rightarrow> int" where
  "year_start y = 365 * y + y div 4 - y div 100"

definition year_scale :: "int \<Rightarrow> int" where
  "year_scale doe = doe - doe div 1460 + doe div 36524 - doe div 146096"

lemma year_table:
  "list_all (\<lambda>y. 365 * y \<le> year_scale (year_start y) \<and>
                 year_scale (year_start (y + 1) - 1) < 365 * (y + 1) \<and>
                 year_start (y + 1) - year_start y \<le> 366) [0..399]"
  by code_simp

lemma div_step: "0 < n \<Longrightarrow> (x + 1) div n = x div n \<or> (x + 1) div n = x div n + (1::int)"
proof -
  assume "0 < n"
  then have "x div n \<le> (x + 1) div n" "(x + 1) div n \<le> (x + n) div n"
    by (auto intro: zdiv_mono1)
  moreover have "(x + n) div n = x div n + 1" using \<open>0 < n\<close> by (simp add: div_add_self2)
  ultimately show ?thesis by linarith
qed

lemma year_scale_step: "year_scale x \<le> year_scale (x + 1)"
proof -
  have "x div 146096 = x div 36524 div 4" "(x + 1) div 146096 = (x + 1) div 36524 div 4"
    by (simp_all add: zdiv_zmult2_eq [symmetric])
  then show ?thesis
    using div_step [of 1460 x] div_step [of 36524 x] div_step [of 4 "x div 36524"]
    unfolding year_scale_def by fastforce
qed

lemma year_scale_mono: "x \<le> y \<Longrightarrow> year_scale x \<le> year_scale y"
  by (induction y rule: int_ge_induct) (auto intro: order_trans year_scale_step)

lemma year_of_day:
  assumes "0 \<le> k" "0 \<le> doe" "doe < year_start k"
  shows "\<exists>y. 0 \<le> y \<and> y < k \<and> year_start y \<le> doe \<and> doe < year_start (y + 1)"
  using assms
proof (induction k rule: int_ge_induct)
  case base
  then show ?case by (simp add: year_start_def)
next
  case (step i)
  then show ?case by (cases "doe < year_start i") force+
qed

lemma year_bounds:
  assumes "0 \<le> doe" "doe \<le> 146096"
  defines "yoe \<equiv> year_scale doe div 365"
  shows "0 \<le> yoe \<and> yoe \<le> 399 \<and> year_start yoe \<le> doe \<and> doe \<le> year_start yoe + 365"
proof (cases "doe = 146096")
  case True
  then show ?thesis by (simp add: yoe_def year_scale_def year_start_def)
next
  case False
  then have "doe < year_start 400" using assms by (simp add: year_start_def)
  then obtain y where y: "0 \<le> y" "y < 400" "year_start y \<le> doe" "doe < year_start (y + 1)"
    using assms year_of_day [of 400 doe] by auto
  then have t: "365 * y \<le> year_scale (year_start y)"
      "year_scale (year_start (y + 1) - 1) < 365 * (y + 1)" "year_start (y + 1) - year_start y \<le> 366"
    using year_table by (simp_all add: list_all_iff)
  have "365 * y \<le> year_scale doe" "year_scale doe < 365 * (y + 1)"
    using t(1,2) y year_scale_mono [of "year_start y" doe]
      year_scale_mono [of doe "year_start (y + 1) - 1"] by linarith+
  then have "yoe = y" unfolding yoe_def by (intro int_div_pos_eq [of _ 365 y "year_scale doe - 365 * y"]) auto
  with y t show ?thesis by auto
qed

lemma month_table:
  "list_all (\<lambda>doy. let mp = (5 * doy + 2) div 153; d = doy - (153 * mp + 2) div 5 + 1
                   in 0 \<le> mp \<and> mp \<le> 11 \<and> 1 \<le> d \<and> d \<le> 31) [0..(365::int)]"
  by code_simp

text \<open>The parts of \<open>civil_from_epoch\<close>, with the divisions read as floor division.\<close>

lemma civil_parts:
  fixes e :: int
  defines "z \<equiv> e div 86400 + 719468" and "secs \<equiv> e mod 86400"
  defines "doe \<equiv> z mod 146097"
  defines "yoe \<equiv> year_scale doe div 365"
  defines "doy \<equiv> doe - year_start yoe"
  defines "mp \<equiv> (5 * doy + 2) div 153"
  shows "civil_from_epoch e =
           (yoe + z div 146097 * 400 + (if mp < 10 then 0 else 1), if mp < 10 then mp + 3 else mp - 9,
            doy - (153 * mp + 2) div 5 + 1, secs div 3600, secs mod 3600 div 60, secs mod 60)"
    and "0 \<le> yoe \<and> yoe \<le> 399" and "0 \<le> mp \<and> mp \<le> 11"
    and "1 \<le> doy - (153 * mp + 2) div 5 + 1 \<and> doy - (153 * mp + 2) div 5 + 1 \<le> 31"
    and "0 \<le> doe \<and> doe \<le> 146096" and "0 \<le> secs \<and> secs < 86400"
proof -
  have d: "z - z div 146097 * 146097 = doe" unfolding doe_def by (simp add: minus_div_mult_eq_mod)
  show doe: "0 \<le> doe \<and> doe \<le> 146096" unfolding doe_def by auto
  show secs: "0 \<le> secs \<and> secs < 86400" unfolding secs_def by auto
  have y: "0 \<le> yoe \<and> yoe \<le> 399" and doy: "0 \<le> doy" "doy \<le> 365"
    using year_bounds [of doe] doe unfolding yoe_def doy_def by auto
  show "0 \<le> yoe \<and> yoe \<le> 399" by (rule y)
  have m: "(let mp = (5 * doy + 2) div 153; d = doy - (153 * mp + 2) div 5 + 1
            in 0 \<le> mp \<and> mp \<le> 11 \<and> 1 \<le> d \<and> d \<le> 31)"
    using month_table doy by (simp only: list_all_iff set_upto) auto
  show mp: "0 \<le> mp \<and> mp \<le> 11" using m by (simp add: Let_def mp_def)
  show "1 \<le> doy - (153 * mp + 2) div 5 + 1 \<and> doy - (153 * mp + 2) div 5 + 1 \<le> 31"
    using m by (simp add: Let_def mp_def)
  have scale: "0 \<le> year_scale doe"
    using year_scale_mono [of 0 doe] doe by (simp add: year_scale_def)
  have yoe: "(doe - doe sdiv 1460 + doe sdiv 36524 - doe sdiv 146096) sdiv 365 = yoe"
    using doe scale by (simp add: sdiv_nonneg yoe_def year_scale_def)
  have doy': "doe - (365 * yoe + yoe sdiv 4 - yoe sdiv 100) = doy"
    using y by (simp add: sdiv_nonneg doy_def year_start_def)
  have mp': "(5 * doy + 2) sdiv 153 = mp" using doy by (simp add: sdiv_nonneg mp_def)
  have mm: "(153 * mp + 2) sdiv 5 = (153 * mp + 2) div 5" using mp by (simp add: sdiv_nonneg)
  have ss: "secs sdiv 3600 = secs div 3600" "secs smod 3600 sdiv 60 = secs mod 3600 div 60"
    "secs smod 60 = secs mod 60"
    using secs by (simp_all add: sdiv_nonneg smod_nonneg)
  show "civil_from_epoch e =
           (yoe + z div 146097 * 400 + (if mp < 10 then 0 else 1), if mp < 10 then mp + 3 else mp - 9,
            doy - (153 * mp + 2) div 5 + 1, secs div 3600, secs mod 3600 div 60, secs mod 60)"
    unfolding civil_from_epoch_def Let_def z_def [symmetric] secs_def [symmetric] era_floor d
      yoe doy' mp' mm ss using mp by auto
qed

lemma civil_cases:
  assumes "civil_from_epoch e = (y, m, d, h, mi, s)"
  obtains z doe yoe mp where "z = e div 86400 + 719468" "doe = z mod 146097"
    "yoe = year_scale doe div 365" "mp = (5 * (doe - year_start yoe) + 2) div 153"
    "y = yoe + z div 146097 * 400 + (if mp < 10 then 0 else 1)"
    "m = (if mp < 10 then mp + 3 else mp - 9)"
    "d = doe - year_start yoe - (153 * mp + 2) div 5 + 1"
    "h = e mod 86400 div 3600" "mi = e mod 86400 mod 3600 div 60" "s = e mod 86400 mod 60"
    "0 \<le> yoe \<and> yoe \<le> 399" "0 \<le> mp \<and> mp \<le> 11" "1 \<le> d \<and> d \<le> 31"
proof (rule that [OF refl refl refl refl], goal_cases)
qed (use assms civil_parts [of e] in \<open>simp_all only: prod.inject\<close>)

lemma epoch_of_civil:
  assumes "civil_from_epoch e = (y, m, d, h, mi, s)"
  shows "epoch_from_civil y m d * 86400 + h * 3600 + mi * 60 + s = e"
  using assms
proof (cases rule: civil_cases)
  case (1 z doe yoe mp)
  have y: "(if m \<le> 2 then y - 1 else y) = yoe + z div 146097 * 400" using 1(5,6,12) by auto
  have m: "(m + 9) smod 12 = mp" using 1(6,12) by (auto simp: smod_nonneg)
  have era: "(yoe + z div 146097 * 400) div 400 = z div 146097" using 1(11) by simp
  have "epoch_from_civil y m d = z div 146097 * 146097 + doe - 719468"
    using 1(11,12) unfolding epoch_from_civil_def Let_def y era_floor era m 1(7)
    by (simp add: sdiv_nonneg year_start_def)
  also have "\<dots> = e div 86400" unfolding 1(2) by (simp add: 1(1))
  finally have days: "epoch_from_civil y m d = e div 86400" .
  have "h * 3600 + mi * 60 + s = e mod 86400"
  proof -
    have "e mod 86400 mod 60 = e mod 86400 mod 3600 mod 60" by (simp add: mod_mod_cancel)
    then show ?thesis unfolding 1(8,9,10)
      by (metis add.assoc div_mult_mod_eq)
  qed
  then show ?thesis using days by (metis add.assoc div_mult_mod_eq)
qed

section \<open>Fixed-width fields\<close>

lemma byte_len_ascii: "\<forall>c\<in>set s. c < 128 \<Longrightarrow> byte_len s = length s"
  by (induction s) (auto simp: utf8_width_def)

lemma length_show_nat: "n < 10 ^ Suc k \<Longrightarrow> length (show_nat n) \<le> Suc k"
proof (induction k arbitrary: n)
  case 0
  then show ?case by (simp add: show_nat.simps)
next
  case (Suc k)
  show ?case
  proof (cases "n < 10")
    case True
    then show ?thesis by (simp add: show_nat.simps)
  next
    case False
    have "n div 10 < 10 ^ Suc k" using Suc.prems by (simp add: div_less_iff_less_mult)
    with Suc.IH False show ?thesis by (subst show_nat.simps) simp
  qed
qed

lemma length_pad_nat: "n < 10 ^ Suc k \<Longrightarrow> length (pad_nat (Suc k) n) = Suc k"
  using length_show_nat [of n k] by (simp add: pad_nat_def)

lemma pad_nat_digit: "c \<in> set (pad_nat w n) \<Longrightarrow> is_ascii_digit c"
  using show_nat_digit [of c n] by (auto simp: pad_nat_def is_ascii_digit_def)

lemma dec_value_zeros: "dec_value (replicate k 48 @ s) = dec_value s"
proof (induction k)
  case (Suc k)
  then show ?case by (simp add: dec_value_def)
qed simp

lemma pad_nat_not_Nil: "pad_nat w n \<noteq> []"
  by (simp add: pad_nat_def)

lemma parse_i64_digits:
  assumes "s \<noteq> []" "list_all is_ascii_digit s" "int (dec_value s) \<le> I64_MAX"
  shows "parse_i64 s = Some (int (dec_value s))"
proof -
  obtain c r where s: "s = c # r" using assms(1) by (cases s) auto
  have "c \<noteq> c_dash \<and> c \<noteq> c_plus" using assms(2) s by (auto simp: is_ascii_digit_def)
  then show ?thesis using assms s by (simp add: parse_i64_def parse_digits_def)
qed

lemma parse_i64_pad: "int n \<le> I64_MAX \<Longrightarrow> parse_i64 (pad_nat w n) = Some (int n)"
  using parse_i64_digits [of "pad_nat w n"] pad_nat_digit [of _ w n] show_nat_props [of n]
  by (simp add: pad_nat_not_Nil list_all_iff) (simp add: pad_nat_def dec_value_zeros)

lemma byte_get_mid:
  assumes "byte_len a = i" "byte_len b = j - i" "i \<le> j"
  shows "byte_get i j (a @ b @ c) = Some b"
  using byte_drop_append [of a "b @ c"] byte_take_append [of b c] assms by (simp add: byte_get_def)

lemma utf8_encode_nth_mid:
  assumes "byte_len a = i" "c < 128"
  shows "utf8_encode (a @ c # b) ! i = of_nat c"
  using assms length_utf8_encode [of a] by (simp add: nth_append utf8_bytes_def)

text \<open>A field is a number printed on exactly its width.\<close>

definition field :: "nat \<Rightarrow> int \<Rightarrow> str" where
  "field w n = pad_nat w (nat n)"

lemma field_props:
  assumes "0 \<le> n" "n < 10 ^ w" "0 < w" "w \<le> 4"
  shows "byte_len (field w n) = w" and "parse_i64 (field w n) = Some n"
    and "\<forall>c\<in>set (field w n). is_ascii_digit c"
proof -
  have "nat n < nat (10 ^ w)" using assms by (subst nat_mono_iff) auto
  then have n: "nat n < 10 ^ w" by (simp add: nat_power_eq)
  show d: "\<forall>c\<in>set (field w n). is_ascii_digit c" using pad_nat_digit unfolding field_def by blast
  then have "\<forall>c\<in>set (field w n). c < 128" by (force simp: is_ascii_digit_def)
  then show "byte_len (field w n) = w"
    using byte_len_ascii [of "field w n"] length_pad_nat [of "nat n" "w - 1"] n assms(3)
    by (auto simp: field_def)
  have "(10::int) ^ w \<le> 10 ^ 4" using assms(4) by (intro power_increasing) auto
  then have "int (nat n) \<le> I64_MAX" using assms(1,2) by (simp add: I64_MAX_def)
  then show "parse_i64 (field w n) = Some n" using assms(1) by (simp add: field_def parse_i64_pad)
qed

text \<open>A timestamp in the layout the store writes, read back field by field.\<close>

definition iso_layout :: "str \<Rightarrow> str \<Rightarrow> str \<Rightarrow> str \<Rightarrow> str \<Rightarrow> str \<Rightarrow> str" where
  "iso_layout Y M D H I S =
     Y @ [45] @ M @ [45] @ D @ [84] @ H @ [58] @ I @ [58] @ S @ lit ''+00:00''"

lemma iso_offset_utc: "iso_offset (lit ''+00:00'') = Some 0"
  by (simp add: iso_offset_def trim_start_matches_def is_ascii_digit_def is_sign_def iso_num_def
      byte_get_def utf8_width_def parse_i64_def parse_digits_def dec_value_def I64_MAX_def)

lemma parse_iso_layout:
  assumes len: "byte_len Y = 4" "byte_len M = 2" "byte_len D = 2" "byte_len H = 2" "byte_len I = 2" "byte_len S = 2"
    and num: "parse_i64 Y = Some y" "parse_i64 M = Some m" "parse_i64 D = Some d"
      "parse_i64 H = Some h" "parse_i64 I = Some mi" "parse_i64 S = Some sc"
    and range: "iso_in_range m d h mi sc" and Y: "\<forall>c\<in>set Y. is_ascii_digit c" "Y \<noteq> []"
  shows "parse_iso_utc (iso_layout Y M D H I S) =
           Some (epoch_from_civil y m d * 86400 + h * 3600 + mi * 60 + sc)"
proof -
  define s where "s = iso_layout Y M D H I S"
  have s: "s = Y @ [45] @ M @ [45] @ D @ [84] @ H @ [58] @ I @ [58] @ S @ lit ''+00:00''"
    by (simp add: s_def iso_layout_def)
  have "48 \<le> hd Y" "hd Y \<le> 57" using Y hd_in_set [of Y] by (auto simp: is_ascii_digit_def)
  then have "\<not> is_whitespace (hd s)" "\<not> is_whitespace (last s)" "s \<noteq> []"
    using Y(2) by (auto simp: s is_whitespace_def)
  then have trim: "trim s = s" by (intro trim_word)
  have nums: "iso_num s 0 4 = Some y" "iso_num s 5 7 = Some m" "iso_num s 8 10 = Some d"
    "iso_num s 11 13 = Some h" "iso_num s 14 16 = Some mi" "iso_num s 17 19 = Some sc"
    using len num byte_get_mid [of "[]" 0 Y 4] byte_get_mid [of "Y @ [45]" 5 M 7]
      byte_get_mid [of "Y @ [45] @ M @ [45]" 8 D 10] byte_get_mid [of "Y @ [45] @ M @ [45] @ D @ [84]" 11 H 13]
      byte_get_mid [of "Y @ [45] @ M @ [45] @ D @ [84] @ H @ [58]" 14 I 16]
      byte_get_mid [of "Y @ [45] @ M @ [45] @ D @ [84] @ H @ [58] @ I @ [58]" 17 S 19]
    unfolding iso_num_def s by (simp_all add: utf8_width_def del: lit_Cons)
  have seps: "iso_separators s"
    using len utf8_encode_nth_mid [of Y 4 45] utf8_encode_nth_mid [of "Y @ [45] @ M" 7 45]
      utf8_encode_nth_mid [of "Y @ [45] @ M @ [45] @ D" 10 84]
    unfolding iso_separators_def Let_def s
    by (simp add: utf8_width_def del: lit_Cons utf8_encode_simps)
  have rest: "byte_drop 19 s = Some (lit ''+00:00'')"
    using len byte_drop_append [of "Y @ [45] @ M @ [45] @ D @ [84] @ H @ [58] @ I @ [58] @ S" "lit ''+00:00''"]
    unfolding s by (simp add: utf8_width_def del: lit_Cons)
  have "19 \<le> byte_len s" using len unfolding s by (simp add: utf8_width_def del: lit_Cons)
  then show ?thesis
    unfolding s_def [symmetric] parse_iso_utc_def trim Let_def
    by (simp add: nums seps rest range iso_offset_utc del: lit_Cons)
qed

section \<open>Round trip\<close>

lemma year_of_epoch:
  assumes "- 62167219200 \<le> e" "e \<le> 253402300799" "civil_from_epoch e = (y, m, d, h, mi, s)"
  shows "0 \<le> y \<and> y \<le> 9999"
  using assms(3)
proof (cases rule: civil_cases)
  case (1 z doe yoe mp)
  note y = 1(5) and yoe = 1(11)
  have z: "- 60 \<le> z" "z \<le> 3652364"
    using assms(1,2) zdiv_mono1 [of "- 62167219200" e 86400] zdiv_mono1 [of e 253402300799 86400]
    unfolding 1(1) by simp_all
  have era: "- 1 \<le> z div 146097" "z div 146097 \<le> 24"
    using zdiv_mono1 [of "- 60" z 146097] zdiv_mono1 [of z 3652364 146097] z by simp_all
  have doe: "doe = z - z div 146097 * 146097" unfolding 1(2) by (simp add: minus_div_mult_eq_mod)
  have last_year: "mp < 10 \<longleftrightarrow> doe < 146037" if "yoe = 399"
    using zdiv_mono1 [of "5 * (doe - year_start 399) + 2" 1527 153]
      zdiv_mono1 [of 1532 "5 * (doe - year_start 399) + 2" 153]
    unfolding 1(4) that by (cases "doe < 146037") (simp_all add: year_start_def)
  have "0 \<le> y"
  proof (cases "z div 146097 = - 1")
    case True
    then have "146037 \<le> doe" using doe z by simp
    then have "399 \<le> yoe"
      using year_scale_mono [of 146037 doe] zdiv_mono1 [of "year_scale 146037" "year_scale doe" 365]
      unfolding 1(3) by (simp add: year_scale_def)
    then have "yoe = 399" using yoe by simp
    then show ?thesis using True y last_year \<open>146037 \<le> doe\<close> by simp
  next
    case False
    then show ?thesis using era y yoe by auto
  qed
  moreover have "y \<le> 9999"
  proof (cases "z div 146097 = 24 \<and> yoe = 399")
    case True
    then have "doe \<le> 146036" using doe z by simp
    then show ?thesis using True y last_year by simp
  next
    case False
    then show ?thesis using era y yoe by (auto split: if_splits)
  qed
  ultimately show ?thesis by blast
qed

lemma civil_ranges:
  assumes "civil_from_epoch e = (y, m, d, h, mi, s)"
  shows "1 \<le> m \<and> m \<le> 12 \<and> 1 \<le> d \<and> d \<le> 31 \<and> 0 \<le> h \<and> h \<le> 23 \<and> 0 \<le> mi \<and> mi \<le> 59 \<and> 0 \<le> s \<and> s \<le> 59"
  using assms
proof (cases rule: civil_cases)
  case (1 z doe yoe mp)
  have "0 \<le> h \<and> h \<le> 23" unfolding 1(8) using zdiv_mono1 [of "e mod 86400" 86399 3600] by simp
  moreover have "0 \<le> mi \<and> mi \<le> 59"
    unfolding 1(9) using zdiv_mono1 [of "e mod 86400 mod 3600" 3599 60] by simp
  moreover have "0 \<le> s \<and> s \<le> 59" unfolding 1(10) by simp
  moreover have "1 \<le> m \<and> m \<le> 12" using 1(6,12) by auto
  ultimately show ?thesis using 1(13) by simp
qed

lemma parse_format_iso:
  assumes "- 62167219200 \<le> e" "e \<le> 253402300799"
  shows "parse_iso_utc (format_iso_utc e) = Some e"
proof -
  obtain y m d h mi s where c: "civil_from_epoch e = (y, m, d, h, mi, s)" by (metis prod_cases6)
  note y = year_of_epoch [OF assms c] and r = civil_ranges [OF c]
  have "format_iso_utc e =
          iso_layout (field 4 y) (field 2 m) (field 2 d) (field 2 h) (field 2 mi) (field 2 s)"
    using y r by (simp add: format_iso_utc_def c iso_layout_def field_def pad_int_def)
  moreover have "iso_in_range m d h mi s" using r by (simp add: iso_in_range_def)
  moreover have "field 4 y \<noteq> []" by (simp add: field_def pad_nat_not_Nil)
  ultimately show ?thesis
    using parse_iso_layout [of "field 4 y" "field 2 m" "field 2 d" "field 2 h" "field 2 mi" "field 2 s"]
      field_props [of y 4] field_props [of _ 2] y r epoch_of_civil [OF c] by simp
qed

text \<open>
  Every instant of the years 0 to 9999 survives the database: the text \<open>format_iso_utc\<close> stores is
  read by \<open>parse_iso_utc\<close> as the same epoch second.
\<close>

theorem iso_round_trip:
  assumes "- 62167219200 \<le> e" "e \<le> 253402300799"
  shows "parse_iso_utc (format_iso_utc e) = Some e"
  using assms by (rule parse_format_iso)

theorem iso_round_trip_witness:
  "parse_iso_utc (format_iso_utc 1700000000) = Some 1700000000"
  by (rule iso_round_trip) simp_all

section \<open>What the reader accepts\<close>

lemma dec_value_less: "list_all is_ascii_digit s \<Longrightarrow> dec_value s < 10 ^ length s"
proof (induction s rule: rev_induct)
  case (snoc c s)
  then show ?case by (auto simp: dec_value_snoc is_ascii_digit_def)
qed (simp add: dec_value_def)

lemma parse_digits_less: "parse_digits s = Some n \<Longrightarrow> n < 10 ^ length s"
  using dec_value_less by (auto simp: parse_digits_def split: if_splits)

lemma parse_i64_bounds:
  assumes "parse_i64 s = Some n" "length s \<le> Suc w"
  shows "- (10 ^ w) < n \<and> n < 10 ^ Suc w"
proof -
  obtain c r where s: "s = c # r" using assms(1) by (cases s) (auto simp: parse_i64_def)
  have le: "(10::nat) ^ length r \<le> 10 ^ w" "(10::nat) ^ length s \<le> 10 ^ Suc w"
    using assms(2) s by (auto intro: power_increasing)
  have pos: "(0::int) < 10 ^ w" by simp
  show ?thesis
  proof (cases "c = c_dash")
    case True
    then obtain k where k: "n = - int k" "parse_digits r = Some k"
      using assms(1) s by (auto simp: parse_i64_def split: option.splits if_splits)
    then have "k < 10 ^ w" using parse_digits_less [of r k] le by linarith
    then have "int k < 10 ^ w" by (metis of_nat_less_iff of_nat_numeral of_nat_power)
    then show ?thesis unfolding k(1) power_Suc using pos by linarith
  next
    case False
    then obtain k t where k: "n = int k" "parse_digits t = Some k" "t = r \<or> t = s"
      using assms(1) s by (auto simp: parse_i64_def split: option.splits if_splits)
    then have "length t \<le> Suc w" using s assms(2) by auto
    then have "(10::nat) ^ length t \<le> 10 ^ Suc w" by (intro power_increasing) auto
    then have "k < 10 ^ Suc w" using parse_digits_less [OF k(2)] by linarith
    then have "int k < 10 ^ Suc w" by (metis of_nat_less_iff of_nat_numeral of_nat_power)
    then show ?thesis using k pos by linarith
  qed
qed

lemma byte_take_len: "byte_take n s = Some r \<Longrightarrow> byte_len r = n"
  by (induction n s arbitrary: r rule: byte_take.induct) (auto split: if_splits)

lemma byte_get_length: "byte_get a b s = Some t \<Longrightarrow> length t \<le> b - a"
  using byte_take_len [of "b - a" _ t] byte_len_bounds [of t]
  by (auto simp: byte_get_def split: if_splits option.splits)

lemma iso_num_bounds:
  "iso_num s a b = Some n \<Longrightarrow> b = a + Suc w \<Longrightarrow> - (10 ^ w) < n \<and> n < 10 ^ Suc w"
  using parse_i64_bounds byte_get_length by (fastforce simp: iso_num_def split: option.splits)

lemma iso_offset_bounds:
  assumes "iso_offset r = Some off"
  shows "\<bar>off\<bar> \<le> 362340"
proof (cases "dropWhile (\<lambda>c. \<not> is_sign c) (trim_start_matches (\<lambda>c. c = c_dot \<or> is_ascii_digit c) r)")
  case Nil
  then show ?thesis using assms unfolding iso_offset_def Let_def by (simp only: list.case) simp
next
  case (Cons sg t)
  define om where "om = (case (case byte_get 3 5 t of Some u \<Rightarrow> Some u | None \<Rightarrow> byte_get 2 4 t) of
      None \<Rightarrow> 0 | Some u \<Rightarrow> (case parse_i64 u of None \<Rightarrow> 0 | Some n \<Rightarrow> n))"
  have om: "- 10 < om \<and> om < 100"
    using parse_i64_bounds [of _ _ 1] byte_get_length [of 3 5 t] byte_get_length [of 2 4 t]
    unfolding om_def by (fastforce split: option.splits)
  obtain oh where oh: "iso_num t 0 2 = Some oh"
    and off: "off = oh * 3600 + om * 60 \<or> off = - (oh * 3600 + om * 60)"
    using assms Cons by (auto simp: iso_offset_def om_def split: option.splits if_splits)
  have "- 10 < oh \<and> oh < 100" using iso_num_bounds [OF oh, of 1] by simp
  then show ?thesis using om off by linarith
qed

lemma epoch_from_civil_bounds:
  assumes "- 1000 < y" "y < 10000" "1 \<le> m \<and> m \<le> 12" "1 \<le> d \<and> d \<le> 31"
  shows "- 1157759 \<le> epoch_from_civil y m d \<and> epoch_from_civil y m d \<le> 2933000"
proof -
  define y' where "y' = (if m \<le> 2 then y - 1 else y)"
  define mp where "mp = (m + 9) mod 12"
  have y': "- 1000 \<le> y'" "y' \<le> 9999" using assms unfolding y'_def by auto
  have mp: "0 \<le> mp" "mp \<le> 11" unfolding mp_def by auto
  have era: "- 3 \<le> y' div 400" "y' div 400 \<le> 24"
    using zdiv_mono1 [of "- 1000" y' 400] zdiv_mono1 [of y' 9999 400] y' by simp_all
  have yoe: "0 \<le> y' mod 400" "y' mod 400 \<le> 399" by auto
  have q: "0 \<le> (153 * mp + 2) div 5" "(153 * mp + 2) div 5 \<le> 337"
    using zdiv_mono1 [of "153 * mp + 2" 1685 5] mp by simp_all
  have "epoch_from_civil y m d = y' div 400 * 146097 + (year_start (y' mod 400) + ((153 * mp + 2) div 5 + d - 1)) - 719468"
  proof -
    have "(m + 9) smod 12 = mp" using assms(3) by (simp add: smod_nonneg mp_def)
    moreover have "(153 * mp + 2) sdiv 5 = (153 * mp + 2) div 5" using mp by (simp add: sdiv_nonneg)
    moreover have "y' mod 400 sdiv 4 = y' mod 400 div 4" "y' mod 400 sdiv 100 = y' mod 400 div 100"
      using yoe by (simp_all add: sdiv_nonneg)
    ultimately show ?thesis
      unfolding epoch_from_civil_def Let_def y'_def [symmetric] era_floor minus_div_mult_eq_mod
      by (simp add: year_start_def)
  qed
  moreover have "0 \<le> year_start (y' mod 400) \<and> year_start (y' mod 400) \<le> 145731 + 3"
  proof -
    have "0 \<le> y' mod 400 div 100" "y' mod 400 div 100 \<le> 3" "0 \<le> y' mod 400 div 4" "y' mod 400 div 4 \<le> 99"
      using zdiv_mono1 [OF yoe(2), of 100] zdiv_mono1 [OF yoe(2), of 4] yoe(1) by simp_all
    moreover have "y' mod 400 div 100 \<le> y' mod 400 div 4" using yoe(1) by (intro zdiv_mono2) auto
    ultimately show ?thesis using yoe unfolding year_start_def by linarith
  qed
  ultimately show ?thesis using era q assms(4) by linarith
qed

text \<open>
  Whatever text the database holds, an accepted timestamp is a date of the years \<open>-1201\<close> to
  \<open>10003\<close>: no text reads as an expiry beyond that, and no sum of it with a TTL leaves \<open>i64\<close>.
\<close>

theorem parse_iso_bounded:
  assumes "parse_iso_utc v = Some e"
  shows "- 100031000000 \<le> e \<and> e \<le> 253420000000 \<and> e + MAX_TTL_SECONDS \<le> I64_MAX"
proof -
  obtain y m d h mi sc off r where n:
    "iso_num (trim v) 0 4 = Some y" "iso_num (trim v) 5 7 = Some m" "iso_num (trim v) 8 10 = Some d"
    "iso_num (trim v) 11 13 = Some h" "iso_num (trim v) 14 16 = Some mi" "iso_num (trim v) 17 19 = Some sc"
    "iso_in_range m d h mi sc" "iso_offset r = Some off"
    "e = epoch_from_civil y m d * 86400 + h * 3600 + mi * 60 + sc - off"
    using assms by (auto simp: parse_iso_utc_def Let_def bind_eq_Some_conv split: if_splits)
  have "- 1157759 \<le> epoch_from_civil y m d \<and> epoch_from_civil y m d \<le> 2933000"
    using iso_num_bounds [OF n(1), of 3] n(7) by (intro epoch_from_civil_bounds) (auto simp: iso_in_range_def)
  moreover have "- 10 < h" "- 10 < mi" "- 10 < sc"
    using iso_num_bounds [OF n(4), of 1] iso_num_bounds [OF n(5), of 1] iso_num_bounds [OF n(6), of 1] by auto
  moreover have "h \<le> 23" "mi \<le> 59" "sc \<le> 59" using n(7) by (auto simp: iso_in_range_def)
  moreover have "- 362340 \<le> off" "off \<le> 362340" using iso_offset_bounds [OF n(8)] by auto
  ultimately have "- 100031000000 \<le> e" "e \<le> 253420000000" unfolding n(9) by linarith+
  then show ?thesis by (simp add: MAX_TTL_SECONDS_def I64_MAX_def)
qed

theorem parse_iso_bounded_witness:
  "- 100031000000 \<le> (1700000000::int) \<and> (1700000000::int) \<le> 253420000000 \<and>
   1700000000 + MAX_TTL_SECONDS \<le> I64_MAX"
  by (rule parse_iso_bounded [of "format_iso_utc 1700000000"]) (rule parse_format_iso; simp)

lemmas iso_eval = parse_iso_utc_def trim_def trim_matches_def trim_start_matches_def
  trim_end_matches_def is_whitespace_def iso_num_def byte_get_def utf8_width_def parse_i64_def
  parse_digits_def is_ascii_digit_def dec_value_def I64_MAX_def I64_MIN_def iso_separators_def
  utf8_encode_def utf8_bytes_def iso_in_range_def iso_offset_def is_sign_def epoch_from_civil_def
  signed_divide_int_def signed_modulo_int_def

text \<open>
  The range check is not a calendar check: the 31st of February is read, as the 3rd of March of
  the same year, and a signed field such as an hour of \<open>-5\<close> passes because only its upper end is
  compared; a month of 13 is refused.
\<close>

theorem impossible_dates_read:
  "parse_iso_utc (lit ''2026-02-31T00:00:00Z'') = Some 1772496000 \<and>
   parse_iso_utc (lit ''2026-03-03T00:00:00Z'') = Some 1772496000 \<and>
   parse_iso_utc (lit ''2026-02-01T-5:00:00Z'') = Some 1769886000 \<and>
   parse_iso_utc (lit ''2026-13-01T00:00:00Z'') = None"
  by (intro conjI; simp add: iso_eval)

end
