(* ===== verification/Json_Scan.thy ===== *)
theory Json_Scan
  imports Utf8
begin

text \<open>
  The JSON reader of \<open>dc-store/src/json.rs\<close>, which proves that a text is exactly one array or object
  before the store embeds it in a reply, and \<open>merge_json_arrays\<close> of \<open>lib.rs\<close>, which splices two such
  arrays. A scanner state is the position and the bytes from there on. Messages become constructors
  of \<open>scan_error\<close> with the byte or position they report.

  The source recurses on \<open>depth\<close> up to \<open>MAX_DEPTH\<close>; \<open>scan_value\<close> counts the levels that are left, so
  that \<open>0\<close> is a depth past the bound. The element loops of arrays and objects run on fuel, one unit
  per element, and are started with more than the bytes that are left; \<open>Out_of_fuel\<close> is shown never
  to be answered.
\<close>

section \<open>The scanner\<close>

definition MAX_DEPTH :: nat where "MAX_DEPTH = 32"

definition json_ws :: "nat \<Rightarrow> bool" where
  "json_ws c \<longleftrightarrow> c = 32 \<or> c = 9 \<or> c = 10 \<or> c = 13"

definition trim_ws :: "str \<Rightarrow> str" where
  "trim_ws s = trim_matches json_ws s"

datatype scan_error =
    Empty_text
  | Starts_with byte byte
  | Not_container byte
  | Trailing nat nat
  | Expected_byte byte nat
  | Too_deep
  | Unexpected byte nat
  | Unterminated_value
  | Entry_shape nat
  | Expected_comma_or byte nat byte
  | Unterminated_array
  | Unterminated_object
  | Bad_change str
  | Change_not_string nat
  | Unterminated_string
  | Bad_unicode_escape nat
  | Unknown_escape nat
  | Control_character byte nat
  | Expected_word str nat
  | No_digits nat
  | No_fraction_digits nat
  | No_exponent_digits nat
  | Out_of_fuel

type_synonym scanner = "nat \<times> byte list"

fun peek :: "scanner \<Rightarrow> byte option" where
  "peek (p, []) = None"
| "peek (p, b # bs) = Some b"

fun advance :: "scanner \<Rightarrow> scanner" where
  "advance (p, bs) = (p + 1, tl bs)"

fun skip_ws :: "scanner \<Rightarrow> scanner" where
  "skip_ws (p, []) = (p, [])"
| "skip_ws (p, b # bs) = (if json_ws b then skip_ws (p + 1, bs) else (p, b # bs))"

definition expect :: "byte \<Rightarrow> scanner \<Rightarrow> scan_error + scanner" where
  "expect b s = (if peek s = Some b then Inr (advance s) else Inl (Expected_byte b (fst s)))"

definition ascii_digit :: "byte \<Rightarrow> bool" where
  "ascii_digit b \<longleftrightarrow> 48 \<le> b \<and> b \<le> 57"

definition ascii_hexdigit :: "byte \<Rightarrow> bool" where
  "ascii_hexdigit b \<longleftrightarrow> ascii_digit b \<or> (65 \<le> b \<and> b \<le> 70) \<or> (97 \<le> b \<and> b \<le> 102)"

definition simple_escape :: "byte \<Rightarrow> bool" where
  "simple_escape b \<longleftrightarrow> b \<in> {34, 92, 47, 98, 102, 110, 114, 116}"

fun hex_digits :: "nat \<Rightarrow> scanner \<Rightarrow> scan_error + scanner" where
  "hex_digits 0 s = Inr s"
| "hex_digits (Suc n) s =
     (case peek s of
        Some c \<Rightarrow> if ascii_hexdigit c then hex_digits n (advance s) else Inl (Bad_unicode_escape (fst s))
      | None \<Rightarrow> Inl (Bad_unicode_escape (fst s)))"

lemma hex_digits_length: "hex_digits n s = Inr s' \<Longrightarrow> length (snd s') \<le> length (snd s)"
  by (induction n s rule: hex_digits.induct) (force split: option.splits if_splits)+

text \<open>The loop of \<open>string\<close>, after the opening quote.\<close>

function string_loop :: "scanner \<Rightarrow> scan_error + scanner" where
  "string_loop (p, []) = Inl Unterminated_string"
| "string_loop (p, b # bs) =
     (if b = 34 then Inr (p + 1, bs)
      else if b = 92 then
        (case bs of
           [] \<Rightarrow> Inl (Unknown_escape (p + 1))
         | e # bs' \<Rightarrow>
             if simple_escape e then string_loop (p + 2, bs')
             else if e = 117 then
               (case hex_digits 4 (p + 2, bs') of
                  Inl err \<Rightarrow> Inl err
                | Inr s \<Rightarrow> string_loop s)
             else Inl (Unknown_escape (p + 1)))
      else if b < 32 then Inl (Control_character b p)
      else string_loop (p + 1, bs))"
  by pat_completeness auto
termination
  by (relation "measure (\<lambda>s. length (snd s))") (auto dest: hex_digits_length)

definition scan_string :: "scanner \<Rightarrow> scan_error + scanner" where
  "scan_string s = rbind (expect 34 s) string_loop"

definition scan_literal :: "string \<Rightarrow> scanner \<Rightarrow> scan_error + scanner" where
  "scan_literal w s =
     (case strip_prefix (lit w) (snd s) of
        Some r \<Rightarrow> Inr (fst s + length w, r)
      | None \<Rightarrow> Inl (Expected_word (lit w) (fst s)))"

fun digits :: "scanner \<Rightarrow> scanner" where
  "digits (p, []) = (p, [])"
| "digits (p, b # bs) = (if ascii_digit b then digits (p + 1, bs) else (p, b # bs))"

definition at_digit :: "scanner \<Rightarrow> bool" where
  "at_digit s = (case peek s of Some c \<Rightarrow> ascii_digit c | None \<Rightarrow> False)"

definition scan_fraction :: "scanner \<Rightarrow> scan_error + scanner" where
  "scan_fraction s =
     (if peek s = Some 46 then
        (if at_digit (advance s) then Inr (digits (advance s))
         else Inl (No_fraction_digits (fst (advance s))))
      else Inr s)"

definition scan_exponent :: "scanner \<Rightarrow> scan_error + scanner" where
  "scan_exponent s =
     (if peek s = Some 101 \<or> peek s = Some 69 then
        (let s1 = advance s;
             s2 = (if peek s1 = Some 43 \<or> peek s1 = Some 45 then advance s1 else s1)
         in if at_digit s2 then Inr (digits s2) else Inl (No_exponent_digits (fst s2)))
      else Inr s)"

definition scan_number :: "scanner \<Rightarrow> scan_error + scanner" where
  "scan_number s =
     (let s1 = (if peek s = Some 45 then advance s else s)
      in rbind (if peek s1 = Some 48 then Inr (advance s1)
                else if at_digit s1 then Inr (digits s1)
                else Inl (No_digits (fst s))) (\<lambda>s2.
         rbind (scan_fraction s2) scan_exponent))"

section \<open>Decoding a key\<close>

definition hex_digit_value :: "uchar \<Rightarrow> nat" where
  "hex_digit_value c = (if c \<le> 57 then c - 48 else if c \<le> 70 then c - 55 else c - 87)"

text \<open>\<open>u32::from_str_radix(hex, 16)\<close> on at most four characters, which cannot overflow.\<close>

definition parse_hex :: "str \<Rightarrow> nat option" where
  "parse_hex s =
     (let t = (case s of c # r \<Rightarrow> if c = c_plus \<and> r \<noteq> [] then r else s | [] \<Rightarrow> s)
      in if t \<noteq> [] \<and> list_all ascii_hexdigit t
         then Some (foldl (\<lambda>n c. 16 * n + hex_digit_value c) 0 t) else None)"

function unescape :: "str \<Rightarrow> str" where
  "unescape [] = []"
| "unescape (c # cs) =
     (if c \<noteq> c_backslash then c # unescape cs
      else case cs of
             [] \<Rightarrow> []
           | e # r \<Rightarrow>
               if e = 98 then 8 # unescape r
               else if e = 102 then 12 # unescape r
               else if e = 110 then 10 # unescape r
               else if e = 114 then 13 # unescape r
               else if e = 116 then 9 # unescape r
               else if e = 117 then
                 (let unit = (case parse_hex (take 4 r) of Some u \<Rightarrow> u | None \<Rightarrow> 65533)
                  in (if scalar unit then unit else 65533) # unescape (drop 4 r))
               else e # unescape r)"
  by pat_completeness auto
termination by (relation "measure length") auto

definition ascii_lower :: "uchar \<Rightarrow> uchar" where
  "ascii_lower c = (if 65 \<le> c \<and> c \<le> 90 then c + 32 else c)"

definition eq_ignore_ascii_case :: "str \<Rightarrow> str \<Rightarrow> bool" where
  "eq_ignore_ascii_case s t = (map ascii_lower s = map ascii_lower t)"

text \<open>The text between the quotes of the string scanned from \<open>s\<close> to \<open>s'\<close>.\<close>

definition string_text :: "scanner \<Rightarrow> scanner \<Rightarrow> str" where
  "string_text s s' = unescape (from_utf8_lossy (take (fst s' - 1 - (fst s + 1)) (drop 1 (snd s))))"

definition ALLOWED_CHANGES :: "str list" where
  "ALLOWED_CHANGES = [lit ''create'', lit ''modify'', lit ''delete'', lit ''read_only'']"

definition allowed_change :: "scanner \<Rightarrow> scan_error + scanner" where
  "allowed_change s0 =
     (let s = skip_ws s0
      in if peek s = Some 110 then scan_literal ''null'' s
         else if peek s = Some 34 then
           rbind (scan_string s) (\<lambda>s'.
             let value = string_text s s'
             in if value = [] \<or> value \<in> set ALLOWED_CHANGES then Inr s' else Inl (Bad_change value))
         else Inl (Change_not_string (fst s)))"

section \<open>Values\<close>

text \<open>After an element: the comma goes on with the loop, the closing bracket ends it.\<close>

definition separator :: "byte \<Rightarrow> scan_error \<Rightarrow> (scanner \<Rightarrow> scan_error + scanner) \<Rightarrow> scanner \<Rightarrow> scan_error + scanner" where
  "separator close unterminated again s0 =
     (let s = skip_ws s0
      in case peek s of
           None \<Rightarrow> Inl unterminated
         | Some c \<Rightarrow>
             if c = 44 then again (advance s)
             else if c = close then Inr (advance s)
             else Inl (Expected_comma_or close (fst s) c))"

fun array_loop :: "bool \<Rightarrow> (scanner \<Rightarrow> scan_error + scanner) \<Rightarrow> nat \<Rightarrow> scanner \<Rightarrow> scan_error + scanner" where
  "array_loop entries elem 0 s = Inl Out_of_fuel"
| "array_loop entries elem (Suc fuel) s =
     (let s1 = (if entries then skip_ws s else s)
      in if entries \<and> peek s1 \<noteq> Some 123 \<and> peek s1 \<noteq> Some 34 then Inl (Entry_shape (fst s1))
         else rbind (elem s1) (separator 93 Unterminated_array (array_loop entries elem fuel)))"

definition member_value ::
    "bool \<Rightarrow> (scanner \<Rightarrow> scan_error + scanner) \<Rightarrow> str \<Rightarrow> scanner \<Rightarrow> scan_error + scanner" where
  "member_value entry elem key s =
     (if entry \<and> eq_ignore_ascii_case key (lit ''allowed_change'') then allowed_change s else elem s)"

fun object_loop :: "bool \<Rightarrow> (scanner \<Rightarrow> scan_error + scanner) \<Rightarrow> nat \<Rightarrow> scanner \<Rightarrow> scan_error + scanner" where
  "object_loop entry elem 0 s = Inl Out_of_fuel"
| "object_loop entry elem (Suc fuel) s =
     (let s1 = skip_ws s
      in rbind (scan_string s1) (\<lambda>s2.
         rbind (expect 58 (skip_ws s2)) (\<lambda>s3.
         rbind (member_value entry elem (string_text s1 s2) s3)
           (separator 125 Unterminated_object (object_loop entry elem fuel)))))"

definition scan_array :: "bool \<Rightarrow> (scanner \<Rightarrow> scan_error + scanner) \<Rightarrow> scanner \<Rightarrow> scan_error + scanner" where
  "scan_array entries elem s =
     rbind (expect 91 s) (\<lambda>s1.
       let s2 = skip_ws s1
       in if peek s2 = Some 93 then Inr (advance s2)
          else array_loop entries elem (length (snd s2) + 1) s2)"

definition scan_object :: "bool \<Rightarrow> (scanner \<Rightarrow> scan_error + scanner) \<Rightarrow> scanner \<Rightarrow> scan_error + scanner" where
  "scan_object entry elem s =
     rbind (expect 123 s) (\<lambda>s1.
       let s2 = skip_ws s1
       in if peek s2 = Some 125 then Inr (advance s2)
          else object_loop entry elem (length (snd s2) + 1) s2)"

text \<open>The arms of the match in \<open>value\<close>.\<close>

definition scan_token ::
    "bool \<Rightarrow> nat \<Rightarrow> (scanner \<Rightarrow> scan_error + scanner) \<Rightarrow> byte \<Rightarrow> scanner \<Rightarrow> scan_error + scanner" where
  "scan_token planned depth elem c s =
     (if c = 91 then scan_array (planned \<and> depth = 0) elem s
      else if c = 123 then scan_object (planned \<and> depth = 1) elem s
      else if c = 34 then scan_string s
      else if c = 116 then scan_literal ''true'' s
      else if c = 102 then scan_literal ''false'' s
      else if c = 110 then scan_literal ''null'' s
      else if c = 45 \<or> ascii_digit c then scan_number s
      else Inl (Unexpected c (fst s)))"

text \<open>\<open>levels\<close> is \<open>MAX_DEPTH + 1 - depth\<close>.\<close>

primrec scan_value :: "bool \<Rightarrow> nat \<Rightarrow> scanner \<Rightarrow> scan_error + scanner" where
  "scan_value planned 0 s0 = Inl Too_deep"
| "scan_value planned (Suc levels) s0 =
     (let s = skip_ws s0
      in case peek s of
           None \<Rightarrow> Inl Unterminated_value
         | Some c \<Rightarrow> scan_token planned (MAX_DEPTH - levels) (scan_value planned levels) c s)"

definition check_scan :: "str \<Rightarrow> byte \<Rightarrow> bool \<Rightarrow> scan_error + unit" where
  "check_scan s open planned =
     (let s0 = skip_ws (0, utf8_encode s)
      in if peek s0 \<noteq> Some open then
           Inl (case peek s0 of None \<Rightarrow> Empty_text | Some c \<Rightarrow> Starts_with c open)
         else rbind (scan_value planned (MAX_DEPTH + 1) s0) (\<lambda>s1.
           let s2 = skip_ws s1
           in if snd s2 \<noteq> [] then Inl (Trailing (fst s2) (length (snd s2))) else Inr ()))"

definition check_array :: "str \<Rightarrow> scan_error + unit" where
  "check_array s = check_scan s 91 False"

definition check_object :: "str \<Rightarrow> scan_error + unit" where
  "check_object s = check_scan s 123 False"

definition check_planned_files :: "str \<Rightarrow> scan_error + unit" where
  "check_planned_files s = check_scan s 91 True"

definition is_array :: "str \<Rightarrow> bool" where
  "is_array s = (check_array s = Inr ())"

definition check_container :: "str \<Rightarrow> scan_error + unit" where
  "check_container s =
     (case utf8_encode (trim_start_matches json_ws s) of
        [] \<Rightarrow> Inl Empty_text
      | c # _ \<Rightarrow>
          if c = 123 then check_scan s 123 False
          else if c = 91 then check_scan s 91 False
          else Inl (Not_container c))"

section \<open>Merging two arrays\<close>

definition array_inner :: "str \<Rightarrow> str" where
  "array_inner s =
     trim_matches json_ws
       (case strip_prefix [c_lbracket] s of
          None \<Rightarrow> []
        | Some r \<Rightarrow> (case strip_suffix [c_rbracket] r of None \<Rightarrow> [] | Some t \<Rightarrow> t))"

definition merge_json_arrays :: "str \<Rightarrow> str \<Rightarrow> str" where
  "merge_json_arrays base appended =
     (let a = trim_ws base; b = trim_ws appended; ai = array_inner a; bi = array_inner b
      in if ai = [] \<and> bi = [] then lit ''[]''
         else if bi = [] then a
         else if ai = [] then b
         else lit ''['' @ ai @ lit '','' @ bi @ lit '']'')"

section \<open>The grammar\<close>

definition ws_text :: "byte list \<Rightarrow> bool" where
  "ws_text w = list_all json_ws w"

inductive jstring :: "byte list \<Rightarrow> bool" where
  js_end: "jstring []"
| js_char: "32 \<le> b \<Longrightarrow> b \<noteq> 34 \<Longrightarrow> b \<noteq> 92 \<Longrightarrow> jstring bs \<Longrightarrow> jstring (b # bs)"
| js_escape: "simple_escape e \<Longrightarrow> jstring bs \<Longrightarrow> jstring (92 # e # bs)"
| js_unicode: "length h = 4 \<Longrightarrow> list_all ascii_hexdigit h \<Longrightarrow> jstring bs \<Longrightarrow> jstring (92 # 117 # h @ bs)"

definition jdigits :: "byte list \<Rightarrow> bool" where
  "jdigits d \<longleftrightarrow> d \<noteq> [] \<and> list_all ascii_digit d"

definition jint :: "byte list \<Rightarrow> bool" where
  "jint i \<longleftrightarrow> i = [48] \<or> (jdigits i \<and> hd i \<noteq> 48)"

definition jfraction :: "byte list \<Rightarrow> bool" where
  "jfraction f \<longleftrightarrow> f = [] \<or> (\<exists>d. jdigits d \<and> f = 46 # d)"

definition jexponent :: "byte list \<Rightarrow> bool" where
  "jexponent e \<longleftrightarrow> e = [] \<or> (\<exists>x g d. jdigits d \<and> (x = 101 \<or> x = 69) \<and> g \<in> {[], [43], [45]} \<and> e = x # g @ d)"

definition jnumber :: "byte list \<Rightarrow> bool" where
  "jnumber v \<longleftrightarrow> (\<exists>g i f e. (g = [] \<or> g = [45]) \<and> jint i \<and> jfraction f \<and> jexponent e \<and> v = g @ i @ f @ e)"

text \<open>The elements of an array, separated by commas, with the list of their texts.\<close>

inductive jelems :: "(byte list \<Rightarrow> bool) \<Rightarrow> byte list list \<Rightarrow> byte list \<Rightarrow> bool" for P where
  je_one: "ws_text a \<Longrightarrow> P v \<Longrightarrow> ws_text b \<Longrightarrow> jelems P [v] (a @ v @ b)"
| je_more: "ws_text a \<Longrightarrow> P v \<Longrightarrow> ws_text b \<Longrightarrow> jelems P vs xs \<Longrightarrow> jelems P (v # vs) (a @ v @ b @ 44 # xs)"

inductive jmembers :: "(byte list \<Rightarrow> bool) \<Rightarrow> byte list \<Rightarrow> bool" for P where
  jm_one: "ws_text a \<Longrightarrow> jstring k \<Longrightarrow> ws_text b \<Longrightarrow> ws_text c \<Longrightarrow> P v \<Longrightarrow> ws_text d \<Longrightarrow>
           jmembers P (a @ 34 # k @ 34 # b @ 58 # c @ v @ d)"
| jm_more: "ws_text a \<Longrightarrow> jstring k \<Longrightarrow> ws_text b \<Longrightarrow> ws_text c \<Longrightarrow> P v \<Longrightarrow> ws_text d \<Longrightarrow> jmembers P xs \<Longrightarrow>
           jmembers P (a @ 34 # k @ 34 # b @ 58 # c @ v @ d @ 44 # xs)"

definition jwords :: "byte list set" where
  "jwords = {lit ''true'', lit ''false'', lit ''null''}"

text \<open>A value of at most \<open>n\<close> levels, without the white space around it.\<close>

primrec jvalue :: "nat \<Rightarrow> byte list \<Rightarrow> bool" where
  "jvalue 0 v = False"
| "jvalue (Suc n) v =
     ((\<exists>b. jstring b \<and> v = 34 # b @ [34]) \<or> v \<in> jwords \<or> jnumber v \<or>
      (\<exists>w. ws_text w \<and> v = 91 # w @ [93]) \<or> (\<exists>vs xs. jelems (jvalue n) vs xs \<and> v = 91 # xs @ [93]) \<or>
      (\<exists>w. ws_text w \<and> v = 123 # w @ [125]) \<or> (\<exists>xs. jmembers (jvalue n) xs \<and> v = 123 # xs @ [125]))"

section \<open>Leaves: scanned exactly when grammatical\<close>

lemma skip_ws_eq: "skip_ws (p, bs) = (p + length (takeWhile json_ws bs), dropWhile json_ws bs)"
  by (induction bs arbitrary: p) auto

lemma digits_eq: "digits (p, bs) = (p + length (takeWhile ascii_digit bs), dropWhile ascii_digit bs)"
  by (induction bs arbitrary: p) auto

lemma peek_eq: "peek s = (case snd s of [] \<Rightarrow> None | b # _ \<Rightarrow> Some b)"
  by (cases s) (auto split: list.split)

lemma advance_eq: "advance s = (fst s + 1, tl (snd s))"
  by (cases s) auto

lemma ws_text_simps [simp]:
  "ws_text []" "ws_text (a @ b) \<longleftrightarrow> ws_text a \<and> ws_text b" "ws_text (x # a) \<longleftrightarrow> json_ws x \<and> ws_text a"
  by (simp_all add: ws_text_def)

lemma ws_text_takeWhile [simp]: "ws_text (takeWhile json_ws bs)"
  by (simp add: ws_text_def list_all_iff) (meson set_takeWhileD)

lemma dropWhile_ws: "ws_text w \<Longrightarrow> dropWhile json_ws (w @ r) = dropWhile json_ws r"
  by (induction w) auto

lemma skip_wsE:
  obtains w where "ws_text w" "snd s = w @ snd (skip_ws s)" "fst (skip_ws s) = fst s + length w"
    "snd (skip_ws s) = [] \<or> \<not> json_ws (hd (snd (skip_ws s)))"
proof (rule that [of "takeWhile json_ws (snd s)"])
  show "snd (skip_ws s) = [] \<or> \<not> json_ws (hd (snd (skip_ws s)))"
    by (cases s) (metis hd_dropWhile skip_ws_eq snd_conv)
qed (cases s; simp add: skip_ws_eq)+

lemma skip_ws_ex: "\<exists>w. ws_text w \<and> snd s = w @ snd (skip_ws s)"
  using skip_wsE [of s] by metis

lemma hex_digits_sound:
  "hex_digits n s = Inr s' \<Longrightarrow> \<exists>h. length h = n \<and> list_all ascii_hexdigit h \<and> snd s = h @ snd s' \<and> fst s' = fst s + n"
proof (induction n s rule: hex_digits.induct)
  case (2 n s)
  then obtain c r where s: "snd s = c # r" "ascii_hexdigit c" "hex_digits n (advance s) = Inr s'"
    by (auto simp: peek_eq split: list.splits if_splits)
  then have "peek s = Some c" by (simp add: peek_eq)
  from "2.IH" [OF this s(2,3)] s(1)
  obtain h where "length h = n" "list_all ascii_hexdigit h" "r = h @ snd s'" "fst s' = fst s + 1 + n"
    by (auto simp: advance_eq)
  then show ?case using s by (intro exI [of _ "c # h"]) auto
qed auto

lemma hex_digits_complete: "list_all ascii_hexdigit h \<Longrightarrow> hex_digits (length h) (p, h @ r) = Inr (p + length h, r)"
  by (induction h arbitrary: p) (auto simp: advance_eq)

lemma string_loop_sound:
  "string_loop s = Inr s' \<Longrightarrow> \<exists>b. jstring b \<and> snd s = b @ 34 # snd s' \<and> fst s' = fst s + length b + 1"
proof (induction s rule: string_loop.induct)
  case (2 p b bs)
  consider (quote) "b = 34" | (esc) e r where "b = 92" "bs = e # r" "simple_escape e" "string_loop (p + 2, r) = Inr s'"
    | (uni) r s1 where "b = 92" "bs = 117 # r" "hex_digits 4 (p + 2, r) = Inr s1" "string_loop s1 = Inr s'"
    | (plain) "b \<noteq> 34" "b \<noteq> 92" "32 \<le> b" "string_loop (p + 1, bs) = Inr s'"
    using "2.prems" by (auto split: if_splits list.splits sum.splits)
  then show ?case
  proof cases
    case quote
    then show ?thesis using "2.prems" by (intro exI [of _ "[]"]) (auto intro: js_end)
  next
    case (esc e r)
    then obtain x where "jstring x" "r = x @ 34 # snd s'" "fst s' = p + 2 + length x + 1"
      using "2.IH"(1) [of e r] by auto
    then show ?thesis using esc by (intro exI [of _ "92 # e # x"]) (auto intro: js_escape)
  next
    case (uni r s1)
    have ne: "\<not> simple_escape 117" by (simp add: simple_escape_def)
    obtain h where h: "length h = 4" "list_all ascii_hexdigit h" "r = h @ snd s1" "fst s1 = p + 2 + 4"
      using hex_digits_sound [OF uni(3)] by auto
    obtain x where "jstring x" "snd s1 = x @ 34 # snd s'" "fst s' = fst s1 + length x + 1"
      using "2.IH"(2) [of 117 r s1] uni ne by auto
    then show ?thesis using uni h by (intro exI [of _ "92 # 117 # h @ x"]) (auto intro: js_unicode)
  next
    case plain
    then obtain x where "jstring x" "bs = x @ 34 # snd s'" "fst s' = p + 1 + length x + 1"
      using "2.IH"(3) by auto
    then show ?thesis using plain by (intro exI [of _ "b # x"]) (auto intro: js_char)
  qed
qed simp

lemma string_loop_complete: "jstring b \<Longrightarrow> string_loop (p, b @ 34 # r) = Inr (p + length b + 1, r)"
proof (induction b arbitrary: p rule: jstring.induct)
  case (js_unicode h bs)
  then show ?case using hex_digits_complete [of h "p + 2" "bs @ 34 # r"] by (simp add: simple_escape_def)
qed auto

lemma scan_string_sound:
  "scan_string s = Inr s' \<Longrightarrow> \<exists>b. jstring b \<and> snd s = 34 # b @ 34 # snd s' \<and> fst s' = fst s + length b + 2"
  by (auto simp: scan_string_def expect_def rbind_Inr_iff peek_eq advance_eq split: if_splits list.splits
      dest!: string_loop_sound)

lemma scan_string_complete: "jstring b \<Longrightarrow> scan_string (p, 34 # b @ 34 # r) = Inr (p + length b + 2, r)"
  by (simp add: scan_string_def expect_def string_loop_complete)

lemma scan_literal_sound: "scan_literal w s = Inr s' \<Longrightarrow> snd s = lit w @ snd s'"
  by (auto simp: scan_literal_def strip_prefix_Some_iff split: option.splits)

lemma scan_literal_complete: "scan_literal w (p, lit w @ r) = Inr (p + length w, r)"
  by (simp add: scan_literal_def del: lit_Cons)

section \<open>Numbers\<close>

lemma at_digit_iff: "at_digit s \<longleftrightarrow> snd s \<noteq> [] \<and> ascii_digit (hd (snd s))"
  by (auto simp: at_digit_def peek_eq split: list.split)

lemma digits_sound:
  "at_digit s \<Longrightarrow> \<exists>d. jdigits d \<and> snd s = d @ snd (digits s) \<and> hd d = hd (snd s)"
proof (intro exI [of _ "takeWhile ascii_digit (snd s)"] conjI)
  assume a: "at_digit s"
  then obtain c r where s: "snd s = c # r" "ascii_digit c" by (cases "snd s") (auto simp: at_digit_iff)
  have "list_all ascii_digit (takeWhile ascii_digit (snd s))" by (auto simp: list_all_iff dest: set_takeWhileD)
  then show "jdigits (takeWhile ascii_digit (snd s))" using s by (simp add: jdigits_def)
  show "hd (takeWhile ascii_digit (snd s)) = hd (snd s)" using s by simp
qed (cases s; simp add: digits_eq)

text \<open>What may follow a number without being read as a part of it.\<close>

definition ends_number :: "byte list \<Rightarrow> bool" where
  "ends_number r \<longleftrightarrow> r = [] \<or> (\<not> ascii_digit (hd r) \<and> hd r \<noteq> 46 \<and> hd r \<noteq> 101 \<and> hd r \<noteq> 69)"

definition ends_digits :: "byte list \<Rightarrow> bool" where
  "ends_digits r \<longleftrightarrow> r = [] \<or> \<not> ascii_digit (hd r)"

lemma digits_complete:
  assumes "list_all ascii_digit d" "ends_digits r"
  shows "digits (p, d @ r) = (p + length d, r)"
proof -
  have "takeWhile ascii_digit r = []" "dropWhile ascii_digit r = r"
    using assms(2) by (cases r; simp add: ends_digits_def)+
  moreover have "\<forall>x\<in>set d. ascii_digit x" using assms(1) by (simp add: list_all_iff)
  ultimately show ?thesis by (simp add: digits_eq takeWhile_append dropWhile_append)
qed

lemma scan_fraction_sound: "scan_fraction s = Inr s' \<Longrightarrow> \<exists>f. jfraction f \<and> snd s = f @ snd s'"
proof (cases "peek s = Some 46")
  case True
  then obtain r where r: "snd s = 46 # r" by (auto simp: peek_eq split: list.splits)
  assume "scan_fraction s = Inr s'"
  with True have "at_digit (advance s)" "s' = digits (advance s)" by (auto simp: scan_fraction_def split: if_splits)
  then obtain d where "jdigits d" "r = d @ snd s'" using digits_sound r by (fastforce simp: advance_eq)
  then show ?thesis using r by (intro exI [of _ "46 # d"]) (auto simp: jfraction_def)
qed (auto simp: scan_fraction_def jfraction_def)

lemma scan_exponent_sound: "scan_exponent s = Inr s' \<Longrightarrow> \<exists>e. jexponent e \<and> snd s = e @ snd s'"
proof (cases "peek s = Some 101 \<or> peek s = Some 69")
  case True
  then obtain x r where r: "snd s = x # r" "x = 101 \<or> x = 69" by (auto simp: peek_eq split: list.splits)
  define s2 where "s2 = (let s1 = advance s in if peek s1 = Some 43 \<or> peek s1 = Some 45 then advance s1 else s1)"
  assume "scan_exponent s = Inr s'"
  with True have "at_digit s2" "s' = digits s2" by (auto simp: scan_exponent_def s2_def Let_def split: if_splits)
  then obtain d where d: "jdigits d" "snd s2 = d @ snd s'" using digits_sound by blast
  have "\<exists>g. g \<in> {[], [43], [45]} \<and> r = g @ snd s2"
    using r(1) by (auto simp: s2_def Let_def peek_eq advance_eq split: list.splits)
  then obtain g where "g \<in> {[], [43], [45]}" "r = g @ d @ snd s'" using d by auto
  then show ?thesis using r d by (intro exI [of _ "x # g @ d"]) (auto simp: jexponent_def)
qed (auto simp: scan_exponent_def jexponent_def)

lemma scan_number_sound: "scan_number s = Inr s' \<Longrightarrow> \<exists>v. jnumber v \<and> snd s = v @ snd s'"
proof -
  define s1 where "s1 = (if peek s = Some 45 then advance s else s)"
  assume "scan_number s = Inr s'"
  then obtain s2 s3 where i: "(if peek s1 = Some 48 then Inr (advance s1) else if at_digit s1 then Inr (digits s1)
      else Inl (No_digits (fst s))) = Inr s2" and fe: "scan_fraction s2 = Inr s3" "scan_exponent s3 = Inr s'"
    unfolding scan_number_def Let_def s1_def [symmetric] rbind_Inr_iff by blast
  have "\<exists>g. (g = [] \<or> g = [45]) \<and> snd s = g @ snd s1"
    by (cases "peek s = Some 45") (auto simp: s1_def peek_eq advance_eq split: list.splits)
  then obtain g where g: "g = [] \<or> g = [45]" "snd s = g @ snd s1" by blast
  have "\<exists>x. jint x \<and> snd s1 = x @ snd s2"
  proof (cases "peek s1 = Some 48")
    case True
    then show ?thesis using i by (cases "snd s1") (auto simp: peek_eq advance_eq jint_def)
  next
    case False
    then have a: "at_digit s1" "s2 = digits s1" using i by (auto split: if_splits)
    then obtain d where d: "jdigits d" "snd s1 = d @ snd s2" "hd d = hd (snd s1)" using digits_sound by blast
    have "hd (snd s1) \<noteq> 48" using False a(1) by (cases "snd s1") (auto simp: peek_eq at_digit_iff)
    with d(3) have "hd d \<noteq> 48" by simp
    then show ?thesis using d by (auto simp: jint_def)
  qed
  moreover obtain f where "jfraction f" "snd s2 = f @ snd s3" using scan_fraction_sound [OF fe(1)] by blast
  moreover obtain e where "jexponent e" "snd s3 = e @ snd s'" using scan_exponent_sound [OF fe(2)] by blast
  ultimately show ?thesis using g unfolding jnumber_def by fastforce
qed

lemma jdigits_Cons: "jdigits d \<Longrightarrow> \<exists>c r. d = c # r \<and> ascii_digit c \<and> list_all ascii_digit d"
  by (cases d) (auto simp: jdigits_def)

lemma scan_fraction_complete:
  assumes "jfraction f" "ends_digits r" "r = [] \<or> hd r \<noteq> 46"
  shows "\<exists>p'. scan_fraction (p, f @ r) = Inr (p', r)"
  using assms(1) unfolding jfraction_def
proof (elim disjE exE conjE)
  fix d assume d: "jdigits d" "f = 46 # d"
  then have "at_digit (p + 1, d @ r)" using jdigits_Cons by (fastforce simp: at_digit_iff)
  then show ?thesis using d assms(2) by (simp add: scan_fraction_def digits_complete jdigits_def)
qed (use assms(3) in \<open>cases r; simp add: scan_fraction_def\<close>)

lemma scan_exponent_complete:
  assumes "jexponent e" "ends_number r"
  shows "\<exists>p'. scan_exponent (p, e @ r) = Inr (p', r)"
proof (cases "e = []")
  case True
  then show ?thesis using assms(2) by (cases r; simp add: scan_exponent_def ends_number_def)
next
  case False
  then obtain x g d where d: "jdigits d" "x = 101 \<or> x = 69" "g \<in> {[], [43], [45]}" "e = x # g @ d"
    using assms(1) unfolding jexponent_def by blast
  obtain c t where c: "d = c # t" "ascii_digit c" "list_all ascii_digit d" using jdigits_Cons [OF d(1)] by blast
  then have "c \<noteq> 43 \<and> c \<noteq> 45" by (auto simp: ascii_digit_def)
  moreover have "ends_digits r" using assms(2) by (auto simp: ends_number_def ends_digits_def)
  ultimately show ?thesis
    using d(2,3,4) c digits_complete [OF c(3)] by (auto simp: scan_exponent_def Let_def at_digit_iff)
qed

lemma scan_number_complete:
  assumes "jnumber v" "ends_number r"
  shows "\<exists>p'. scan_number (p, v @ r) = Inr (p', r)"
proof -
  obtain g i f e where v: "g = [] \<or> g = [45]" "jint i" "jfraction f" "jexponent e" "v = g @ i @ f @ e"
    using assms(1) by (auto simp: jnumber_def)
  have e: "ends_digits (e @ r)" "e @ r = [] \<or> hd (e @ r) \<noteq> 46"
    using v(4) assms(2) by (auto simp: jexponent_def ends_number_def ends_digits_def ascii_digit_def)
  have fe: "ends_digits (f @ e @ r)"
    using v(3) e(1) by (auto simp: jfraction_def ends_digits_def ascii_digit_def)
  have int: "\<exists>k. (if peek (q, i @ f @ e @ r) = Some 48 then Inr (advance (q, i @ f @ e @ r))
       else if at_digit (q, i @ f @ e @ r) then Inr (digits (q, i @ f @ e @ r)) else Inl (No_digits p))
      = Inr (k, f @ e @ r)" for q
  proof (cases "i = [48]")
    case False
    then have d: "jdigits i" "hd i \<noteq> 48" using v(2) by (auto simp: jint_def)
    obtain c t where c: "i = c # t" "ascii_digit c" "list_all ascii_digit i" using jdigits_Cons [OF d(1)] by blast
    then show ?thesis using d digits_complete [OF c(3) fe, of q] by (simp add: at_digit_iff)
  qed simp
  obtain q where q: "(if peek (p, v @ r) = Some 45 then advance (p, v @ r) else (p, v @ r)) = (q, i @ f @ e @ r)"
  proof (cases "g = []")
    case True
    have "\<exists>c t. i = c # t \<and> c \<noteq> 45" using v(2) jdigits_Cons by (fastforce simp: jint_def ascii_digit_def)
    then show ?thesis using True v(5) that by auto
  next
    case False
    then show ?thesis using v(1,5) that by auto
  qed
  obtain k where k: "(if peek (q, i @ f @ e @ r) = Some 48 then Inr (advance (q, i @ f @ e @ r))
       else if at_digit (q, i @ f @ e @ r) then Inr (digits (q, i @ f @ e @ r)) else Inl (No_digits p))
      = Inr (k, f @ e @ r)" using int by blast
  obtain k2 where "scan_fraction (k, f @ e @ r) = Inr (k2, e @ r)" using scan_fraction_complete [OF v(3) e] by blast
  moreover obtain k3 where "scan_exponent (k2, e @ r) = Inr (k3, r)" using scan_exponent_complete [OF v(4) assms(2)] by blast
  ultimately have "scan_number (p, v @ r) = Inr (k3, r)"
    unfolding scan_number_def Let_def q fst_conv k rbind_simps by simp
  then show ?thesis by blast
qed

section \<open>Values: scanned exactly when grammatical\<close>

lemma jelems_ws: "jelems P vs xs \<Longrightarrow> ws_text w \<Longrightarrow> jelems P vs (w @ xs)"
proof (induction rule: jelems.induct)
  case (je_one a v b)
  then show ?case using jelems.je_one [of "w @ a" P v b] by simp
next
  case (je_more a v b vs xs)
  then show ?case using jelems.je_more [of "w @ a" P v b vs xs] by simp
qed

lemma jmembers_ws: "jmembers P xs \<Longrightarrow> ws_text w \<Longrightarrow> jmembers P (w @ xs)"
proof (induction rule: jmembers.induct)
  case (jm_one a k b c v d)
  then show ?case using jmembers.jm_one [of "w @ a" k b c P v d] by simp
next
  case (jm_more a k b c v d xs)
  then show ?case using jmembers.jm_more [of "w @ a" k b c P v d xs] by simp
qed

lemma separator_sound:
  assumes "separator close e again s = Inr s'"
  shows "\<exists>b. ws_text b \<and> (snd s = b @ close # snd s' \<or> (\<exists>s1. snd s = b @ 44 # snd s1 \<and> again s1 = Inr s'))"
proof -
  obtain b where b: "ws_text b" "snd s = b @ snd (skip_ws s)" using skip_ws_ex by blast
  obtain c r where c: "snd (skip_ws s) = c # r" "peek (skip_ws s) = Some c"
    using assms by (auto simp: separator_def Let_def peek_eq split: list.splits)
  then have "snd (advance (skip_ws s)) = r" by (simp add: advance_eq)
  moreover have "c = 44 \<and> again (advance (skip_ws s)) = Inr s' \<or> c = close \<and> s' = advance (skip_ws s)"
    using assms c(2) by (auto simp: separator_def Let_def split: if_splits)
  ultimately show ?thesis using b c(1) by metis
qed

lemma array_loop_sound:
  assumes elem: "\<And>s s'. elem s = Inr s' \<Longrightarrow> \<exists>w v. ws_text w \<and> P v \<and> snd s = w @ v @ snd s'"
  shows "array_loop entries elem fuel s = Inr s' \<Longrightarrow> \<exists>vs xs. jelems P vs xs \<and> snd s = xs @ 93 # snd s'"
proof (induction fuel arbitrary: s)
  case (Suc fuel)
  define s1 where "s1 = (if entries then skip_ws s else s)"
  obtain w0 where w0: "ws_text w0" "snd s = w0 @ snd s1"
    using skip_ws_ex [of s] by (cases entries) (auto simp: s1_def)
  obtain s2 where s2: "elem s1 = Inr s2"
    and k: "separator 93 Unterminated_array (array_loop entries elem fuel) s2 = Inr s'"
    using Suc.prems unfolding array_loop.simps Let_def s1_def [symmetric] by (auto simp: rbind_Inr_iff split: if_splits)
  obtain w v where v: "ws_text w" "P v" "snd s1 = w @ v @ snd s2" using elem [OF s2] by blast
  obtain b where b: "ws_text b"
    "snd s2 = b @ 93 # snd s' \<or> (\<exists>s3. snd s2 = b @ 44 # snd s3 \<and> array_loop entries elem fuel s3 = Inr s')"
    using separator_sound [OF k] by blast
  from b(2) show ?case
  proof (elim disjE exE conjE)
    assume "snd s2 = b @ 93 # snd s'"
    then have "snd s = ((w0 @ w) @ v @ b) @ 93 # snd s'" using w0 v by simp
    then show ?thesis using je_one [of "w0 @ w" P v b] w0(1) v(1,2) b(1) by (metis ws_text_simps(2))
  next
    fix s3 assume "snd s2 = b @ 44 # snd s3" "array_loop entries elem fuel s3 = Inr s'"
    moreover from this(2) obtain vs xs where "jelems P vs xs" "snd s3 = xs @ 93 # snd s'" using Suc.IH by blast
    ultimately have "snd s = ((w0 @ w) @ v @ b @ 44 # xs) @ 93 # snd s'" "jelems P vs xs" using w0 v by simp_all
    then show ?thesis using je_more [of "w0 @ w" P v b vs xs] w0(1) v(1,2) b(1) by (metis ws_text_simps(2))
  qed
qed simp

lemma allowed_change_sound:
  assumes "allowed_change s = Inr s'" "\<And>b. jstring b \<Longrightarrow> P (34 # b @ [34])" "P (lit ''null'')"
  shows "\<exists>w v. ws_text w \<and> P v \<and> snd s = w @ v @ snd s'"
proof -
  obtain w where w: "ws_text w" "snd s = w @ snd (skip_ws s)" using skip_ws_ex by blast
  have "scan_literal ''null'' (skip_ws s) = Inr s' \<or> scan_string (skip_ws s) = Inr s'"
    using assms(1) by (auto simp: allowed_change_def Let_def rbind_Inr_iff split: if_splits)
  then have "\<exists>v. P v \<and> snd (skip_ws s) = v @ snd s'"
  proof
    assume "scan_literal ''null'' (skip_ws s) = Inr s'"
    then show ?thesis using assms(3) scan_literal_sound by blast
  next
    assume "scan_string (skip_ws s) = Inr s'"
    then obtain b where "jstring b" "snd (skip_ws s) = 34 # b @ 34 # snd s'" using scan_string_sound by blast
    then show ?thesis using assms(2) [of b] by (intro exI [of _ "34 # b @ [34]"]) simp
  qed
  then show ?thesis using w by metis
qed

lemma object_loop_sound:
  assumes elem: "\<And>s s'. elem s = Inr s' \<Longrightarrow> \<exists>w v. ws_text w \<and> P v \<and> snd s = w @ v @ snd s'"
    and entry: "entry \<Longrightarrow> (\<forall>b. jstring b \<longrightarrow> P (34 # b @ [34])) \<and> P (lit ''null'')"
  shows "object_loop entry elem fuel s = Inr s' \<Longrightarrow> \<exists>xs. jmembers P xs \<and> snd s = xs @ 125 # snd s'"
proof (induction fuel arbitrary: s)
  case (Suc fuel)
  obtain s2 s4 s5 where s2: "scan_string (skip_ws s) = Inr s2" and s4: "expect 58 (skip_ws s2) = Inr s4"
    and s5: "member_value entry elem (string_text (skip_ws s) s2) s4 = Inr s5"
    and k: "separator 125 Unterminated_object (object_loop entry elem fuel) s5 = Inr s'"
    using Suc.prems unfolding object_loop.simps Let_def rbind_Inr_iff by blast
  obtain a where a: "ws_text a" "snd s = a @ snd (skip_ws s)" using skip_ws_ex by blast
  obtain key where key: "jstring key" "snd (skip_ws s) = 34 # key @ 34 # snd s2" using scan_string_sound [OF s2] by blast
  obtain b where b: "ws_text b" "snd s2 = b @ snd (skip_ws s2)" using skip_ws_ex by blast
  have colon: "snd (skip_ws s2) = 58 # snd s4"
    using s4 by (auto simp: expect_def peek_eq advance_eq split: if_splits list.splits)
  have "\<exists>w v. ws_text w \<and> P v \<and> snd s4 = w @ v @ snd s5"
    using s5 elem [of s4 s5] allowed_change_sound [of s4 s5 P] entry unfolding member_value_def by (metis (no_types, lifting))
  then obtain w v where v: "ws_text w" "P v" "snd s4 = w @ v @ snd s5" by blast
  obtain d where d: "ws_text d"
    "snd s5 = d @ 125 # snd s' \<or> (\<exists>s6. snd s5 = d @ 44 # snd s6 \<and> object_loop entry elem fuel s6 = Inr s')"
    using separator_sound [OF k] by blast
  from d(2) show ?case
  proof (elim disjE exE conjE)
    assume "snd s5 = d @ 125 # snd s'"
    then have "snd s = (a @ 34 # key @ 34 # b @ 58 # w @ v @ d) @ 125 # snd s'" using a key b colon v by simp
    then show ?thesis using jm_one [of a key b w P v d] a key b v d(1) by blast
  next
    fix s6 assume "snd s5 = d @ 44 # snd s6" "object_loop entry elem fuel s6 = Inr s'"
    moreover from this(2) obtain xs where "jmembers P xs" "snd s6 = xs @ 125 # snd s'" using Suc.IH by blast
    ultimately have "snd s = (a @ 34 # key @ 34 # b @ 58 # w @ v @ d @ 44 # xs) @ 125 # snd s'" "jmembers P xs"
      using a key b colon v by simp_all
    then show ?thesis using jm_more [of a key b w P v d xs] a key b v d(1) by blast
  qed
qed simp

lemma expect_sound: "expect b s = Inr s' \<Longrightarrow> snd s = b # snd s'"
  by (auto simp: expect_def peek_eq advance_eq split: if_splits list.splits)

lemma peek_Some: "peek s = Some c \<Longrightarrow> snd s = c # snd (advance s)"
  by (auto simp: peek_eq advance_eq split: list.splits)

lemma scan_array_sound:
  assumes elem: "\<And>s s'. elem s = Inr s' \<Longrightarrow> \<exists>w v. ws_text w \<and> P v \<and> snd s = w @ v @ snd s'"
    and "scan_array entries elem s = Inr s'"
  shows "\<exists>x. (ws_text x \<or> (\<exists>vs. jelems P vs x)) \<and> snd s = (91 # x @ [93]) @ snd s'"
proof -
  obtain s1 where s1: "expect 91 s = Inr s1"
    and k: "(if peek (skip_ws s1) = Some 93 then Inr (advance (skip_ws s1))
             else array_loop entries elem (length (snd (skip_ws s1)) + 1) (skip_ws s1)) = Inr s'"
    using assms(2) unfolding scan_array_def Let_def rbind_Inr_iff by blast
  obtain a where a: "ws_text a" "snd s1 = a @ snd (skip_ws s1)" using skip_ws_ex by blast
  show ?thesis
  proof (cases "peek (skip_ws s1) = Some 93")
    case True
    then have "snd s = (91 # a @ [93]) @ snd s'" using expect_sound [OF s1] peek_Some [OF True] k a by simp
    then show ?thesis using a(1) by blast
  next
    case False
    then have "array_loop entries elem (length (snd (skip_ws s1)) + 1) (skip_ws s1) = Inr s'" using k by simp
    from array_loop_sound [OF elem this] obtain vs xs
      where x: "jelems P vs xs" "snd (skip_ws s1) = xs @ 93 # snd s'" by blast
    then have "snd s = (91 # (a @ xs) @ [93]) @ snd s'" using expect_sound [OF s1] a by simp
    then show ?thesis using jelems_ws [OF x(1) a(1)] by blast
  qed
qed

lemma scan_object_sound:
  assumes elem: "\<And>s s'. elem s = Inr s' \<Longrightarrow> \<exists>w v. ws_text w \<and> P v \<and> snd s = w @ v @ snd s'"
    and entry: "entry \<Longrightarrow> (\<forall>b. jstring b \<longrightarrow> P (34 # b @ [34])) \<and> P (lit ''null'')"
    and "scan_object entry elem s = Inr s'"
  shows "\<exists>x. (ws_text x \<or> jmembers P x) \<and> snd s = (123 # x @ [125]) @ snd s'"
proof -
  obtain s1 where s1: "expect 123 s = Inr s1"
    and k: "(if peek (skip_ws s1) = Some 125 then Inr (advance (skip_ws s1))
             else object_loop entry elem (length (snd (skip_ws s1)) + 1) (skip_ws s1)) = Inr s'"
    using assms(3) unfolding scan_object_def Let_def rbind_Inr_iff by blast
  obtain a where a: "ws_text a" "snd s1 = a @ snd (skip_ws s1)" using skip_ws_ex by blast
  show ?thesis
  proof (cases "peek (skip_ws s1) = Some 125")
    case True
    then have "snd s = (123 # a @ [125]) @ snd s'" using expect_sound [OF s1] peek_Some [OF True] k a by simp
    then show ?thesis using a(1) by blast
  next
    case False
    then have "object_loop entry elem (length (snd (skip_ws s1)) + 1) (skip_ws s1) = Inr s'" using k by simp
    from object_loop_sound [OF elem entry this] obtain xs
      where x: "jmembers P xs" "snd (skip_ws s1) = xs @ 125 # snd s'" by blast
    then have "snd s = (123 # (a @ xs) @ [125]) @ snd s'" using expect_sound [OF s1] a by simp
    then show ?thesis using jmembers_ws [OF x(1) a(1)] by blast
  qed
qed

lemma scan_token_cases:
  assumes "scan_token planned depth elem c s = Inr s'"
  obtains (arr) "scan_array (planned \<and> depth = 0) elem s = Inr s'"
  | (obj) "scan_object (planned \<and> depth = 1) elem s = Inr s'"
  | (str) "scan_string s = Inr s'"
  | (word) x where "scan_literal x s = Inr s'" "lit x \<in> jwords"
  | (num) "scan_number s = Inr s'"
proof -
  have "lit ''true'' \<in> jwords" "lit ''false'' \<in> jwords" "lit ''null'' \<in> jwords" 
    by (simp_all add: jwords_def del: lit_Cons)
  moreover have "scan_array (planned \<and> depth = 0) elem s = Inr s' \<or> scan_object (planned \<and> depth = 1) elem s = Inr s'
      \<or> scan_string s = Inr s' \<or> scan_literal ''true'' s = Inr s' \<or> scan_literal ''false'' s = Inr s'
      \<or> scan_literal ''null'' s = Inr s' \<or> scan_number s = Inr s'"
    using assms unfolding scan_token_def by (meson sum.distinct(1))
  ultimately show ?thesis using that by blast
qed

lemma scan_value_sound:
  "scan_value planned n s = Inr s' \<Longrightarrow> \<exists>w v. ws_text w \<and> jvalue n v \<and> snd s = w @ v @ snd s'"
proof (induction n arbitrary: s s')
  case (Suc n)
  define s1 where "s1 = skip_ws s"
  obtain w where w: "ws_text w" "snd s = w @ snd s1" unfolding s1_def using skip_ws_ex by blast
  obtain c where "scan_token planned (MAX_DEPTH - n) (scan_value planned n) c s1 = Inr s'"
    using Suc.prems by (auto simp: s1_def Let_def split: option.splits)
  then have "\<exists>v. jvalue (Suc n) v \<and> snd s1 = v @ snd s'"
  proof (cases rule: scan_token_cases)
    case arr
    from scan_array_sound [OF Suc.IH this] show ?thesis by auto
  next
    case obj
    have "(\<forall>b. jstring b \<longrightarrow> jvalue n (34 # b @ [34])) \<and> jvalue n (lit ''null'')" if "planned \<and> MAX_DEPTH - n = 1"
      using that by (cases n) (auto simp: MAX_DEPTH_def jwords_def)
    from scan_object_sound [OF Suc.IH this obj] show ?thesis by auto
  next
    case str
    then obtain b where "jstring b" "snd s1 = 34 # b @ 34 # snd s'" using scan_string_sound by blast
    then show ?thesis by (intro exI [of _ "34 # b @ [34]"]) auto
  next
    case (word x)
    then show ?thesis using scan_literal_sound [OF word(1)] by (intro exI [of _ "lit x"]) (simp del: lit_Cons)
  next
    case num
    then obtain v where "jnumber v" "snd s1 = v @ snd s'" using scan_number_sound by blast
    then show ?thesis by (intro exI [of _ v]) simp
  qed
  then show ?case using w by metis
qed simp

lemma skip_ws_append: "ws_text w \<Longrightarrow> \<exists>q. skip_ws (p, w @ r) = (q, dropWhile json_ws r)"
  by (simp add: skip_ws_eq dropWhile_ws)

lemma skip_ws_stops: "ws_text w \<Longrightarrow> \<not> json_ws c \<Longrightarrow> \<exists>q. skip_ws (p, w @ c # r) = (q, c # r)"
  using skip_ws_append [of w p "c # r"] by simp

lemma not_json_ws [simp]: "\<not> json_ws 44" "\<not> json_ws 93" "\<not> json_ws 125" "\<not> json_ws 34" "\<not> json_ws 58" "\<not> json_ws 91" "\<not> json_ws 123"
  by (simp_all add: json_ws_def)

lemma ends_number_ws: "ws_text b \<Longrightarrow> c \<in> {44, 93, 125} \<Longrightarrow> ends_number (b @ c # r)"
  by (cases b) (auto simp: ends_number_def json_ws_def ascii_digit_def)

lemma separator_close:
  assumes "ws_text b" "close = 93 \<or> close = 125"
  shows "\<exists>q. separator close e again (p, b @ close # r) = Inr (q, r)"
proof -
  have "\<not> json_ws close" "close \<noteq> 44" using assms(2) by auto
  then show ?thesis using skip_ws_stops [OF assms(1), of close p r] by (auto simp: separator_def)
qed

lemma separator_comma: "ws_text b \<Longrightarrow> \<exists>q. separator close e again (p, b @ 44 # r) = again (q, r)"
  using skip_ws_stops [of b 44 p r] by (auto simp: separator_def)

text \<open>A reader of one value accepts every \<open>P\<close>, and a value starts with a byte no closing or blank byte equals.\<close>

definition reads_all :: "(byte list \<Rightarrow> bool) \<Rightarrow> (scanner \<Rightarrow> scan_error + scanner) \<Rightarrow> bool" where
  "reads_all P elem \<longleftrightarrow>
     (\<forall>p w v r. ws_text w \<longrightarrow> P v \<longrightarrow> ends_number r \<longrightarrow> (\<exists>q. elem (p, w @ v @ r) = Inr (q, r)))"

definition value_head :: "byte \<Rightarrow> bool" where
  "value_head c \<longleftrightarrow> \<not> json_ws c \<and> c \<noteq> 93 \<and> c \<noteq> 125"

definition heads_ok :: "(byte list \<Rightarrow> bool) \<Rightarrow> bool" where
  "heads_ok P \<longleftrightarrow> (\<forall>v. P v \<longrightarrow> (\<exists>c t. v = c # t \<and> value_head c))"

lemma reads_allD:
  "reads_all P elem \<Longrightarrow> ws_text w \<Longrightarrow> P v \<Longrightarrow> ends_number r \<Longrightarrow> \<exists>q. elem (p, w @ v @ r) = Inr (q, r)"
  by (simp add: reads_all_def)

lemma array_loop_complete:
  assumes elem: "reads_all P elem"
  shows "jelems P vs xs \<Longrightarrow> length xs < fuel \<Longrightarrow> \<exists>q. array_loop False elem fuel (p, xs @ 93 # r) = Inr (q, r)"
proof (induction arbitrary: p fuel rule: jelems.induct)
  case (je_one a v b)
  then obtain f where f: "fuel = Suc f" by (cases fuel) auto
  obtain q where "elem (p, a @ v @ b @ 93 # r) = Inr (q, b @ 93 # r)"
    using reads_allD [OF elem je_one(1,2) ends_number_ws [OF je_one(3)]] by blast
  then show ?case using separator_close [OF je_one(3), of 93] f by simp
next
  case (je_more a v b vs xs)
  then obtain f where f: "fuel = Suc f" "length xs < f" by (cases fuel) auto
  obtain q where q: "elem (p, a @ v @ b @ 44 # xs @ 93 # r) = Inr (q, b @ 44 # xs @ 93 # r)"
    using reads_allD [OF elem je_more(1,2) ends_number_ws [OF je_more(3)]] by blast
  obtain k where "separator 93 Unterminated_array (array_loop False elem f) (q, b @ 44 # xs @ 93 # r)
      = array_loop False elem f (k, xs @ 93 # r)" using separator_comma [OF je_more(3)] by blast
  then show ?case using q f(1) je_more.IH [OF f(2)] by simp
qed

lemma object_loop_complete:
  assumes elem: "reads_all P elem"
  shows "jmembers P xs \<Longrightarrow> length xs < fuel \<Longrightarrow> \<exists>q. object_loop False elem fuel (p, xs @ 125 # r) = Inr (q, r)"
proof (induction arbitrary: p fuel rule: jmembers.induct)
  case (jm_one a k b c v d)
  then obtain f where f: "fuel = Suc f" by (cases fuel) auto
  obtain p1 where p1: "skip_ws (p, a @ 34 # k @ 34 # b @ 58 # c @ v @ d @ 125 # r) = (p1, 34 # k @ 34 # b @ 58 # c @ v @ d @ 125 # r)"
    using skip_ws_stops [OF jm_one(1), of 34] by auto
  obtain p2 where p2: "skip_ws (p1 + length k + 2, b @ 58 # c @ v @ d @ 125 # r) = (p2, 58 # c @ v @ d @ 125 # r)"
    using skip_ws_stops [OF jm_one(3), of 58] by auto
  obtain q where "elem (p2 + 1, c @ v @ d @ 125 # r) = Inr (q, d @ 125 # r)"
    using reads_allD [OF elem jm_one(4,5) ends_number_ws [OF jm_one(6)]] by blast
  then show ?case using separator_close [OF jm_one(6), of 125] p1 p2 f
    by (simp add: scan_string_complete [OF jm_one(2)] expect_def member_value_def)
next
  case (jm_more a k b c v d xs)
  then obtain f where f: "fuel = Suc f" "length xs < f" by (cases fuel) auto
  let ?t = "d @ 44 # xs @ 125 # r"
  obtain p1 where p1: "skip_ws (p, a @ 34 # k @ 34 # b @ 58 # c @ v @ ?t) = (p1, 34 # k @ 34 # b @ 58 # c @ v @ ?t)"
    using skip_ws_stops [OF jm_more(1), of 34] by auto
  obtain p2 where p2: "skip_ws (p1 + length k + 2, b @ 58 # c @ v @ ?t) = (p2, 58 # c @ v @ ?t)"
    using skip_ws_stops [OF jm_more(3), of 58] by auto
  obtain q where q: "elem (p2 + 1, c @ v @ ?t) = Inr (q, ?t)"
    using reads_allD [OF elem jm_more(4,5) ends_number_ws [OF jm_more(6)]] by blast
  obtain m where "separator 125 Unterminated_object (object_loop False elem f) (q, ?t)
      = object_loop False elem f (m, xs @ 125 # r)" using separator_comma [OF jm_more(6)] by blast
  then show ?case using q p1 p2 f(1) jm_more.IH [OF f(2)]
    by (simp add: scan_string_complete [OF jm_more(2)] expect_def member_value_def)
qed

lemma jelems_skip:
  assumes "heads_ok P" "jelems P vs xs"
  shows "\<exists>y c t. jelems P vs y \<and> y = c # t \<and> value_head c \<and> (\<exists>w. ws_text w \<and> xs = w @ y)"
  using assms(2)
proof cases
  case (je_one a v b)
  then obtain c t where "v = c # t" "value_head c" using assms(1) by (auto simp: heads_ok_def)
  then show ?thesis using je_one jelems.je_one [of "[]" P v b] by (intro exI [of _ "v @ b"]) auto
next
  case (je_more a v b vs' xs')
  then obtain c t where "v = c # t" "value_head c" using assms(1) by (auto simp: heads_ok_def)
  then show ?thesis using je_more jelems.je_more [of "[]" P v b vs' xs'] by (intro exI [of _ "v @ b @ 44 # xs'"]) auto
qed

lemma jmembers_skip:
  assumes "jmembers P xs"
  shows "\<exists>y t. jmembers P y \<and> y = 34 # t \<and> (\<exists>w. ws_text w \<and> xs = w @ y)"
  using assms
proof cases
  case (jm_one a k b c v d)
  then show ?thesis using jmembers.jm_one [of "[]" k b c P v d] by (metis append_Nil ws_text_simps(1))
next
  case (jm_more a k b c v d xs')
  then show ?thesis using jmembers.jm_more [of "[]" k b c P v d xs'] by (metis append_Nil ws_text_simps(1))
qed

lemma scan_array_complete:
  assumes "reads_all P elem" "heads_ok P" "ws_text x \<or> (\<exists>vs. jelems P vs x)"
  shows "\<exists>q. scan_array False elem (p, 91 # x @ 93 # r) = Inr (q, r)"
  using assms(3)
proof (elim disjE exE)
  assume "ws_text x"
  then show ?thesis using skip_ws_stops [of x 93 "p + 1" r] by (auto simp: scan_array_def expect_def)
next
  fix vs assume "jelems P vs x"
  then obtain y c t w where y: "jelems P vs y" "y = c # t" "value_head c" "ws_text w" "x = w @ y"
    using jelems_skip [OF assms(2)] by blast
  obtain k where k: "skip_ws (p + 1, w @ y @ 93 # r) = (k, y @ 93 # r)"
    using skip_ws_stops [OF y(4), of c] y(2,3) by (auto simp: value_head_def)
  have "c \<noteq> 93" using y(3) by (simp add: value_head_def)
  then show ?thesis using array_loop_complete [OF assms(1) y(1), of "length (y @ 93 # r) + 1" k r] k y(2,5)
    by (simp add: scan_array_def expect_def)
qed

lemma scan_object_complete:
  assumes "reads_all P elem" "ws_text x \<or> jmembers P x"
  shows "\<exists>q. scan_object False elem (p, 123 # x @ 125 # r) = Inr (q, r)"
  using assms(2)
proof
  assume "ws_text x"
  then show ?thesis using skip_ws_stops [of x 125 "p + 1" r] by (auto simp: scan_object_def expect_def)
next
  assume "jmembers P x"
  then obtain y t w where y: "jmembers P y" "y = 34 # t" "ws_text w" "x = w @ y" using jmembers_skip by blast
  obtain k where k: "skip_ws (p + 1, w @ y @ 125 # r) = (k, y @ 125 # r)"
    using skip_ws_stops [OF y(3), of 34] y(2) by auto
  show ?thesis using object_loop_complete [OF assms(1) y(1), of "length (y @ 125 # r) + 1" k r] k y(2,4)
    by (simp add: scan_object_def expect_def)
qed

lemma jnumber_head: "jnumber v \<Longrightarrow> \<exists>c t. v = c # t \<and> (c = 45 \<or> ascii_digit c)"
  unfolding jnumber_def jint_def by (auto dest!: jdigits_Cons simp: ascii_digit_def)

lemma jword_cases:
  assumes "v \<in> jwords"
  obtains "v = lit ''true''" | "v = lit ''false''" | "v = lit ''null''"
  using assms unfolding jwords_def by blast

text \<open>The six kinds of value, with the byte the scanner chooses by.\<close>

lemma jvalue_cases:
  assumes "jvalue (Suc n) v"
  obtains (str) b where "jstring b" "v = 34 # b @ [34]"
  | (true) "v = lit ''true''" | (false) "v = lit ''false''" | (null) "v = lit ''null''"
  | (num) c t where "jnumber v" "v = c # t" "c = 45 \<or> ascii_digit c"
  | (arr) x where "ws_text x \<or> (\<exists>vs. jelems (jvalue n) vs x)" "v = 91 # x @ [93]"
  | (obj) x where "ws_text x \<or> jmembers (jvalue n) x" "v = 123 # x @ [125]"
  using assms unfolding jvalue.simps using jnumber_head [of v] jword_cases [of v] by metis

lemma jvalue_heads: "heads_ok (jvalue n)"
proof (cases n)
  case (Suc m)
  have "\<exists>c t. v = c # t \<and> value_head c" if "jvalue (Suc m) v" for v
    using that by (cases rule: jvalue_cases) (auto simp: value_head_def json_ws_def ascii_digit_def)
  then show ?thesis using Suc by (simp add: heads_ok_def)
qed (simp add: heads_ok_def)

lemma scan_value_complete: "reads_all (jvalue n) (scan_value False n)"
proof (induction n)
  case (Suc n)
  have "\<exists>q. scan_value False (Suc n) (p, w @ v @ r) = Inr (q, r)"
    if a: "ws_text w" "jvalue (Suc n) v" "ends_number r" for p w v r
  proof -
    obtain c t where c: "v = c # t" "\<not> json_ws c"
      using jvalue_heads [of "Suc n"] a(2) by (auto simp: heads_ok_def value_head_def)
    obtain k where k: "skip_ws (p, w @ v @ r) = (k, v @ r)" using skip_ws_stops [OF a(1) c(2)] c(1) by auto
    have step: "scan_value False (Suc n) (p, w @ v @ r)
        = scan_token False (MAX_DEPTH - n) (scan_value False n) c (k, v @ r)" using k c(1) by simp
    from a(2) have "\<exists>q. scan_token False (MAX_DEPTH - n) (scan_value False n) c (k, v @ r) = Inr (q, r)"
    proof (cases rule: jvalue_cases)
      case (str b)
      then show ?thesis using scan_string_complete [OF str(1), of k r] c(1) by (simp add: scan_token_def)
    next
      case true
      then have "c = 116" using c(1) by simp
      then show ?thesis using scan_literal_complete [of "''true''" k r] true by (simp add: scan_token_def del: lit_Cons)
    next
      case false
      then have "c = 102" using c(1) by simp
      then show ?thesis using scan_literal_complete [of "''false''" k r] false by (simp add: scan_token_def del: lit_Cons)
    next
      case null
      then have "c = 110" using c(1) by simp
      then show ?thesis using scan_literal_complete [of "''null''" k r] null by (simp add: scan_token_def del: lit_Cons)
    next
      case (num c' t')
      then have "c = 45 \<or> ascii_digit c" using c(1) by simp
      moreover from this have "c \<notin> {91, 123, 34, 116, 102, 110}" by (auto simp: ascii_digit_def)
      ultimately have "scan_token False (MAX_DEPTH - n) (scan_value False n) c (k, v @ r) = scan_number (k, v @ r)"
        by (simp add: scan_token_def)
      then show ?thesis using scan_number_complete [OF num(1) a(3)] by simp
    next
      case (arr x)
      then have "c = 91" "v @ r = 91 # x @ 93 # r" using c(1) by simp_all
      then show ?thesis using scan_array_complete [OF Suc.IH jvalue_heads arr(1), of k r] by (simp add: scan_token_def)
    next
      case (obj x)
      then have "c = 123" "v @ r = 123 # x @ 125 # r" using c(1) by simp_all
      then show ?thesis using scan_object_complete [OF Suc.IH obj(1), of k r] by (simp add: scan_token_def)
    qed
    then show ?thesis using step by simp
  qed
  then show ?case by (simp add: reads_all_def)
qed (simp add: reads_all_def)

section \<open>The checks\<close>

text \<open>A text that is one value, with white space around it.\<close>

definition json_text :: "byte \<Rightarrow> str \<Rightarrow> bool" where
  "json_text open s \<longleftrightarrow>
     (\<exists>w v w'. ws_text w \<and> ws_text w' \<and> jvalue (MAX_DEPTH + 1) v \<and> hd v = open \<and> utf8_encode s = w @ v @ w')"

lemma peek_skip_ws: "ws_text w \<Longrightarrow> v = c # t \<Longrightarrow> \<not> json_ws c \<Longrightarrow> \<exists>q. skip_ws (p, w @ v @ r) = (q, v @ r)"
  using skip_ws_stops [of w c p "t @ r"] by simp

lemma check_scan_sound:
  assumes "check_scan s open planned = Inr ()"
  shows "json_text open s"
proof -
  define s0 where "s0 = skip_ws (0, utf8_encode s)"
  obtain s1 where s1: "peek s0 = Some open" "scan_value planned (MAX_DEPTH + 1) s0 = Inr s1" "snd (skip_ws s1) = []"
    using assms unfolding check_scan_def Let_def s0_def [symmetric]
    by (auto simp: rbind_Inr_iff split: if_splits simp del: scan_value.simps)
  obtain w where w: "ws_text w" "utf8_encode s = w @ snd s0" using skip_ws_ex [of "(0, utf8_encode s)"] by (auto simp: s0_def)
  obtain w2 v where v: "ws_text w2" "jvalue (MAX_DEPTH + 1) v" "snd s0 = w2 @ v @ snd s1"
    using scan_value_sound [OF s1(2)] by blast
  obtain w' where w': "ws_text w'" "snd s1 = w'" using skip_ws_ex [of s1] s1(3) by auto
  obtain c t where c: "v = c # t" "\<not> json_ws c"
    using jvalue_heads [of "MAX_DEPTH + 1"] v(2) by (auto simp: heads_ok_def value_head_def)
  have ns: "snd s0 = [] \<or> \<not> json_ws (hd (snd s0))" unfolding s0_def by (rule skip_wsE) 
  have "w2 = []" using ns v(1,3) c(1) by (cases w2) auto
  then have "hd v = open" using s1(1) v(3) c(1) by (simp add: peek_eq)
  then show ?thesis using w v w' \<open>w2 = []\<close> unfolding json_text_def by (metis append_Nil)
qed

lemma check_scan_complete:
  assumes "json_text open s"
  shows "check_scan s open False = Inr ()"
proof -
  obtain w v w' where v: "ws_text w" "ws_text w'" "jvalue (MAX_DEPTH + 1) v" "hd v = open" "utf8_encode s = w @ v @ w'"
    using assms unfolding json_text_def by blast
  obtain c t where c: "v = c # t" "\<not> json_ws c"
    using jvalue_heads [of "MAX_DEPTH + 1"] v(3) by (auto simp: heads_ok_def value_head_def)
  obtain q where q: "skip_ws (0, w @ v @ w') = (q, v @ w')" using peek_skip_ws [OF v(1) c] by blast
  have "ends_number w'" using v(2) by (cases w') (auto simp: ends_number_def json_ws_def ascii_digit_def)
  then obtain k where k: "scan_value False (MAX_DEPTH + 1) (q, v @ w') = Inr (k, w')"
    using reads_allD [OF scan_value_complete, of "[]" "MAX_DEPTH + 1" v w' q] v(3) by auto
  have "snd (skip_ws (k, w')) = []" using skip_ws_append [OF v(2), of k "[]"] by auto
  then show ?thesis unfolding check_scan_def Let_def v(5) q using k v(4) c(1) by (simp del: scan_value.simps)
qed

lemma check_scan_iff: "check_scan s open False = Inr () \<longleftrightarrow> json_text open s"
  using check_scan_sound check_scan_complete by blast

section \<open>The fuel is never the answer\<close>

definition progresses :: "(scanner \<Rightarrow> scan_error + scanner) \<Rightarrow> bool" where
  "progresses elem \<longleftrightarrow>
     (\<forall>s. elem s \<noteq> Inl Out_of_fuel \<and> (\<forall>s'. elem s = Inr s' \<longrightarrow> length (snd s') < length (snd s)))"

lemma progressesD:
  assumes "progresses elem"
  shows "elem s \<noteq> Inl Out_of_fuel" "elem s = Inr s' \<Longrightarrow> length (snd s') < length (snd s)"
  using assms unfolding progresses_def by blast+

lemma skip_ws_shrinks: "length (snd (skip_ws s)) \<le> length (snd s)"
  by (metis skip_ws_ex length_append le_add2)

lemma hex_digits_fuel: "hex_digits n s \<noteq> Inl Out_of_fuel"
  by (induction n s rule: hex_digits.induct) (auto split: option.splits)

lemma string_loop_fuel: "string_loop s \<noteq> Inl Out_of_fuel"
  by (induction s rule: string_loop.induct) (auto split: list.splits sum.splits simp: hex_digits_fuel)

lemma scan_string_fuel: "scan_string s \<noteq> Inl Out_of_fuel"
  by (auto simp: scan_string_def expect_def string_loop_fuel)

lemma scan_literal_fuel: "scan_literal w s \<noteq> Inl Out_of_fuel"
  by (auto simp: scan_literal_def split: option.splits)

lemma rbind_Inl_iff: "rbind m f = Inl e \<longleftrightarrow> m = Inl e \<or> (\<exists>x. m = Inr x \<and> f x = Inl e)"
  by (cases m) auto

lemma scan_number_fuel: "scan_number s \<noteq> Inl Out_of_fuel"
  by (auto simp: scan_number_def scan_fraction_def scan_exponent_def Let_def rbind_Inl_iff split: if_splits)

lemma allowed_change_fuel: "allowed_change s \<noteq> Inl Out_of_fuel"
  by (auto simp: allowed_change_def Let_def rbind_Inl_iff scan_literal_fuel scan_string_fuel simp del: lit_Cons)

lemma allowed_change_shrinks: "allowed_change s = Inr s' \<Longrightarrow> length (snd s') \<le> length (snd s)"
  using allowed_change_sound [of s s' "\<lambda>_. True"] by fastforce

lemma expect_fuel: "expect b s \<noteq> Inl Out_of_fuel"
  by (simp add: expect_def)

lemma separator_fuel:
  assumes "\<And>r. length (snd r) < length (snd s) \<Longrightarrow> again r \<noteq> Inl Out_of_fuel" "e \<noteq> Out_of_fuel"
  shows "separator close e again s \<noteq> Inl Out_of_fuel"
proof (cases "peek (skip_ws s)")
  case None
  then show ?thesis using assms(2) by (simp add: separator_def)
next
  case (Some c)
  then have "length (snd (advance (skip_ws s))) < length (snd s)"
    using peek_Some [OF Some] skip_ws_shrinks [of s] by simp
  then show ?thesis using Some assms(1) unfolding separator_def Let_def by simp
qed

lemma array_loop_fuel:
  assumes "progresses elem"
  shows "length (snd s) < fuel \<Longrightarrow> array_loop entries elem fuel s \<noteq> Inl Out_of_fuel"
proof (induction fuel arbitrary: s)
  case (Suc fuel)
  define s1 where "s1 = (if entries then skip_ws s else s)"
  have l: "length (snd s1) \<le> length (snd s)" using skip_ws_shrinks by (simp add: s1_def)
  have "separator 93 Unterminated_array (array_loop entries elem fuel) s2 \<noteq> Inl Out_of_fuel" if "elem s1 = Inr s2" for s2
  proof (rule separator_fuel)
    have "length (snd s2) < length (snd s1)" using progressesD(2) [OF assms that] .
    then show "array_loop entries elem fuel r \<noteq> Inl Out_of_fuel" if "length (snd r) < length (snd s2)" for r
      using that Suc.prems l by (intro Suc.IH) simp
  qed simp
  moreover have "elem s1 \<noteq> Inl Out_of_fuel" by (rule progressesD(1) [OF assms])
  ultimately show ?case unfolding array_loop.simps Let_def s1_def [symmetric] by (auto simp: rbind_Inl_iff)
qed simp

lemma object_loop_fuel:
  assumes "progresses elem"
  shows "length (snd s) < fuel \<Longrightarrow> object_loop entry elem fuel s \<noteq> Inl Out_of_fuel"
proof (induction fuel arbitrary: s)
  case (Suc fuel)
  have "separator 125 Unterminated_object (object_loop entry elem fuel) s5 \<noteq> Inl Out_of_fuel"
    if a: "scan_string (skip_ws s) = Inr s2" "expect 58 (skip_ws s2) = Inr s4" "member_value entry elem k s4 = Inr s5" for s2 s4 s5 k
  proof (rule separator_fuel)
    obtain b where "snd (skip_ws s) = 34 # b @ 34 # snd s2" using scan_string_sound [OF a(1)] by blast
    moreover have "length (snd s5) \<le> length (snd s4)"
      using a(3) allowed_change_shrinks [of s4 s5] progressesD(2) [OF assms, of s4 s5] unfolding member_value_def
      by (metis less_imp_le)
    ultimately have "length (snd s5) < length (snd s)"
      using expect_sound [OF a(2)] skip_ws_shrinks [of s] skip_ws_shrinks [of s2] by simp
    then show "object_loop entry elem fuel r \<noteq> Inl Out_of_fuel" if "length (snd r) < length (snd s5)" for r
      using that Suc.prems by (intro Suc.IH) simp
  qed simp
  moreover have "member_value entry elem k s4 \<noteq> Inl Out_of_fuel" for k s4
    using progressesD(1) [OF assms, of s4] allowed_change_fuel [of s4] unfolding member_value_def by simp
  ultimately show ?case
    unfolding object_loop.simps Let_def by (auto simp: rbind_Inl_iff scan_string_fuel expect_fuel)
qed simp

lemma scan_value_progresses: "progresses (scan_value planned n)"
proof (induction n)
  case (Suc n)
  have a: "scan_array e (scan_value planned n) s \<noteq> Inl Out_of_fuel" for e s
    unfolding scan_array_def Let_def rbind_Inl_iff
    by (auto simp: expect_fuel array_loop_fuel [OF Suc.IH] simp del: array_loop.simps)
  have o: "scan_object e (scan_value planned n) s \<noteq> Inl Out_of_fuel" for e s
    unfolding scan_object_def Let_def rbind_Inl_iff
    by (auto simp: expect_fuel object_loop_fuel [OF Suc.IH] simp del: object_loop.simps)
  have "scan_token planned d (scan_value planned n) c s \<noteq> Inl Out_of_fuel" for d c s
    using a o by (auto simp: scan_token_def scan_string_fuel scan_literal_fuel scan_number_fuel)
  then have "scan_value planned (Suc n) s \<noteq> Inl Out_of_fuel" for s by (auto simp: Let_def split: option.splits)
  moreover have "length (snd s') < length (snd s)" if "scan_value planned (Suc n) s = Inr s'" for s s'
    using scan_value_sound [OF that] jvalue_heads [of "Suc n"] by (fastforce simp: heads_ok_def simp del: jvalue.simps)
  ultimately show ?case unfolding progresses_def by blast
qed (simp add: progresses_def)

lemma check_scan_fuel: "check_scan s open planned \<noteq> Inl Out_of_fuel"
proof -
  have "scan_value planned (MAX_DEPTH + 1) r \<noteq> Inl Out_of_fuel" for r
    using scan_value_progresses [of planned "MAX_DEPTH + 1"] unfolding progresses_def by blast
  then show ?thesis
    unfolding check_scan_def Let_def by (auto simp: rbind_Inl_iff split: option.splits simp del: scan_value.simps)
qed

section \<open>Splicing\<close>

lemma utf8_bytes_ascii: "c < 128 \<Longrightarrow> utf8_bytes c = [c]"
  by (simp add: utf8_bytes_def)

lemma utf8_bytes_last: "utf8_bytes c = t @ [b] \<Longrightarrow> b < 128 \<Longrightarrow> c = b \<and> t = []"
  by (cases t; cases "tl t") (auto simp: utf8_bytes_def split: if_splits)

lemma utf8_encode_head: "utf8_encode s = b # r \<Longrightarrow> b < 128 \<Longrightarrow> \<exists>t. s = b # t \<and> utf8_encode t = r"
  by (cases s) (auto simp: utf8_bytes_def split: if_splits)

lemma utf8_encode_last:
  assumes "utf8_encode s = r @ [b]" "b < 128"
  shows "\<exists>t. s = t @ [b] \<and> utf8_encode t = r"
proof (cases s rule: rev_cases)
  case (snoc t c)
  have "utf8_bytes c \<noteq> []" by (simp add: utf8_bytes_def)
  then obtain u d where u: "utf8_bytes c = u @ [d]" by (metis rev_exhaust)
  then have "d = b" "utf8_encode t @ u = r" using assms(1) snoc by simp_all
  moreover have "c = b \<and> u = []" using utf8_bytes_last [OF u] \<open>d = b\<close> assms(2) by simp
  ultimately show ?thesis using snoc by simp
qed (use assms in simp)

lemma utf8_encode_Nil: "utf8_encode s = [] \<Longrightarrow> s = []"
  by (cases s) (auto simp: utf8_bytes_def split: if_splits)

lemma json_ws_ascii: "json_ws c \<Longrightarrow> c < 128"
  by (auto simp: json_ws_def)

lemma utf8_encode_ws_head:
  "ws_text w \<Longrightarrow> utf8_encode s = w @ r \<Longrightarrow> \<exists>t. s = w @ t \<and> utf8_encode t = r"
proof (induction w arbitrary: s)
  case (Cons b w)
  then obtain t where "s = b # t" "utf8_encode t = w @ r" using utf8_encode_head json_ws_ascii by fastforce
  then show ?case using Cons by auto
qed simp

lemma utf8_encode_ws_last:
  "ws_text w \<Longrightarrow> utf8_encode s = r @ w \<Longrightarrow> \<exists>t. s = t @ w \<and> utf8_encode t = r"
proof (induction w arbitrary: s rule: rev_induct)
  case (snoc b w)
  have "utf8_encode s = (r @ w) @ [b]" "b < 128" using snoc.prems json_ws_ascii by simp_all
  then obtain t where t: "s = t @ [b]" "utf8_encode t = r @ w" using utf8_encode_last by blast
  then show ?case using snoc.IH [of t] snoc.prems(1) by auto
qed simp

lemma utf8_encode_ws: "ws_text w \<Longrightarrow> utf8_encode w = w"
  by (induction w) (auto simp: utf8_bytes_ascii json_ws_ascii)

text \<open>What is between the brackets: nothing but white space, or elements.\<close>

definition jinner :: "byte list list \<Rightarrow> byte list \<Rightarrow> bool" where
  "jinner vs x \<longleftrightarrow> (vs = [] \<and> ws_text x) \<or> jelems (jvalue MAX_DEPTH) vs x"

text \<open>A text that is an array whose elements have the texts \<open>vs\<close>.\<close>

definition json_array_of :: "byte list list \<Rightarrow> str \<Rightarrow> bool" where
  "json_array_of vs s \<longleftrightarrow>
     (\<exists>w x w'. ws_text w \<and> ws_text w' \<and> jinner vs x \<and> utf8_encode s = w @ 91 # x @ 93 # w')"

lemma jelems_not_Nil: "jelems P vs xs \<Longrightarrow> vs \<noteq> []"
  by (erule jelems.cases) auto

lemma jvalue_array_iff:
  "jvalue (Suc n) v \<and> hd v = 91 \<longleftrightarrow> (\<exists>x. v = 91 # x @ [93] \<and> (ws_text x \<or> (\<exists>vs. jelems (jvalue n) vs x)))"
proof
  assume "jvalue (Suc n) v \<and> hd v = 91"
  then have "jvalue (Suc n) v" "hd v = 91" by simp_all
  then show "\<exists>x. v = 91 # x @ [93] \<and> (ws_text x \<or> (\<exists>vs. jelems (jvalue n) vs x))"
    by (cases rule: jvalue_cases) (auto simp: ascii_digit_def)
qed auto

lemma json_text_array: "json_text 91 s \<longleftrightarrow> (\<exists>vs. json_array_of vs s)"
proof -
  have j: "(\<exists>vs. jinner vs x) \<longleftrightarrow> ws_text x \<or> (\<exists>vs. jelems (jvalue MAX_DEPTH) vs x)" for x
    by (auto simp: jinner_def)
  have "json_text 91 s \<longleftrightarrow> (\<exists>w v w'. ws_text w \<and> ws_text w' \<and> utf8_encode s = w @ v @ w' \<and>
      (\<exists>x. v = 91 # x @ [93] \<and> (\<exists>vs. jinner vs x)))"
    unfolding json_text_def j using jvalue_array_iff [of MAX_DEPTH] by (simp del: jvalue.simps) metis
  also have "\<dots> \<longleftrightarrow> (\<exists>vs. json_array_of vs s)" unfolding json_array_of_def by fastforce
  finally show ?thesis .
qed

definition tails_ok :: "(byte list \<Rightarrow> bool) \<Rightarrow> bool" where
  "tails_ok P \<longleftrightarrow> (\<forall>v. P v \<longrightarrow> v \<noteq> [] \<and> \<not> json_ws (last v))"

lemma ascii_digit_not_ws: "ascii_digit c \<Longrightarrow> \<not> json_ws c"
  by (auto simp: ascii_digit_def json_ws_def)

lemma jdigits_last: "jdigits d \<Longrightarrow> d \<noteq> [] \<and> ascii_digit (last d)"
  by (auto simp: jdigits_def list_all_iff)

lemma jnumber_last: "jnumber v \<Longrightarrow> v \<noteq> [] \<and> ascii_digit (last v)"
proof -
  assume "jnumber v"
  then obtain g i f e where v: "jint i" "jfraction f" "jexponent e" "v = g @ i @ f @ e" by (auto simp: jnumber_def)
  have i: "i \<noteq> [] \<and> ascii_digit (last i)" using v(1) jdigits_last by (auto simp: jint_def ascii_digit_def)
  have f: "f = [] \<or> ascii_digit (last f)" using v(2) jdigits_last by (auto simp: jfraction_def)
  have e: "e = [] \<or> ascii_digit (last e)" using v(3) jdigits_last by (auto simp: jexponent_def)
  show ?thesis using i f e v(4) by (auto simp: last_append)
qed

lemma jvalue_tails: "tails_ok (jvalue n)"
proof (cases n)
  case (Suc m)
  have "v \<noteq> [] \<and> \<not> json_ws (last v)" if "jvalue (Suc m) v" for v
    using that by (cases rule: jvalue_cases)
      (auto simp: ascii_digit_not_ws jnumber_last dest: jnumber_last, simp_all add: json_ws_def)
  then show ?thesis using Suc by (simp add: tails_ok_def)
qed (simp add: tails_ok_def)

lemma jelems_strip:
  assumes "tails_ok P"
  shows "jelems P vs xs \<Longrightarrow> \<exists>y w. jelems P vs y \<and> y \<noteq> [] \<and> \<not> json_ws (last y) \<and> ws_text w \<and> xs = y @ w"
proof (induction rule: jelems.induct)
  case (je_one a v b)
  then show ?case using assms jelems.je_one [of a P v "[]"]
    by (intro exI [of _ "a @ v"] exI [of _ b]) (auto simp: tails_ok_def last_append)
next
  case (je_more a v b vs xs)
  then obtain y w where y: "jelems P vs y" "y \<noteq> []" "\<not> json_ws (last y)" "ws_text w" "xs = y @ w" by blast
  then show ?case using je_more(1-3) jelems.je_more [of a P v b vs y]
    by (intro exI [of _ "a @ v @ b @ 44 # y"] exI [of _ w]) (auto simp: last_append)
qed

lemma jelems_core:
  assumes "heads_ok P" "tails_ok P" "jelems P vs xs"
  shows "\<exists>w z w'. ws_text w \<and> ws_text w' \<and> xs = w @ z @ w' \<and> jelems P vs z \<and> z \<noteq> [] \<and> \<not> json_ws (hd z) \<and> \<not> json_ws (last z)"
proof -
  obtain y c t w where y: "jelems P vs y" "y = c # t" "value_head c" "ws_text w" "xs = w @ y"
    using jelems_skip [OF assms(1,3)] by blast
  obtain z w' where z: "jelems P vs z" "z \<noteq> []" "\<not> json_ws (last z)" "ws_text w'" "y = z @ w'"
    using jelems_strip [OF assms(2) y(1)] by blast
  have "hd z = c" using y(2) z(2,5) by (cases z) auto
  then show ?thesis using y z by (intro exI [of _ w] exI [of _ z] exI [of _ w']) (simp add: value_head_def)
qed

lemma trim_core:
  assumes "ws_text w" "ws_text w'" "m = [] \<or> \<not> json_ws (hd m) \<and> \<not> json_ws (last m)"
  shows "trim_matches json_ws (w @ m @ w') = m"
proof -
  have rev_ws: "ws_text (rev w')" using assms(2) by (simp add: ws_text_def)
  show ?thesis
  proof (cases "m = []")
    case True
    have "dropWhile json_ws (w @ w') = []" using dropWhile_ws [of "w @ w'" "[]"] assms(1,2) by simp
    then show ?thesis using True
      by (simp only: trim_matches_def trim_start_matches_def trim_end_matches_def append_Nil rev.simps dropWhile.simps)
  next
    case False
    have "dropWhile json_ws (w @ m @ w') = m @ w'" using dropWhile_ws [OF assms(1)] assms(3) False by (cases m) auto
    moreover have "dropWhile json_ws (rev w' @ rev m) = rev m"
      using dropWhile_ws [OF rev_ws, of "rev m"] assms(3) False by (cases m rule: rev_cases) auto
    ultimately show ?thesis by (simp add: trim_matches_def trim_start_matches_def trim_end_matches_def)
  qed
qed

lemma array_inner_brackets: "array_inner (91 # t @ [93]) = trim_matches json_ws t"
proof -
  have "strip_prefix [c_lbracket] (91 # t @ [93]) = Some (t @ [93])" "strip_suffix [c_rbracket] (t @ [93]) = Some t"
    by (simp_all add: strip_prefix_Some_iff strip_suffix_Some_iff)
  then show ?thesis by (simp add: array_inner_def)
qed

lemma utf8_encode_array:
  assumes "ws_text w" "ws_text w'" "utf8_encode s = w @ 91 # x @ 93 # w'"
  shows "\<exists>t. s = w @ 91 # t @ 93 # w' \<and> utf8_encode t = x"
proof -
  obtain s1 where s1: "s = w @ s1" "utf8_encode s1 = 91 # x @ 93 # w'" using utf8_encode_ws_head [OF assms(1,3)] by blast
  then obtain s2 where s2: "s1 = 91 # s2" "utf8_encode s2 = x @ 93 # w'" using utf8_encode_head by fastforce
  then obtain s3 where s3: "s2 = s3 @ w'" "utf8_encode s3 = x @ [93]" 
    using utf8_encode_ws_last [OF assms(2), of s2 "x @ [93]"] by auto
  then obtain t where "s3 = t @ [93]" "utf8_encode t = x" using utf8_encode_last by fastforce
  then show ?thesis using s1 s2 s3 by auto
qed

lemma array_parts:
  assumes "json_array_of vs s"
  obtains t m where "trim_ws s = 91 # t @ [93]" "array_inner (trim_ws s) = m" "jinner vs (utf8_encode t)"
    "vs = [] \<Longrightarrow> m = []" "vs \<noteq> [] \<Longrightarrow> m \<noteq> [] \<and> jelems (jvalue MAX_DEPTH) vs (utf8_encode m)"
proof -
  obtain w x w' where w: "ws_text w" "ws_text w'" "jinner vs x" "utf8_encode s = w @ 91 # x @ 93 # w'"
    using assms by (auto simp: json_array_of_def)
  obtain t where t: "s = w @ 91 # t @ 93 # w'" "utf8_encode t = x" using utf8_encode_array [OF w(1,2,4)] by blast
  have trim: "trim_ws s = 91 # t @ [93]" using trim_core [OF w(1,2), of "91 # t @ [93]"] t(1) by (simp add: trim_ws_def)
  show ?thesis
  proof (cases "vs = []")
    case True
    then have "ws_text x" using w(3) jelems_not_Nil by (auto simp: jinner_def)
    then obtain u where "t = x @ u" "utf8_encode u = []" using t(2) utf8_encode_ws_head [of x t "[]"] by auto
    then have "ws_text t" using \<open>ws_text x\<close> utf8_encode_Nil [of u] by simp
    then have "trim_matches json_ws t = []" using trim_core [of t "[]" "[]"] by simp
    then show ?thesis using that [OF trim] array_inner_brackets trim True w(3) t(2) by auto
  next
    case False
    then obtain u z u' where z: "ws_text u" "ws_text u'" "x = u @ z @ u'" "jelems (jvalue MAX_DEPTH) vs z"
        "z \<noteq> []" "\<not> json_ws (hd z)" "\<not> json_ws (last z)"
      using w(3) jelems_core [OF jvalue_heads jvalue_tails] by (metis jinner_def)
    obtain t1 where t1: "t = u @ t1" "utf8_encode t1 = z @ u'" using utf8_encode_ws_head [OF z(1)] t(2) z(3) by blast
    obtain m where m: "t1 = m @ u'" "utf8_encode m = z" using utf8_encode_ws_last [OF z(2) t1(2)] by blast
    have ne: "m \<noteq> []" using m(2) z(5) by auto
    have h: "\<not> json_ws (hd m)" using m(2) z(6) ne json_ws_ascii by (cases m) (auto simp: utf8_bytes_ascii)
    have l: "\<not> json_ws (last m)" using m(2) z(7) ne json_ws_ascii by (cases m rule: rev_cases) (auto simp: utf8_bytes_ascii)
    have "trim_matches json_ws t = m" using trim_core [OF z(1,2)] h l t1(1) m(1) by simp
    then show ?thesis using that [OF trim] array_inner_brackets trim False w(3) t(2) ne z(4) m(2) by auto
  qed
qed

lemma jelems_append: "jelems P vs xs \<Longrightarrow> jelems P us ys \<Longrightarrow> jelems P (vs @ us) (xs @ 44 # ys)"
proof (induction rule: jelems.induct)
  case (je_one a v b)
  then show ?case using jelems.je_more [of a P v b us ys] by simp
next
  case (je_more a v b vs xs)
  then show ?case using jelems.je_more [of a P v b "vs @ us" "xs @ 44 # ys"] by simp
qed

lemma json_array_of_brackets: "jinner vs (utf8_encode t) \<Longrightarrow> json_array_of vs (91 # t @ [93])"
  unfolding json_array_of_def by (intro exI [of _ "[]"] exI [of _ "utf8_encode t"]) (simp add: utf8_bytes_ascii)

lemma merge_arrays:
  assumes "json_array_of vs a" "json_array_of us b"
  shows "json_array_of (vs @ us) (merge_json_arrays a b)"
proof -
  obtain ta ma where a: "trim_ws a = 91 # ta @ [93]" "array_inner (trim_ws a) = ma" "jinner vs (utf8_encode ta)"
    "vs = [] \<Longrightarrow> ma = []" "vs \<noteq> [] \<Longrightarrow> ma \<noteq> [] \<and> jelems (jvalue MAX_DEPTH) vs (utf8_encode ma)"
    using array_parts [OF assms(1)] by metis
  obtain tb mb where b: "trim_ws b = 91 # tb @ [93]" "array_inner (trim_ws b) = mb" "jinner us (utf8_encode tb)"
    "us = [] \<Longrightarrow> mb = []" "us \<noteq> [] \<Longrightarrow> mb \<noteq> [] \<and> jelems (jvalue MAX_DEPTH) us (utf8_encode mb)"
    using array_parts [OF assms(2)] by metis
  show ?thesis
  proof (cases "us = []")
    case us: True
    show ?thesis
    proof (cases "vs = []")
      case True
      have "jinner [] (utf8_encode [])" by (simp add: jinner_def)
      from json_array_of_brackets [OF this] show ?thesis using True us a b by (simp add: merge_json_arrays_def)
    next
      case False
      then show ?thesis using us a b json_array_of_brackets [OF a(3)] by (simp add: merge_json_arrays_def)
    qed
  next
    case us: False
    show ?thesis
    proof (cases "vs = []")
      case True
      then show ?thesis using us a b json_array_of_brackets [OF b(3)] by (simp add: merge_json_arrays_def)
    next
      case False
      have "jinner (vs @ us) (utf8_encode (ma @ 44 # mb))"
        using jelems_append a(5) b(5) False us by (simp add: jinner_def utf8_bytes_ascii)
      from json_array_of_brackets [OF this] show ?thesis using False us a b by (simp add: merge_json_arrays_def)
    qed
  qed
qed

lemma is_array_iff: "is_array s \<longleftrightarrow> (\<exists>vs. json_array_of vs s)"
  by (simp add: is_array_def check_array_def check_scan_iff json_text_array)

lemma planned_is_array: "check_planned_files v = Inr () \<Longrightarrow> is_array v"
  using check_scan_sound check_scan_iff unfolding check_planned_files_def is_array_def check_array_def by blast

section \<open>Properties\<close>

text \<open>
  C14. \<open>check_array\<close> accepts a text exactly when it is one array of the grammar above, of at most 33
  levels, with nothing but white space around it.
\<close>

theorem check_array_decides:
  "check_array s = Inr () \<longleftrightarrow>
     (\<exists>w v w'. ws_text w \<and> ws_text w' \<and> jvalue (MAX_DEPTH + 1) v \<and> hd v = 91 \<and> utf8_encode s = w @ v @ w')"
  unfolding check_array_def check_scan_iff json_text_def ..

text \<open>
  C31. Two texts \<open>is_array\<close> accepts are spliced into one it accepts, whose elements are the elements of
  the first followed by the elements of the second, byte for byte.
\<close>

theorem merge_keeps_elements:
  assumes "is_array a" "is_array b"
  shows "is_array (merge_json_arrays a b) \<and>
    (\<exists>vs us. json_array_of vs a \<and> json_array_of us b \<and> json_array_of (vs @ us) (merge_json_arrays a b))"
  using assms merge_arrays unfolding is_array_iff by blast

theorem merge_keeps_elements_witness:
  "is_array (merge_json_arrays (lit '' [1]'') (lit ''[{}]'')) \<and> merge_json_arrays (lit '' [1]'') (lit ''[{}]'') = lit ''[1,{}]''"
proof
  have "is_array (lit '' [1]'')" "is_array (lit ''[{}]'')" by code_simp+
  from merge_keeps_elements [OF this] show "is_array (merge_json_arrays (lit '' [1]'') (lit ''[{}]''))" by blast
  show "merge_json_arrays (lit '' [1]'') (lit ''[{}]'') = lit ''[1,{}]''" by code_simp
qed

text \<open>
  What \<open>check_planned_files\<close> accepts is an array, and every check ends with an answer of its own:
  the fuel of the element loops is never used up.
\<close>

theorem planned_files_is_array:
  "(check_planned_files s = Inr () \<longrightarrow> is_array s) \<and> check_planned_files s \<noteq> Inl Out_of_fuel \<and>
   check_array s \<noteq> Inl Out_of_fuel \<and> check_object s \<noteq> Inl Out_of_fuel \<and> check_container s \<noteq> Inl Out_of_fuel"
  using planned_is_array [of s]
  by (simp add: check_scan_fuel check_planned_files_def check_array_def check_object_def check_container_def split: list.split)

theorem planned_files_is_array_witness: "is_array (lit ''[\"a\", {\"allowed_change\":\"create\"}]'')"
proof -
  have "check_planned_files (lit ''[\"a\", {\"allowed_change\":\"create\"}]'') = Inr ()" by code_simp
  then show ?thesis using planned_files_is_array [of "lit ''[\"a\", {\"allowed_change\":\"create\"}]''"] by blast
qed

end
