(* ===== verification/Store_Db.thy ===== *)
theory Store_Db
  imports Iso_Time Json_Scan "HOL-Library.Product_Lexorder"
begin

text \<open>
  The database under \<open>dc-store\<close>: the tables the lease code reads and writes as lists of rows, one SQL
  statement as an atomic step on them, and \<open>write_transaction\<close>.

  A program takes a world and returns an outcome and a world; an error keeps the writes made before
  it, as autocommitted statements do. What the program does not control is a parameter: the clock,
  the random blobs, what other connections did before a statement (\<open>others\<close>), which statements fail
  (\<open>fault\<close>), and the functions of SQLite itself that the statements call (\<open>unixepoch\<close>,
  \<open>json_extract\<close>, \<open>json_each\<close>). All of them are indexed by a counter that every statement and every clock
  reading advances, so that two readings of the clock may differ and other connections may write
  between any two statements outside a transaction. A transaction of \<open>write_transaction\<close> holds the
  write lock from its first statement: other connections act before it and after it, not inside.
\<close>

section \<open>Tables\<close>

record lease =
  l_id :: str
  l_task_id :: str
  l_owner :: str
  l_agent :: "str option"
  l_client_id :: "str option"
  l_run_id :: "str option"
  l_branch :: "str option"
  l_token :: str
  l_status :: str
  l_created_at :: str
  l_expires_at :: "str option"
  l_released_at :: "str option"

record item =
  i_id :: str
  i_title :: str
  i_status :: str
  i_deleted :: int
  i_archived :: int
  i_repository :: str
  i_position :: "int option"
  i_body :: str

record gap =
  g_id :: str
  g_severity :: str
  g_gap_type :: str
  g_requirement_id :: "str option"
  g_task_id :: "str option"
  g_description :: str
  g_evidence_json :: str
  g_recommended_fix :: str
  g_blocking :: bool
  g_file :: "str option"
  g_line :: "int option"
  g_suggested_command :: "str option"
  g_acceptance_criterion_id :: "str option"
  g_expected_verification_method :: "str option"
  g_stdout_path :: "str option"
  g_stderr_path :: "str option"

record gap_history_row =
  h_task_id :: str
  h_gap_id :: str
  h_gap_type :: str
  h_first_seen_run :: int
  h_last_seen_run :: int
  h_occurrences :: int
  h_resurfaces :: int

record evidence_row =
  e_id :: int
  e_kind :: str
  e_task_id :: "str option"
  e_requirement_id :: "str option"
  e_acceptance_criterion_id :: "str option"
  e_data_json :: str

record verification_run =
  v_id :: str
  v_task_id :: str
  v_sandbox :: str
  v_environment_json :: str
  v_commands_json :: str
  v_status :: str
  v_started_at :: str
  v_finished_at :: "str option"

record agent_handoff =
  k_id :: str
  k_task_id :: str
  k_from_agent :: str
  k_to_agent :: str
  k_run_id :: str
  k_manifest_path :: str
  k_status :: str
  k_created_at :: str

record review_row =
  r_id :: int
  r_task_id :: str
  r_acceptance_criterion_id :: str
  r_subject_hash :: str
  r_record_json :: str
  r_recorded_at :: str

record scope_append =
  a_task_id :: str
  a_planned_files :: str
  a_allowed_commands :: str
  a_expected_tests :: str

record requirement_row =
  rq_id :: str
  rq_title :: str
  rq_description :: str
  rq_priority :: str
  rq_source :: str
  rq_acceptance_criteria_json :: str

text \<open>
  A profile that has never held an item has no \<open>work_items\<close> table. \<open>evidence_seq\<close> and \<open>reviews_seq\<close>
  are the largest row ids the two \<open>AUTOINCREMENT\<close> tables have handed out. \<open>gap_columns\<close> are the
  columns of \<open>gaps\<close>, which in an old store lack the last two.
\<close>

record db =
  leases :: "lease list"
  work_items :: "item list option"
  appends :: "scope_append list"
  requirements :: "requirement_row list"
  gaps :: "gap list"
  gap_columns :: "str list"
  gap_runs :: "(str \<times> int) list"
  gap_history :: "gap_history_row list"
  evidence :: "evidence_row list"
  evidence_seq :: int
  verification_runs :: "verification_run list"
  agent_handoffs :: "agent_handoff list"
  reviews :: "review_row list"
  reviews_seq :: int

definition st_active :: str where "st_active = lit ''active''"
definition st_stale :: str where "st_stale = lit ''stale''"
definition st_released :: str where "st_released = lit ''released''"

lemma status_distinct [simp]:
  "st_active \<noteq> st_stale" "st_active \<noteq> st_released" "st_stale \<noteq> st_released"
  "st_stale \<noteq> st_active" "st_released \<noteq> st_active" "st_released \<noteq> st_stale"
  by (simp_all add: st_active_def st_stale_def st_released_def)

definition LOCAL_REPOSITORY_ID :: str where "LOCAL_REPOSITORY_ID = lit ''this-repo''"

section \<open>Errors\<close>

text \<open>The reasons of \<open>BadScope\<close>, one constructor per message.\<close>

datatype scope_fault =
    Reason str
  | Not_json str scan_error
  | Column_not_array str str scan_error
  | Over_ceiling nat
  | Not_planned_files str scan_error
  | Stored_scope_not_array str scan_error
  | Too_many_gaps nat
  | Run_of_other_task str str str
  | Bad_review_key str
  | Control_in_review_key str
  | No_task_to_review str

datatype store_error =
    LeaseHeld str str
  | Sql str
  | BadTimestamp str
  | BadScope scope_fault
  | JournalMode str
  | MissingDatabase str
  | ExclusionIndex str
  | BadTtl int
  | SchemaTooNew nat nat
  | SchemaVersion str
  | TaskUnavailable str str str
  | Workbench str str

section \<open>SQL statements on rows\<close>

text \<open>\<open>UPDATE \<dots> SET f WHERE p\<close> and the number of rows it changed.\<close>

definition sql_update :: "('r \<Rightarrow> bool) \<Rightarrow> ('r \<Rightarrow> 'r) \<Rightarrow> 'r list \<Rightarrow> 'r list \<times> nat" where
  "sql_update p f rows = (map (\<lambda>r. if p r then f r else r) rows, length (filter p rows))"

definition is_active :: "lease \<Rightarrow> bool" where
  "is_active l = (l_status l = st_active)"

text \<open>
  The constraints of \<open>task_leases\<close>: the primary key on \<open>id\<close> and \<open>ux_task_leases_active\<close>, the partial
  unique index on \<open>task_id\<close> over the rows with status \<open>active\<close>. \<open>None\<close> is a constraint violation.
\<close>

definition insert_lease :: "lease \<Rightarrow> lease list \<Rightarrow> lease list option" where
  "insert_lease l rows =
     (if list_ex (\<lambda>r. l_id r = l_id l) rows then None
      else if is_active l \<and> list_ex (\<lambda>r. is_active r \<and> l_task_id r = l_task_id l) rows then None
      else Some (rows @ [l]))"

definition active_for :: "str \<Rightarrow> lease \<Rightarrow> bool" where
  "active_for task_id l \<longleftrightarrow> l_task_id l = task_id \<and> is_active l"

text \<open>The row changes of the five writing statements on \<open>task_leases\<close>, and the rows they select.\<close>

definition mark_stale :: "str \<Rightarrow> lease \<Rightarrow> lease" where
  "mark_stale at l = l\<lparr>l_status := st_stale, l_released_at := Some at\<rparr>"

definition mark_released :: "str \<Rightarrow> lease \<Rightarrow> lease" where
  "mark_released at l = l\<lparr>l_status := st_released, l_released_at := Some at\<rparr>"

definition set_expiry :: "str \<Rightarrow> lease \<Rightarrow> lease" where
  "set_expiry e l = l\<lparr>l_expires_at := Some e\<rparr>"

definition retire_where :: "str \<Rightarrow> str option \<Rightarrow> lease \<Rightarrow> bool" where
  "retire_where i e r \<longleftrightarrow> l_id r = i \<and> is_active r \<and> l_expires_at r = e"

definition retire_active_where :: "str \<Rightarrow> lease \<Rightarrow> bool" where
  "retire_active_where i r \<longleftrightarrow> l_id r = i \<and> is_active r"

definition release_where :: "str \<Rightarrow> str \<Rightarrow> lease \<Rightarrow> bool" where
  "release_where i token r \<longleftrightarrow> l_id r = i \<and> l_token r = token \<and> is_active r"

text \<open>\<open>expires_at IS NULL OR unixepoch(expires_at) >= now\<close>; an unreadable text is \<open>NULL\<close>.\<close>

definition sql_unexpired :: "(str \<Rightarrow> int option) \<Rightarrow> int \<Rightarrow> lease \<Rightarrow> bool" where
  "sql_unexpired unixepoch now r =
     (case l_expires_at r of
        None \<Rightarrow> True
      | Some e \<Rightarrow> (case unixepoch e of None \<Rightarrow> False | Some u \<Rightarrow> u \<ge> now))"

definition renew_where :: "(str \<Rightarrow> int option) \<Rightarrow> str \<Rightarrow> str \<Rightarrow> str \<Rightarrow> int \<Rightarrow> lease \<Rightarrow> bool" where
  "renew_where unixepoch i task_id token now r \<longleftrightarrow>
     l_id r = i \<and> l_task_id r = task_id \<and> l_token r = token \<and> is_active r \<and>
     sql_unexpired unixepoch now r"

section \<open>Other connections\<close>

text \<open>
  What another connection may do between two statements: any writing statement of the crate on the
  lease table with any arguments, and anything at all on the other tables.
\<close>

datatype foreign_write =
    Foreign_insert lease
  | Foreign_retire str "str option" str
  | Foreign_retire_active str str
  | Foreign_release str str str
  | Foreign_renew str str str int str
  | Foreign_other "db \<Rightarrow> db"

fun foreign_step :: "(str \<Rightarrow> int option) \<Rightarrow> foreign_write \<Rightarrow> db \<Rightarrow> db" where
  "foreign_step u (Foreign_insert l) d =
     (case insert_lease (l\<lparr>l_status := st_active\<rparr>) (leases d) of
        None \<Rightarrow> d | Some rows \<Rightarrow> d\<lparr>leases := rows\<rparr>)"
| "foreign_step u (Foreign_retire i e at) d =
     d\<lparr>leases := fst (sql_update (retire_where i e) (mark_stale at) (leases d))\<rparr>"
| "foreign_step u (Foreign_retire_active i at) d =
     d\<lparr>leases := fst (sql_update (retire_active_where i) (mark_stale at) (leases d))\<rparr>"
| "foreign_step u (Foreign_release i token at) d =
     d\<lparr>leases := fst (sql_update (release_where i token) (mark_released at) (leases d))\<rparr>"
| "foreign_step u (Foreign_renew i task_id token now e) d =
     d\<lparr>leases := fst (sql_update (renew_where u i task_id token now) (set_expiry e) (leases d))\<rparr>"
| "foreign_step u (Foreign_other f) d = (f d)\<lparr>leases := leases d\<rparr>"

section \<open>Programs\<close>

record sys =
  clock :: "nat \<Rightarrow> int"
  others :: "nat \<Rightarrow> foreign_write list"
  fault :: "nat \<Rightarrow> str option"
  randomblob :: "nat \<Rightarrow> nat \<Rightarrow> byte list"
  unixepoch :: "str \<Rightarrow> int option"
  json_priority :: "str \<Rightarrow> int option"
  json_extract :: "str \<Rightarrow> str \<Rightarrow> str option"
  json_requirement_ids :: "str \<Rightarrow> str option list"

record world =
  w_db :: db
  w_tick :: nat
  w_tx :: bool

type_synonym 'a prog = "world \<Rightarrow> (store_error + 'a) \<times> world"

definition ret :: "'a \<Rightarrow> 'a prog" where
  "ret x w = (Inr x, w)"

definition throw :: "store_error \<Rightarrow> 'a prog" where
  "throw e w = (Inl e, w)"

text \<open>\<open>attempt\<close> is a \<open>match\<close> on the outcome of a call, \<open>pbind\<close> the \<open>?\<close> after one.\<close>

definition attempt :: "'a prog \<Rightarrow> (store_error + 'a \<Rightarrow> 'b prog) \<Rightarrow> 'b prog" where
  "attempt m h w = (case m w of (r, w') \<Rightarrow> h r w')"

definition pbind :: "'a prog \<Rightarrow> ('a \<Rightarrow> 'b prog) \<Rightarrow> 'b prog" where
  "pbind m f = attempt m (\<lambda>r. case r of Inl e \<Rightarrow> throw e | Inr x \<Rightarrow> f x)"

definition lift_result :: "store_error + 'a \<Rightarrow> 'a prog" where
  "lift_result r w = (r, w)"

definition env :: "sys \<Rightarrow> nat \<Rightarrow> db \<Rightarrow> db" where
  "env sy n d = fold (foreign_step (unixepoch sy)) (others sy n) d"

text \<open>The database a statement sees: outside a transaction, others may have written before it.\<close>

definition seen_db :: "sys \<Rightarrow> world \<Rightarrow> db" where
  "seen_db sy w = (if w_tx w then w_db w else env sy (w_tick w) (w_db w))"

definition tick_db :: "db \<Rightarrow> world \<Rightarrow> world" where
  "tick_db d w = w\<lparr>w_db := d, w_tick := Suc (w_tick w)\<rparr>"

text \<open>One SQL statement: it fails and changes nothing, or runs on the database it sees.\<close>

definition exec :: "sys \<Rightarrow> (db \<Rightarrow> (store_error + 'a) \<times> db) \<Rightarrow> 'a prog" where
  "exec sy st w =
     (case fault sy (w_tick w) of
        Some m \<Rightarrow> (Inl (Sql m), tick_db (seen_db sy w) w)
      | None \<Rightarrow> (case st (seen_db sy w) of (r, d) \<Rightarrow> (r, tick_db d w)))"

definition query :: "sys \<Rightarrow> (db \<Rightarrow> 'a) \<Rightarrow> 'a prog" where
  "query sy q = exec sy (\<lambda>d. (Inr (q d), d))"

definition now_epoch :: "sys \<Rightarrow> int prog" where
  "now_epoch sy w = (Inr (clock sy (w_tick w)), w\<lparr>w_tick := Suc (w_tick w)\<rparr>)"

text \<open>
  \<open>BEGIN IMMEDIATE\<close>, the body, then \<open>COMMIT\<close>. An error of the body or of the commit drops the
  transaction, which rolls the database back to what it was when the lock was taken.
\<close>

definition write_transaction :: "sys \<Rightarrow> 'a prog \<Rightarrow> 'a prog" where
  "write_transaction sy body w =
     (case fault sy (w_tick w) of
        Some m \<Rightarrow> (Inl (Sql m), tick_db (seen_db sy w) w)
      | None \<Rightarrow>
          let start = seen_db sy w in
          (case body ((tick_db start w)\<lparr>w_tx := True\<rparr>) of
             (Inl e, w') \<Rightarrow> (Inl e, w'\<lparr>w_db := start, w_tx := False\<rparr>)
           | (Inr x, w') \<Rightarrow>
               (case fault sy (w_tick w') of
                  Some m \<Rightarrow> (Inl (Sql m), (tick_db start w')\<lparr>w_tx := False\<rparr>)
                | None \<Rightarrow> (Inr x, (tick_db (w_db w') w')\<lparr>w_tx := False\<rparr>))))"

definition update_leases :: "sys \<Rightarrow> (lease \<Rightarrow> bool) \<Rightarrow> (lease \<Rightarrow> lease) \<Rightarrow> nat prog" where
  "update_leases sy p f =
     exec sy (\<lambda>d. case sql_update p f (leases d) of (rows, n) \<Rightarrow> (Inr n, d\<lparr>leases := rows\<rparr>))"

section \<open>Which items are tasks\<close>

definition items_present :: "sys \<Rightarrow> bool prog" where
  "items_present sy = query sy (\<lambda>d. work_items d \<noteq> None)"

definition item_rows :: "db \<Rightarrow> item list" where
  "item_rows d = (case work_items d of None \<Rightarrow> [] | Some rows \<Rightarrow> rows)"

definition local_item :: "str \<Rightarrow> item \<Rightarrow> bool" where
  "local_item task_id i \<longleftrightarrow> i_id i = task_id \<and> i_deleted i = 0 \<and> i_repository i = LOCAL_REPOSITORY_ID"

definition is_local_item :: "sys \<Rightarrow> str \<Rightarrow> bool prog" where
  "is_local_item sy task_id =
     pbind (items_present sy) (\<lambda>present.
       if \<not> present then ret False
       else query sy (\<lambda>d. list_ex (local_item task_id) (item_rows d)))"

definition unavailable :: "str \<Rightarrow> string \<Rightarrow> str \<Rightarrow> store_error" where
  "unavailable task_id code detail = TaskUnavailable task_id (lit code) detail"

definition judge_acquirable :: "str \<Rightarrow> (str \<times> int) option \<Rightarrow> store_error + unit" where
  "judge_acquirable task_id found =
     (case found of
        None \<Rightarrow>
          Inl (unavailable task_id ''no_such_task''
            (lit ''task '' @ task_id @ lit '' is not a workbench item of this repository''))
      | Some (status, archived) \<Rightarrow>
          if archived \<noteq> 0 then
            Inl (unavailable task_id ''task_archived''
              (lit ''task '' @ task_id @ lit '' is archived and cannot be leased''))
          else if status \<noteq> lit ''ready'' \<and> status \<noteq> lit ''in_progress'' then
            Inl (unavailable task_id ''task_not_ready''
              (lit ''task '' @ task_id @ lit '' is '' @ status @
               lit '', not ready or in progress, and cannot be leased''))
          else Inr ())"

definition require_acquirable :: "sys \<Rightarrow> str \<Rightarrow> unit prog" where
  "require_acquirable sy task_id =
     pbind (items_present sy) (\<lambda>present.
     pbind (if present
            then query sy (\<lambda>d. map_option (\<lambda>i. (i_status i, i_archived i))
                                 (find (local_item task_id) (item_rows d)))
            else ret None) (\<lambda>found.
     lift_result (judge_acquirable task_id found)))"

end
