(* ===== verification/Lease.thy ===== *)
theory Lease
  imports Store_Db
begin

text \<open>
  The lease operations of \<open>dc-store/src/lib.rs\<close> and the ready list of \<open>dc-store/src/tasks.rs\<close>, each a
  program over the database of \<open>Store_Db\<close>, statement by statement in the order of the source.
\<close>

datatype lease_code = Valid | Expired | Invalid | HeldByOther

fun code_as_str :: "lease_code \<Rightarrow> str" where
  "code_as_str Valid = lit ''valid''"
| "code_as_str Expired = lit ''lease_expired''"
| "code_as_str Invalid = lit ''invalid_lease''"
| "code_as_str HeldByOther = lit ''lease_held_by_other''"

fun recovery :: "lease_code \<Rightarrow> (str \<times> str) option" where
  "recovery Valid = None"
| "recovery Expired = Some (lit ''checkout_again'', lit ''devcouncil_checkout_task'')"
| "recovery Invalid = Some (lit ''checkout_again'', lit ''devcouncil_checkout_task'')"
| "recovery HeldByOther = Some (lit ''pick_other_task'', lit ''devcouncil_next_task'')"

datatype lease_state = Live | ExpiredState | BadExpiry str

record acquire_request =
  q_task_id :: str
  q_owner :: str
  q_agent :: "str option"
  q_client_id :: "str option"
  q_run_id :: "str option"
  q_branch :: "str option"
  q_ttl_seconds :: "int option"
  q_force :: bool

record retired_lease =
  t_lease_id :: str
  t_owner :: str
  t_expires_at :: str

record sweep =
  s_live :: "lease list"
  s_unreadable :: "lease list"

definition MAX_EXPIRY_PASSES :: nat where "MAX_EXPIRY_PASSES = 8"

definition holder_of :: "lease \<Rightarrow> str" where
  "holder_of l =
     (if l_owner l \<noteq> [] then l_owner l
      else case l_client_id l of Some c \<Rightarrow> c | None \<Rightarrow> lit ''another agent'')"

text \<open>\<open>format!("{b:02x}")\<close> for every byte.\<close>

definition hex_nibble :: "nat \<Rightarrow> uchar" where
  "hex_nibble n = (if n < 10 then 48 + n else 87 + n)"

definition hex :: "byte list \<Rightarrow> str" where
  "hex bytes = concat (map (\<lambda>b. [hex_nibble (b div 16), hex_nibble (b mod 16)]) bytes)"

definition new_blob :: "sys \<Rightarrow> nat \<Rightarrow> str prog" where
  "new_blob sy n w = pbind (exec sy (\<lambda>d. (Inr (randomblob sy (w_tick w) n), d))) (\<lambda>b. ret (hex b)) w"

definition new_id :: "sys \<Rightarrow> str prog" where
  "new_id sy = new_blob sy 16"

definition new_token :: "sys \<Rightarrow> str prog" where
  "new_token sy = new_blob sy 32"

definition sat_add_i64 :: "int \<Rightarrow> int \<Rightarrow> int" where
  "sat_add_i64 a b = max I64_MIN (min I64_MAX (a + b))"

definition check_ttl :: "int \<Rightarrow> unit prog" where
  "check_ttl ttl = (case validate_ttl ttl of Inl t \<Rightarrow> throw (BadTtl t) | Inr u \<Rightarrow> ret u)"

definition check_ttl_option :: "int option \<Rightarrow> unit prog" where
  "check_ttl_option t = (case t of None \<Rightarrow> ret () | Some ttl \<Rightarrow> check_ttl ttl)"

section \<open>Reading and retiring\<close>

definition select_active :: "sys \<Rightarrow> str \<Rightarrow> lease option prog" where
  "select_active sy task_id = query sy (\<lambda>d. find (active_for task_id) (leases d))"

definition retire :: "sys \<Rightarrow> lease \<Rightarrow> bool prog" where
  "retire sy lease =
     pbind (now_epoch sy) (\<lambda>now.
     pbind (update_leases sy
              (retire_where (l_id lease) (l_expires_at lease))
              (mark_stale (format_iso_utc now))) (\<lambda>changed.
     ret (changed = 1)))"

definition retire_active :: "sys \<Rightarrow> str \<Rightarrow> unit prog" where
  "retire_active sy lease_id =
     pbind (now_epoch sy) (\<lambda>now.
     pbind (update_leases sy (retire_active_where lease_id)
              (mark_stale (format_iso_utc now))) (\<lambda>_.
     ret ()))"

definition bad_timestamp :: "str \<Rightarrow> int prog" where
  "bad_timestamp expires =
     (case parse_iso_utc expires of None \<Rightarrow> throw (BadTimestamp expires) | Some e \<Rightarrow> ret e)"

fun expiry_passes :: "sys \<Rightarrow> str \<Rightarrow> nat \<Rightarrow> lease option prog" where
  "expiry_passes sy task_id 0 =
     throw (LeaseHeld task_id (lit ''a concurrent renewal; the lease changed on every read''))"
| "expiry_passes sy task_id (Suc n) =
     pbind (select_active sy task_id) (\<lambda>row.
       case row of
         None \<Rightarrow> ret None
       | Some lease \<Rightarrow>
           (case l_expires_at lease of
              None \<Rightarrow> ret (Some lease)
            | Some expires \<Rightarrow>
                pbind (bad_timestamp expires) (\<lambda>expires_epoch.
                pbind (now_epoch sy) (\<lambda>now.
                  if now \<le> expires_epoch then ret (Some lease)
                  else pbind (retire sy lease) (\<lambda>won.
                    if won then ret None else expiry_passes sy task_id n)))))"

definition active_lease :: "sys \<Rightarrow> str \<Rightarrow> lease option prog" where
  "active_lease sy task_id = expiry_passes sy task_id MAX_EXPIRY_PASSES"

section \<open>Acquiring\<close>

text \<open>Clearing the way: refuse, steal, or retire an unreadable incumbent.\<close>

definition unreadable_note :: "str \<Rightarrow> str \<Rightarrow> str" where
  "unreadable_note task_id value =
     value @ lit '' (task '' @ task_id @ [39] @
     lit ''s lease has an unreadable expiry; a forced acquire retires it)''"

definition incumbent_answer ::
    "sys \<Rightarrow> acquire_request \<Rightarrow> store_error + lease option \<Rightarrow> retired_lease option prog" where
  "incumbent_answer sy req r =
     (case r of
        Inr (Some active) \<Rightarrow>
          if \<not> q_force req then throw (LeaseHeld (q_task_id req) (holder_of active))
          else pbind (retire_active sy (l_id active)) (\<lambda>_. ret None)
      | Inr None \<Rightarrow> ret None
      | Inl (BadTimestamp value) \<Rightarrow>
          if q_force req then
            pbind (select_active sy (q_task_id req)) (\<lambda>row.
              case row of
                None \<Rightarrow> ret None
              | Some bad \<Rightarrow>
                  pbind (retire_active sy (l_id bad)) (\<lambda>_.
                    ret (Some \<lparr>t_lease_id = l_id bad, t_owner = l_owner bad,
                               t_expires_at = (case l_expires_at bad of Some e \<Rightarrow> e | None \<Rightarrow> value)\<rparr>)))
          else throw (BadTimestamp (unreadable_note (q_task_id req) value))
      | Inl e \<Rightarrow> throw e)"

definition clear_incumbent :: "sys \<Rightarrow> acquire_request \<Rightarrow> retired_lease option prog" where
  "clear_incumbent sy req = attempt (active_lease sy (q_task_id req)) (incumbent_answer sy req)"

text \<open>\<open>Inr True\<close> when the row went in, \<open>Inr False\<close> on a constraint violation.\<close>

definition insert_lease_row :: "sys \<Rightarrow> lease \<Rightarrow> bool prog" where
  "insert_lease_row sy l =
     exec sy (\<lambda>d. case insert_lease l (leases d) of
                    None \<Rightarrow> (Inr False, d)
                  | Some rows \<Rightarrow> (Inr True, d\<lparr>leases := rows\<rparr>))"

definition new_lease :: "sys \<Rightarrow> acquire_request \<Rightarrow> lease prog" where
  "new_lease sy req =
     pbind (now_epoch sy) (\<lambda>now.
     pbind (new_id sy) (\<lambda>i.
     pbind (new_token sy) (\<lambda>t.
     ret \<lparr>l_id = i, l_task_id = q_task_id req, l_owner = q_owner req, l_agent = q_agent req,
          l_client_id = q_client_id req, l_run_id = q_run_id req, l_branch = q_branch req,
          l_token = t, l_status = st_active, l_created_at = format_iso_utc now,
          l_expires_at = map_option (\<lambda>ttl. format_iso_utc (sat_add_i64 now ttl)) (q_ttl_seconds req),
          l_released_at = None\<rparr>)))"

definition acquire_in_transaction ::
    "sys \<Rightarrow> acquire_request \<Rightarrow> (lease \<times> retired_lease option) prog" where
  "acquire_in_transaction sy req =
     pbind (check_ttl_option (q_ttl_seconds req)) (\<lambda>_.
     pbind (require_acquirable sy (q_task_id req)) (\<lambda>_.
     pbind (clear_incumbent sy req) (\<lambda>retired.
     pbind (new_lease sy req) (\<lambda>lease.
     pbind (insert_lease_row sy lease) (\<lambda>inserted.
       if inserted then ret (lease, retired)
       else pbind (select_active sy (q_task_id req)) (\<lambda>row.
         throw (LeaseHeld (q_task_id req)
           (case row of Some l \<Rightarrow> holder_of l | None \<Rightarrow> lit ''another agent''))))))))"

definition acquire_outcome ::
    "sys \<Rightarrow> acquire_request \<Rightarrow> (lease \<times> retired_lease option) prog" where
  "acquire_outcome sy req =
     pbind (check_ttl_option (q_ttl_seconds req)) (\<lambda>_.
       write_transaction sy (acquire_in_transaction sy req))"

definition acquire :: "sys \<Rightarrow> acquire_request \<Rightarrow> lease prog" where
  "acquire sy req = pbind (acquire_outcome sy req) (\<lambda>(lease, _). ret lease)"

section \<open>Using a lease\<close>

text \<open>\<open>ORDER BY created_at DESC LIMIT 1\<close>; of two rows with one creation time, the later one.\<close>

definition latest_status :: "str \<Rightarrow> str \<Rightarrow> lease list \<Rightarrow> str option" where
  "latest_status task_id token rows =
     (case rev (sort_key l_created_at
                  (filter (\<lambda>r. l_task_id r = task_id \<and> l_token r = token) rows)) of
        [] \<Rightarrow> None
      | r # _ \<Rightarrow> Some (l_status r))"

definition diagnose :: "sys \<Rightarrow> str \<Rightarrow> str \<Rightarrow> lease_code prog" where
  "diagnose sy task_id token =
     pbind (active_lease sy task_id) (\<lambda>r.
       case r of
         Some active \<Rightarrow> if l_token active = token then ret Valid else ret HeldByOther
       | None \<Rightarrow>
           pbind (query sy (\<lambda>d. latest_status task_id token (leases d))) (\<lambda>prior.
             if prior = Some st_stale \<or> prior = Some st_released then ret Expired
             else ret Invalid))"

definition validate :: "sys \<Rightarrow> str \<Rightarrow> str \<Rightarrow> bool prog" where
  "validate sy task_id token = pbind (diagnose sy task_id token) (\<lambda>c. ret (c = Valid))"

definition release :: "sys \<Rightarrow> str \<Rightarrow> str \<Rightarrow> bool prog" where
  "release sy task_id token =
     pbind (active_lease sy task_id) (\<lambda>r.
       case r of
         None \<Rightarrow> ret False
       | Some active \<Rightarrow>
           if l_token active \<noteq> token then ret False
           else
             pbind (now_epoch sy) (\<lambda>now.
             pbind (update_leases sy
                      (release_where (l_id active) token)
                      (mark_released (format_iso_utc now))) (\<lambda>changed.
             ret (changed = 1))))"

definition update_returning :: "sys \<Rightarrow> (lease \<Rightarrow> bool) \<Rightarrow> (lease \<Rightarrow> lease) \<Rightarrow> lease option prog" where
  "update_returning sy p f =
     exec sy (\<lambda>d. (Inr (map_option f (find p (leases d))),
                   d\<lparr>leases := fst (sql_update p f (leases d))\<rparr>))"

definition renew :: "sys \<Rightarrow> str \<Rightarrow> str \<Rightarrow> int \<Rightarrow> lease option prog" where
  "renew sy task_id token ttl_seconds =
     pbind (check_ttl ttl_seconds) (\<lambda>_.
     pbind (active_lease sy task_id) (\<lambda>r.
       case r of
         None \<Rightarrow> ret None
       | Some active \<Rightarrow>
           if l_token active \<noteq> token then ret None
           else
             pbind (now_epoch sy) (\<lambda>now.
             pbind (case l_expires_at active of
                      None \<Rightarrow> ret False
                    | Some expiry \<Rightarrow> pbind (bad_timestamp expiry) (\<lambda>epoch. ret (now > epoch)))
               (\<lambda>lapsed.
                 if lapsed then ret None
                 else update_returning sy (renew_where (unixepoch sy) (l_id active) task_id token now)
                        (set_expiry (format_iso_utc (sat_add_i64 now ttl_seconds)))))))"

section \<open>Listings\<close>

definition lease_state_at :: "int \<Rightarrow> lease \<Rightarrow> lease_state" where
  "lease_state_at now l =
     (case l_expires_at l of
        None \<Rightarrow> Live
      | Some expires \<Rightarrow>
          (case parse_iso_utc expires of
             Some epoch \<Rightarrow> if now > epoch then ExpiredState else Live
           | None \<Rightarrow> BadExpiry expires))"

definition observe_leases :: "sys \<Rightarrow> (lease \<times> lease_state) list prog" where
  "observe_leases sy =
     pbind (query sy (\<lambda>d. sort_key l_task_id (filter is_active (leases d)))) (\<lambda>ls.
     pbind (now_epoch sy) (\<lambda>now.
     ret (map (\<lambda>l. (l, lease_state_at now l)) ls)))"

fun sweep_tasks :: "sys \<Rightarrow> str list \<Rightarrow> sweep \<Rightarrow> sweep prog" where
  "sweep_tasks sy [] out = ret out"
| "sweep_tasks sy (task_id # rest) out =
     attempt (active_lease sy task_id) (\<lambda>r.
       case r of
         Inr (Some lease) \<Rightarrow> sweep_tasks sy rest (out\<lparr>s_live := s_live out @ [lease]\<rparr>)
       | Inr None \<Rightarrow> sweep_tasks sy rest out
       | Inl (BadTimestamp _) \<Rightarrow>
           pbind (select_active sy task_id) (\<lambda>row.
             case row of
               Some lease \<Rightarrow> sweep_tasks sy rest (out\<lparr>s_unreadable := s_unreadable out @ [lease]\<rparr>)
             | None \<Rightarrow> sweep_tasks sy rest out)
       | Inl e \<Rightarrow> throw e)"

definition sweep_expired :: "sys \<Rightarrow> sweep prog" where
  "sweep_expired sy =
     pbind (query sy (\<lambda>d. remdups (map l_task_id (filter is_active (leases d))))) (\<lambda>task_ids.
     sweep_tasks sy task_ids \<lparr>s_live = [], s_unreadable = []\<rparr>)"

definition active_leases :: "sys \<Rightarrow> lease list prog" where
  "active_leases sy = pbind (sweep_expired sy) (\<lambda>s. ret (sort_key l_task_id (s_live s)))"

definition unreadable_leases :: "sys \<Rightarrow> lease list prog" where
  "unreadable_leases sy = pbind (sweep_expired sy) (\<lambda>s. ret (sort_key l_task_id (s_unreadable s)))"

section \<open>The ready list\<close>

datatype ready_mode = Enforce | Advisory | Off

definition parse_mode :: "str \<Rightarrow> ready_mode option" where
  "parse_mode raw =
     (if raw = lit ''enforce'' then Some Enforce
      else if raw = lit ''advisory'' then Some Advisory
      else if raw = lit ''off'' then Some Off
      else None)"

fun mode_as_str :: "ready_mode \<Rightarrow> str" where
  "mode_as_str Enforce = lit ''enforce''"
| "mode_as_str Advisory = lit ''advisory''"
| "mode_as_str Off = lit ''off''"

record ready_task =
  d_id :: str
  d_blocking_gap_count :: nat

definition ready_to_checkout :: "ready_task \<Rightarrow> bool" where
  "ready_to_checkout t = (d_blocking_gap_count t = 0)"

definition blocking_count :: "db \<Rightarrow> str \<Rightarrow> nat" where
  "blocking_count d task_id = length (filter (\<lambda>g. g_task_id g = Some task_id \<and> g_blocking g) (gaps d))"

definition ready_item :: "db \<Rightarrow> item \<Rightarrow> bool" where
  "ready_item d i \<longleftrightarrow>
     i_deleted i = 0 \<and> i_archived i = 0 \<and> i_status i = lit ''ready'' \<and>
     i_repository i = LOCAL_REPOSITORY_ID \<and> \<not> list_ex (active_for (i_id i)) (leases d)"

definition ready_order :: "sys \<Rightarrow> db \<Rightarrow> item \<Rightarrow> bool \<times> int \<times> int \<times> str" where
  "ready_order sy d i =
     (0 < blocking_count d (i_id i),
      case json_priority sy (i_body i) of None \<Rightarrow> 2 | Some p \<Rightarrow> p,
      case i_position i of None \<Rightarrow> 0 | Some p \<Rightarrow> p,
      i_id i)"

definition ready_query :: "sys \<Rightarrow> db \<Rightarrow> ready_task list" where
  "ready_query sy d =
     map (\<lambda>i. \<lparr>d_id = i_id i, d_blocking_gap_count = blocking_count d (i_id i)\<rparr>)
       (sort_key (ready_order sy d) (filter (ready_item d) (item_rows d)))"

definition ready_tasks :: "sys \<Rightarrow> ready_mode \<Rightarrow> ready_task list prog" where
  "ready_tasks sy mode =
     pbind (sweep_expired sy) (\<lambda>_.
     pbind (items_present sy) (\<lambda>present.
       if \<not> present then ret []
       else pbind (query sy (ready_query sy)) (\<lambda>rows.
         ret (filter (\<lambda>t. \<not> (mode = Enforce \<and> \<not> ready_to_checkout t)) rows))))"

end
