(* ===== verification/Lease_Safety.thy ===== *)
theory Lease_Safety
  imports Lease
begin

text \<open>
  What the lease operations keep, whatever other connections do meanwhile.

  \<open>lease_step\<close> is one writing statement of the crate on the lease table, and the operations are shown
  to be sequences of such steps as long as the other connections are. Invariants of the table are
  then proved once on \<open>lease_step\<close>: at most one active lease per task, and rows that have left the
  active status are never written again. The locale \<open>lease_guarantee\<close> is the interface between the
  two halves: any relation on databases that the statements and the other connections respect is
  respected by the operations; \<open>table_guarantee\<close> is the case of a relation on the lease table.
\<close>

section \<open>Programs compose\<close>

lemma pbind_ret: "pbind (ret x) f = f x"
  by (simp add: fun_eq_iff pbind_def attempt_def ret_def)

lemma pbind_assoc: "pbind (pbind m f) g = pbind m (\<lambda>x. pbind (f x) g)"
  by (auto simp: fun_eq_iff pbind_def attempt_def throw_def split: prod.split sum.split)

section \<open>Rely and guarantee\<close>

definition keeps :: "(db \<Rightarrow> db \<Rightarrow> bool) \<Rightarrow> 'a prog \<Rightarrow> bool" where
  "keeps R m \<longleftrightarrow> (\<forall>w. R (w_db w) (w_db (snd (m w))))"

named_theorems keeps_intros \<open>programs that keep a relation on the database\<close>

lemma keepsI: "(\<And>w. R (w_db w) (w_db (snd (m w)))) \<Longrightarrow> keeps R m"
  by (simp add: keeps_def)

lemma keepsD: "keeps R m \<Longrightarrow> m w = (r, w') \<Longrightarrow> R (w_db w) (w_db w')"
  by (metis keeps_def snd_conv)

lemma leases_tick_db [simp]: "w_db (tick_db d w) = d" "w_tx (tick_db d w) = w_tx w"
  "w_tick (tick_db d w) = Suc (w_tick w)"
  by (simp_all add: tick_db_def)

text \<open>A change of the rows with one identifier, of the three kinds the statements make.\<close>

inductive row_change :: "(lease \<Rightarrow> lease) \<Rightarrow> bool" where
  "row_change (mark_stale at)"
| "row_change (mark_released at)"
| "row_change (set_expiry e)"

lemma where_active:
  "retire_where i e r \<Longrightarrow> is_active r \<and> l_id r = i"
  "retire_active_where i r \<Longrightarrow> is_active r \<and> l_id r = i"
  "release_where i token r \<Longrightarrow> is_active r \<and> l_id r = i"
  "renew_where u i t token now r \<Longrightarrow> is_active r \<and> l_id r = i"
  by (auto simp: retire_where_def retire_active_where_def release_where_def renew_where_def)

text \<open>
  What a relation on databases must satisfy to hold across every lease operation: it composes, it
  absorbs what other connections do, and it holds across the writing statements.
\<close>

locale lease_guarantee =
  fixes sy :: sys and R :: "db \<Rightarrow> db \<Rightarrow> bool"
  assumes R_refl: "R d d"
    and R_trans: "R a b \<Longrightarrow> R b c \<Longrightarrow> R a c"
    and R_env: "R d (env sy n d)"
    and R_insert: "insert_lease l (leases d) = Some rows \<Longrightarrow> is_active l \<Longrightarrow> R d (d\<lparr>leases := rows\<rparr>)"
    and R_update: "row_change f \<Longrightarrow> (\<And>r. p r \<Longrightarrow> is_active r \<and> l_id r = i) \<Longrightarrow>
                   R d (d\<lparr>leases := fst (sql_update p f (leases d))\<rparr>)"
begin

lemma keeps_ret [keeps_intros]: "keeps R (ret x)"
  by (simp add: keeps_def ret_def R_refl)

lemma keeps_throw [keeps_intros]: "keeps R (throw e)"
  by (simp add: keeps_def throw_def R_refl)

lemma keeps_lift [keeps_intros]: "keeps R (lift_result x)"
  by (simp add: keeps_def lift_result_def R_refl)

lemma keeps_now [keeps_intros]: "keeps R (now_epoch sy)"
  by (simp add: keeps_def now_epoch_def R_refl)

lemma keeps_attempt [keeps_intros]:
  assumes "keeps R m" "\<And>r. keeps R (h r)"
  shows "keeps R (attempt m h)"
proof (rule keepsI)
  fix w
  obtain r w' where "m w = (r, w')" by fastforce
  then show "R (w_db w) (w_db (snd (attempt m h w)))"
    using keepsD [OF assms(1)] assms(2) R_trans by (fastforce simp: attempt_def keeps_def)
qed

lemma keeps_pbind [keeps_intros]:
  assumes "keeps R m" "\<And>x. keeps R (f x)"
  shows "keeps R (pbind m f)"
  unfolding pbind_def by (rule keeps_attempt [OF assms(1)]) (auto split: sum.split intro: keeps_throw assms(2))

lemma R_seen: "R (w_db w) (seen_db sy w)"
  by (simp add: seen_db_def R_refl R_env)

lemma keeps_exec:
  assumes "\<And>d. R d (snd (st d))"
  shows "keeps R (exec sy st)"
  using R_trans [OF R_seen assms] R_seen
  by (auto intro!: keepsI simp: exec_def split: option.split prod.split) (metis snd_conv)

lemma keeps_query [keeps_intros]: "keeps R (query sy q)"
  unfolding query_def by (rule keeps_exec) (simp add: R_refl)

lemma keeps_update:
  assumes "row_change f" "\<And>r. p r \<Longrightarrow> is_active r \<and> l_id r = i"
  shows "keeps R (update_leases sy p f)"
  unfolding update_leases_def
  by (rule keeps_exec) (use R_update [OF assms] in \<open>auto split: prod.split simp: sql_update_def\<close>)

lemma keeps_update_returning:
  assumes "row_change f" "\<And>r. p r \<Longrightarrow> is_active r \<and> l_id r = i"
  shows "keeps R (update_returning sy p f)"
  unfolding update_returning_def by (rule keeps_exec) (use R_update [OF assms] in simp)

lemma keeps_insert [keeps_intros]:
  assumes "is_active l"
  shows "keeps R (insert_lease_row sy l)"
  unfolding insert_lease_row_def
  by (rule keeps_exec) (use R_insert [OF _ assms] R_refl in \<open>auto split: option.split\<close>)

lemma keeps_write_transaction [keeps_intros]:
  assumes "keeps R m"
  shows "keeps R (write_transaction sy m)"
proof (rule keepsI)
  fix w
  obtain r w' where m: "m ((tick_db (seen_db sy w) w)\<lparr>w_tx := True\<rparr>) = (r, w')" by fastforce
  from keepsD [OF assms m] have "R (w_db w) (w_db w')"
    using R_trans [OF R_seen] by simp
  then show "R (w_db w) (w_db (snd (write_transaction sy m w)))"
    using R_seen by (auto simp: write_transaction_def m Let_def split: option.split sum.split)
qed

text \<open>The operations, in the order they build on each other.\<close>

lemma keeps_select_active [keeps_intros]: "keeps R (select_active sy t)"
  unfolding select_active_def by (rule keeps_query)

lemma keeps_retire [keeps_intros]: "keeps R (retire sy l)"
  unfolding retire_def
  by (intro keeps_intros keeps_update [where i = "l_id l"]) (auto intro: row_change.intros dest: where_active)

lemma keeps_retire_active [keeps_intros]: "keeps R (retire_active sy i)"
  unfolding retire_active_def
  by (intro keeps_intros keeps_update [where i = i]) (auto intro: row_change.intros dest: where_active)

lemma keeps_bad_timestamp [keeps_intros]: "keeps R (bad_timestamp e)"
  unfolding bad_timestamp_def by (auto split: option.split intro: keeps_intros)

lemma keeps_expiry_passes [keeps_intros]: "keeps R (expiry_passes sy t n)"
  by (induction n) (auto intro!: keeps_intros split: option.split)

lemma keeps_active_lease [keeps_intros]: "keeps R (active_lease sy t)"
  unfolding active_lease_def by (rule keeps_expiry_passes)

lemma keeps_check_ttl [keeps_intros]: "keeps R (check_ttl t)" "keeps R (check_ttl_option o')"
  by (auto simp: check_ttl_def check_ttl_option_def split: sum.split option.split intro: keeps_intros)

lemma keeps_items [keeps_intros]: "keeps R (items_present sy)" "keeps R (is_local_item sy t)"
    "keeps R (require_acquirable sy t)"
  unfolding items_present_def is_local_item_def require_acquirable_def
  by (auto intro!: keeps_intros)

lemma keeps_new_blob [keeps_intros]: "keeps R (new_blob sy n)"
proof (rule keepsI)
  fix w :: world
  have "keeps R (exec sy (\<lambda>d. (Inr (randomblob sy (w_tick w) n), d)))"
    by (rule keeps_exec) (simp add: R_refl)
  then have "keeps R (pbind (exec sy (\<lambda>d. (Inr (randomblob sy (w_tick w) n), d))) (\<lambda>b. ret (hex b)))"
    by (rule keeps_pbind) (rule keeps_ret)
  then show "R (w_db w) (w_db (snd (new_blob sy n w)))"
    by (simp add: keeps_def new_blob_def)
qed

lemma keeps_clear_incumbent [keeps_intros]: "keeps R (clear_incumbent sy req)"
  unfolding clear_incumbent_def incumbent_answer_def
  by (auto intro!: keeps_intros split: sum.split option.split store_error.split)

lemma keeps_acquire_in_transaction [keeps_intros]: "keeps R (acquire_in_transaction sy req)"
  unfolding acquire_in_transaction_def new_lease_def new_id_def new_token_def pbind_assoc pbind_ret
  by (auto intro!: keeps_intros simp: is_active_def)

lemma keeps_acquire [keeps_intros]: "keeps R (acquire_outcome sy req)" "keeps R (acquire sy req)"
  unfolding acquire_def acquire_outcome_def by (auto intro!: keeps_intros)

lemma keeps_diagnose [keeps_intros]: "keeps R (diagnose sy t tok)" "keeps R (validate sy t tok)"
  unfolding diagnose_def validate_def by (auto intro!: keeps_intros split: option.split)

lemma keeps_release [keeps_intros]: "keeps R (release sy t tok)"
proof -
  have "keeps R (update_leases sy (release_where i tok) (mark_released at))" for i at
    by (rule keeps_update [where i = i]) (auto intro: row_change.intros dest: where_active)
  then show ?thesis unfolding release_def by (auto intro!: keeps_intros split: option.split)
qed

lemma keeps_renew [keeps_intros]: "keeps R (renew sy t tok ttl)"
proof -
  have "keeps R (update_returning sy (renew_where (unixepoch sy) i t tok now) (set_expiry e))" for i now e
    by (rule keeps_update_returning [where i = i]) (auto intro: row_change.intros dest: where_active)
  then show ?thesis unfolding renew_def by (auto intro!: keeps_intros split: option.split)
qed

lemma keeps_sweep_tasks [keeps_intros]: "keeps R (sweep_tasks sy ts out)"
  by (induction ts arbitrary: out)
    (auto intro!: keeps_intros split: sum.split option.split store_error.split)

lemma keeps_listings [keeps_intros]: "keeps R (sweep_expired sy)" "keeps R (active_leases sy)"
    "keeps R (unreadable_leases sy)" "keeps R (observe_leases sy)" "keeps R (ready_tasks sy mode)"
  unfolding sweep_expired_def active_leases_def unreadable_leases_def observe_leases_def ready_tasks_def
  by (auto intro!: keeps_intros)

end

text \<open>
  The interface for a relation on the lease table alone: other connections run the same statements
  on it, so they keep the relation too, and it is kept by every operation in any environment.
\<close>

locale table_guarantee =
  fixes T :: "lease list \<Rightarrow> lease list \<Rightarrow> bool"
  assumes T_refl: "T rows rows"
    and T_trans: "T a b \<Longrightarrow> T b c \<Longrightarrow> T a c"
    and T_insert: "insert_lease l rows = Some rows' \<Longrightarrow> is_active l \<Longrightarrow> T rows rows'"
    and T_update: "row_change f \<Longrightarrow> (\<And>r. p r \<Longrightarrow> is_active r \<and> l_id r = i) \<Longrightarrow>
                   T rows (fst (sql_update p f rows))"
begin

lemma T_foreign: "T (leases d) (leases (foreign_step u x d))"
proof (cases x)
  case (Foreign_insert l)
  then show ?thesis
    using T_insert [of "l\<lparr>l_status := st_active\<rparr>" "leases d"] T_refl
    by (auto simp: is_active_def split: option.split)
qed (auto simp: T_refl intro!: T_update row_change.intros dest: where_active)

lemma T_env: "T (leases d) (leases (env sy n d))"
proof -
  have "T (leases d) (leases (fold (foreign_step u) xs d))" for u xs
    by (induction xs arbitrary: d) (auto simp: T_refl intro: T_trans T_foreign)
  then show ?thesis by (simp add: env_def)
qed

end

sublocale table_guarantee \<subseteq> ops: lease_guarantee sy "\<lambda>d d'. T (leases d) (leases d')" for sy
proof unfold_locales
  fix f p i and d :: db assume "row_change f" "\<And>r. p r \<Longrightarrow> is_active r \<and> l_id r = i"
  then show "T (leases d) (leases (d\<lparr>leases := fst (sql_update p f (leases d))\<rparr>))" using T_update by simp
qed (auto intro: T_refl T_trans T_env T_insert)

section \<open>The table under any interleaving\<close>

inductive lease_step :: "lease list \<Rightarrow> lease list \<Rightarrow> bool" where
  step_insert: "insert_lease l rows = Some rows' \<Longrightarrow> is_active l \<Longrightarrow> lease_step rows rows'"
| step_update: "row_change f \<Longrightarrow> (\<And>r. p r \<Longrightarrow> is_active r \<and> l_id r = i) \<Longrightarrow>
                lease_step rows (fst (sql_update p f rows))"

inductive_cases row_changeE: "row_change f"

interpretation steps: table_guarantee "rtranclp lease_step"
proof unfold_locales
  fix f p i rows assume "row_change f" "\<And>r. p r \<Longrightarrow> is_active r \<and> l_id r = i"
  then show "rtranclp lease_step rows (fst (sql_update p f rows))" by (blast intro: step_update)
qed (auto intro: step_insert)

text \<open>
  The table invariant: identifiers are unique, a task has at most one active row, and a status is one
  of the three the crate writes.
\<close>

definition table_ok :: "lease list \<Rightarrow> bool" where
  "table_ok rows \<longleftrightarrow>
     distinct (map l_id rows) \<and> distinct (map l_task_id (filter is_active rows)) \<and>
     (\<forall>r\<in>set rows. l_status r \<in> {st_active, st_stale, st_released})"

lemma row_change_fields [simp]:
  "l_id (mark_stale at r) = l_id r" "l_id (mark_released at r) = l_id r" "l_id (set_expiry e r) = l_id r"
  "l_task_id (mark_stale at r) = l_task_id r" "l_task_id (mark_released at r) = l_task_id r"
  "l_task_id (set_expiry e r) = l_task_id r" "l_token (set_expiry e r) = l_token r"
  "l_token (mark_stale at r) = l_token r" "l_token (mark_released at r) = l_token r"
  "\<not> is_active (mark_stale at r)" "\<not> is_active (mark_released at r)"
  "is_active (set_expiry e r) = is_active r"
  by (simp_all add: mark_stale_def mark_released_def set_expiry_def is_active_def)

lemma fst_sql_update: "fst (sql_update p f rows) = map (\<lambda>r. if p r then f r else r) rows"
  by (simp add: sql_update_def)

lemma update_tasks:
  assumes "\<And>r. l_task_id (f r) = l_task_id r" "\<And>r. is_active (f r) \<Longrightarrow> is_active r"
    "distinct (map l_task_id (filter is_active rows))"
  shows "distinct (map l_task_id (filter is_active (map f rows)))"
  using assms(3)
proof (induction rows)
  case (Cons r rows)
  have "l_task_id ` {x \<in> f ` set rows. is_active x} \<subseteq> l_task_id ` {x \<in> set rows. is_active x}"
    using assms(1,2) by (auto simp: image_iff)
  then show ?case using Cons assms(1,2) by (auto split: if_splits)
qed simp

lemma table_ok_update:
  assumes "row_change f" "\<And>r. p r \<Longrightarrow> is_active r" "table_ok rows"
  shows "table_ok (fst (sql_update p f rows))"
proof -
  let ?g = "\<lambda>r. if p r then f r else r"
  have f: "l_id (f r) = l_id r" "l_task_id (f r) = l_task_id r" "is_active (f r) \<Longrightarrow> is_active r" for r
    using assms(1) by (auto elim: row_changeE)
  have "map l_id (map ?g rows) = map l_id rows" using f by simp
  moreover have "distinct (map l_task_id (filter is_active (map ?g rows)))"
    by (rule update_tasks) (use f assms(2,3) in \<open>auto simp: table_ok_def split: if_splits\<close>)
  moreover have "\<forall>r\<in>set (map ?g rows). l_status r \<in> {st_active, st_stale, st_released}"
    using assms(1,3) by (auto simp: table_ok_def mark_stale_def mark_released_def set_expiry_def elim!: row_changeE)
  ultimately show ?thesis using assms(3) unfolding table_ok_def fst_sql_update by metis
qed

lemma table_ok_insert:
  "insert_lease l rows = Some rows' \<Longrightarrow> is_active l \<Longrightarrow> table_ok rows \<Longrightarrow> table_ok rows'"
  by (auto simp: insert_lease_def table_ok_def list_ex_iff is_active_def split: if_splits) metis+

interpretation ok: table_guarantee "\<lambda>a b. table_ok a \<longrightarrow> table_ok b"
proof unfold_locales
  fix f p i rows assume "row_change f" "\<And>r. p r \<Longrightarrow> is_active r \<and> l_id r = i"
  then show "table_ok rows \<longrightarrow> table_ok (fst (sql_update p f rows))" using table_ok_update by blast
qed (auto intro: table_ok_insert)

text \<open>
  What may become of one row: its identity never changes, and once it has left the active status
  nothing changes at all. Rows are only ever added after the existing ones.
\<close>

definition row_evolves :: "lease \<Rightarrow> lease \<Rightarrow> bool" where
  "row_evolves r r' \<longleftrightarrow>
     r' = r\<lparr>l_status := l_status r', l_expires_at := l_expires_at r', l_released_at := l_released_at r'\<rparr> \<and>
     (\<not> is_active r \<longrightarrow> r' = r)"

definition table_evolves :: "lease list \<Rightarrow> lease list \<Rightarrow> bool" where
  "table_evolves rows rows' \<longleftrightarrow> (\<exists>a b. rows' = a @ b \<and> list_all2 row_evolves rows a)"

lemma row_evolves_fields:
  "row_evolves r r' \<Longrightarrow>
     (l_id r', l_task_id r', l_owner r', l_token r', l_created_at r') =
       (l_id r, l_task_id r, l_owner r, l_token r, l_created_at r) \<and> (\<not> is_active r \<longrightarrow> r' = r)"
  by (cases r; cases r') (auto simp: row_evolves_def is_active_def)

lemma row_evolves_refl [simp]: "row_evolves r r"
  by (simp add: row_evolves_def)

lemma row_evolves_trans: "row_evolves a b \<Longrightarrow> row_evolves b c \<Longrightarrow> row_evolves a c"
  by (cases a; cases b; cases c) (auto simp: row_evolves_def is_active_def)

lemma table_evolves_trans:
  assumes "table_evolves x y" "table_evolves y z"
  shows "table_evolves x z"
proof -
  obtain a b where y: "y = a @ b" "list_all2 row_evolves x a" using assms(1) by (auto simp: table_evolves_def)
  obtain c d where z: "z = c @ d" "list_all2 row_evolves (a @ b) c" using assms(2) y by (auto simp: table_evolves_def)
  then obtain c1 c2 where c: "c = c1 @ c2" "list_all2 row_evolves a c1" by (auto simp: list_all2_append1)
  have "list_all2 row_evolves x c1" using list_all2_trans [of row_evolves row_evolves row_evolves] row_evolves_trans y(2) c(2) by blast
  then show ?thesis using z c by (auto simp: table_evolves_def)
qed

interpretation hist: table_guarantee table_evolves
proof unfold_locales
  fix rows show "table_evolves rows rows"
    unfolding table_evolves_def by (intro exI [of _ rows] exI [of _ "[]"]) (simp add: list_all2_refl)
next
  fix l rows rows' assume "insert_lease l rows = Some rows'"
  then have "rows' = rows @ [l]" by (auto simp: insert_lease_def split: if_splits)
  then show "table_evolves rows rows'" 
    unfolding table_evolves_def by (intro exI [of _ rows] exI [of _ "[l]"]) (simp add: list_all2_refl)
next
  fix f p i rows assume f: "row_change f" and p: "\<And>r. p r \<Longrightarrow> is_active r \<and> l_id r = i"
  have "row_evolves r (if p r then f r else r)" for r
    using f p [of r] by (auto simp: row_evolves_def mark_stale_def mark_released_def set_expiry_def elim!: row_changeE)
  then have "list_all2 row_evolves rows (fst (sql_update p f rows))"
    unfolding fst_sql_update list_all2_conv_all_nth by (metis length_map nth_map)
  then show "table_evolves rows (fst (sql_update p f rows))" using append_Nil2 table_evolves_def by metis
qed (rule table_evolves_trans)

lemma distinct_active_le_1:
  assumes "distinct (map l_task_id (filter is_active rows))"
  shows "length (filter (active_for t) rows) \<le> 1"
proof -
  have "filter (active_for t) rows = filter (\<lambda>l. l_task_id l = t) (filter is_active rows)"
    by (induction rows) (auto simp: active_for_def)
  moreover have "distinct (map l_task_id xs) \<Longrightarrow> length (filter (\<lambda>l. l_task_id l = t) xs) \<le> 1" for xs
    by (induction xs) (auto simp: filter_empty_conv Suc_le_eq image_iff)
  ultimately show ?thesis using assms by metis
qed

section \<open>Sequences of calls\<close>

datatype store_call =
    Call_acquire acquire_request
  | Call_diagnose str str
  | Call_validate str str
  | Call_release str str
  | Call_renew str str int
  | Call_observe
  | Call_active
  | Call_unreadable
  | Call_ready ready_mode

fun run_call :: "sys \<Rightarrow> store_call \<Rightarrow> world \<Rightarrow> world" where
  "run_call sy (Call_acquire req) w = snd (acquire_outcome sy req w)"
| "run_call sy (Call_diagnose t tok) w = snd (diagnose sy t tok w)"
| "run_call sy (Call_validate t tok) w = snd (validate sy t tok w)"
| "run_call sy (Call_release t tok) w = snd (release sy t tok w)"
| "run_call sy (Call_renew t tok ttl) w = snd (renew sy t tok ttl w)"
| "run_call sy Call_observe w = snd (observe_leases sy w)"
| "run_call sy Call_active w = snd (active_leases sy w)"
| "run_call sy Call_unreadable w = snd (unreadable_leases sy w)"
| "run_call sy (Call_ready mode) w = snd (ready_tasks sy mode w)"

definition run_calls :: "sys \<Rightarrow> store_call list \<Rightarrow> world \<Rightarrow> world" where
  "run_calls sy cs w = fold (run_call sy) cs w"

context lease_guarantee
begin

lemma run_call_keeps: "R (w_db w) (w_db (run_call sy c w))"
  using keeps_acquire keeps_diagnose keeps_release keeps_renew keeps_listings
  by (cases c) (simp_all add: keeps_def)

lemma run_calls_keep: "R (w_db w) (w_db (run_calls sy cs w))"
  unfolding run_calls_def
  by (induction cs arbitrary: w) (auto simp: R_refl intro: R_trans [OF run_call_keeps])

end

text \<open>
  Every sequence of store calls, with any writes of other connections between its statements and
  any statement failing, is a sequence of single lease statements on the table.
\<close>

theorem calls_refine_steps:
  "rtranclp lease_step (leases (w_db w)) (leases (w_db (run_calls sy cs w)))"
  by (rule steps.ops.run_calls_keep)

text \<open>
  C6. Mutual exclusion: from a table with at most one active lease per task, no sequence of calls and
  no interleaving with other connections reaches one where a task has two.
\<close>

theorem one_active_lease:
  assumes "table_ok (leases (w_db w))"
  shows "length (filter (active_for t) (leases (w_db (run_calls sy cs w)))) \<le> 1"
proof -
  have "distinct (map l_task_id (filter is_active (leases (w_db (run_calls sy cs w)))))"
    using ok.ops.run_calls_keep [of w sy cs] assms by (simp add: table_ok_def)
  then show ?thesis by (rule distinct_active_le_1)
qed

text \<open>A store with one task and one closed lease on it, and a machine with other connections at work.\<close>

definition sample_item :: item where
  "sample_item = \<lparr>i_id = lit ''T1'', i_title = lit ''t'', i_status = lit ''ready'', i_deleted = 0,
     i_archived = 0, i_repository = LOCAL_REPOSITORY_ID, i_position = None, i_body = []\<rparr>"

definition sample_lease :: lease where
  "sample_lease = \<lparr>l_id = lit ''L0'', l_task_id = lit ''T1'', l_owner = lit ''ann'', l_agent = None,
     l_client_id = None, l_run_id = None, l_branch = None, l_token = lit ''k0'',
     l_status = st_released, l_created_at = lit ''2026-01-01T00:00:00+00:00'', l_expires_at = None,
     l_released_at = Some (lit ''2026-01-01T01:00:00+00:00'')\<rparr>"

definition sample_db :: db where
  "sample_db = \<lparr>leases = [sample_lease], work_items = Some [sample_item], appends = [], requirements = [], gaps = [],
     gap_columns = [lit ''stdout_path'', lit ''stderr_path''], gap_runs = [], gap_history = [], evidence = [], evidence_seq = 0, verification_runs = [],
     agent_handoffs = [], reviews = [], reviews_seq = 0\<rparr>"

definition sample_world :: world where
  "sample_world = \<lparr>w_db = sample_db, w_tick = 0, w_tx = False\<rparr>"

definition sample_request :: acquire_request where
  "sample_request = \<lparr>q_task_id = lit ''T1'', q_owner = lit ''bob'', q_agent = None, q_client_id = None,
     q_run_id = None, q_branch = None, q_ttl_seconds = Some 60, q_force = False\<rparr>"

definition quiet_sys :: sys where
  "quiet_sys = \<lparr>clock = (\<lambda>_. 1700000000), others = (\<lambda>_. []), fault = (\<lambda>_. None),
     randomblob = (\<lambda>k n. replicate n (k mod 256)), unixepoch = parse_iso_utc, json_priority = (\<lambda>_. None),
     json_extract = (\<lambda>_ _. None), json_requirement_ids = (\<lambda>_. [])\<rparr>"

definition busy_sys :: sys where
  "busy_sys = quiet_sys\<lparr>others := (\<lambda>k. [Foreign_insert (sample_lease\<lparr>l_id := show_nat k\<rparr>),
     Foreign_release (show_nat (k - 1)) (lit ''k0'') []])\<rparr>"

lemma sample_ok: "table_ok (leases (w_db sample_world))"
  by (simp add: table_ok_def sample_world_def sample_db_def sample_lease_def is_active_def)

theorem one_active_lease_witness:
  "table_ok (leases (w_db sample_world)) \<and>
   length (filter (active_for (lit ''T1''))
     (leases (w_db (run_calls busy_sys [Call_acquire sample_request, Call_active] sample_world)))) \<le> 1"
  using sample_ok one_active_lease [OF sample_ok] by blast

text \<open>
  The history is append-only: whatever the calls and the other connections do, the existing rows
  stay in place with their identity, and a row that is no longer active is never written again.
\<close>

theorem closed_leases_frozen:
  fixes w :: world and sy :: sys and cs :: "store_call list"
  assumes "i < length (leases (w_db w))"
  defines "before \<equiv> leases (w_db w) ! i" and "after \<equiv> leases (w_db (run_calls sy cs w)) ! i"
  shows "i < length (leases (w_db (run_calls sy cs w))) \<and>
         (l_id after, l_task_id after, l_owner after, l_token after, l_created_at after) =
           (l_id before, l_task_id before, l_owner before, l_token before, l_created_at before) \<and>
         (\<not> is_active before \<longrightarrow> after = before)"
proof -
  obtain a b where e: "leases (w_db (run_calls sy cs w)) = a @ b" "list_all2 row_evolves (leases (w_db w)) a"
    using hist.ops.run_calls_keep [of w sy cs] by (auto simp: table_evolves_def)
  then have "i < length a" using assms(1) by (simp add: list_all2_lengthD)
  moreover have "row_evolves before (a ! i)" using e(2) assms(1) by (simp add: before_def list_all2_nthD)
  ultimately have "row_evolves before after" by (simp add: after_def e(1) nth_append)
  then show ?thesis using \<open>i < length a\<close> e(1) row_evolves_fields by simp
qed

theorem closed_leases_frozen_witness:
  "\<not> is_active sample_lease \<and>
   leases (w_db (run_calls busy_sys [Call_renew (lit ''T1'') (lit ''k0'') 60, Call_acquire sample_request,
     Call_release (lit ''T1'') (lit ''k0'')] sample_world)) ! 0 = sample_lease"
proof -
  have "\<not> is_active sample_lease" by (simp add: is_active_def sample_lease_def)
  moreover have "leases (w_db sample_world) ! 0 = sample_lease" "0 < length (leases (w_db sample_world))"
    by (simp_all add: sample_world_def sample_db_def)
  ultimately show ?thesis using closed_leases_frozen [of 0 sample_world] by metis
qed

end
