(* ===== verification/Lease_Spec.thy ===== *)
theory Lease_Spec
  imports Lease_Safety
begin

text \<open>
  What each lease operation answers and writes when its statements run without interference: inside
  a write transaction, or while no other connection writes. Statements may still fail, and the clock
  may read differently each time. The rules are in weakest-precondition style: \<open>wp m w Q\<close> says that
  the outcome and the final world of \<open>m\<close> from \<open>w\<close> satisfy \<open>Q\<close>.
\<close>

section \<open>Weakest preconditions\<close>

definition wp :: "'a prog \<Rightarrow> world \<Rightarrow> (store_error + 'a \<Rightarrow> world \<Rightarrow> bool) \<Rightarrow> bool" where
  "wp m w Q = (case m w of (r, w') \<Rightarrow> Q r w')"

named_theorems wp_simps \<open>weakest preconditions of the constructs\<close>

lemma wp_ret [wp_simps]: "wp (ret x) w Q = Q (Inr x) w"
  by (simp add: wp_def ret_def)

lemma wp_throw [wp_simps]: "wp (throw e) w Q = Q (Inl e) w"
  by (simp add: wp_def throw_def)

lemma wp_lift [wp_simps]: "wp (lift_result r) w Q = Q r w"
  by (simp add: wp_def lift_result_def)

lemma wp_attempt [wp_simps]: "wp (attempt m h) w Q = wp m w (\<lambda>r w'. wp (h r) w' Q)"
  by (simp add: wp_def attempt_def split: prod.split)

lemma wp_pbind [wp_simps]:
  "wp (pbind m f) w Q = wp m w (\<lambda>r w'. case r of Inl e \<Rightarrow> Q (Inl e) w' | Inr x \<Rightarrow> wp (f x) w' Q)"
  by (auto simp: wp_def pbind_def attempt_def throw_def split: prod.split sum.split)

lemma wp_now [wp_simps]:
  "wp (now_epoch sy) w Q = Q (Inr (clock sy (w_tick w))) (tick_db (w_db w) w)"
  by (simp add: wp_def now_epoch_def tick_db_def)

lemma wp_conseq: "wp m w P \<Longrightarrow> (\<And>r w'. P r w' \<Longrightarrow> Q r w') \<Longrightarrow> wp m w Q"
  by (auto simp: wp_def)

lemma wpD: "wp m w Q \<Longrightarrow> m w = (r, w') \<Longrightarrow> Q r w'"
  by (simp add: wp_def)

section \<open>Statements without interference\<close>

definition isolated :: "sys \<Rightarrow> world \<Rightarrow> bool" where
  "isolated sy w \<longleftrightarrow> w_tx w \<or> (\<forall>n. others sy n = [])"

lemma isolated_seen [simp]: "isolated sy w \<Longrightarrow> seen_db sy w = w_db w"
  by (auto simp: isolated_def seen_db_def env_def)

lemma isolated_tick [simp]: "isolated sy (tick_db d w) = isolated sy w"
  by (simp add: isolated_def)

lemma wp_exec [wp_simps]:
  "isolated sy w \<Longrightarrow>
   wp (exec sy st) w Q =
     (case fault sy (w_tick w) of
        Some m \<Rightarrow> Q (Inl (Sql m)) (tick_db (w_db w) w)
      | None \<Rightarrow> Q (fst (st (w_db w))) (tick_db (snd (st (w_db w))) w))"
  by (simp add: wp_def exec_def split: option.split prod.split)

lemma wp_query [wp_simps]:
  "isolated sy w \<Longrightarrow>
   wp (query sy q) w Q =
     (case fault sy (w_tick w) of
        Some m \<Rightarrow> Q (Inl (Sql m)) (tick_db (w_db w) w)
      | None \<Rightarrow> Q (Inr (q (w_db w))) (tick_db (w_db w) w))"
  by (simp add: query_def wp_simps split: option.split)

lemma wp_select_active [wp_simps]:
  "isolated sy w \<Longrightarrow>
   wp (select_active sy t) w Q =
     (case fault sy (w_tick w) of
        Some m \<Rightarrow> Q (Inl (Sql m)) (tick_db (w_db w) w)
      | None \<Rightarrow> Q (Inr (find (active_for t) (leases (w_db w)))) (tick_db (w_db w) w))"
  by (simp add: select_active_def wp_query)

lemma wp_update_leases [wp_simps]:
  "isolated sy w \<Longrightarrow>
   wp (update_leases sy p f) w Q =
     (case fault sy (w_tick w) of
        Some m \<Rightarrow> Q (Inl (Sql m)) (tick_db (w_db w) w)
      | None \<Rightarrow> Q (Inr (length (filter p (leases (w_db w)))))
                  (tick_db ((w_db w)\<lparr>leases := map (\<lambda>r. if p r then f r else r) (leases (w_db w))\<rparr>) w))"
  by (simp add: update_leases_def wp_exec sql_update_def split: option.split)

section \<open>One row of a well-formed table\<close>

definition change_row :: "lease \<Rightarrow> (lease \<Rightarrow> lease) \<Rightarrow> db \<Rightarrow> db" where
  "change_row l f d = d\<lparr>leases := map (\<lambda>r. if r = l then f r else r) (leases d)\<rparr>"

lemma active_rows:
  assumes "table_ok rows" "find (active_for t) rows = Some l"
  shows "l \<in> set rows" "is_active l" "l_task_id l = t"
    and "r \<in> set rows \<Longrightarrow> active_for t r \<longleftrightarrow> r = l"
    and "r \<in> set rows \<Longrightarrow> l_id r = l_id l \<longleftrightarrow> r = l"
proof -
  show l: "l \<in> set rows" "is_active l" "l_task_id l = t"
    using assms(2) by (auto simp: find_Some_iff active_for_def)
  show "r \<in> set rows \<Longrightarrow> active_for t r \<longleftrightarrow> r = l"
    using assms(1) l by (auto simp: table_ok_def active_for_def distinct_map inj_on_def)
  show "r \<in> set rows \<Longrightarrow> l_id r = l_id l \<longleftrightarrow> r = l"
    using assms(1) l by (auto simp: table_ok_def distinct_map inj_on_def)
qed

lemma update_one:
  assumes "table_ok rows" "l \<in> set rows" "\<And>r. r \<in> set rows \<Longrightarrow> p r \<longleftrightarrow> r = l"
  shows "map (\<lambda>r. if p r then f r else r) rows = map (\<lambda>r. if r = l then f r else r) rows"
    and "length (filter p rows) = 1"
proof -
  show "map (\<lambda>r. if p r then f r else r) rows = map (\<lambda>r. if r = l then f r else r) rows"
    using assms(3) by (auto intro: map_cong)
  have "distinct rows" using assms(1) by (auto simp: table_ok_def distinct_map)
  moreover have "set (filter p rows) = {l}" using assms(2,3) by auto
  ultimately show "length (filter p rows) = 1" by (metis distinct_card distinct_filter card.empty card_insert_disjoint empty_iff finite.emptyI One_nat_def)
qed

text \<open>The table after a lease for a task was looked up, and lapsed.\<close>

definition stale_active :: "str \<Rightarrow> str \<Rightarrow> db \<Rightarrow> db" where
  "stale_active t at d =
     d\<lparr>leases := map (\<lambda>r. if active_for t r then mark_stale at r else r) (leases d)\<rparr>"

lemma stale_active_eq:
  assumes "table_ok (leases d)" "find (active_for t) (leases d) = Some l"
  shows "d\<lparr>leases := map (\<lambda>r. if retire_where (l_id l) (l_expires_at l) r then mark_stale at r else r) (leases d)\<rparr>
           = stale_active t at d"
    and "d\<lparr>leases := map (\<lambda>r. if retire_active_where (l_id l) r then mark_stale at r else r) (leases d)\<rparr>
           = stale_active t at d"
    and "length (filter (retire_where (l_id l) (l_expires_at l)) (leases d)) = 1"
proof -
  have l: "l \<in> set (leases d)" by (rule active_rows(1) [OF assms])
  have p: "retire_where (l_id l) (l_expires_at l) r = (r = l)" "retire_active_where (l_id l) r = (r = l)"
      "active_for t r = (r = l)" if "r \<in> set (leases d)" for r
    using active_rows(2) [OF assms] active_rows(4,5) [OF assms that]
    unfolding retire_active_where_def retire_where_def by blast+
  show "length (filter (retire_where (l_id l) (l_expires_at l)) (leases d)) = 1"
    by (rule update_one(2) [OF assms(1) l p(1)])
  have "map (\<lambda>r. if retire_where (l_id l) (l_expires_at l) r then mark_stale at r else r) (leases d) =
        map (\<lambda>r. if active_for t r then mark_stale at r else r) (leases d)"
    "map (\<lambda>r. if retire_active_where (l_id l) r then mark_stale at r else r) (leases d) =
        map (\<lambda>r. if active_for t r then mark_stale at r else r) (leases d)"
    by (rule map_cong [OF refl], simp add: p)+
  then show "d\<lparr>leases := map (\<lambda>r. if retire_where (l_id l) (l_expires_at l) r then mark_stale at r else r) (leases d)\<rparr>
           = stale_active t at d"
    "d\<lparr>leases := map (\<lambda>r. if retire_active_where (l_id l) r then mark_stale at r else r) (leases d)\<rparr>
           = stale_active t at d"
    by (simp_all only: stale_active_def)
qed

lemma stale_active_props:
  "table_ok (leases d) \<Longrightarrow> table_ok (leases (stale_active t at d))"
  "find (active_for t) (leases (stale_active t at d)) = None"
  "find (active_for t) (leases d) = None \<Longrightarrow> stale_active t at d = d"
  "leases (stale_active t at d) = map (\<lambda>r. if active_for t r then mark_stale at r else r) (leases d)"
proof -
  have "table_ok (fst (sql_update (active_for t) (mark_stale at) (leases d)))" if "table_ok (leases d)"
    using that by (intro table_ok_update) (auto intro: row_change.intros simp: active_for_def)
  then show "table_ok (leases d) \<Longrightarrow> table_ok (leases (stale_active t at d))"
    by (simp add: stale_active_def fst_sql_update)
  have "\<not> active_for t (if active_for t r then mark_stale at r else r)" for r
    by (simp add: active_for_def)
  then have "\<forall>x\<in>(\<lambda>r. if active_for t r then mark_stale at r else r) ` set (leases d). \<not> active_for t x"
    by blast
  moreover have rows: "leases (stale_active t at d) = map (\<lambda>r. if active_for t r then mark_stale at r else r) (leases d)"
    by (simp add: stale_active_def)
  ultimately have "\<forall>x\<in>set (leases (stale_active t at d)). \<not> active_for t x" by (simp only: set_map)
  then show "find (active_for t) (leases (stale_active t at d)) = None" by (auto simp: find_None_iff)
  show "leases (stale_active t at d) = map (\<lambda>r. if active_for t r then mark_stale at r else r) (leases d)"
    by (rule rows)
  assume "find (active_for t) (leases d) = None"
  then have "map (\<lambda>r. if active_for t r then mark_stale at r else r) (leases d) = leases d"
    by (auto simp: find_None_iff intro: map_idI)
  then show "stale_active t at d = d" by (simp add: stale_active_def)
qed

lemma wp_retire:
  assumes "isolated sy w" "table_ok (leases (w_db w))" "find (active_for t) (leases (w_db w)) = Some l"
  shows "wp (retire sy l) w Q =
     (case fault sy (Suc (w_tick w)) of
        Some m \<Rightarrow> Q (Inl (Sql m)) (tick_db (w_db w) (tick_db (w_db w) w))
      | None \<Rightarrow> Q (Inr True) (tick_db (stale_active t (format_iso_utc (clock sy (w_tick w))) (w_db w)) (tick_db (w_db w) w)))"
  using stale_active_eq [OF assms(2,3)] assms(1) by (simp add: retire_def wp_simps split: option.split)

lemma wp_retire_active:
  assumes "isolated sy w" "table_ok (leases (w_db w))" "find (active_for t) (leases (w_db w)) = Some l"
  shows "wp (retire_active sy (l_id l)) w Q =
     (case fault sy (Suc (w_tick w)) of
        Some m \<Rightarrow> Q (Inl (Sql m)) (tick_db (w_db w) (tick_db (w_db w) w))
      | None \<Rightarrow> Q (Inr ()) (tick_db (stale_active t (format_iso_utc (clock sy (w_tick w))) (w_db w)) (tick_db (w_db w) w)))"
  using stale_active_eq [OF assms(2,3)] assms(1) by (simp add: retire_active_def wp_simps split: option.split)

text \<open>
  The five ways a look-up of the active lease can end: a failed statement, no active row, a live one,
  one whose expiry is unreadable, one that has lapsed and is now stale.
\<close>

definition active_post :: "sys \<Rightarrow> str \<Rightarrow> world \<Rightarrow> store_error + lease option \<Rightarrow> world \<Rightarrow> bool" where
  "active_post sy t w r w' \<longleftrightarrow>
     w_tx w' = w_tx w \<and>
     ((\<exists>n m. fault sy n = Some m \<and> r = Inl (Sql m) \<and> w_db w' = w_db w) \<or>
      (case find (active_for t) (leases (w_db w)) of
         None \<Rightarrow> r = Inr None \<and> w_db w' = w_db w
       | Some l \<Rightarrow>
           (\<exists>n. case lease_state_at (clock sy n) l of
              Live \<Rightarrow> r = Inr (Some l) \<and> w_db w' = w_db w
            | BadExpiry e \<Rightarrow> r = Inl (BadTimestamp e) \<and> w_db w' = w_db w
            | ExpiredState \<Rightarrow> r = Inr None \<and>
                (\<exists>k. w_db w' = stale_active t (format_iso_utc (clock sy k)) (w_db w)))))"

lemma active_postI:
  "fault sy n = Some m \<Longrightarrow> w_tx w' = w_tx w \<Longrightarrow> w_db w' = w_db w \<Longrightarrow> active_post sy t w (Inl (Sql m)) w'"
  "find (active_for t) (leases (w_db w)) = None \<Longrightarrow> w_tx w' = w_tx w \<Longrightarrow> w_db w' = w_db w \<Longrightarrow>
     active_post sy t w (Inr None) w'"
  "find (active_for t) (leases (w_db w)) = Some l \<Longrightarrow> lease_state_at (clock sy k) l = Live \<Longrightarrow>
     w_tx w' = w_tx w \<Longrightarrow> w_db w' = w_db w \<Longrightarrow> active_post sy t w (Inr (Some l)) w'"
  "find (active_for t) (leases (w_db w)) = Some l \<Longrightarrow> lease_state_at (clock sy k) l = BadExpiry e \<Longrightarrow>
     w_tx w' = w_tx w \<Longrightarrow> w_db w' = w_db w \<Longrightarrow> active_post sy t w (Inl (BadTimestamp e)) w'"
  unfolding active_post_def by (auto intro: exI [of _ k])

lemma active_post_stale:
  assumes "find (active_for t) (leases (w_db w)) = Some l" "lease_state_at (clock sy k) l = ExpiredState"
    "w_tx w' = w_tx w" "w_db w' = stale_active t (format_iso_utc (clock sy j)) (w_db w)"
  shows "active_post sy t w (Inr None) w'"
proof -
  have "case lease_state_at (clock sy k) l of
          Live \<Rightarrow> Inr None = (Inr (Some l) :: store_error + lease option) \<and> w_db w' = w_db w
        | BadExpiry e \<Rightarrow> Inr None = (Inl (BadTimestamp e) :: store_error + lease option) \<and> w_db w' = w_db w
        | ExpiredState \<Rightarrow> Inr None = (Inr None :: store_error + lease option) \<and>
            (\<exists>k. w_db w' = stale_active t (format_iso_utc (clock sy k)) (w_db w))"
    using assms(2,4) by auto
  then show ?thesis using assms(1,3) unfolding active_post_def by auto
qed

lemma wp_active_lease:
  assumes "isolated sy w" "table_ok (leases (w_db w))"
  shows "wp (active_lease sy t) w (active_post sy t w)"
proof -
  have passes: "MAX_EXPIRY_PASSES = Suc 7" by (simp add: MAX_EXPIRY_PASSES_def)
  have u: "wp (active_lease sy t) w Q =
     wp (select_active sy t) w (\<lambda>r w'. case r of Inl e \<Rightarrow> Q (Inl e) w' | Inr row \<Rightarrow>
       wp (case row of None \<Rightarrow> ret None | Some lease \<Rightarrow>
           (case l_expires_at lease of None \<Rightarrow> ret (Some lease)
            | Some expires \<Rightarrow> pbind (bad_timestamp expires) (\<lambda>x. pbind (now_epoch sy) (\<lambda>now.
                if now \<le> x then ret (Some lease)
                else pbind (retire sy lease) (\<lambda>won. if won then ret None else expiry_passes sy t 7))))) w' Q)" for Q
    unfolding active_lease_def passes expiry_passes.simps by (rule wp_pbind)
  show ?thesis
  proof (cases "find (active_for t) (leases (w_db w))")
    case None
    then show ?thesis using assms unfolding u by (auto simp: wp_simps active_post_def split: option.split)
  next
    case (Some l)
    show ?thesis
    proof (cases "l_expires_at l")
      case None
      then show ?thesis using assms Some unfolding u
        by (auto simp: wp_simps active_post_def lease_state_at_def split: option.split)
    next
      case e: (Some e)
      show ?thesis
      proof (cases "parse_iso_utc e")
        case None
        then show ?thesis using assms Some e unfolding u
          by (auto simp: wp_simps active_post_def lease_state_at_def bad_timestamp_def split: option.split)
      next
        case (Some x)
        then have st: "lease_state_at (clock sy (Suc (w_tick w))) l =
            (if clock sy (Suc (w_tick w)) \<le> x then Live else ExpiredState)"
          using e by (simp add: lease_state_at_def)
        show ?thesis using assms \<open>find _ _ = Some l\<close> e Some st unfolding u
          by (auto simp: wp_simps bad_timestamp_def wp_retire split: option.split if_splits
              intro: active_postI active_post_stale)
      qed
    qed
  qed
qed

section \<open>Acquiring\<close>

definition faulted :: "sys \<Rightarrow> store_error \<Rightarrow> bool" where
  "faulted sy e \<longleftrightarrow> (\<exists>n m. fault sy n = Some m \<and> e = Sql m)"

lemma faultedI [simp]: "fault sy n = Some m \<Longrightarrow> faulted sy (Sql m)"
  by (auto simp: faulted_def)

definition task_row :: "str \<Rightarrow> db \<Rightarrow> (str \<times> int) option" where
  "task_row t d = map_option (\<lambda>i. (i_status i, i_archived i)) (find (local_item t) (item_rows d))"

lemma wp_require:
  assumes "isolated sy w"
  shows "wp (require_acquirable sy t) w (\<lambda>r w'. w_db w' = w_db w \<and> w_tx w' = w_tx w \<and>
           ((\<exists>e. r = Inl e \<and> faulted sy e) \<or> r = judge_acquirable t (task_row t (w_db w))))"
proof -
  have "work_items (w_db w) = None \<Longrightarrow> task_row t (w_db w) = None"
    by (simp add: task_row_def item_rows_def)
  then show ?thesis using assms
    by (auto simp: require_acquirable_def items_present_def wp_simps task_row_def split: option.split)
qed

definition refuses :: "sys \<Rightarrow> acquire_request \<Rightarrow> db \<Rightarrow> store_error \<Rightarrow> bool" where
  "refuses sy req d e \<longleftrightarrow>
     \<not> q_force req \<and>
     (\<exists>l n. find (active_for (q_task_id req)) (leases d) = Some l \<and>
        (case lease_state_at (clock sy n) l of
           Live \<Rightarrow> e = LeaseHeld (q_task_id req) (holder_of l)
         | BadExpiry v \<Rightarrow> e = BadTimestamp (unreadable_note (q_task_id req) v)
         | ExpiredState \<Rightarrow> False))"

definition incumbent_gone :: "sys \<Rightarrow> str \<Rightarrow> db \<Rightarrow> bool" where
  "incumbent_gone sy t d \<longleftrightarrow>
     (\<forall>l. find (active_for t) (leases d) = Some l \<longrightarrow> (\<exists>n. lease_state_at (clock sy n) l = ExpiredState))"

definition unreadable_incumbent :: "str \<Rightarrow> db \<Rightarrow> retired_lease option" where
  "unreadable_incumbent t d =
     (case find (active_for t) (leases d) of
        None \<Rightarrow> None
      | Some l \<Rightarrow>
          (case l_expires_at l of
             None \<Rightarrow> None
           | Some e \<Rightarrow>
               if parse_iso_utc e = None
               then Some \<lparr>t_lease_id = l_id l, t_owner = l_owner l, t_expires_at = e\<rparr> else None))"

lemma state_unreadable:
  "lease_state_at now l = BadExpiry e \<longleftrightarrow> l_expires_at l = Some e \<and> parse_iso_utc e = None"
  "lease_state_at now l = Live \<Longrightarrow> l_expires_at l = Some e \<Longrightarrow> parse_iso_utc e \<noteq> None"
  "lease_state_at now l = ExpiredState \<Longrightarrow> l_expires_at l = Some e \<Longrightarrow> parse_iso_utc e \<noteq> None"
  by (auto simp: lease_state_at_def split: option.splits if_splits)

definition clear_post :: "sys \<Rightarrow> acquire_request \<Rightarrow> world \<Rightarrow> store_error + retired_lease option \<Rightarrow> world \<Rightarrow> bool" where
  "clear_post sy req w r w' \<longleftrightarrow>
     w_tx w' = w_tx w \<and>
     (case r of
        Inl e \<Rightarrow> faulted sy e \<or> refuses sy req (w_db w) e
      | Inr x \<Rightarrow>
          (\<exists>at. w_db w' = stale_active (q_task_id req) at (w_db w)) \<and>
          (q_force req \<or> incumbent_gone sy (q_task_id req) (w_db w)) \<and>
          x = unreadable_incumbent (q_task_id req) (w_db w))"

lemma clear_postI:
  "faulted sy e \<Longrightarrow> w_tx w' = w_tx w \<Longrightarrow> clear_post sy req w (Inl e) w'"
  "refuses sy req (w_db w) e \<Longrightarrow> w_tx w' = w_tx w \<Longrightarrow> clear_post sy req w (Inl e) w'"
  "w_db w' = stale_active (q_task_id req) at (w_db w) \<Longrightarrow> w_tx w' = w_tx w \<Longrightarrow>
     q_force req \<or> incumbent_gone sy (q_task_id req) (w_db w) \<Longrightarrow>
     x = unreadable_incumbent (q_task_id req) (w_db w) \<Longrightarrow> clear_post sy req w (Inr x) w'"
  by (auto simp: clear_post_def)

lemma wp_clear_incumbent:
  assumes iso: "isolated sy w" and ok: "table_ok (leases (w_db w))"
  shows "wp (clear_incumbent sy req) w (clear_post sy req w)"
  unfolding clear_incumbent_def wp_attempt
proof (rule wp_conseq [OF wp_active_lease [OF iso ok]])
  fix r w'
  let ?t = "q_task_id req"
  assume post: "active_post sy ?t w r w'"
  then have tx: "w_tx w' = w_tx w" by (simp add: active_post_def)
  then have iso': "isolated sy w'" using iso by (simp add: isolated_def)
  note steps = incumbent_answer_def wp_ret wp_throw wp_pbind wp_select_active
  consider (fault) e where "r = Inl e" "faulted sy e"
    | (none) "find (active_for ?t) (leases (w_db w)) = None" "r = Inr None" "w_db w' = w_db w"
    | (row) l n where "find (active_for ?t) (leases (w_db w)) = Some l"
        "case lease_state_at (clock sy n) l of
            Live \<Rightarrow> r = Inr (Some l) \<and> w_db w' = w_db w
          | BadExpiry e \<Rightarrow> r = Inl (BadTimestamp e) \<and> w_db w' = w_db w
          | ExpiredState \<Rightarrow> r = Inr None \<and>
              (\<exists>k. w_db w' = stale_active ?t (format_iso_utc (clock sy k)) (w_db w))"
    using post by (auto simp: active_post_def faulted_def split: option.splits)
  then show "wp (incumbent_answer sy req r) w' (clear_post sy req w)"
  proof cases
    case fault
    then show ?thesis using tx by (auto simp: steps faulted_def clear_post_def)
  next
    case none
    have "stale_active ?t at (w_db w) = w_db w" for at using none(1) by (rule stale_active_props(3))
    then show ?thesis using none tx
      by (auto simp: steps incumbent_gone_def unreadable_incumbent_def intro!: clear_postI(3))
  next
    case (row l n)
    show ?thesis
    proof (cases "lease_state_at (clock sy n) l")
      case Live
      then have u: "unreadable_incumbent ?t (w_db w) = None"
        using row(1) state_unreadable(2) [OF Live] by (auto simp: unreadable_incumbent_def split: option.split)
      have "refuses sy req (w_db w) (LeaseHeld ?t (holder_of l))" if "\<not> q_force req"
        using that row(1) Live by (auto simp: refuses_def intro!: exI [of _ n])
      then show ?thesis using row Live tx iso' ok u
        by (auto simp: steps wp_retire_active split: option.split intro: clear_postI)
    next
      case ExpiredState
      then have "unreadable_incumbent ?t (w_db w) = None" "incumbent_gone sy ?t (w_db w)"
        using row(1) state_unreadable(3) [OF ExpiredState] ExpiredState
        by (auto simp: unreadable_incumbent_def incumbent_gone_def split: option.split)
      then show ?thesis using row ExpiredState tx by (auto simp: steps intro: clear_postI)
    next
      case (BadExpiry e)
      then have u: "unreadable_incumbent ?t (w_db w) =
          Some \<lparr>t_lease_id = l_id l, t_owner = l_owner l, t_expires_at = e\<rparr>" and e: "l_expires_at l = Some e"
        using row(1) state_unreadable(1) by (auto simp: unreadable_incumbent_def)
      have "refuses sy req (w_db w) (BadTimestamp (unreadable_note ?t e))" if "\<not> q_force req"
        using that row(1) BadExpiry by (auto simp: refuses_def intro!: exI [of _ n])
      then show ?thesis using row BadExpiry tx iso' ok u e
        by (auto simp: steps wp_retire_active split: option.split intro: clear_postI)
    qed
  qed
qed

lemma wp_new_blob [wp_simps]:
  fixes w :: world
  assumes "isolated sy w"
  shows "wp (new_blob sy n) w Q =
     (case fault sy (w_tick w) of
        Some m \<Rightarrow> Q (Inl (Sql m)) (tick_db (w_db w) w)
      | None \<Rightarrow> Q (Inr (hex (randomblob sy (w_tick w) n))) (tick_db (w_db w) w))"
proof -
  have "wp (new_blob sy n) w Q =
      wp (pbind (exec sy (\<lambda>d. (Inr (randomblob sy (w_tick w) n), d))) (\<lambda>b. ret (hex b))) w Q"
    by (simp add: wp_def new_blob_def)
  then show ?thesis using assms by (simp add: wp_simps split: option.split)
qed

text \<open>The row a request mints: its identity and its expiry, from three readings of the environment.\<close>

definition minted :: "sys \<Rightarrow> acquire_request \<Rightarrow> lease \<Rightarrow> bool" where
  "minted sy req l \<longleftrightarrow>
     (l_task_id l, l_owner l, l_agent l, l_client_id l, l_run_id l, l_branch l) =
       (q_task_id req, q_owner req, q_agent req, q_client_id req, q_run_id req, q_branch req) \<and>
     is_active l \<and> l_released_at l = None \<and>
     (\<exists>i k. l_id l = hex (randomblob sy i 16) \<and> l_token l = hex (randomblob sy k 32)) \<and>
     (\<exists>n. l_created_at l = format_iso_utc (clock sy n) \<and>
          l_expires_at l = map_option (\<lambda>ttl. format_iso_utc (sat_add_i64 (clock sy n) ttl)) (q_ttl_seconds req))"

lemma wp_new_lease:
  assumes "isolated sy w"
  shows "wp (new_lease sy req) w (\<lambda>r w'. w_db w' = w_db w \<and> w_tx w' = w_tx w \<and>
           (case r of Inl e \<Rightarrow> faulted sy e | Inr l \<Rightarrow> minted sy req l))"
proof -
  have m: "minted sy req \<lparr>l_id = hex (randomblob sy i 16), l_task_id = q_task_id req, l_owner = q_owner req,
      l_agent = q_agent req, l_client_id = q_client_id req, l_run_id = q_run_id req, l_branch = q_branch req,
      l_token = hex (randomblob sy k 32), l_status = st_active, l_created_at = format_iso_utc (clock sy n),
      l_expires_at = map_option (\<lambda>ttl. format_iso_utc (sat_add_i64 (clock sy n) ttl)) (q_ttl_seconds req),
      l_released_at = None\<rparr>" for i k n
    unfolding minted_def by (auto simp: is_active_def)
  show ?thesis using assms
    by (simp add: new_lease_def new_id_def new_token_def wp_simps m split: option.split)
qed

text \<open>The reasons for a refusal, and what a grant is.\<close>

definition ttl_ok :: "int option \<Rightarrow> bool" where
  "ttl_ok t = (case t of None \<Rightarrow> True | Some ttl \<Rightarrow> 0 < ttl \<and> ttl \<le> MAX_TTL_SECONDS)"

definition acquire_refused :: "sys \<Rightarrow> acquire_request \<Rightarrow> db \<Rightarrow> store_error \<Rightarrow> bool" where
  "acquire_refused sy req d e \<longleftrightarrow>
     (\<exists>ttl. q_ttl_seconds req = Some ttl \<and> \<not> ttl_ok (Some ttl) \<and> e = BadTtl ttl) \<or>
     faulted sy e \<or>
     judge_acquirable (q_task_id req) (task_row (q_task_id req) d) = Inl e \<or>
     refuses sy req d e \<or>
     (\<exists>n h. hex (randomblob sy n 16) \<in> l_id ` set (leases d) \<and> e = LeaseHeld (q_task_id req) h)"

definition acquire_granted ::
    "sys \<Rightarrow> acquire_request \<Rightarrow> db \<Rightarrow> lease \<times> retired_lease option \<Rightarrow> db \<Rightarrow> bool" where
  "acquire_granted sy req d out d' \<longleftrightarrow>
     ttl_ok (q_ttl_seconds req) \<and>
     judge_acquirable (q_task_id req) (task_row (q_task_id req) d) = Inr () \<and>
     (q_force req \<or> incumbent_gone sy (q_task_id req) d) \<and>
     minted sy req (fst out) \<and> l_id (fst out) \<notin> l_id ` set (leases d) \<and>
     snd out = unreadable_incumbent (q_task_id req) d \<and>
     (\<exists>at. d' = (stale_active (q_task_id req) at d)
                  \<lparr>leases := leases (stale_active (q_task_id req) at d) @ [fst out]\<rparr>)"

lemma check_ttl_option_eq:
  "check_ttl_option t = (if ttl_ok t then ret () else throw (BadTtl (the t)))"
  by (auto simp: check_ttl_option_def check_ttl_def validate_ttl_def ttl_ok_def split: option.split)

lemma bex_image: "(\<exists>r\<in>S. f r = i) \<longleftrightarrow> i \<in> f ` S"
  by auto

lemma insert_after_clear:
  assumes "minted sy req l"
  shows "insert_lease l (leases (stale_active (q_task_id req) at d)) =
           (if l_id l \<in> l_id ` set (leases d) then None
            else Some (leases (stale_active (q_task_id req) at d) @ [l]))"
proof -
  have "l_id ` set (leases (stale_active (q_task_id req) at d)) = l_id ` set (leases d)"
  proof -
    have "map l_id (leases (stale_active (q_task_id req) at d)) = map l_id (leases d)"
      by (simp add: stale_active_props(4))
    then show ?thesis by (metis set_map)
  qed
  then have "(\<exists>r\<in>set (leases (stale_active (q_task_id req) at d)). l_id r = l_id l) \<longleftrightarrow> l_id l \<in> l_id ` set (leases d)"
    unfolding bex_image by (rule arg_cong)
  moreover have "\<not> (\<exists>r\<in>set (leases (stale_active (q_task_id req) at d)). is_active r \<and> l_task_id r = l_task_id l)"
  proof -
    have t: "l_task_id l = q_task_id req" using assms by (simp add: minted_def)
    show ?thesis
      unfolding t using stale_active_props(2) [of "q_task_id req" at d, unfolded find_None_iff active_for_def]
      by blast
  qed
  ultimately show ?thesis unfolding insert_lease_def list_ex_iff by presburger
qed

lemma wp_acquire_in_transaction:
  assumes iso: "isolated sy w" and ok: "table_ok (leases (w_db w))"
  shows "wp (acquire_in_transaction sy req) w (\<lambda>r w'.
           case r of Inl e \<Rightarrow> acquire_refused sy req (w_db w) e
                   | Inr out \<Rightarrow> acquire_granted sy req (w_db w) out (w_db w'))"
    (is "wp _ w ?Q")
proof (cases "ttl_ok (q_ttl_seconds req)")
  case False
  then show ?thesis
    by (auto simp: acquire_in_transaction_def check_ttl_option_eq wp_simps acquire_refused_def ttl_ok_def split: option.splits)
next
  case ttl: True
  let ?t = "q_task_id req" and ?d = "w_db w"
  have insert: "wp (pbind (insert_lease_row sy l) (\<lambda>inserted.
       if inserted then ret (l, x)
       else pbind (select_active sy ?t) (\<lambda>row. throw (LeaseHeld ?t
           (case row of Some l \<Rightarrow> holder_of l | None \<Rightarrow> lit ''another agent''))))) w3 ?Q"
    if mt: "minted sy req l" and w3: "w_db w3 = stale_active ?t at ?d" "isolated sy w3"
      and x: "x = unreadable_incumbent ?t ?d" and gone: "q_force req \<or> incumbent_gone sy ?t ?d"
      and j: "judge_acquirable ?t (task_row ?t ?d) = Inr ()" for l x w3 at
  proof -
    obtain n where n: "l_id l = hex (randomblob sy n 16)" using mt by (auto simp: minted_def)
    have granted: "acquire_granted sy req ?d (l, x)
        ((stale_active ?t at ?d)\<lparr>leases := leases (stale_active ?t at ?d) @ [l]\<rparr>)"
      if "l_id l \<notin> l_id ` set (leases ?d)"
      unfolding acquire_granted_def using that mt x gone j ttl by auto
    have refused: "acquire_refused sy req ?d (LeaseHeld ?t h)" if "l_id l \<in> l_id ` set (leases ?d)" for h
      using that n unfolding acquire_refused_def by auto
    have sql: "acquire_refused sy req ?d (Sql m)" if "fault sy k = Some m" for k m
      using that by (simp add: acquire_refused_def)
    show ?thesis
      using insert_after_clear [OF mt, of at ?d] w3 granted refused sql
      by (simp add: insert_lease_row_def wp_simps split: option.split)
  qed
  show ?thesis
    unfolding acquire_in_transaction_def check_ttl_option_eq if_P [OF ttl] pbind_ret
  proof (subst wp_pbind, rule wp_conseq [OF wp_require [OF iso]])
    fix r1 and w1 :: world assume r1: "w_db w1 = ?d \<and> w_tx w1 = w_tx w \<and>
       ((\<exists>e. r1 = Inl e \<and> faulted sy e) \<or> r1 = judge_acquirable ?t (task_row ?t ?d))"
    then have iso1: "isolated sy w1" and ok1: "table_ok (leases (w_db w1))" using iso ok by (auto simp: isolated_def)
    show "case r1 of Inl e \<Rightarrow> ?Q (Inl e) w1 | Inr u \<Rightarrow> wp (pbind (clear_incumbent sy req) (\<lambda>retired.
        pbind (new_lease sy req) (\<lambda>lease. pbind (insert_lease_row sy lease) (\<lambda>inserted.
          if inserted then ret (lease, retired)
          else pbind (select_active sy ?t) (\<lambda>row. throw (LeaseHeld ?t
             (case row of Some l \<Rightarrow> holder_of l | None \<Rightarrow> lit ''another agent'')))))) ) w1 ?Q"
    proof (cases r1)
      case (Inl e)
      then show ?thesis using r1 by (auto simp: acquire_refused_def)
    next
      case (Inr u)
      then have j: "judge_acquirable ?t (task_row ?t ?d) = Inr ()" using r1 by auto
      have "wp (pbind (clear_incumbent sy req) (\<lambda>retired.
        pbind (new_lease sy req) (\<lambda>lease. pbind (insert_lease_row sy lease) (\<lambda>inserted.
          if inserted then ret (lease, retired)
          else pbind (select_active sy ?t) (\<lambda>row. throw (LeaseHeld ?t
             (case row of Some l \<Rightarrow> holder_of l | None \<Rightarrow> lit ''another agent'')))))) ) w1 ?Q"
      proof (subst wp_pbind, rule wp_conseq [OF wp_clear_incumbent [OF iso1 ok1]], goal_cases)
        case (1 r2 w2)
        show ?case
        proof (cases r2)
          case (Inl e)
          then show ?thesis using 1 r1 by (auto simp: clear_post_def acquire_refused_def)
        next
          case (Inr x)
          then have c: "\<exists>at. w_db w2 = stale_active ?t at ?d" "q_force req \<or> incumbent_gone sy ?t ?d"
              "x = unreadable_incumbent ?t ?d" "isolated sy w2"
            using 1 r1 iso1 by (auto simp: clear_post_def isolated_def)
          have "wp (pbind (new_lease sy req) (\<lambda>lease. pbind (insert_lease_row sy lease) (\<lambda>inserted.
            if inserted then ret (lease, x)
            else pbind (select_active sy ?t) (\<lambda>row. throw (LeaseHeld ?t
               (case row of Some l \<Rightarrow> holder_of l | None \<Rightarrow> lit ''another agent'')))))) w2 ?Q"
          proof (subst wp_pbind, rule wp_conseq [OF wp_new_lease [OF c(4)]], goal_cases)
            case (1 r3 w3)
            then show ?case using c insert j
              by (cases r3) (auto simp: acquire_refused_def isolated_def)
          qed
          then show ?thesis using Inr by simp
        qed
      qed
      then show ?thesis using Inr by simp
    qed
  qed
qed

lemma acquire_outcome_spec:
  assumes "\<not> w_tx w" "table_ok (leases (seen_db sy w))" "acquire_outcome sy req w = (r, w')"
  shows "case r of
           Inl e \<Rightarrow> acquire_refused sy req (seen_db sy w) e \<and> (w_db w' = w_db w \<or> w_db w' = seen_db sy w)
         | Inr out \<Rightarrow> acquire_granted sy req (seen_db sy w) out (w_db w')"
proof (cases "ttl_ok (q_ttl_seconds req)")
  case False
  then show ?thesis using assms(3)
    by (auto simp: acquire_outcome_def check_ttl_option_eq pbind_def attempt_def throw_def
        acquire_refused_def ttl_ok_def split: option.splits)
next
  case True
  let ?w1 = "(tick_db (seen_db sy w) w)\<lparr>w_tx := True\<rparr>"
  have run: "write_transaction sy (acquire_in_transaction sy req) w = (r, w')"
    using assms(3) True by (simp add: acquire_outcome_def check_ttl_option_eq pbind_ret)
  obtain r2 w2 where b: "acquire_in_transaction sy req ?w1 = (r2, w2)" by fastforce
  have iso: "isolated sy ?w1" by (simp add: isolated_def)
  have "case r2 of Inl e \<Rightarrow> acquire_refused sy req (seen_db sy w) e
                 | Inr out \<Rightarrow> acquire_granted sy req (seen_db sy w) out (w_db w2)"
    using wpD [OF wp_acquire_in_transaction [OF iso] b] assms(2) by (cases r2) simp_all
  moreover have "acquire_refused sy req (seen_db sy w) (Sql m)" if "fault sy k = Some m" for k m
    using that by (simp add: acquire_refused_def)
  ultimately show ?thesis using run b
    by (auto simp: write_transaction_def Let_def split: option.splits sum.splits)
qed

text \<open>
  C10. A refused acquire leaves the store exactly as it found it, whatever went wrong: a bad TTL, a
  task that cannot be leased, a live or unreadable incumbent, or a failure of any statement of the
  transaction, its commit included.
\<close>

theorem refused_acquire_changes_nothing:
  assumes "\<not> w_tx w" "acquire_outcome sy req w = (Inl e, w')"
  shows "w_db w' = w_db w \<or> w_db w' = seen_db sy w"
proof -
  have "ttl_ok (q_ttl_seconds req) \<or> w_db w' = w_db w"
    using assms(2) by (auto simp: acquire_outcome_def check_ttl_option_eq pbind_def attempt_def throw_def split: if_splits)
  then show ?thesis using assms(2)
    by (auto simp: acquire_outcome_def check_ttl_option_eq pbind_ret write_transaction_def Let_def
        split: option.splits sum.splits prod.splits)
qed

theorem refused_acquire_changes_nothing_witness:
  "fst (acquire_outcome quiet_sys (sample_request\<lparr>q_ttl_seconds := Some 0, q_force := True\<rparr>) sample_world) =
     Inl (BadTtl 0) \<and>
   (w_db (snd (acquire_outcome quiet_sys (sample_request\<lparr>q_ttl_seconds := Some 0, q_force := True\<rparr>) sample_world))
      = w_db sample_world \<or>
    w_db (snd (acquire_outcome quiet_sys (sample_request\<lparr>q_ttl_seconds := Some 0, q_force := True\<rparr>) sample_world))
      = seen_db quiet_sys sample_world)"
proof -
  let ?q = "sample_request\<lparr>q_ttl_seconds := Some 0, q_force := True\<rparr>"
  have r: "acquire_outcome quiet_sys ?q sample_world = (Inl (BadTtl 0), sample_world)"
    by (simp add: acquire_outcome_def check_ttl_option_eq ttl_ok_def pbind_def attempt_def throw_def)
  have "\<not> w_tx sample_world" by (simp add: sample_world_def)
  from refused_acquire_changes_nothing [OF this r] show ?thesis unfolding r by simp
qed

text \<open>
  C9. What an acquire decides, on a well-formed table: an error names its reason, one of the five a
  request can be refused for; a grant implies that the TTL was in range, that the task was live and
  workable, that no live or unreadable lease of someone else was overridden without \<open>force\<close>, and
  that the only other change is the retirement of the task's own previous lease.
\<close>

theorem acquire_decides:
  assumes "\<not> w_tx w" "table_ok (leases (seen_db sy w))"
  shows "case fst (acquire_outcome sy req w) of
           Inl e \<Rightarrow> acquire_refused sy req (seen_db sy w) e
         | Inr out \<Rightarrow> acquire_granted sy req (seen_db sy w) out (w_db (snd (acquire_outcome sy req w)))"
  using acquire_outcome_spec [OF assms, of req] by (cases "acquire_outcome sy req w") (auto split: sum.splits)

theorem acquire_decides_witness:
  "\<not> w_tx sample_world \<and> table_ok (leases (seen_db quiet_sys sample_world)) \<and>
   (case fst (acquire_outcome quiet_sys sample_request sample_world) of
      Inl e \<Rightarrow> acquire_refused quiet_sys sample_request (seen_db quiet_sys sample_world) e
    | Inr out \<Rightarrow> acquire_granted quiet_sys sample_request (seen_db quiet_sys sample_world) out
               (w_db (snd (acquire_outcome quiet_sys sample_request sample_world))))"
proof -
  have "isolated quiet_sys sample_world" by (simp add: isolated_def quiet_sys_def)
  then have "table_ok (leases (seen_db quiet_sys sample_world))" using sample_ok by simp
  moreover have "\<not> w_tx sample_world" by (simp add: sample_world_def)
  ultimately show ?thesis using acquire_decides by blast
qed

lemma length_hex: "length (hex bs) = 2 * length bs"
  by (induction bs) (simp_all add: hex_def)

section \<open>A store at rest\<close>

text \<open>
  No statement fails, no other connection writes, and the clock stands at one second: the setting in
  which an operation must succeed and not only be safe.
\<close>

definition at_rest :: "sys \<Rightarrow> int \<Rightarrow> bool" where
  "at_rest sy now \<longleftrightarrow> (\<forall>n. fault sy n = None \<and> others sy n = [] \<and> clock sy n = now)"

lemma at_rest_simps [simp]:
  "at_rest sy now \<Longrightarrow> fault sy n = None" "at_rest sy now \<Longrightarrow> clock sy n = now"
  "at_rest sy now \<Longrightarrow> isolated sy w" "at_rest sy now \<Longrightarrow> \<not> faulted sy e"
  by (simp_all add: at_rest_def isolated_def faulted_def)

lemma acquire_must_succeed:
  assumes "at_rest sy now" "\<not> w_tx w" "table_ok (leases (w_db w))"
    and "ttl_ok (q_ttl_seconds req)"
    and "judge_acquirable (q_task_id req) (task_row (q_task_id req) (w_db w)) = Inr ()"
    and "\<And>n. hex (randomblob sy n 16) \<notin> l_id ` set (leases (w_db w))"
    and "q_force req \<or> (\<forall>l\<in>set (leases (w_db w)). active_for (q_task_id req) l \<longrightarrow>
                          lease_state_at now l = ExpiredState)"
  shows "\<exists>l x w'. acquire_outcome sy req w = (Inr (l, x), w') \<and> l \<in> set (leases (w_db w')) \<and> is_active l"
proof -
  obtain r w' where run: "acquire_outcome sy req w = (r, w')" by fastforce
  have spec: "case r of
           Inl e \<Rightarrow> acquire_refused sy req (w_db w) e
         | Inr out \<Rightarrow> acquire_granted sy req (w_db w) out (w_db w')"
    using acquire_outcome_spec [OF assms(2) _ run] assms(1,3) by (auto split: sum.splits)
  have "\<not> refuses sy req (w_db w) e" for e
  proof
    assume "refuses sy req (w_db w) e"
    then obtain l n where l: "find (active_for (q_task_id req)) (leases (w_db w)) = Some l" "\<not> q_force req"
        and "lease_state_at (clock sy n) l \<noteq> ExpiredState"
      unfolding refuses_def by (metis lease_state.simps(9))
    then have "lease_state_at now l \<noteq> ExpiredState" using assms(1) by simp
    with l show False using assms(7) by (auto simp: find_Some_iff)
  qed
  then have "\<not> acquire_refused sy req (w_db w) e" for e
    using assms(1,4-6) by (auto simp: acquire_refused_def)
  then obtain out where "r = Inr out" "acquire_granted sy req (w_db w) out (w_db w')"
    using spec by (cases r) auto
  then show ?thesis using run by (cases out) (auto simp: acquire_granted_def minted_def)
qed

text \<open>
  C30. An acquire that should succeed does: with a TTL in range, a workable task, unused random
  identifiers, and either \<open>force\<close> or no active lease on the task that has not lapsed.
\<close>

theorem acquire_succeeds:
  assumes "at_rest sy now" "\<not> w_tx w" "table_ok (leases (w_db w))"
    and "ttl_ok (q_ttl_seconds req)"
    and "judge_acquirable (q_task_id req) (task_row (q_task_id req) (w_db w)) = Inr ()"
    and "\<And>n. hex (randomblob sy n 16) \<notin> l_id ` set (leases (w_db w))"
    and "q_force req \<or> (\<forall>l\<in>set (leases (w_db w)). active_for (q_task_id req) l \<longrightarrow>
                          lease_state_at now l = ExpiredState)"
  shows "\<exists>l x w'. acquire_outcome sy req w = (Inr (l, x), w') \<and> l \<in> set (leases (w_db w')) \<and> is_active l"
  using assms by (rule acquire_must_succeed)

lemma sample_premises:
  "at_rest quiet_sys 1700000000" "\<not> w_tx sample_world" "ttl_ok (q_ttl_seconds sample_request)"
  "judge_acquirable (q_task_id sample_request) (task_row (q_task_id sample_request) (w_db sample_world)) = Inr ()"
  "hex (randomblob quiet_sys n 16) \<notin> l_id ` set (leases (w_db sample_world))"
  "q_force sample_request \<or> (\<forall>l\<in>set (leases (w_db sample_world)).
     active_for (q_task_id sample_request) l \<longrightarrow> lease_state_at 1700000000 l = ExpiredState)"
proof -
  show "hex (randomblob quiet_sys n 16) \<notin> l_id ` set (leases (w_db sample_world))"
  proof
    assume "hex (randomblob quiet_sys n 16) \<in> l_id ` set (leases (w_db sample_world))"
    then have "hex (randomblob quiet_sys n 16) = lit ''L0''"
      by (simp add: sample_world_def sample_db_def sample_lease_def)
    moreover have "length (hex (randomblob quiet_sys n 16)) = 32" by (simp add: length_hex quiet_sys_def)
    ultimately show False by simp
  qed
  show "q_force sample_request \<or> (\<forall>l\<in>set (leases (w_db sample_world)).
      active_for (q_task_id sample_request) l \<longrightarrow> lease_state_at 1700000000 l = ExpiredState)"
    by (simp add: sample_world_def sample_db_def sample_lease_def active_for_def is_active_def)
  show "judge_acquirable (q_task_id sample_request) (task_row (q_task_id sample_request) (w_db sample_world)) = Inr ()"
    by (simp add: sample_world_def sample_db_def sample_request_def sample_item_def task_row_def item_rows_def
        local_item_def judge_acquirable_def)
  show "\<not> w_tx sample_world" by (simp add: sample_world_def)
qed (simp_all add: at_rest_def quiet_sys_def sample_request_def ttl_ok_def MAX_TTL_SECONDS_def)

lemmas sample_acquire = acquire_must_succeed [OF sample_premises(1,2) sample_ok sample_premises(3-6)]

theorem acquire_succeeds_witness:
  "\<exists>l x w'. acquire_outcome quiet_sys sample_request sample_world = (Inr (l, x), w') \<and>
            l \<in> set (leases (w_db w')) \<and> is_active l"
  by (rule acquire_succeeds [OF sample_premises(1,2) sample_ok sample_premises(3-6)])

end
