(* ===== verification/Lease_Use.thy ===== *)
theory Lease_Use
  imports Lease_Spec
begin

text \<open>
  What holding a lease gives: how long a token is valid, that renewal and release act only on the
  row of the caller's own live lease whatever happens meanwhile, and which tasks are listed as ready.
\<close>

section \<open>The life of a token\<close>

lemma find_app: "find p (xs @ ys) = (case find p xs of None \<Rightarrow> find p ys | Some x \<Rightarrow> Some x)"
  by (induction xs) auto

lemma latest_status_mem:
  "latest_status t tok rows = Some st \<Longrightarrow> \<exists>r\<in>set rows. l_task_id r = t \<and> l_token r = tok \<and> l_status r = st"
  "l \<in> set rows \<Longrightarrow> l_task_id l = t \<Longrightarrow> l_token l = tok \<Longrightarrow> latest_status t tok rows \<noteq> None"
proof -
  let ?xs = "rev (sort_key l_created_at (filter (\<lambda>r. l_task_id r = t \<and> l_token r = tok) rows))"
  have s: "set ?xs = {r \<in> set rows. l_task_id r = t \<and> l_token r = tok}" by simp
  show "latest_status t tok rows = Some st \<Longrightarrow> \<exists>r\<in>set rows. l_task_id r = t \<and> l_token r = tok \<and> l_status r = st"
    using s by (cases ?xs) (auto simp: latest_status_def)
  show "l \<in> set rows \<Longrightarrow> l_task_id l = t \<Longrightarrow> l_token l = tok \<Longrightarrow> latest_status t tok rows \<noteq> None"
    using s by (cases ?xs) (auto simp: latest_status_def)
qed

lemma diagnose_live:
  assumes "at_rest sy now" "table_ok (leases (w_db w))"
    "find (active_for t) (leases (w_db w)) = Some l" "lease_state_at now l = Live"
  shows "fst (diagnose sy t tok w) = Inr (if l_token l = tok then Valid else HeldByOther)"
proof -
  have "wp (diagnose sy t tok) w (\<lambda>r _. r = Inr (if l_token l = tok then Valid else HeldByOther))"
    unfolding diagnose_def wp_pbind
    by (rule wp_conseq [OF wp_active_lease]) (use assms in \<open>auto simp: active_post_def wp_simps\<close>)
  then show ?thesis by (simp add: wp_def split: prod.splits)
qed

lemma diagnose_lapsed:
  assumes rest: "at_rest sy now" and ok: "table_ok (leases (w_db w))"
    and l: "find (active_for t) (leases (w_db w)) = Some l" "lease_state_at now l = ExpiredState"
  shows "fst (diagnose sy t (l_token l) w) = Inr Expired"
proof -
  have "wp (diagnose sy t (l_token l)) w (\<lambda>r _. r = Inr Expired)"
    unfolding diagnose_def wp_pbind
  proof (rule wp_conseq [OF wp_active_lease])
    fix r and w' :: world assume "active_post sy t w r w'"
    then obtain at where r: "r = Inr None" and w': "w_db w' = stale_active t at (w_db w)"
      using assms by (auto simp: active_post_def)
    let ?rows = "leases (stale_active t at (w_db w))"
    have ok': "table_ok ?rows" using ok by (rule stale_active_props(1))
    have "mark_stale at l \<in> set ?rows"
      using active_rows [OF ok l(1)] unfolding stale_active_props(4) by (force simp: active_for_def)
    moreover have "l_task_id l = t" using active_rows(3) [OF ok l(1)] .
    ultimately obtain st where st: "latest_status t (l_token l) ?rows = Some st"
      using latest_status_mem(2) [of "mark_stale at l" ?rows t "l_token l"] by auto
    then obtain x where "x \<in> set ?rows" "l_task_id x = t" "l_status x = st"
      using latest_status_mem(1) by blast
    moreover have "\<not> active_for t x" if "x \<in> set ?rows" for x
      using stale_active_props(2) [of t at "w_db w"] that by (auto simp: find_None_iff)
    ultimately have "st = st_stale \<or> st = st_released"
      using ok' by (auto simp: table_ok_def active_for_def is_active_def)
    then show "case r of Inl e \<Rightarrow> Inl e = Inr Expired
        | Inr x \<Rightarrow> wp (case x of None \<Rightarrow> pbind (query sy (\<lambda>d. latest_status t (l_token l) (leases d))) (\<lambda>prior.
              if prior = Some st_stale \<or> prior = Some st_released then ret Expired else ret Invalid)
          | Some active \<Rightarrow> if l_token active = l_token l then ret Valid else ret HeldByOther) w' (\<lambda>r _. r = Inr Expired)"
      using rest r w' st by (auto simp: wp_simps)
  qed (use rest ok in simp_all)
  then show ?thesis by (simp add: wp_def split: prod.splits)
qed

lemma granted_table:
  assumes "acquire_granted sy req d (l, x) d'" "table_ok (leases d)"
  shows "table_ok (leases d')" "find (active_for (q_task_id req)) (leases d') = Some l"
proof -
  obtain at where m: "minted sy req l" and i: "l_id l \<notin> l_id ` set (leases d)"
    and d': "leases d' = leases (stale_active (q_task_id req) at d) @ [l]"
    using assms(1) by (auto simp: acquire_granted_def)
  then have "insert_lease l (leases (stale_active (q_task_id req) at d)) = Some (leases d')"
    using insert_after_clear [OF m] by simp
  then show "table_ok (leases d')"
    using table_ok_insert m stale_active_props(1) [OF assms(2)] unfolding minted_def by blast
  have "active_for (q_task_id req) l" using m by (simp add: minted_def active_for_def)
  then show "find (active_for (q_task_id req)) (leases d') = Some l"
    using stale_active_props(2) [of "q_task_id req" at d] unfolding d'
    by (simp add: find_app)
qed

text \<open>
  C11. A token is valid exactly as long as it was asked for: at every later reading of the clock it
  is diagnosed as valid up to and including the last second of its TTL, and as expired after it. The
  bound on the clock is the last second of the year 9999, where the stored text has its fixed width.
\<close>

theorem lease_lifetime:
  assumes "at_rest sy now" "at_rest sy2 later" "\<not> w_tx w" "table_ok (leases (w_db w))"
    and "acquire_outcome sy req w = (Inr (l, x), w')" "q_ttl_seconds req = Some ttl"
    and "0 \<le> now" "now + ttl \<le> 253402300799"
  shows "fst (diagnose sy2 (q_task_id req) (l_token l) w') =
           Inr (if later \<le> now + ttl then Valid else Expired)"
proof -
  have g: "acquire_granted sy req (w_db w) (l, x) (w_db w')"
    using acquire_outcome_spec [OF assms(3) _ assms(5)] assms(1,4) by simp
  note t = granted_table [OF g assms(4)]
  have "0 < ttl" using g assms(6) by (simp add: acquire_granted_def ttl_ok_def)
  then have "sat_add_i64 now ttl = now + ttl" using assms(7,8) by (simp add: sat_add_i64_def I64_MAX_def I64_MIN_def)
  then have "l_expires_at l = Some (format_iso_utc (now + ttl))"
    using g assms(1,6) by (auto simp: acquire_granted_def minted_def)
  moreover have "parse_iso_utc (format_iso_utc (now + ttl)) = Some (now + ttl)"
    using parse_format_iso assms(7,8) \<open>0 < ttl\<close> by simp
  ultimately have "lease_state_at later l = (if later \<le> now + ttl then Live else ExpiredState)"
    by (simp add: lease_state_at_def)
  then show ?thesis
    using diagnose_live [OF assms(2) t] diagnose_lapsed [OF assms(2) t] by (simp split: if_splits)
qed

theorem lease_lifetime_witness:
  "\<exists>l x w'. acquire_outcome quiet_sys sample_request sample_world = (Inr (l, x), w') \<and>
     fst (diagnose (quiet_sys\<lparr>clock := \<lambda>_. 1700000060\<rparr>) (lit ''T1'') (l_token l) w') = Inr Valid \<and>
     fst (diagnose (quiet_sys\<lparr>clock := \<lambda>_. 1700000061\<rparr>) (lit ''T1'') (l_token l) w') = Inr Expired"
proof -
  obtain l x w' where a: "acquire_outcome quiet_sys sample_request sample_world = (Inr (l, x), w')"
    using sample_acquire by blast
  have later: "at_rest (quiet_sys\<lparr>clock := \<lambda>_. k\<rparr>) k" for k by (simp add: at_rest_def quiet_sys_def)
  note life = lease_lifetime [OF sample_premises(1) later sample_premises(2) sample_ok a, of 60]
  have "q_task_id sample_request = lit ''T1''" "q_ttl_seconds sample_request = Some 60"
    by (simp_all add: sample_request_def)
  then show ?thesis using a life [of 1700000060] life [of 1700000061] by auto
qed

section \<open>Renewal and release under interference\<close>

text \<open>Statements again, now with whatever other connections did just before each of them.\<close>

lemma wp_exec_any:
  "wp (exec sy st) w Q =
     (case fault sy (w_tick w) of
        Some m \<Rightarrow> Q (Inl (Sql m)) (tick_db (seen_db sy w) w)
      | None \<Rightarrow> Q (fst (st (seen_db sy w))) (tick_db (snd (st (seen_db sy w))) w))"
  by (simp add: wp_def exec_def split: option.split prod.split)

lemma wp_any: "(\<And>r w'. Q r w') \<Longrightarrow> wp m w Q"
  by (simp add: wp_def split: prod.split)

lemma wp_bindI:
  assumes "wp m w P" "\<And>x w'. P (Inr x) w' \<Longrightarrow> wp (f x) w' Q" "\<And>e w'. P (Inl e) w' \<Longrightarrow> Q (Inl e) w'"
  shows "wp (pbind m f) w Q"
  unfolding wp_pbind by (rule wp_conseq [OF assms(1)]) (auto split: sum.split intro: assms(2,3))

text \<open>
  \<open>others_only sy m n a b\<close>: from clock tick \<open>m\<close> to tick \<open>n\<close> the database went from \<open>a\<close> to \<open>b\<close> by the writes
  other connections made at some of the ticks between, in their order, and by no other.
\<close>

definition others_only :: "sys \<Rightarrow> nat \<Rightarrow> nat \<Rightarrow> db \<Rightarrow> db \<Rightarrow> bool" where
  "others_only sy m n a b \<longleftrightarrow>
     (\<exists>ticks. sorted_wrt (<) ticks \<and> set ticks \<subseteq> {m..<n} \<and> b = fold (env sy) ticks a)"

lemma others_refl: "others_only sy m n a a"
  unfolding others_only_def by (intro exI [of _ "[]"]) simp

lemma others_trans:
  assumes "others_only sy k m a b" "others_only sy m n b c" "k \<le> m" "m \<le> n"
  shows "others_only sy k n a c"
proof -
  obtain xs where xs: "sorted_wrt (<) xs" "set xs \<subseteq> {k..<m}" "b = fold (env sy) xs a"
    using assms(1) by (auto simp: others_only_def)
  obtain ys where ys: "sorted_wrt (<) ys" "set ys \<subseteq> {m..<n}" "c = fold (env sy) ys b"
    using assms(2) by (auto simp: others_only_def)
  have "sorted_wrt (<) (xs @ ys)" using xs(1,2) ys(1,2) by (fastforce simp: sorted_wrt_append)
  moreover have "set (xs @ ys) \<subseteq> {k..<n}" using xs(2) ys(2) assms(3,4) by auto
  ultimately show ?thesis using xs(3) ys(3) unfolding others_only_def by (intro exI [of _ "xs @ ys"]) simp
qed

lemma others_seen: "others_only sy (w_tick w) (Suc (w_tick w)) (w_db w) (seen_db sy w)"
proof (cases "w_tx w")
  case False
  then show ?thesis unfolding others_only_def by (intro exI [of _ "[w_tick w]"]) (simp add: seen_db_def)
qed (simp add: seen_db_def others_refl)

lemma others_quiet:
  assumes "others_only sy m n a b" "\<forall>k. others sy k = []"
  shows "b = a"
proof -
  have "fold (env sy) ticks a = a" for ticks
    using assms(2) by (induction ticks arbitrary: a) (simp_all add: env_def)
  then show ?thesis using assms(1) by (auto simp: others_only_def)
qed

lemma others_keep:
  assumes "others_only sy m n a b"
  shows "table_ok (leases a) \<Longrightarrow> table_ok (leases b)" "table_evolves (leases a) (leases b)"
proof -
  obtain ticks where b: "b = fold (env sy) ticks a" using assms by (auto simp: others_only_def)
  have "(table_ok (leases a) \<longrightarrow> table_ok (leases (fold (env sy) ticks a))) \<and>
      table_evolves (leases a) (leases (fold (env sy) ticks a))"
    by (induction ticks arbitrary: a) (use ok.T_env hist.T_env hist.T_refl hist.T_trans in fastforce)+
  then show "table_ok (leases a) \<Longrightarrow> table_ok (leases b)" "table_evolves (leases a) (leases b)" by (simp_all add: b)
qed

lemma evolved_row:
  assumes "table_evolves rows rows'" "table_ok rows'" "r \<in> set rows" "r' \<in> set rows'" "l_id r' = l_id r"
  shows "l_task_id r' = l_task_id r"
proof -
  obtain as bs where e: "rows' = as @ bs" "list_all2 row_evolves rows as" using assms(1) by (auto simp: table_evolves_def)
  obtain k where k: "k < length rows" "rows ! k = r" using assms(3) by (auto simp: in_set_conv_nth)
  then have x: "row_evolves r (as ! k)" "as ! k \<in> set rows'" using e by (auto simp: list_all2_conv_all_nth)
  from row_evolves_fields [OF x(1)] have "l_id (as ! k) = l_id r'" "l_task_id (as ! k) = l_task_id r" using assms(5) by simp_all
  moreover have "inj_on l_id (set rows')" using assms(2) by (simp add: table_ok_def distinct_map)
  ultimately show ?thesis using inj_onD [OF _ _ x(2) assms(4)] by fastforce
qed

text \<open>A run that wrote nothing itself.\<close>

definition no_write :: "sys \<Rightarrow> world \<Rightarrow> world \<Rightarrow> bool" where
  "no_write sy w w' \<longleftrightarrow> w_tick w \<le> w_tick w' \<and> others_only sy (w_tick w) (w_tick w') (w_db w) (w_db w')"

lemma no_write_trans: "no_write sy a b \<Longrightarrow> no_write sy b c \<Longrightarrow> no_write sy a c"
  using others_trans by (auto simp: no_write_def)

lemma no_write_steps:
  "no_write sy w w" "no_write sy w (tick_db (seen_db sy w) w)" "no_write sy w (tick_db (w_db w) w)"
  using others_seen by (simp_all add: no_write_def others_refl)

lemma no_write_ok: "no_write sy w w' \<Longrightarrow> table_ok (leases (w_db w)) \<Longrightarrow> table_ok (leases (w_db w'))"
  using others_keep(1) by (auto simp: no_write_def)

lemma retire_lost:
  assumes "table_ok (leases (w_db w))"
  shows "wp (retire sy l) w (\<lambda>r w'. r = Inr False \<longrightarrow> no_write sy w w')"
proof -
  let ?w = "tick_db (w_db w) w" and ?p = "retire_where (l_id l) (l_expires_at l)"
  let ?rows = "leases (seen_db sy ?w)"
  have ok: "table_ok ?rows" using no_write_ok [OF no_write_steps(2) [of sy ?w]] assms by simp
  have "length (filter ?p ?rows) = 1 \<or> filter ?p ?rows = []"
  proof (cases "\<exists>x\<in>set ?rows. ?p x")
    case True
    then obtain x where x: "x \<in> set ?rows" "?p x" by blast
    then have "?p r \<longleftrightarrow> r = x" if "r \<in> set ?rows" for r
      using ok that by (auto simp: retire_where_def table_ok_def distinct_map inj_on_def)
    from update_one(2) [OF ok x(1) this] show ?thesis ..
  qed (auto simp: filter_empty_conv)
  moreover have "(seen_db sy ?w)\<lparr>leases := map (\<lambda>r. if ?p r then f r else r) ?rows\<rparr> = seen_db sy ?w"
    if "filter ?p ?rows = []" for f
  proof -
    have "map (\<lambda>r. if ?p r then f r else r) ?rows = ?rows" using that by (intro map_idI) (auto simp: filter_empty_conv)
    then show ?thesis by simp
  qed
  moreover have "no_write sy w (tick_db (seen_db sy ?w) ?w)"
    using no_write_trans [OF no_write_steps(3) no_write_steps(2)] .
  ultimately show ?thesis
    by (auto simp: retire_def wp_pbind wp_now update_leases_def wp_exec_any sql_update_def wp_ret split: option.split)
qed

lemma expiry_passes_read:
  assumes "table_ok (leases (w_db w))"
  shows "wp (expiry_passes sy t n) w (\<lambda>r w'. \<forall>l. r = Inr (Some l) \<longrightarrow>
    no_write sy w w' \<and> find (active_for t) (leases (w_db w')) = Some l)"
  using assms
proof (induction n arbitrary: w)
  case (Suc n)
  let ?Q = "\<lambda>r w'. \<forall>l. r = Inr (Some l) \<longrightarrow> no_write sy w w' \<and> find (active_for t) (leases (w_db w')) = Some l"
  let ?w1 = "tick_db (seen_db sy w) w" let ?w2 = "tick_db (seen_db sy w) ?w1"
  have nw: "no_write sy w ?w1" "no_write sy w ?w2"
    using no_write_steps(2) no_write_trans [OF no_write_steps(2) no_write_steps(3) [of sy ?w1]] by simp_all
  have again: "wp (pbind (retire sy l) (\<lambda>won. if won then ret None else expiry_passes sy t n)) ?w2 ?Q" for l
  proof (rule wp_bindI [OF retire_lost])
    show "table_ok (leases (w_db ?w2))" using no_write_ok [OF nw(2) Suc.prems] .
    fix x w' assume lost: "Inr x = Inr False \<longrightarrow> no_write sy ?w2 w'"
    show "wp (if x then ret None else expiry_passes sy t n) w' ?Q"
    proof (cases x)
      case False
      then have n: "no_write sy w w'" using lost no_write_trans [OF nw(2)] by simp
      show ?thesis using False by (simp, intro wp_conseq [OF Suc.IH [OF no_write_ok [OF n Suc.prems]]])
          (auto intro: no_write_trans [OF n])
    qed (simp add: wp_ret)
  qed simp
  have "wp (select_active sy t) w (\<lambda>r w1. w1 = ?w1 \<and> (\<forall>x. r = Inr x \<longrightarrow> x = find (active_for t) (leases (w_db ?w1))))"
    by (simp add: select_active_def query_def wp_exec_any split: option.split)
  then show ?case unfolding expiry_passes.simps
  proof (rule wp_bindI, goal_cases)
    case (1 row w')
    then have row: "row = find (active_for t) (leases (w_db ?w1))" "w' = ?w1" by simp_all
    show ?case
    proof (cases row)
      case (Some l)
      have f: "find (active_for t) (leases (seen_db sy w)) = Some l" using row Some by simp
      show ?thesis
      proof (cases "l_expires_at l")
        case None
        then show ?thesis using f nw(1) by (simp add: row(2) Some wp_ret)
      next
        case (Some e)
        then show ?thesis using f nw(2) again [of l] \<open>row = Some l\<close>
          by (auto simp: row(2) bad_timestamp_def wp_pbind [of "throw _"] wp_pbind [of "ret _"] wp_pbind [of "now_epoch sy"]
              wp_now wp_ret wp_throw split: option.split)
      qed
    qed (simp add: wp_ret)
  qed simp
qed (simp add: wp_throw)

lemma active_lease_read:
  assumes "table_ok (leases (w_db w))"
  shows "wp (active_lease sy t) w (\<lambda>r w'. \<forall>l. r = Inr (Some l) \<longrightarrow>
    no_write sy w w' \<and> find (active_for t) (leases (w_db w')) = Some l)"
  unfolding active_lease_def by (rule expiry_passes_read [OF assms])

lemma pick_row:
  assumes "table_ok rows" "r \<in> set rows" "p r" "\<And>x. p x \<Longrightarrow> l_id x = l_id r"
  shows "map (\<lambda>x. if p x then f x else x) rows = map (\<lambda>x. if x = r then f x else x) rows"
    and "filter p rows \<noteq> []" "find p rows = Some r"
proof -
  have "inj_on l_id (set rows)" using assms(1) by (simp add: table_ok_def distinct_map)
  then have u: "p x \<longleftrightarrow> x = r" if "x \<in> set rows" for x
    using assms(2-4) that inj_onD by metis
  show "map (\<lambda>x. if p x then f x else x) rows = map (\<lambda>x. if x = r then f x else x) rows"
    by (rule update_one(1) [OF assms(1,2) u])
  show "filter p rows \<noteq> []" using assms(2,3) by (auto simp: filter_empty_conv)
  from this obtain x where "find p rows = Some x" by (cases "find p rows") (auto simp: find_None_iff filter_empty_conv)
  then show "find p rows = Some r" using u by (auto simp: find_Some_iff)
qed

text \<open>
  C32. Renewal extends only what is still held. Whatever other connections do between its statements, a
  renewal that answers with a lease made one write, and only this one, to what the others had made of
  the database: it gave the new expiry to one row, and that row was active, of the caller's task and
  token, and had not expired at the moment of the clock the expiry counts from.
\<close>

theorem renew_extends_live_lease:
  assumes "table_ok (leases (w_db w))" and "renew sy t tok ttl w = (Inr (Some l), w')"
  shows "\<exists>d r n. others_only sy (w_tick w) (w_tick w') (w_db w) d \<and> w_tick w \<le> n \<and> n < w_tick w' \<and>
    r \<in> set (leases d) \<and> is_active r \<and> l_task_id r = t \<and> l_token r = tok \<and>
    (\<forall>e. l_expires_at r = Some e \<longrightarrow> (\<exists>u. unixepoch sy e = Some u \<and> clock sy n \<le> u)) \<and>
    0 < ttl \<and> ttl \<le> MAX_TTL_SECONDS \<and>
    l = r\<lparr>l_expires_at := Some (format_iso_utc (sat_add_i64 (clock sy n) ttl))\<rparr> \<and>
    w_db w' = change_row r (\<lambda>_. l) d"
    (is "\<exists>d r n. ?post w' l d r n")
proof -
  let ?Q = "\<lambda>r w'. \<forall>l. r = Inr (Some l) \<longrightarrow> (\<exists>d r n. ?post w' l d r n)"
  have ttl: "0 < ttl \<and> ttl \<le> MAX_TTL_SECONDS" "check_ttl ttl = ret ()"
    using assms(2) by (auto simp: renew_def check_ttl_def validate_ttl_def pbind_def attempt_def throw_def split: if_splits)
  have upd: "wp (update_returning sy (renew_where (unixepoch sy) i t tok (clock sy n))
      (set_expiry (format_iso_utc (sat_add_i64 (clock sy n) ttl)))) w1 ?Q"
    if nw: "no_write sy w w1" and n: "w_tick w \<le> n" "n < w_tick w1" for i n w1
  proof -
    let ?d = "seen_db sy w1" and ?p = "renew_where (unixepoch sy) i t tok (clock sy n)"
      and ?f = "set_expiry (format_iso_utc (sat_add_i64 (clock sy n) ttl))"
    have d: "no_write sy w (tick_db ?d w1)" using no_write_trans [OF nw no_write_steps(2)] .
    have ok: "table_ok (leases ?d)" using no_write_ok [OF d assms(1)] by simp
    have one: "\<exists>d x k. ?post (tick_db (?d\<lparr>leases := fst (sql_update ?p ?f (leases ?d))\<rparr>) w1) (?f r) d x k"
      if "find ?p (leases ?d) = Some r" for r
    proof -
      have r: "r \<in> set (leases ?d)" "?p r" using that by (auto simp: find_Some_iff)
      have "map (\<lambda>x. if ?p x then ?f x else x) (leases ?d) = map (\<lambda>x. if x = r then ?f r else x) (leases ?d)"
        using pick_row(1) [where p = ?p and f = ?f, OF ok r] r(2) by (simp add: renew_where_def cong: if_cong)
      moreover have "\<forall>e. l_expires_at r = Some e \<longrightarrow> (\<exists>u. unixepoch sy e = Some u \<and> clock sy n \<le> u)"
        using r(2) by (auto simp: renew_where_def sql_unexpired_def split: option.splits)
      ultimately show ?thesis
        using d n r ttl(1) by (intro exI [of _ ?d] exI [of _ r] exI [of _ n])
          (simp add: no_write_def change_row_def fst_sql_update renew_where_def set_expiry_def)
    qed
    show ?thesis
    proof (cases "fault sy (w_tick w1)"; cases "find ?p (leases ?d)")
      fix r assume "fault sy (w_tick w1) = None" "find ?p (leases ?d) = Some r"
      then show ?thesis using one by (simp add: update_returning_def wp_exec_any del: leases_tick_db)
    qed (simp_all add: update_returning_def wp_exec_any)
  qed
  have "wp (renew sy t tok ttl) w ?Q"
    unfolding renew_def ttl(2) pbind_ret
  proof (rule wp_bindI [OF active_lease_read [OF assms(1)]], goal_cases)
    case (1 row w1)
    show ?case
    proof (cases row)
      case (Some active)
      then have nw: "no_write sy w w1" using 1 by simp
      let ?w2 = "tick_db (w_db w1) w1"
      have nw2: "no_write sy w ?w2" using no_write_trans [OF nw no_write_steps(3)] .
      have n: "w_tick w \<le> w_tick w1" using nw by (simp add: no_write_def)
      have "wp (case l_expires_at active of None \<Rightarrow> ret False
          | Some expiry \<Rightarrow> pbind (bad_timestamp expiry) (\<lambda>epoch. ret (k > epoch))) ?w2 (\<lambda>r w3. w3 = ?w2)" for k
        by (auto simp: bad_timestamp_def wp_pbind wp_ret wp_throw split: option.split)
      then have "wp (pbind (case l_expires_at active of None \<Rightarrow> ret False
               | Some expiry \<Rightarrow> pbind (bad_timestamp expiry) (\<lambda>epoch. ret (clock sy (w_tick w1) > epoch)))
             (\<lambda>lapsed. if lapsed then ret None
                else update_returning sy (renew_where (unixepoch sy) (l_id active) t tok (clock sy (w_tick w1)))
                      (set_expiry (format_iso_utc (sat_add_i64 (clock sy (w_tick w1)) ttl))))) ?w2 ?Q"
        by (rule wp_bindI) (use upd [OF nw2 n] in \<open>auto simp: wp_ret\<close>)
      then show ?thesis using Some by (simp add: wp_ret wp_pbind [of "now_epoch sy"] wp_now)
    qed (simp add: wp_ret)
  qed simp
  from wpD [OF this assms(2)] show ?thesis by simp
qed

text \<open>
  C33. Release ends only the caller's own lease. Whatever other connections do between its statements,
  an answer of true means that the call made one write, and only this one, to what the others had made
  of the database: it turned one row, active and of the caller's task and token, into a released one.
\<close>

theorem release_own_lease:
  assumes "table_ok (leases (w_db w))" and "release sy t tok w = (Inr True, w')"
  shows "\<exists>d r n. others_only sy (w_tick w) (w_tick w') (w_db w) d \<and> w_tick w \<le> n \<and> n < w_tick w' \<and>
    r \<in> set (leases d) \<and> is_active r \<and> l_task_id r = t \<and> l_token r = tok \<and>
    w_db w' = change_row r (\<lambda>_. r\<lparr>l_status := st_released, l_released_at := Some (format_iso_utc (clock sy n))\<rparr>) d"
    (is "\<exists>d r n. ?post w' d r n")
proof -
  let ?Q = "\<lambda>r w'. r = Inr True \<longrightarrow> (\<exists>d r n. ?post w' d r n)"
  have upd: "wp (pbind (update_leases sy (release_where (l_id a) tok) (mark_released (format_iso_utc (clock sy (w_tick w1)))))
      (\<lambda>changed. ret (changed = 1))) (tick_db (w_db w1) w1) ?Q"
    if nw: "no_write sy w w1" and a: "find (active_for t) (leases (w_db w1)) = Some a" for a w1
  proof -
    let ?w2 = "tick_db (w_db w1) w1"
    let ?d = "seen_db sy ?w2" and ?p = "release_where (l_id a) tok" and ?f = "mark_released (format_iso_utc (clock sy (w_tick w1)))"
    have d: "no_write sy w1 (tick_db ?d ?w2)" using no_write_trans [OF no_write_steps(3) no_write_steps(2)] .
    have ok1: "table_ok (leases (w_db w1))" by (rule no_write_ok [OF nw assms(1)])
    have ok: "table_ok (leases ?d)" using no_write_ok [OF d ok1] by simp
    have one: "\<exists>d r n. ?post (tick_db (?d\<lparr>leases := map (\<lambda>x. if ?p x then ?f x else x) (leases ?d)\<rparr>) ?w2) d r n"
      if some: "filter ?p (leases ?d) \<noteq> []"
    proof -
      obtain r where r: "r \<in> set (leases ?d)" "?p r" using some by (auto simp: filter_empty_conv)
      have "table_evolves (leases (w_db w1)) (leases ?d)" using others_keep(2) d by (auto simp: no_write_def)
      then have "l_task_id r = l_task_id a"
        using evolved_row [OF _ ok active_rows(1) [OF ok1 a] r(1)] r(2) by (simp add: release_where_def)
      then have task: "l_task_id r = t" using active_rows(3) [OF ok1 a] by simp
      have "map (\<lambda>x. if ?p x then ?f x else x) (leases ?d) = map (\<lambda>x. if x = r then ?f r else x) (leases ?d)"
        using pick_row(1) [where p = ?p and f = ?f, OF ok r] r(2) by (simp add: release_where_def cong: if_cong)
      then show ?thesis
        using no_write_trans [OF nw d] nw r task
        by (intro exI [of _ ?d] exI [of _ r] exI [of _ "w_tick w1"])
          (simp add: no_write_def change_row_def release_where_def mark_released_def)
    qed
    note steps = wp_pbind update_leases_def wp_exec_any sql_update_def wp_ret
    show ?thesis
    proof (cases "filter ?p (leases ?d) = []")
      case False
      show ?thesis using one [OF False] by (simp add: steps del: leases_tick_db split: option.split)
    qed (simp add: steps split: option.split)
  qed
  have "wp (release sy t tok) w ?Q"
    unfolding release_def
  proof (rule wp_bindI [OF active_lease_read [OF assms(1)]], goal_cases)
    case (1 row w1)
    then show ?case
      using upd [of w1] by (cases row) (simp_all add: wp_ret wp_pbind [of "now_epoch sy"] wp_now del: One_nat_def)
  qed simp
  from wpD [OF this assms(2)] show ?thesis by simp
qed

lemma held_at_rest:
  assumes "at_rest sy now" "table_ok (leases (w_db w))"
    "find (active_for t) (leases (w_db w)) = Some l" "lease_state_at now l = Live"
  shows "\<exists>w'. release sy t (l_token l) w = (Inr True, w')"
    and "0 < ttl \<Longrightarrow> ttl \<le> MAX_TTL_SECONDS \<Longrightarrow> sql_unexpired (unixepoch sy) now l \<Longrightarrow>
         \<exists>l' w'. renew sy t (l_token l) ttl w = (Inr (Some l'), w')"
proof -
  note l = active_rows [OF assms(2,3)]
  have p: "release_where (l_id l) (l_token l) r \<longleftrightarrow> r = l" if "r \<in> set (leases (w_db w))" for r
    using l(2) l(5) [OF that] by (auto simp: release_where_def)
  have one: "length (filter (release_where (l_id l) (l_token l)) (leases (w_db w))) = 1"
    by (rule update_one(2) [OF assms(2) l(1) p])
  have a: "wp (active_lease sy t) w Q" if "\<And>w'. w_db w' = w_db w \<Longrightarrow> Q (Inr (Some l)) w'" for Q
    by (rule wp_conseq [OF wp_active_lease]) (use assms that in \<open>auto simp: active_post_def\<close>)
  have "wp (release sy t (l_token l)) w (\<lambda>r _. r = Inr True)"
    unfolding release_def wp_pbind
    by (rule a) (use assms(1) one in \<open>simp add: wp_simps\<close>)
  then show "\<exists>w'. release sy t (l_token l) w = (Inr True, w')"
    by (auto simp: wp_def split: prod.splits)
  assume ttl: "0 < ttl" "ttl \<le> MAX_TTL_SECONDS" and u: "sql_unexpired (unixepoch sy) now l"
  have "renew_where (unixepoch sy) (l_id l) t (l_token l) now l"
    using l u by (simp add: renew_where_def)
  then have f: "find (renew_where (unixepoch sy) (l_id l) t (l_token l) now) (leases (w_db w)) \<noteq> None"
    using l(1) by (auto simp: find_None_iff)
  have c: "check_ttl ttl = ret ()" using ttl by (simp add: check_ttl_def validate_ttl_def)
  have lapsed: "wp (case l_expires_at l of None \<Rightarrow> ret False
      | Some expiry \<Rightarrow> pbind (bad_timestamp expiry) (\<lambda>epoch. ret (now > epoch))) w1 Q" if "Q (Inr False) w1" for Q w1
    using assms(4) that
    by (auto simp: lease_state_at_def bad_timestamp_def wp_ret wp_pbind split: option.splits if_splits)
  have "wp (renew sy t (l_token l) ttl) w (\<lambda>r _. \<exists>l'. r = Inr (Some l'))"
    unfolding renew_def c pbind_ret wp_pbind [of "active_lease sy t"]
  proof (rule a, goal_cases)
    case (1 w1)
    have "wp (pbind (case l_expires_at l of None \<Rightarrow> ret False
        | Some expiry \<Rightarrow> pbind (bad_timestamp expiry) (\<lambda>epoch. ret (now > epoch)))
      (\<lambda>lapsed. if lapsed then ret None else update_returning sy (renew_where (unixepoch sy) (l_id l) t (l_token l) now)
         (set_expiry (format_iso_utc (sat_add_i64 now ttl))))) (tick_db (w_db w1) w1) (\<lambda>r _. \<exists>l'. r = Inr (Some l'))"
      unfolding wp_pbind by (rule lapsed) (use 1 f assms(1) in \<open>auto simp: update_returning_def wp_exec\<close>)
    then show ?case using assms(1) by (simp add: wp_pbind [of "now_epoch sy"] wp_now)
  qed
  then show "\<exists>l' w'. renew sy t (l_token l) ttl w = (Inr (Some l'), w')"
    by (auto simp: wp_def split: prod.splits)
qed

text \<open>The sample lease, just acquired, is held.\<close>

lemma sample_held:
  "\<exists>l (w'::world). table_ok (leases (w_db w')) \<and>
     find (active_for (lit ''T1'')) (leases (w_db w')) = Some l \<and>
     lease_state_at 1700000000 l = Live \<and> sql_unexpired parse_iso_utc 1700000000 l"
proof -
  obtain l x w' where a: "acquire_outcome quiet_sys sample_request sample_world = (Inr (l, x), w')"
    using sample_acquire by blast
  have q: "q_task_id sample_request = lit ''T1''" "q_ttl_seconds sample_request = Some 60"
    by (simp_all add: sample_request_def)
  have g: "acquire_granted quiet_sys sample_request (w_db sample_world) (l, x) (w_db w')"
    using acquire_outcome_spec [OF sample_premises(2) _ a] sample_premises(1) sample_ok by simp
  have e: "l_expires_at l = Some (format_iso_utc 1700000060)"
    using g q sample_premises(1) by (auto simp: acquire_granted_def minted_def sat_add_i64_def I64_MAX_def I64_MIN_def)
  have "parse_iso_utc (format_iso_utc 1700000060) = Some 1700000060" by (rule parse_format_iso) simp_all
  then have "lease_state_at 1700000000 l = Live" "sql_unexpired parse_iso_utc 1700000000 l"
    using e by (simp_all add: lease_state_at_def sql_unexpired_def)
  then show ?thesis using granted_table [OF g sample_ok, unfolded q(1)] by blast
qed

theorem renew_extends_live_lease_witness:
  "\<exists>w l w' r. renew quiet_sys (lit ''T1'') (l_token l) 60 w = (Inr (Some l), w') \<and> is_active r \<and>
     r \<in> set (leases (w_db w)) \<and> w_db w' = change_row r (\<lambda>_. l) (w_db w)"
proof -
  obtain l and w :: world where h: "table_ok (leases (w_db w))" "find (active_for (lit ''T1'')) (leases (w_db w)) = Some l"
      "lease_state_at 1700000000 l = Live" "sql_unexpired parse_iso_utc 1700000000 l"
    using sample_held by blast
  have "sql_unexpired (unixepoch quiet_sys) 1700000000 l" using h(4) by (simp add: quiet_sys_def)
  then obtain l' w' where r: "renew quiet_sys (lit ''T1'') (l_token l) 60 w = (Inr (Some l'), w')"
    using held_at_rest(2) [OF sample_premises(1) h(1-3), of 60] by (auto simp: MAX_TTL_SECONDS_def)
  from renew_extends_live_lease [OF h(1) r] obtain d r where x: "others_only quiet_sys (w_tick w) (w_tick w') (w_db w) d"
      "is_active r" "l_token r = l_token l" "r \<in> set (leases d)" "w_db w' = change_row r (\<lambda>_. l') d"
      "l_token l' = l_token r" by fastforce
  have "d = w_db w" by (rule others_quiet [OF x(1)]) (simp add: quiet_sys_def)
  then show ?thesis using r x by (metis (no_types))
qed

theorem release_own_lease_witness:
  "\<exists>tok w w' r n. release quiet_sys (lit ''T1'') tok w = (Inr True, w') \<and> is_active r \<and> r \<in> set (leases (w_db w)) \<and>
     w_db w' = change_row r (\<lambda>_. r\<lparr>l_status := st_released, l_released_at := Some (format_iso_utc (clock quiet_sys n))\<rparr>) (w_db w)"
proof -
  obtain l and w :: world where h: "table_ok (leases (w_db w))" "find (active_for (lit ''T1'')) (leases (w_db w)) = Some l"
      "lease_state_at 1700000000 l = Live"
    using sample_held by blast
  then obtain w' where r: "release quiet_sys (lit ''T1'') (l_token l) w = (Inr True, w')"
    using held_at_rest(1) [OF sample_premises(1) h] by blast
  from release_own_lease [OF h(1) r] obtain d x n where x: "others_only quiet_sys (w_tick w) (w_tick w') (w_db w) d"
      "is_active x" "x \<in> set (leases d)"
      "w_db w' = change_row x (\<lambda>_. x\<lparr>l_status := st_released, l_released_at := Some (format_iso_utc (clock quiet_sys n))\<rparr>) d"
    by blast
  have "d = w_db w" by (rule others_quiet [OF x(1)]) (simp add: quiet_sys_def)
  then show ?thesis using r x by blast
qed

text \<open>Whether a task is an item of this repository.\<close>

definition is_local :: "str \<Rightarrow> db \<Rightarrow> bool" where
  "is_local t d = list_ex (local_item t) (item_rows d)"

lemma wp_is_local_item [wp_simps]:
  fixes w :: world
  assumes "isolated sy w"
  shows "wp (is_local_item sy t) w (\<lambda>r w'. w_db w' = w_db w \<and> w_tx w' = w_tx w \<and>
           (case r of Inl e \<Rightarrow> faulted sy e | Inr b \<Rightarrow> b = is_local t (w_db w)))"
  using assms by (auto simp: is_local_item_def items_present_def wp_simps is_local_def item_rows_def split: option.split)

end
