(* ===== verification/Ready.thy ===== *)
theory Ready
  imports Lease_Use
begin

text \<open>
  The sweep of lapsed leases and the ready list, at rest: a lapsed lease never hides a task, a live or
  unreadable one always does, and the list is exactly the available items in the documented order.
\<close>

definition sweep_row :: "int \<Rightarrow> str list \<Rightarrow> lease \<Rightarrow> lease" where
  "sweep_row now ts r =
     (if l_task_id r \<in> set ts \<and> is_active r \<and> lease_state_at now r = ExpiredState
      then mark_stale (format_iso_utc now) r else r)"

definition swept :: "int \<Rightarrow> str list \<Rightarrow> db \<Rightarrow> db" where
  "swept now ts d = d\<lparr>leases := map (sweep_row now ts) (leases d)\<rparr>"

lemma sweep_row_Nil [simp]: "sweep_row now [] = id"
  by (simp add: fun_eq_iff sweep_row_def)

lemma sweep_row_Cons: "sweep_row now ts (sweep_row now [t] r) = sweep_row now (t # ts) r"
  by (auto simp: sweep_row_def)

lemma swept_Nil [simp]: "swept now [] d = d"
  by (simp add: swept_def)

lemma swept_Cons: "swept now ts (swept now [t] d) = swept now (t # ts) d"
  by (simp add: swept_def sweep_row_Cons)

lemma table_ok_swept: "table_ok (leases d) \<Longrightarrow> table_ok (leases (swept now ts d))"
proof -
  let ?p = "\<lambda>r. l_task_id r \<in> set ts \<and> is_active r \<and> lease_state_at now r = ExpiredState"
  assume "table_ok (leases d)"
  then have "table_ok (fst (sql_update ?p (mark_stale (format_iso_utc now)) (leases d)))"
    by (intro table_ok_update) (auto intro: row_change.intros)
  moreover have "fst (sql_update ?p (mark_stale (format_iso_utc now)) (leases d)) = map (sweep_row now ts) (leases d)"
    by (simp add: fst_sql_update sweep_row_def [abs_def])
  ultimately show ?thesis by (simp add: swept_def)
qed

lemma swept_one:
  assumes "table_ok (leases d)"
  shows "swept now [t] d =
     (case find (active_for t) (leases d) of
        None \<Rightarrow> d
      | Some l \<Rightarrow> if lease_state_at now l = ExpiredState then stale_active t (format_iso_utc now) d else d)"
proof (cases "find (active_for t) (leases d)")
  case None
  then have "\<forall>r\<in>set (leases d). sweep_row now [t] r = r"
    by (auto simp: find_None_iff sweep_row_def active_for_def)
  then have "map (sweep_row now [t]) (leases d) = leases d" by (simp add: map_idI)
  with None show ?thesis by (simp add: swept_def)
next
  case (Some l)
  note l = active_rows [OF assms Some]
  have r: "sweep_row now [t] r = (if lease_state_at now l = ExpiredState
      then (if active_for t r then mark_stale (format_iso_utc now) r else r) else r)" if "r \<in> set (leases d)" for r
    using l(4) [OF that] unfolding sweep_row_def active_for_def by auto
  have "map (sweep_row now [t]) (leases d) = map (\<lambda>r. if lease_state_at now l = ExpiredState
      then (if active_for t r then mark_stale (format_iso_utc now) r else r) else r) (leases d)"
    by (rule map_cong [OF refl r])
  then show ?thesis using Some
    by (cases "lease_state_at now l = ExpiredState") (simp_all only: swept_def stale_active_def option.case if_True if_False, simp_all)
qed

lemma active_at_rest:
  assumes "at_rest sy now" "table_ok (leases (w_db w))"
  shows "wp (active_lease sy t) w (\<lambda>r w'. w_db w' = swept now [t] (w_db w) \<and>
           (case r of Inl e \<Rightarrow> \<exists>v. e = BadTimestamp v | Inr _ \<Rightarrow> True))"
proof (rule wp_conseq [OF wp_active_lease])
  fix r w' assume "active_post sy t w r w'"
  then show "w_db w' = swept now [t] (w_db w) \<and> (case r of Inl e \<Rightarrow> \<exists>v. e = BadTimestamp v | Inr _ \<Rightarrow> True)"
    using assms(1) unfolding swept_one [OF assms(2)] active_post_def
    by (auto split: option.splits lease_state.splits)
qed (use assms in simp_all)

lemma sweep_tasks_at_rest:
  assumes "at_rest sy now" "table_ok (leases (w_db w))"
  shows "wp (sweep_tasks sy ts out) w (\<lambda>r w'. w_db w' = swept now ts (w_db w) \<and> (\<exists>s. r = Inr s))"
  using assms(2)
proof (induction ts arbitrary: out w)
  case Nil
  then show ?case by (simp add: wp_ret)
next
  case (Cons t ts)
  have next_task: "wp (sweep_tasks sy ts out') w1 (\<lambda>r w'. w_db w' = swept now (t # ts) (w_db w) \<and> (\<exists>s. r = Inr s))"
    if "w_db w1 = swept now [t] (w_db w)" for out' w1
    using Cons.IH [of w1 out'] that table_ok_swept [OF Cons.prems, of now "[t]"] by (simp add: swept_Cons)
  show ?case
    unfolding sweep_tasks.simps wp_attempt
    by (rule wp_conseq [OF active_at_rest [OF assms(1) Cons.prems]])
      (use assms(1) in \<open>auto simp: wp_simps next_task split: sum.splits option.splits store_error.splits\<close>)
qed

definition active_tasks :: "db \<Rightarrow> str list" where
  "active_tasks d = remdups (map l_task_id (filter is_active (leases d)))"

lemma sweep_expired_at_rest:
  assumes "at_rest sy now" "table_ok (leases (w_db w))"
  shows "wp (sweep_expired sy) w (\<lambda>r w'. w_db w' = swept now (active_tasks (w_db w)) (w_db w) \<and> (\<exists>s. r = Inr s))"
  using sweep_tasks_at_rest [OF assms(1), of "tick_db (w_db w) w"] assms
  by (simp add: sweep_expired_def wp_simps active_tasks_def)

section \<open>The ready list\<close>

text \<open>The specification: items nobody holds, in the documented order.\<close>

definition available :: "int \<Rightarrow> db \<Rightarrow> item \<Rightarrow> bool" where
  "available now d i \<longleftrightarrow>
     i_deleted i = 0 \<and> i_archived i = 0 \<and> i_status i = lit ''ready'' \<and>
     i_repository i = LOCAL_REPOSITORY_ID \<and>
     (\<forall>l\<in>set (leases d). active_for (i_id i) l \<longrightarrow> lease_state_at now l = ExpiredState)"

definition ready_spec :: "sys \<Rightarrow> int \<Rightarrow> ready_mode \<Rightarrow> db \<Rightarrow> ready_task list" where
  "ready_spec sy now mode d =
     map (\<lambda>i. \<lparr>d_id = i_id i, d_blocking_gap_count = blocking_count d (i_id i)\<rparr>)
       (sort_key (ready_order sy d)
         (filter (\<lambda>i. available now d i \<and> (mode = Enforce \<longrightarrow> blocking_count d (i_id i) = 0)) (item_rows d)))"

lemma ready_item_swept: "ready_item (swept now (active_tasks d) d) i = available now d i"
proof -
  have "list_ex (active_for t) (leases (swept now (active_tasks d) d)) \<longleftrightarrow>
        (\<exists>l\<in>set (leases d). active_for t l \<and> lease_state_at now l \<noteq> ExpiredState)" for t
    by (auto simp: list_ex_iff swept_def sweep_row_def active_for_def active_tasks_def)
  then show ?thesis by (auto simp: ready_item_def available_def)
qed

lemma ready_query_swept:
  "ready_query sy (swept now (active_tasks d) d) =
     map (\<lambda>i. \<lparr>d_id = i_id i, d_blocking_gap_count = blocking_count d (i_id i)\<rparr>)
       (sort_key (ready_order sy d) (filter (available now d) (item_rows d)))"
proof -
  have "blocking_count (swept now ts d) = blocking_count d" "item_rows (swept now ts d) = item_rows d" for ts
    by (simp_all add: fun_eq_iff blocking_count_def item_rows_def swept_def)
  moreover from this have "ready_order sy (swept now ts d) = ready_order sy d" for ts
    by (simp add: fun_eq_iff ready_order_def)
  ultimately show ?thesis by (simp add: ready_query_def ready_item_swept cong: filter_cong)
qed

text \<open>
  C13. The ready list is exact: with the store at rest it holds every workable item without a live or
  unreadable lease, unblocked ones before blocked ones, then by priority, position and identifier, and
  under \<open>enforce\<close> no blocked one. A lease that has lapsed but was never touched hides nothing.
\<close>

theorem ready_list_exact:
  assumes "at_rest sy now" "table_ok (leases (w_db w))"
  shows "fst (ready_tasks sy mode w) = Inr (ready_spec sy now mode (w_db w))"
proof -
  let ?d = "swept now (active_tasks (w_db w)) (w_db w)"
  have spec: "filter (\<lambda>t. \<not> (mode = Enforce \<and> \<not> ready_to_checkout t)) (ready_query sy ?d) = ready_spec sy now mode (w_db w)"
    by (simp add: ready_query_swept ready_spec_def ready_to_checkout_def filter_map comp_def filter_sort conj_commute
        cong: conj_cong)
  have none: "work_items ?d = None \<Longrightarrow> ready_spec sy now mode (w_db w) = []"
    by (simp add: ready_spec_def item_rows_def swept_def)
  have "wp (ready_tasks sy mode) w (\<lambda>r _. r = Inr (ready_spec sy now mode (w_db w)))"
    unfolding ready_tasks_def wp_pbind
    by (rule wp_conseq [OF sweep_expired_at_rest [OF assms]])
      (use assms(1) spec none in \<open>auto simp: items_present_def wp_simps\<close>)
  then show ?thesis by (simp add: wp_def split: prod.splits)
qed

theorem ready_list_exact_witness:
  "fst (ready_tasks quiet_sys Enforce sample_world) = Inr [\<lparr>d_id = lit ''T1'', d_blocking_gap_count = 0\<rparr>]"
proof -
  have "ready_spec quiet_sys 1700000000 Enforce (w_db sample_world) = [\<lparr>d_id = lit ''T1'', d_blocking_gap_count = 0\<rparr>]"
    by (simp add: ready_spec_def sample_world_def sample_db_def sample_lease_def sample_item_def item_rows_def
        available_def active_for_def is_active_def blocking_count_def)
  then show ?thesis using ready_list_exact [OF sample_premises(1) sample_ok, of Enforce] by simp
qed

end
