(* ===== verification/Task_Scope.thy ===== *)
theory Task_Scope
  imports Lease_Use
begin

text \<open>
  A task's scope: the read of \<open>Store::task\<close>, which merges what the planner wrote with what an executor
  appended, and \<open>set_agent_appended_planned_files\<close>, the one way the appended column changes. The
  lemmas show who can widen a scope, that a refusal leaves it alone, and that a reader gets exactly
  the planned entries followed by the appended ones.
\<close>

section \<open>Reading a task\<close>

definition MAX_AGENT_APPENDED_SCOPE_BYTES :: nat where
  "MAX_AGENT_APPENDED_SCOPE_BYTES = 64 * 1024"

record task =
  x_id :: str
  x_title :: str
  x_status :: str
  x_difficulty :: "str option"
  x_planned_files_json :: str
  x_allowed_commands_json :: str
  x_expected_tests_json :: str
  x_forbidden_changes_json :: str
  x_agent_appended_planned_files_json :: str
  x_requirement_ids_json :: str
  x_acceptance_criterion_ids_json :: str
  x_blocking_gap_count :: nat

definition SCOPE_COLUMNS :: "str list" where
  "SCOPE_COLUMNS =
     [lit ''scope.planned_files'', lit ''task_scope_appends.planned_files_json'',
      lit ''scope.allowed_commands'', lit ''task_scope_appends.allowed_commands_json'',
      lit ''scope.expected_tests'', lit ''task_scope_appends.expected_tests_json'',
      lit ''scope.forbidden_changes'', lit ''scope.requirement_ids'', lit ''scope.acceptance_criterion_ids'']"

definition append_row :: "str \<Rightarrow> db \<Rightarrow> scope_append option" where
  "append_row t d = find (\<lambda>a. a_task_id a = t) (appends d)"

text \<open>\<open>coalesce(json_extract(i.body, path), '[]')\<close> and \<open>coalesce(a.column, '[]')\<close>.\<close>

definition body_list :: "sys \<Rightarrow> str \<Rightarrow> string \<Rightarrow> str" where
  "body_list sy body path = (case json_extract sy body (lit path) of None \<Rightarrow> lit ''[]'' | Some v \<Rightarrow> v)"

definition append_column :: "(scope_append \<Rightarrow> str) \<Rightarrow> scope_append option \<Rightarrow> str" where
  "append_column f a = (case a of None \<Rightarrow> lit ''[]'' | Some r \<Rightarrow> f r)"

type_synonym task_columns = "str \<times> str \<times> str \<times> str option \<times> str list \<times> nat"

definition task_columns_of :: "sys \<Rightarrow> db \<Rightarrow> item \<Rightarrow> task_columns" where
  "task_columns_of sy d i =
     (let a = append_row (i_id i) d; b = i_body i
      in (i_id i, i_title i, i_status i, json_extract sy b (lit ''$.scope.difficulty''),
          [body_list sy b ''$.scope.planned_files'', append_column a_planned_files a,
           body_list sy b ''$.scope.allowed_commands'', append_column a_allowed_commands a,
           body_list sy b ''$.scope.expected_tests'', append_column a_expected_tests a,
           body_list sy b ''$.scope.forbidden_changes'', body_list sy b ''$.scope.requirement_ids'',
           body_list sy b ''$.scope.acceptance_criterion_ids''],
          blocking_count d (i_id i)))"

definition check_column :: "str \<Rightarrow> str \<times> str \<Rightarrow> store_error + unit" where
  "check_column task_id cv =
     (case check_array (snd cv) of
        Inl why \<Rightarrow> Inl (BadScope (Column_not_array task_id (fst cv) why))
      | Inr u \<Rightarrow> Inr ())"

definition check_columns :: "str \<Rightarrow> str list \<Rightarrow> store_error + unit" where
  "check_columns task_id scope = try_fold (\<lambda>_. check_column task_id) () (zip SCOPE_COLUMNS scope)"

definition build_task :: "task_columns \<Rightarrow> task" where
  "build_task c =
     (case c of (i, title, status, difficulty, s, n) \<Rightarrow>
        \<lparr>x_id = i, x_title = title, x_status = status, x_difficulty = difficulty,
         x_planned_files_json = merge_json_arrays (s ! 0) (s ! 1),
         x_allowed_commands_json = merge_json_arrays (s ! 2) (s ! 3),
         x_expected_tests_json = merge_json_arrays (s ! 4) (s ! 5),
         x_forbidden_changes_json = s ! 6,
         x_agent_appended_planned_files_json = s ! 1,
         x_requirement_ids_json = s ! 7,
         x_acceptance_criterion_ids_json = s ! 8,
         x_blocking_gap_count = n\<rparr>)"

definition read_task :: "sys \<Rightarrow> str \<Rightarrow> task option prog" where
  "read_task sy task_id =
     pbind (items_present sy) (\<lambda>present.
       if \<not> present then ret None
       else
         pbind (query sy (\<lambda>d. map_option (task_columns_of sy d) (find (local_item task_id) (item_rows d))))
           (\<lambda>row. case row of
              None \<Rightarrow> ret None
            | Some (i, title, status, difficulty, scope, n) \<Rightarrow>
                pbind (lift_result (check_columns task_id scope)) (\<lambda>_.
                  ret (Some (build_task (i, title, status, difficulty, scope, n))))))"

section \<open>Widening a scope\<close>

datatype scope_write = Written | NoTask | NotLeased lease_code | Stale str

definition insert_append :: "str \<Rightarrow> scope_append list \<Rightarrow> scope_append list" where
  "insert_append t rows =
     (if list_ex (\<lambda>a. a_task_id a = t) rows then rows
      else rows @ [\<lparr>a_task_id = t, a_planned_files = lit ''[]'', a_allowed_commands = lit ''[]'',
                    a_expected_tests = lit ''[]''\<rparr>])"

text \<open>\<open>trim(planned_files_json, char(32, 9, 10, 13)) = ?3\<close>: the same four characters as \<open>trim_ws\<close>.\<close>

definition swap_where :: "str \<Rightarrow> str \<Rightarrow> scope_append \<Rightarrow> bool" where
  "swap_where t expected a \<longleftrightarrow> a_task_id a = t \<and> trim_ws (a_planned_files a) = expected"

text \<open>The swap once the lease is known to be held: the row is made, then replaced if it still holds \<open>expected\<close>.\<close>

definition swap_held :: "sys \<Rightarrow> str \<Rightarrow> str \<Rightarrow> str \<Rightarrow> scope_write prog" where
  "swap_held sy task_id expected widened =
     pbind (exec sy (\<lambda>d. (Inr (), d\<lparr>appends := insert_append task_id (appends d)\<rparr>))) (\<lambda>_.
     pbind (exec sy (\<lambda>d.
         case sql_update (swap_where task_id expected) (\<lambda>a. a\<lparr>a_planned_files := widened\<rparr>) (appends d) of
           (rows, n) \<Rightarrow> (Inr n, d\<lparr>appends := rows\<rparr>))) (\<lambda>updated.
       if updated = 0 then
         pbind (exec sy (\<lambda>d. (case append_row task_id d of
              None \<Rightarrow> Inl (Sql (lit ''Query returned no rows''))
            | Some a \<Rightarrow> Inr (a_planned_files a), d))) (\<lambda>current.
           case check_array current of
             Inl why \<Rightarrow> throw (BadScope (Stored_scope_not_array task_id why))
           | Inr _ \<Rightarrow> ret (Stale current))
       else ret Written))"

definition swap_agent_appended :: "sys \<Rightarrow> str \<Rightarrow> str \<Rightarrow> str \<Rightarrow> str \<Rightarrow> scope_write prog" where
  "swap_agent_appended sy task_id token expected widened =
     pbind (is_local_item sy task_id) (\<lambda>local.
       if \<not> local then ret NoTask
       else
         pbind (diagnose sy task_id token) (\<lambda>code.
           if code \<noteq> Valid then ret (NotLeased code)
           else swap_held sy task_id expected widened))"

definition set_agent_appended_planned_files :: "sys \<Rightarrow> str \<Rightarrow> str \<Rightarrow> str \<Rightarrow> str \<Rightarrow> scope_write prog" where
  "set_agent_appended_planned_files sy task_id token expected0 new_text =
     (let widened = trim_ws new_text; expected = trim_ws expected0
      in if byte_len widened > MAX_AGENT_APPENDED_SCOPE_BYTES then
           throw (BadScope (Over_ceiling (byte_len widened)))
         else case check_planned_files widened of
                Inl why \<Rightarrow> throw (BadScope (Not_planned_files widened why))
              | Inr _ \<Rightarrow>
                  write_transaction sy (swap_agent_appended sy task_id token expected widened))"

section \<open>The appended column\<close>

definition appends_ok :: "db \<Rightarrow> bool" where
  "appends_ok d = distinct (map a_task_id (appends d))"

text \<open>A column of a task's append row, as a reader sees it: a missing row reads as an empty list.\<close>

definition appended :: "(scope_append \<Rightarrow> str) \<Rightarrow> str \<Rightarrow> db \<Rightarrow> str" where
  "appended f t d = append_column f (append_row t d)"

lemma append_row_Some: "append_row t d = Some a \<Longrightarrow> a \<in> set (appends d) \<and> a_task_id a = t"
  by (auto simp: append_row_def find_Some_iff)

lemma insert_append_ids:
  "distinct (map a_task_id rows) \<Longrightarrow> distinct (map a_task_id (insert_append t rows))"
  by (auto simp: insert_append_def list_ex_iff)

lemma append_row_inserted:
  "append_row s (d\<lparr>appends := insert_append t (appends d)\<rparr>) =
     (case append_row s d of
        Some a \<Rightarrow> Some a
      | None \<Rightarrow> if s = t then Some \<lparr>a_task_id = t, a_planned_files = lit ''[]'',
                   a_allowed_commands = lit ''[]'', a_expected_tests = lit ''[]''\<rparr> else None)"
proof (cases "list_ex (\<lambda>a. a_task_id a = t) (appends d)")
  case True
  then have "append_row t d \<noteq> None" by (auto simp: append_row_def find_None_iff list_ex_iff)
  then show ?thesis using True by (auto simp: append_row_def insert_append_def split: option.splits)
next
  case False
  then have "append_row t d = None" by (auto simp: append_row_def find_None_iff list_ex_iff)
  then show ?thesis using False
    by (auto simp: append_row_def insert_append_def find_app split: option.splits simp del: lit_Cons)
qed

lemma append_row_swapped:
  "append_row s (d\<lparr>appends := map (\<lambda>a. if swap_where t e a then a\<lparr>a_planned_files := v\<rparr> else a) rows\<rparr>) =
     map_option (\<lambda>a. if swap_where t e a then a\<lparr>a_planned_files := v\<rparr> else a) (append_row s (d\<lparr>appends := rows\<rparr>))"
proof -
  have "find (\<lambda>a. a_task_id a = s) (map (\<lambda>a. if swap_where t e a then a\<lparr>a_planned_files := v\<rparr> else a) xs) =
        map_option (\<lambda>a. if swap_where t e a then a\<lparr>a_planned_files := v\<rparr> else a) (find (\<lambda>a. a_task_id a = s) xs)" for xs
    by (induction xs) auto
  then show ?thesis by (simp add: append_row_def)
qed

lemma swap_hits:
  assumes "appends_ok d" "append_row t d = Some a"
  shows "length (filter (swap_where t e) (appends d)) = 0 \<longleftrightarrow> \<not> swap_where t e a"
proof -
  have "b = a" if "b \<in> set (appends d)" "a_task_id b = t" for b
    using assms that append_row_Some [OF assms(2)] by (auto simp: appends_ok_def distinct_map inj_on_def)
  then show ?thesis using append_row_Some [OF assms(2)] by (auto simp: filter_empty_conv swap_where_def)
qed

text \<open>What the swap leaves: one column of one row changed, everything else as it was.\<close>

definition widened_from :: "str \<Rightarrow> str \<Rightarrow> db \<Rightarrow> db \<Rightarrow> bool" where
  "widened_from t v d d' \<longleftrightarrow>
     appended a_planned_files t d' = v \<and>
     (\<forall>s. s \<noteq> t \<longrightarrow> append_row s d' = append_row s d) \<and>
     (\<forall>s. appended a_allowed_commands s d' = appended a_allowed_commands s d \<and>
          appended a_expected_tests s d' = appended a_expected_tests s d) \<and>
     d'\<lparr>appends := appends d\<rparr> = d"

lemma swap_widens:
  assumes "appends_ok d" "d1 = d\<lparr>appends := insert_append t (appends d)\<rparr>"
    "d2 = d1\<lparr>appends := map (\<lambda>a. if swap_where t e a then a\<lparr>a_planned_files := v\<rparr> else a) (appends d1)\<rparr>"
  shows "length (filter (swap_where t e) (appends d1)) = 0 \<longleftrightarrow> trim_ws (appended a_planned_files t d) \<noteq> e"
    and "trim_ws (appended a_planned_files t d) = e \<Longrightarrow> widened_from t v d d2"
proof -
  have ok: "appends_ok d1" using insert_append_ids assms(1,2) by (simp add: appends_ok_def)
  obtain a where a: "append_row t d1 = Some a" by (cases "append_row t d") (auto simp: assms(2) append_row_inserted)
  have col: "appended f s d1 = appended f s d" if "f \<in> {a_planned_files, a_allowed_commands, a_expected_tests}" for f s
    using that unfolding appended_def append_column_def assms(2) append_row_inserted by (auto split: option.split simp del: lit_Cons)
  have "a_planned_files a = appended a_planned_files t d"
    using col [of a_planned_files t] a by (simp add: appended_def append_column_def)
  then have hit: "swap_where t e a \<longleftrightarrow> trim_ws (appended a_planned_files t d) = e"
    using append_row_Some [OF a] by (simp add: swap_where_def)
  then show "length (filter (swap_where t e) (appends d1)) = 0 \<longleftrightarrow> trim_ws (appended a_planned_files t d) \<noteq> e"
    using swap_hits [OF ok a, of e] by simp
  have row: "append_row s d2 = map_option (\<lambda>a. if swap_where t e a then a\<lparr>a_planned_files := v\<rparr> else a) (append_row s d1)" for s
    using append_row_swapped [where d = d1 and rows = "appends d1"] by (simp add: assms(3))
  assume "trim_ws (appended a_planned_files t d) = e"
  then have v: "appended a_planned_files t d2 = v" using hit a by (simp add: appended_def append_column_def row)
  have other: "append_row s d2 = append_row s d" if "s \<noteq> t" for s
    using that append_row_Some [of s d] unfolding row unfolding assms(2) append_row_inserted
    by (cases "append_row s d") (auto simp: swap_where_def)
  have cols: "appended f s d2 = appended f s d" if "f = a_allowed_commands \<or> f = a_expected_tests" for f s
    using col [of f s] that by (cases "append_row s d1") (auto simp: appended_def append_column_def row)
  have "d2\<lparr>appends := appends d\<rparr> = d" by (simp add: assms(2,3))
  then show "widened_from t v d d2" using v other cols unfolding widened_from_def by blast
qed

section \<open>The swap inside its transaction\<close>

definition holds_lease :: "sys \<Rightarrow> str \<Rightarrow> str \<Rightarrow> db \<Rightarrow> bool" where
  "holds_lease sy t token d \<longleftrightarrow>
     (\<exists>l n. find (active_for t) (leases d) = Some l \<and> l_token l = token \<and> lease_state_at (clock sy n) l = Live)"

lemma active_post_db:
  assumes "active_post sy t w r w'"
  shows "w_tx w' = w_tx w \<and> (w_db w' = w_db w \<or> (\<exists>at. w_db w' = stale_active t at (w_db w)))"
proof (cases "find (active_for t) (leases (w_db w))")
  case None
  then show ?thesis using assms by (auto simp: active_post_def)
next
  case (Some l)
  have "w_db w' = w_db w \<or> (\<exists>at. w_db w' = stale_active t at (w_db w))"
    if "case lease_state_at c l of
          Live \<Rightarrow> r = Inr (Some l) \<and> w_db w' = w_db w
        | BadExpiry e \<Rightarrow> r = Inl (BadTimestamp e) \<and> w_db w' = w_db w
        | ExpiredState \<Rightarrow> r = Inr None \<and> (\<exists>k. w_db w' = stale_active t (format_iso_utc (clock sy k)) (w_db w))" for c
    using that by (cases "lease_state_at c l") auto
  then show ?thesis using assms Some unfolding active_post_def by auto
qed

lemma active_post_live:
  assumes "active_post sy t w (Inr (Some l)) w'"
  shows "w_db w' = w_db w \<and> find (active_for t) (leases (w_db w)) = Some l \<and> (\<exists>n. lease_state_at (clock sy n) l = Live)"
proof (cases "find (active_for t) (leases (w_db w))")
  case None
  then show ?thesis using assms by (auto simp: active_post_def)
next
  case (Some k)
  then obtain n where n: "case lease_state_at (clock sy n) k of
          Live \<Rightarrow> Inr (Some l) = (Inr (Some k) :: store_error + lease option) \<and> w_db w' = w_db w
        | BadExpiry e \<Rightarrow> Inr (Some l) = (Inl (BadTimestamp e) :: store_error + lease option) \<and> w_db w' = w_db w
        | ExpiredState \<Rightarrow> Inr (Some l) = (Inr None :: store_error + lease option) \<and>
            (\<exists>k. w_db w' = stale_active t (format_iso_utc (clock sy k)) (w_db w))"
    using assms unfolding active_post_def by auto
  then show ?thesis using Some by (cases "lease_state_at (clock sy n) k") auto
qed

lemma wp_diagnose:
  assumes "isolated sy w" "table_ok (leases (w_db w))"
  shows "wp (diagnose sy t tok) w (\<lambda>r w'. w_tx w' = w_tx w \<and> (w_db w')\<lparr>leases := leases (w_db w)\<rparr> = w_db w \<and>
           (r = Inr Valid \<longrightarrow> w_db w' = w_db w \<and> holds_lease sy t tok (w_db w)))"
proof -
  have stale: "(stale_active t at d)\<lparr>leases := leases d\<rparr> = d" for at d by (simp add: stale_active_def)
  show ?thesis
    unfolding diagnose_def wp_pbind
  proof (rule wp_conseq [OF wp_active_lease [OF assms]])
    fix r and w1 :: world assume p: "active_post sy t w r w1"
    have tx: "w_tx w1 = w_tx w" and d: "(w_db w1)\<lparr>leases := leases (w_db w)\<rparr> = w_db w"
      using active_post_db [OF p] stale by auto
    have iso: "isolated sy w1" using assms(1) tx by (simp add: isolated_def)
    have live: "w_db w1 = w_db w \<and> holds_lease sy t (l_token l) (w_db w)" if "r = Inr (Some l)" for l
      using active_post_live [OF p [unfolded that]] unfolding holds_lease_def by blast
    show "case r of Inl e \<Rightarrow> w_tx w1 = w_tx w \<and> (w_db w1)\<lparr>leases := leases (w_db w)\<rparr> = w_db w \<and>
            (Inl e = Inr Valid \<longrightarrow> w_db w1 = w_db w \<and> holds_lease sy t tok (w_db w))
          | Inr x \<Rightarrow> wp (case x of Some active \<Rightarrow> if l_token active = tok then ret Valid else ret HeldByOther
            | None \<Rightarrow> pbind (query sy (\<lambda>d. latest_status t tok (leases d))) (\<lambda>prior.
                if prior = Some st_stale \<or> prior = Some st_released then ret Expired else ret Invalid)) w1
            (\<lambda>r w'. w_tx w' = w_tx w \<and> (w_db w')\<lparr>leases := leases (w_db w)\<rparr> = w_db w \<and>
              (r = Inr Valid \<longrightarrow> w_db w' = w_db w \<and> holds_lease sy t tok (w_db w)))"
      using tx d live iso by (auto simp: wp_simps split: sum.split option.split)
  qed
qed

text \<open>The answers of a swap, on the database its transaction started from.\<close>

definition swap_post :: "sys \<Rightarrow> str \<Rightarrow> str \<Rightarrow> str \<Rightarrow> str \<Rightarrow> db \<Rightarrow> scope_write \<Rightarrow> db \<Rightarrow> bool" where
  "swap_post sy t tok e v d out d' =
     (case out of
        Written \<Rightarrow> is_local t d \<and> holds_lease sy t tok d \<and> trim_ws (appended a_planned_files t d) = e \<and> widened_from t v d d'
      | NoTask \<Rightarrow> \<not> is_local t d \<and> d' = d
      | NotLeased c \<Rightarrow> is_local t d \<and> c \<noteq> Valid \<and> d'\<lparr>leases := leases d\<rparr> = d
      | Stale current \<Rightarrow> is_local t d \<and> holds_lease sy t tok d \<and> is_array current \<and>
          current = appended a_planned_files t d \<and> trim_ws current \<noteq> e \<and>
          (\<forall>f\<in>{a_planned_files, a_allowed_commands, a_expected_tests}. \<forall>s. appended f s d' = appended f s d) \<and>
          d'\<lparr>appends := appends d\<rparr> = d)"

lemma inserted_columns:
  assumes "d1 = d\<lparr>appends := insert_append t (appends d)\<rparr>" "f \<in> {a_planned_files, a_allowed_commands, a_expected_tests}"
  shows "appended f s d1 = appended f s d" "append_row t d1 \<noteq> None"
  using assms(2) unfolding appended_def append_column_def assms(1) append_row_inserted
  by (auto split: option.split simp del: lit_Cons)

lemma swap_misses:
  "length (filter p rows) = 0 \<Longrightarrow> map (\<lambda>a. if p a then f a else a) rows = rows"
  by (auto simp: filter_empty_conv intro: map_idI)

lemma wp_swap_held:
  assumes "isolated sy w" "appends_ok (w_db w)" "is_local t (w_db w)" "holds_lease sy t tok (w_db w)"
  shows "wp (swap_held sy t e v) w
           (\<lambda>r w'. case r of Inl _ \<Rightarrow> True | Inr out \<Rightarrow> swap_post sy t tok e v (w_db w) out (w_db w'))"
proof -
  let ?d = "w_db w" let ?d1 = "?d\<lparr>appends := insert_append t (appends ?d)\<rparr>"
  let ?d2 = "?d1\<lparr>appends := map (\<lambda>a. if swap_where t e a then a\<lparr>a_planned_files := v\<rparr> else a) (appends ?d1)\<rparr>"
  note hit = swap_widens(1) [OF assms(2) refl refl, where t = t and e = e]
  note wide = swap_widens(2) [OF assms(2) refl refl, where t = t and e = e and v = v]
  obtain a where a: "append_row t ?d1 = Some a"
    using inserted_columns(2) [where d = ?d and t = t and f = a_planned_files, OF refl] by auto
  have c: "appended a_planned_files t ?d1 = appended a_planned_files t ?d"
    by (rule inserted_columns(1) [OF refl]) simp
  have pf: "a_planned_files a = appended a_planned_files t ?d"
    unfolding c [symmetric] by (simp add: appended_def append_column_def a)
  have stale: "swap_post sy t tok e v ?d (Stale (a_planned_files a)) ?d1"
    if "check_array (a_planned_files a) = Inr ()" "trim_ws (appended a_planned_files t ?d) \<noteq> e"
    using that assms(3,4) pf inserted_columns(1) [where d = ?d and t = t, OF refl]
    unfolding swap_post_def is_array_def scope_write.case by auto
  have written: "swap_post sy t tok e v ?d Written ?d2" if "trim_ws (appended a_planned_files t ?d) = e"
    using that assms(3,4) wide unfolding swap_post_def scope_write.case by blast
  show ?thesis
  proof (cases "length (filter (swap_where t e) (appends ?d1)) = 0")
    case True
    then have ne: "trim_ws (appended a_planned_files t ?d) \<noteq> e" using hit by blast
    have "?d2 = ?d1" using swap_misses [OF True] by simp
    then show ?thesis using assms(1) True a stale [OF _ ne]
      by (auto simp: swap_held_def wp_simps sql_update_def split: option.split sum.split)
  next
    case False
    then have "trim_ws (appended a_planned_files t ?d) = e" using hit by blast
    from written [OF this] show ?thesis using assms(1) False
      by (simp add: swap_held_def wp_simps sql_update_def split: option.split)
  qed
qed

lemma wp_swap:
  assumes "isolated sy w" "table_ok (leases (w_db w))" "appends_ok (w_db w)"
  shows "wp (swap_agent_appended sy t tok e v) w
           (\<lambda>r w'. case r of Inl _ \<Rightarrow> True | Inr out \<Rightarrow> swap_post sy t tok e v (w_db w) out (w_db w'))"
  unfolding swap_agent_appended_def wp_pbind
proof (rule wp_conseq [OF wp_is_local_item [OF assms(1)]], goal_cases)
  case (1 r w1)
  then have w1: "w_db w1 = w_db w" "isolated sy w1" using assms(1) by (auto simp: isolated_def)
  have held: "wp (diagnose sy t tok) w1 (\<lambda>r w'. case r of Inl e' \<Rightarrow> True | Inr code \<Rightarrow>
      wp (if code \<noteq> Valid then ret (NotLeased code) else swap_held sy t e v) w'
        (\<lambda>r w'. case r of Inl _ \<Rightarrow> True | Inr out \<Rightarrow> swap_post sy t tok e v (w_db w) out (w_db w')))"
    if loc: "is_local t (w_db w)"
  proof (rule wp_conseq [OF wp_diagnose], goal_cases)
    case (3 r w2)
    then have w2: "isolated sy w2" "(w_db w2)\<lparr>leases := leases (w_db w)\<rparr> = w_db w"
      using w1 by (auto simp: isolated_def)
    show ?case
    proof (cases "r = Inr Valid")
      case False
      then show ?thesis using w2 loc by (auto simp: wp_simps swap_post_def split: sum.split)
    next
      case True
      then have d: "w_db w2 = w_db w" and h: "holds_lease sy t tok (w_db w)" using 3 w1 by auto
      show ?thesis using True wp_swap_held [OF w2(1), where t = t and tok = tok and e = e and v = v, unfolded d, OF assms(3) loc h] by simp
    qed
  qed (use w1 assms(2) in simp_all)
  show ?case
  proof (cases r)
    case (Inr loc)
    then show ?thesis using 1 w1 held
      by (cases loc) (simp_all add: wp_simps swap_post_def del: wp_pbind, simp only: wp_pbind sum.case)
  qed simp
qed

section \<open>The read without interference\<close>

definition task_result :: "sys \<Rightarrow> str \<Rightarrow> db \<Rightarrow> store_error + task option" where
  "task_result sy t d =
     (case find (local_item t) (item_rows d) of
        None \<Rightarrow> Inr None
      | Some i \<Rightarrow>
          (case check_columns t (fst (snd (snd (snd (snd (task_columns_of sy d i)))))) of
             Inl e \<Rightarrow> Inl e
           | Inr _ \<Rightarrow> Inr (Some (build_task (task_columns_of sy d i)))))"

lemma read_isolated:
  assumes "isolated sy w"
  shows "wp (read_task sy t) w (\<lambda>r w'. w_db w' = w_db w \<and> ((\<exists>e. r = Inl e \<and> faulted sy e) \<or> r = task_result sy t (w_db w)))"
proof (cases "find (local_item t) (item_rows (w_db w))")
  case None
  then show ?thesis using assms
    by (auto simp: read_task_def items_present_def wp_simps task_result_def item_rows_def split: option.split)
next
  case (Some i)
  then have "work_items (w_db w) \<noteq> None" by (auto simp: item_rows_def split: option.splits)
  moreover obtain a b c d e n where "task_columns_of sy (w_db w) i = (a, b, c, d, e, n)" by (metis prod_cases6)
  ultimately show ?thesis using assms Some
    by (auto simp: read_task_def items_present_def wp_simps task_result_def split: option.split sum.split)
qed

lemma check_columns_ok:
  assumes "length scope = 9"
  shows "check_columns t scope = Inr () \<longleftrightarrow> list_all is_array scope"
proof -
  have col: "check_column t cv = Inr () \<longleftrightarrow> is_array (snd cv)" for cv
    by (auto simp: check_column_def is_array_def split: sum.splits)
  have "set (map snd (zip SCOPE_COLUMNS scope)) = set scope"
    using assms by (subst map_snd_zip) (simp_all add: SCOPE_COLUMNS_def)
  then have "(\<forall>x\<in>set (zip SCOPE_COLUMNS scope). is_array (snd x)) \<longleftrightarrow> list_all is_array scope"
    unfolding list_all_iff by (metis (no_types, lifting) imageE image_eqI set_map)
  then show ?thesis unfolding check_columns_def try_fold_unit col .
qed

text \<open>The columns a task is built from, by name.\<close>

definition planned_base :: "sys \<Rightarrow> item \<Rightarrow> str" where
  "planned_base sy i = body_list sy (i_body i) ''$.scope.planned_files''"

lemma task_result_Some:
  assumes "task_result sy t d = Inr (Some x)"
  obtains i where "find (local_item t) (item_rows d) = Some i" "i_id i = t"
    "is_array (planned_base sy i)" "is_array (x_agent_appended_planned_files_json x)"
    "x = build_task (task_columns_of sy d i)"
    "list_all is_array (fst (snd (snd (snd (snd (task_columns_of sy d i))))))"
    "x_agent_appended_planned_files_json x = appended a_planned_files t d"
    "x_planned_files_json x = merge_json_arrays (planned_base sy i) (appended a_planned_files t d)"
proof -
  obtain i where i: "find (local_item t) (item_rows d) = Some i"
      "check_columns t (fst (snd (snd (snd (snd (task_columns_of sy d i)))))) = Inr ()"
      "x = build_task (task_columns_of sy d i)"
    using assms by (auto simp: task_result_def split: option.splits sum.splits)
  have id: "i_id i = t" using i(1) by (auto simp: find_Some_iff local_item_def)
  have "length (fst (snd (snd (snd (snd (task_columns_of sy d i)))))) = 9"
    by (simp add: task_columns_of_def Let_def)
  then have all: "list_all is_array (fst (snd (snd (snd (snd (task_columns_of sy d i))))))"
    using i(2) check_columns_ok by blast
  show ?thesis
    using that [OF i(1) id] all i(3) id
    by (simp add: task_columns_of_def Let_def planned_base_def build_task_def appended_def)
qed

section \<open>A widening that must succeed\<close>

lemma wp_exec_rest:
  "at_rest sy now \<Longrightarrow> wp (exec sy st) w Q = Q (fst (st (w_db w))) (tick_db (snd (st (w_db w))) w)"
  by (simp add: wp_exec)

lemma swap_held_rest:
  fixes w :: world
  assumes "at_rest sy now" "appends_ok (w_db w)" "trim_ws (appended a_planned_files t (w_db w)) = e"
  shows "wp (swap_held sy t e v) w (\<lambda>r _. r = Inr Written)"
proof -
  have "length (filter (swap_where t e) (appends ((w_db w)\<lparr>appends := insert_append t (appends (w_db w))\<rparr>))) \<noteq> 0"
    using swap_widens(1) [OF assms(2) refl refl, where t = t and e = e] assms(3) by blast
  then show ?thesis by (simp add: swap_held_def wp_pbind wp_exec_rest [OF assms(1)] sql_update_def wp_ret)
qed

lemma swap_rest:
  assumes "at_rest sy now" "table_ok (leases (w_db w))" "appends_ok (w_db w)" "is_local t (w_db w)"
    "find (active_for t) (leases (w_db w)) = Some l" "lease_state_at now l = Live"
    "trim_ws (appended a_planned_files t (w_db w)) = e"
  shows "wp (swap_agent_appended sy t (l_token l) e v) w (\<lambda>r _. r = Inr Written)"
  unfolding swap_agent_appended_def wp_pbind
proof (rule wp_conseq [OF wp_is_local_item], goal_cases)
  case (2 r w1)
  then have r: "r = Inr True" and w1: "w_db w1 = w_db w" using assms(1,4) by (auto split: sum.splits)
  obtain c w2 where dg: "diagnose sy t (l_token l) w1 = (c, w2)" by fastforce
  have c: "c = Inr Valid"
    using diagnose_live [OF assms(1), of w1 t l "l_token l"] assms(2,5,6) w1 dg by simp
  have "w_db w2 = w_db w"
    using wpD [OF wp_diagnose dg] assms(1,2) w1 c by simp
  then have "wp (swap_held sy t e v) w2 (\<lambda>r _. r = Inr Written)"
    using swap_held_rest [OF assms(1)] assms(3,7) by simp
  then show ?case using r c dg by (simp add: wp_pbind wp_def [of "diagnose sy t (l_token l)"])
qed (use assms(1) in simp)

lemma widening_must_succeed:
  assumes "at_rest sy now" "\<not> w_tx w" "table_ok (leases (w_db w))" "appends_ok (w_db w)" "is_local t (w_db w)"
    "find (active_for t) (leases (w_db w)) = Some l" "lease_state_at now l = Live"
    "trim_ws (appended a_planned_files t (w_db w)) = trim_ws e"
    "byte_len (trim_ws v) \<le> MAX_AGENT_APPENDED_SCOPE_BYTES" "check_planned_files (trim_ws v) = Inr ()"
  shows "\<exists>w'. set_agent_appended_planned_files sy t (l_token l) e v w = (Inr Written, w')"
proof -
  have seen: "seen_db sy w = w_db w" using assms(1) by simp
  let ?w1 = "(tick_db (w_db w) w)\<lparr>w_tx := True\<rparr>"
  have "wp (swap_agent_appended sy t (l_token l) (trim_ws e) (trim_ws v)) ?w1 (\<lambda>r _. r = Inr Written)"
    by (rule swap_rest [OF assms(1)]) (use assms in \<open>simp_all add: tick_db_def\<close>)
  then obtain w2 where "swap_agent_appended sy t (l_token l) (trim_ws e) (trim_ws v) ?w1 = (Inr Written, w2)"
    by (auto simp: wp_def split: prod.splits)
  then show ?thesis using assms(1,9,10) seen
    by (simp add: set_agent_appended_planned_files_def write_transaction_def)
qed

lemma widening_spec:
  assumes "\<not> w_tx w" "table_ok (leases (seen_db sy w))" "appends_ok (seen_db sy w)"
    "set_agent_appended_planned_files sy t tok e v w = (r, w')"
  shows "case r of
           Inl _ \<Rightarrow> w_db w' = w_db w \<or> w_db w' = seen_db sy w
         | Inr out \<Rightarrow> swap_post sy t tok (trim_ws e) (trim_ws v) (seen_db sy w) out (w_db w') \<and>
             byte_len (trim_ws v) \<le> MAX_AGENT_APPENDED_SCOPE_BYTES \<and> check_planned_files (trim_ws v) = Inr ()"
proof -
  let ?w1 = "(tick_db (seen_db sy w) w)\<lparr>w_tx := True\<rparr>"
  obtain r2 w2 where b: "swap_agent_appended sy t tok (trim_ws e) (trim_ws v) ?w1 = (r2, w2)" by fastforce
  have iso: "isolated sy ?w1" and d: "w_db ?w1 = seen_db sy w" by (simp_all add: isolated_def)
  have post: "case r2 of Inl _ \<Rightarrow> True | Inr out \<Rightarrow> swap_post sy t tok (trim_ws e) (trim_ws v) (seen_db sy w) out (w_db w2)"
    using wpD [OF wp_swap [OF iso, unfolded d, OF assms(2,3)] b] .
  show ?thesis using assms(4) post b
    by (auto simp: set_agent_appended_planned_files_def Let_def throw_def write_transaction_def
        split: if_splits sum.splits option.splits)
qed

lemma read_rest: "at_rest sy now \<Longrightarrow> fst (read_task sy t w) = task_result sy t (w_db w)"
  using wpD [OF read_isolated, of sy w t "fst (read_task sy t w)" "snd (read_task sy t w)"] by simp

text \<open>A widened database differs for a reader in two fields of one task.\<close>

lemma task_result_widened:
  assumes "widened_from t v d d'" "is_array v" "task_result sy t d = Inr (Some x)"
  shows "\<exists>i. task_result sy t d' = Inr (Some (x\<lparr>x_planned_files_json := merge_json_arrays (planned_base sy i) v,
               x_agent_appended_planned_files_json := v\<rparr>)) \<and>
             is_array (planned_base sy i) \<and> is_array (x_agent_appended_planned_files_json x) \<and>
             x_planned_files_json x = merge_json_arrays (planned_base sy i) (x_agent_appended_planned_files_json x)"
  using assms(3)
proof (rule task_result_Some)
  fix i
  assume i: "find (local_item t) (item_rows d) = Some i" "i_id i = t" "is_array (planned_base sy i)"
    "is_array (x_agent_appended_planned_files_json x)" "x = build_task (task_columns_of sy d i)"
    "list_all is_array (fst (snd (snd (snd (snd (task_columns_of sy d i))))))"
    "x_agent_appended_planned_files_json x = appended a_planned_files t d"
    "x_planned_files_json x = merge_json_arrays (planned_base sy i) (appended a_planned_files t d)"
  have w: "appended a_planned_files t d' = v" "appended a_allowed_commands t d' = appended a_allowed_commands t d"
      "appended a_expected_tests t d' = appended a_expected_tests t d" "d'\<lparr>appends := appends d\<rparr> = d"
    using assms(1) unfolding widened_from_def by blast+
  have "work_items d' = work_items d" "gaps d' = gaps d"
    using arg_cong [OF w(4), of work_items] arg_cong [OF w(4), of gaps] by simp_all
  then have rows: "item_rows d' = item_rows d" and n: "blocking_count d' = blocking_count d"
    by (simp_all add: item_rows_def blocking_count_def fun_eq_iff)
  have cols: "append_column a_planned_files (append_row t d') = v"
    "append_column a_allowed_commands (append_row t d') = append_column a_allowed_commands (append_row t d)"
    "append_column a_expected_tests (append_row t d') = append_column a_expected_tests (append_row t d)"
    using w(1-3) by (simp_all add: appended_def)
  have "list_all is_array (fst (snd (snd (snd (snd (task_columns_of sy d' i))))))"
    using i(2,6) assms(2) by (simp add: task_columns_of_def Let_def cols)
  then have "check_columns t (fst (snd (snd (snd (snd (task_columns_of sy d' i)))))) = Inr ()"
    by (subst check_columns_ok) (simp_all add: task_columns_of_def Let_def)
  then have "task_result sy t d' = Inr (Some (build_task (task_columns_of sy d' i)))"
    using i(1) by (simp add: task_result_def rows)
  moreover have "build_task (task_columns_of sy d' i) = x\<lparr>x_planned_files_json := merge_json_arrays (planned_base sy i) v,
      x_agent_appended_planned_files_json := v\<rparr>"
    using i(2) unfolding i(5) by (simp add: task_columns_of_def Let_def build_task_def cols n planned_base_def)
  ultimately show ?thesis using i(3,4,7,8) by (intro exI [of _ i]) simp
qed

section \<open>Properties\<close>

text \<open>
  C8. A task's scope is widened only under its lease. When \<open>set_agent_appended_planned_files\<close> answers
  \<open>Written\<close>, the task is an item of this repository, the token is that of its live lease, the
  column held what the caller expected, the new text is a bounded list of planned files, and nothing
  but that one column of that one row is different. Any other answer leaves every appended column as
  it was, and an error leaves the store as it was.
\<close>

theorem widening_needs_lease:
  assumes "\<not> w_tx w" "table_ok (leases (seen_db sy w))" "appends_ok (seen_db sy w)"
    "set_agent_appended_planned_files sy t tok e v w = (r, w')"
  shows "case r of
           Inl _ \<Rightarrow> w_db w' = w_db w \<or> w_db w' = seen_db sy w
         | Inr out \<Rightarrow> swap_post sy t tok (trim_ws e) (trim_ws v) (seen_db sy w) out (w_db w') \<and>
             byte_len (trim_ws v) \<le> MAX_AGENT_APPENDED_SCOPE_BYTES \<and> check_planned_files (trim_ws v) = Inr ()"
  using assms by (rule widening_spec)

definition held_db :: db where
  "held_db = sample_db\<lparr>leases := [sample_lease\<lparr>l_status := st_active, l_released_at := None\<rparr>]\<rparr>"

definition held_world :: world where
  "held_world = \<lparr>w_db = held_db, w_tick = 0, w_tx = False\<rparr>"

lemma held_ok:
  "\<not> w_tx held_world" "table_ok (leases (w_db held_world))" "appends_ok (w_db held_world)"
  "seen_db quiet_sys held_world = w_db held_world"
  by (simp_all add: held_world_def held_db_def sample_db_def sample_lease_def table_ok_def appends_ok_def
      is_active_def seen_db_def env_def quiet_sys_def)

abbreviation widen_sample :: "(store_error + scope_write) \<times> world" where
  "widen_sample \<equiv> set_agent_appended_planned_files quiet_sys (lit ''T1'') (lit ''k0'') (lit ''[]'') (lit '' [\"a.rs\"]'') held_world"

lemma widen_sample_written: "fst widen_sample = Inr Written"
proof -
  let ?l = "sample_lease\<lparr>l_status := st_active, l_released_at := None\<rparr>"
  have l: "find (active_for (lit ''T1'')) (leases (w_db held_world)) = Some ?l" "l_token ?l = lit ''k0''"
    "lease_state_at 1700000000 ?l = Live"
    by (simp_all add: held_world_def held_db_def sample_lease_def active_for_def is_active_def lease_state_at_def)
  have d: "is_local (lit ''T1'') (w_db held_world)"
    "trim_ws (appended a_planned_files (lit ''T1'') (w_db held_world)) = trim_ws (lit ''[]'')"
    by (simp_all add: held_world_def held_db_def sample_db_def sample_item_def is_local_def local_item_def item_rows_def
        appended_def append_column_def append_row_def)
  have v: "trim_ws (lit '' [\"a.rs\"]'') = lit ''[\"a.rs\"]''" by code_simp
  have "check_planned_files (trim_ws (lit '' [\"a.rs\"]'')) = Inr ()" unfolding v by code_simp
  moreover have "byte_len (trim_ws (lit '' [\"a.rs\"]'')) \<le> MAX_AGENT_APPENDED_SCOPE_BYTES"
    unfolding v by (simp add: MAX_AGENT_APPENDED_SCOPE_BYTES_def byte_len_def utf8_width_def)
  ultimately show ?thesis
    using widening_must_succeed [OF sample_premises(1) held_ok(1-3) d(1) l(1,3) d(2)] l(2) by fastforce
qed

theorem widening_needs_lease_witness:
  "swap_post quiet_sys (lit ''T1'') (lit ''k0'') (trim_ws (lit ''[]'')) (trim_ws (lit '' [\"a.rs\"]'')) (w_db held_world) Written
     (w_db (snd widen_sample))"
proof -
  have "widen_sample = (Inr Written, snd widen_sample)" using widen_sample_written by (metis prod.collapse)
  from widening_needs_lease [OF held_ok(1) _ _ this] show ?thesis using held_ok by simp
qed

text \<open>
  C36. A reader of a task gets well-formed lists, and the scope it is held to is the planned files
  followed by the appended ones: whatever other writers left in the columns, \<open>task\<close> either refuses or
  answers with arrays, and the merged list has exactly the planner's elements and then the executor's.
\<close>

theorem task_scope_is_union:
  assumes "isolated sy w" "read_task sy t w = (Inr (Some x), w')"
  shows "\<exists>i vs us. find (local_item t) (item_rows (w_db w)) = Some i \<and>
     json_array_of vs (planned_base sy i) \<and>
     json_array_of us (appended a_planned_files t (w_db w)) \<and>
     json_array_of (vs @ us) (x_planned_files_json x) \<and>
     x_agent_appended_planned_files_json x = appended a_planned_files t (w_db w) \<and>
     (\<forall>c\<in>{x_allowed_commands_json x, x_expected_tests_json x, x_forbidden_changes_json x,
            x_requirement_ids_json x, x_acceptance_criterion_ids_json x}. is_array c)"
proof -
  have "task_result sy t (w_db w) = Inr (Some x)"
    using wpD [OF read_isolated [OF assms(1)] assms(2)] by simp
  then show ?thesis
  proof (rule task_result_Some)
    fix i
    assume i: "find (local_item t) (item_rows (w_db w)) = Some i" "i_id i = t" "is_array (planned_base sy i)"
      "is_array (x_agent_appended_planned_files_json x)" "x = build_task (task_columns_of sy (w_db w) i)"
      "list_all is_array (fst (snd (snd (snd (snd (task_columns_of sy (w_db w) i))))))"
      "x_agent_appended_planned_files_json x = appended a_planned_files t (w_db w)"
      "x_planned_files_json x = merge_json_arrays (planned_base sy i) (appended a_planned_files t (w_db w))"
    obtain vs us where "json_array_of vs (planned_base sy i)" "json_array_of us (appended a_planned_files t (w_db w))"
      using i(3,4,7) unfolding is_array_iff by auto
    moreover from merge_arrays [OF this] have "json_array_of (vs @ us) (x_planned_files_json x)" using i(8) by simp
    moreover have "is_array (merge_json_arrays a b)" if "is_array a" "is_array b" for a b
      using that merge_arrays unfolding is_array_iff by blast
    ultimately show ?thesis using i by (auto simp: task_columns_of_def Let_def build_task_def)
  qed
qed

definition appended_world :: world where
  "appended_world = held_world\<lparr>w_db := held_db\<lparr>appends := [\<lparr>a_task_id = lit ''T1'', a_planned_files = lit ''[\"a.rs\"]'',
     a_allowed_commands = lit ''[]'', a_expected_tests = lit ''[]''\<rparr>]\<rparr>\<rparr>"

lemma sample_reads:
  "\<exists>x. task_result quiet_sys (lit ''T1'') (w_db held_world) = Inr (Some x)"
  "\<exists>x. task_result quiet_sys (lit ''T1'') (w_db appended_world) = Inr (Some x)"
proof -
  have a: "is_array (lit ''[]'')" "is_array (lit ''[\"a.rs\"]'')" by code_simp+
  have b: "body_list quiet_sys s p = lit ''[]''" for s p by (simp add: body_list_def quiet_sys_def)
  have i: "find (local_item (lit ''T1'')) (item_rows (w_db w)) = Some sample_item" if "w = held_world \<or> w = appended_world" for w
    using that by (auto simp: held_world_def appended_world_def held_db_def sample_db_def sample_item_def local_item_def item_rows_def)
  have c: "check_columns t (fst (snd (snd (snd (snd (task_columns_of quiet_sys (w_db w) sample_item)))))) = Inr ()"
    if "w = held_world \<or> w = appended_world" for w t
    using that a by (subst check_columns_ok) (auto simp: task_columns_of_def Let_def b held_world_def appended_world_def
        held_db_def sample_db_def append_row_def append_column_def simp del: lit_Cons)
  show "\<exists>x. task_result quiet_sys (lit ''T1'') (w_db held_world) = Inr (Some x)"
    "\<exists>x. task_result quiet_sys (lit ''T1'') (w_db appended_world) = Inr (Some x)"
    using i c by (simp_all add: task_result_def del: lit_Cons)
qed

theorem task_scope_is_union_witness:
  "\<exists>x w' vs us. read_task quiet_sys (lit ''T1'') appended_world = (Inr (Some x), w') \<and>
     json_array_of us (lit ''[\"a.rs\"]'') \<and> json_array_of (vs @ us) (x_planned_files_json x)"
proof -
  obtain x w' where r: "read_task quiet_sys (lit ''T1'') appended_world = (Inr (Some x), w')"
    using sample_reads(2) read_rest [OF sample_premises(1)] by (metis prod.collapse)
  have "appended a_planned_files (lit ''T1'') (w_db appended_world) = lit ''[\"a.rs\"]''"
    by (simp add: appended_def append_column_def append_row_def appended_world_def)
  moreover have "isolated quiet_sys appended_world" using sample_premises(1) by simp
  ultimately show ?thesis using r task_scope_is_union [OF _ r] by metis
qed

text \<open>
  C26. A widening is read back. With the store at rest, after a \<open>Written\<close> the task reads as before but
  for its file scope, which is now the planner's elements followed by the elements of the new text; the
  raw column is the new text, so a caller can pass it as the next \<open>expected\<close>.
\<close>

theorem widening_is_read_back:
  assumes "at_rest sy now" "\<not> w_tx w" "table_ok (leases (w_db w))" "appends_ok (w_db w)"
    "read_task sy t w = (Inr (Some x), w0)"
    "set_agent_appended_planned_files sy t tok e v w = (Inr Written, w1)"
  shows "\<exists>y w2 vs us us'. read_task sy t w1 = (Inr (Some y), w2) \<and>
     x_agent_appended_planned_files_json y = trim_ws v \<and>
     json_array_of us (x_agent_appended_planned_files_json x) \<and> json_array_of us' (trim_ws v) \<and>
     json_array_of (vs @ us) (x_planned_files_json x) \<and> json_array_of (vs @ us') (x_planned_files_json y) \<and>
     y\<lparr>x_planned_files_json := x_planned_files_json x,
       x_agent_appended_planned_files_json := x_agent_appended_planned_files_json x\<rparr> = x"
proof -
  have seen: "seen_db sy w = w_db w" using assms(1) by simp
  from widening_spec [OF assms(2) _ _ assms(6)] have wide: "widened_from t (trim_ws v) (w_db w) (w_db w1)"
      and ok: "check_planned_files (trim_ws v) = Inr ()"
    using assms(3,4) seen by (simp_all add: swap_post_def)
  have v: "is_array (trim_ws v)" using ok by (rule planned_is_array)
  have rx: "task_result sy t (w_db w) = Inr (Some x)" using read_rest [OF assms(1), of t w] assms(5) by simp
  obtain i where i: "task_result sy t (w_db w1) = Inr (Some (x\<lparr>x_planned_files_json := merge_json_arrays (planned_base sy i) (trim_ws v),
        x_agent_appended_planned_files_json := trim_ws v\<rparr>))" "is_array (planned_base sy i)"
      "is_array (x_agent_appended_planned_files_json x)"
      "x_planned_files_json x = merge_json_arrays (planned_base sy i) (x_agent_appended_planned_files_json x)"
    using task_result_widened [OF wide v rx] by blast
  obtain vs us us' where "json_array_of vs (planned_base sy i)" "json_array_of us (x_agent_appended_planned_files_json x)"
      "json_array_of us' (trim_ws v)"
    using i(2,3) v unfolding is_array_iff by blast
  moreover from this have "json_array_of (vs @ us) (x_planned_files_json x)"
      "json_array_of (vs @ us') (merge_json_arrays (planned_base sy i) (trim_ws v))"
    using merge_arrays i(4) by simp_all
  moreover obtain w2 where "read_task sy t w1 = (Inr (Some (x\<lparr>x_planned_files_json := merge_json_arrays (planned_base sy i) (trim_ws v),
        x_agent_appended_planned_files_json := trim_ws v\<rparr>)), w2)"
    using read_rest [OF assms(1), of t w1] i(1) by (metis prod.collapse)
  ultimately show ?thesis by fastforce
qed

theorem widening_is_read_back_witness:
  "\<exists>y w2. read_task quiet_sys (lit ''T1'') (snd widen_sample) = (Inr (Some y), w2) \<and>
     x_agent_appended_planned_files_json y = trim_ws (lit '' [\"a.rs\"]'')"
proof -
  obtain x w0 where r: "read_task quiet_sys (lit ''T1'') held_world = (Inr (Some x), w0)"
    using sample_reads(1) read_rest [OF sample_premises(1)] by (metis prod.collapse)
  have s: "widen_sample = (Inr Written, snd widen_sample)" using widen_sample_written by (metis prod.collapse)
  show ?thesis using widening_is_read_back [OF sample_premises(1) held_ok(1-3) r s] by blast
qed

end
