(* ===== verification/Records.thy ===== *)
theory Records
  imports Lease_Use
begin

text \<open>
  The record tables of \<open>dc-store/src/records.rs\<close>: evidence, gaps with their run counter and history,
  verification runs, hand-offs, reviews, and the requirements a task links to. Every write and every
  list, statement by statement. \<open>Gap_History\<close> and \<open>Record_Lists\<close> hold their properties.
\<close>

definition MAX_LIST_ROWS :: nat where "MAX_LIST_ROWS = 10000"
definition MAX_GAPS_PER_REPLACE :: nat where "MAX_GAPS_PER_REPLACE = 500"
definition MAX_REVIEW_RECORD_BYTES :: nat where "MAX_REVIEW_RECORD_BYTES = 1048576"
definition MAX_REVIEW_KEY_BYTES :: nat where "MAX_REVIEW_KEY_BYTES = 256"

definition blank :: "str \<Rightarrow> bool" where
  "blank s = (trim s = [])"

definition require_json :: "string \<Rightarrow> str \<Rightarrow> (str \<Rightarrow> scan_error + unit) \<Rightarrow> unit prog" where
  "require_json what value check =
     (case check value of
        Inl why \<Rightarrow> throw (BadScope (Not_json (lit what) why))
      | Inr _ \<Rightarrow> ret ())"

fun each :: "('a \<Rightarrow> unit prog) \<Rightarrow> 'a list \<Rightarrow> unit prog" where
  "each f [] = ret ()"
| "each f (x # xs) = pbind (f x) (\<lambda>_. each f xs)"

text \<open>\<open>LIMIT MAX_LIST_ROWS + 1\<close>, and the answer built from the rows that came back.\<close>

definition limited :: "'r list \<Rightarrow> 'r list" where
  "limited rows = take (MAX_LIST_ROWS + 1) rows"

definition capped :: "'r list \<Rightarrow> 'r list \<times> bool" where
  "capped rows = (take MAX_LIST_ROWS rows, MAX_LIST_ROWS < length rows)"

text \<open>\<open>INSERT \<dots> ON CONFLICT(key) DO UPDATE SET\<close> every other column to the new one.\<close>

definition upsert_row :: "('r \<Rightarrow> 'k) \<Rightarrow> 'r \<Rightarrow> 'r list \<Rightarrow> 'r list" where
  "upsert_row key r rows =
     (if list_ex (\<lambda>x. key x = key r) rows then map (\<lambda>x. if key x = key r then r else x) rows
      else rows @ [r])"

section \<open>Requirements\<close>

record linked_requirements =
  lr_rows :: "requirement_row list"
  lr_missing :: "str list"
  lr_truncated :: bool

definition linked_row :: "db \<Rightarrow> str option \<Rightarrow> store_error + (str + requirement_row)" where
  "linked_row d v =
     (case v of
        None \<Rightarrow> Inl (Sql (lit ''Invalid column type''))
      | Some i \<Rightarrow> Inr (case find (\<lambda>r. rq_id r = i) (requirements d) of None \<Rightarrow> Inl i | Some r \<Rightarrow> Inr r))"

definition linked_rows :: "sys \<Rightarrow> str \<Rightarrow> db \<Rightarrow> store_error + (str + requirement_row) list" where
  "linked_rows sy task_id d =
     try_fold (\<lambda>out v. rbind (linked_row d v) (\<lambda>r. Inr (out @ [r]))) []
       (case find (\<lambda>i. i_id i = task_id \<and> i_deleted i = 0) (item_rows d) of
          None \<Rightarrow> [] | Some i \<Rightarrow> limited (json_requirement_ids sy (i_body i)))"

definition sort_linked :: "(str + requirement_row) list \<Rightarrow> linked_requirements" where
  "sort_linked linked =
     \<lparr>lr_rows = List.map_filter (\<lambda>x. case x of Inr r \<Rightarrow> Some r | Inl _ \<Rightarrow> None) (take MAX_LIST_ROWS linked),
      lr_missing = List.map_filter (\<lambda>x. case x of Inl i \<Rightarrow> Some i | Inr _ \<Rightarrow> None) (take MAX_LIST_ROWS linked),
      lr_truncated = (MAX_LIST_ROWS < length linked)\<rparr>"

definition task_requirements :: "sys \<Rightarrow> str \<Rightarrow> linked_requirements option prog" where
  "task_requirements sy task_id =
     pbind (is_local_item sy task_id) (\<lambda>local.
       if \<not> local then ret None
       else pbind (exec sy (\<lambda>d. (linked_rows sy task_id d, d))) (\<lambda>linked.
         ret (Some (sort_linked linked))))"

section \<open>Evidence\<close>

definition insert_evidence :: "evidence_row \<Rightarrow> db \<Rightarrow> (store_error + int) \<times> db" where
  "insert_evidence r d =
     (if I64_MAX \<le> evidence_seq d then (Inl (Sql (lit ''database or disk is full'')), d)
      else (Inr (evidence_seq d + 1),
            d\<lparr>evidence := evidence d @ [r\<lparr>e_id := evidence_seq d + 1\<rparr>], evidence_seq := evidence_seq d + 1\<rparr>))"

definition evidence_append ::
    "sys \<Rightarrow> str \<Rightarrow> str option \<Rightarrow> str option \<Rightarrow> str option \<Rightarrow> str \<Rightarrow> int prog" where
  "evidence_append sy kind task_id requirement_id acceptance_criterion_id data_json =
     (if blank kind then throw (BadScope (Reason (lit ''evidence type is empty'')))
      else
        pbind (require_json ''evidence data_json (an object or array)'' data_json check_container) (\<lambda>_.
        exec sy (insert_evidence
          \<lparr>e_id = 0, e_kind = kind, e_task_id = task_id, e_requirement_id = requirement_id,
           e_acceptance_criterion_id = acceptance_criterion_id, e_data_json = data_json\<rparr>)))"

definition of_task :: "('r \<Rightarrow> str option) \<Rightarrow> str option \<Rightarrow> 'r \<Rightarrow> bool" where
  "of_task f task_id r = (case task_id of None \<Rightarrow> True | Some t \<Rightarrow> f r = Some t)"

definition evidence_list :: "sys \<Rightarrow> str option \<Rightarrow> (evidence_row list \<times> bool) prog" where
  "evidence_list sy task_id =
     pbind (query sy (\<lambda>d. limited (rev (sort_key e_id (filter (of_task e_task_id task_id) (evidence d))))))
       (\<lambda>rows. ret (capped rows))"

section \<open>The run counter and the history\<close>

text \<open>
  A run number is an \<open>i64\<close> of SQLite. It grows by one with each replacement of a task's gaps, so
  within any life of a database it stays below the largest \<open>i64\<close>, and \<open>int\<close> holds it without a check.
\<close>

definition max_run :: "str \<Rightarrow> db \<Rightarrow> int" where
  "max_run t d = (case map snd (filter (\<lambda>r. fst r = t) (gap_runs d)) of [] \<Rightarrow> 0 | r # rs \<Rightarrow> foldl max r rs)"

definition set_run :: "str \<Rightarrow> int \<Rightarrow> db \<Rightarrow> db" where
  "set_run t run d = d\<lparr>gap_runs := upsert_row fst (t, run) (gap_runs d)\<rparr>"

definition advance_run :: "sys \<Rightarrow> str \<Rightarrow> int prog" where
  "advance_run sy t =
     pbind (query sy (\<lambda>d. max_run t d + 1)) (\<lambda>run.
     pbind (exec sy (\<lambda>d. (Inr (), set_run t run d))) (\<lambda>_.
     ret run))"

definition current_run :: "sys \<Rightarrow> str \<Rightarrow> int prog" where
  "current_run sy t =
     pbind (query sy (max_run t)) (\<lambda>run. if run > 0 then ret run else advance_run sy t)"

definition seen_again :: "str \<Rightarrow> int \<Rightarrow> gap_history_row \<Rightarrow> gap_history_row" where
  "seen_again gap_type run h =
     h\<lparr>h_gap_type := gap_type,
       h_occurrences := h_occurrences h + (if h_last_seen_run h < run then 1 else 0),
       h_resurfaces := h_resurfaces h + (if h_last_seen_run h < run - 1 then 1 else 0),
       h_last_seen_run := max (h_last_seen_run h) run\<rparr>"

definition sighting :: "str \<Rightarrow> str \<Rightarrow> str \<Rightarrow> int \<Rightarrow> gap_history_row list \<Rightarrow> gap_history_row list" where
  "sighting t gap_id gap_type run rows =
     (if list_ex (\<lambda>h. h_task_id h = t \<and> h_gap_id h = gap_id) rows
      then map (\<lambda>h. if h_task_id h = t \<and> h_gap_id h = gap_id then seen_again gap_type run h else h) rows
      else rows @ [\<lparr>h_task_id = t, h_gap_id = gap_id, h_gap_type = gap_type, h_first_seen_run = run,
                    h_last_seen_run = run, h_occurrences = 1, h_resurfaces = 0\<rparr>])"

definition record_sighting :: "sys \<Rightarrow> str \<Rightarrow> str \<Rightarrow> str \<Rightarrow> int \<Rightarrow> unit prog" where
  "record_sighting sy t gap_id gap_type run =
     exec sy (\<lambda>d. (Inr (), d\<lparr>gap_history := sighting t gap_id gap_type run (gap_history d)\<rparr>))"

section \<open>Gaps\<close>

text \<open>The statements name the two output columns, so they fail on a table without them.\<close>

definition output_columns :: "str list" where
  "output_columns = [lit ''stdout_path'', lit ''stderr_path'']"

definition missing_output :: "db \<Rightarrow> str option" where
  "missing_output d = find (\<lambda>c. c \<notin> set (gap_columns d)) output_columns"

definition no_column :: "str \<Rightarrow> store_error" where
  "no_column c = Sql (lit ''table gaps has no column named '' @ c)"

definition upsert_gap :: "gap \<Rightarrow> db \<Rightarrow> (store_error + unit) \<times> db" where
  "upsert_gap g d =
     (case missing_output d of
        Some c \<Rightarrow> (Inl (no_column c), d)
      | None \<Rightarrow> (Inr (), d\<lparr>gaps := upsert_row g_id g (gaps d)\<rparr>))"

definition insert_gap :: "gap \<Rightarrow> db \<Rightarrow> (store_error + unit) \<times> db" where
  "insert_gap g d =
     (case missing_output d of
        Some c \<Rightarrow> (Inl (no_column c), d)
      | None \<Rightarrow>
          if list_ex (\<lambda>x. g_id x = g_id g) (gaps d)
          then (Inl (Sql (lit ''UNIQUE constraint failed: gaps.id'')), d)
          else (Inr (), d\<lparr>gaps := gaps d @ [g]\<rparr>))"

definition gap_upsert_in :: "sys \<Rightarrow> gap \<Rightarrow> unit prog" where
  "gap_upsert_in sy g =
     pbind (case map_option trim (g_task_id g) of
              None \<Rightarrow> ret ()
            | Some t \<Rightarrow>
                if t = [] then ret ()
                else pbind (current_run sy t) (\<lambda>run. record_sighting sy t (g_id g) (g_gap_type g) run)) (\<lambda>_.
     exec sy (upsert_gap g))"

definition gap_upsert :: "sys \<Rightarrow> gap \<Rightarrow> unit prog" where
  "gap_upsert sy g =
     (if blank (g_id g) then throw (BadScope (Reason (lit ''gap id is required'')))
      else pbind (require_json ''gap evidence_json (an array)'' (g_evidence_json g) check_array) (\<lambda>_.
             write_transaction sy (gap_upsert_in sy g)))"

text \<open>\<open>out.iter().position(\<dots>)\<close> and the assignment or push it decides.\<close>

fun put_gap :: "gap \<Rightarrow> gap list \<Rightarrow> gap list" where
  "put_gap row [] = [row]"
| "put_gap row (seen # out) = (if g_id seen = g_id row then row # out else seen # put_gap row out)"

definition normalise_step :: "str \<Rightarrow> gap list \<Rightarrow> gap \<Rightarrow> store_error + gap list" where
  "normalise_step t out g =
     (if blank (g_id g) then Inl (BadScope (Reason (lit ''gap id is required'')))
      else Inr (put_gap (g\<lparr>g_task_id := Some t\<rparr>) out))"

definition normalise_gaps :: "str \<Rightarrow> gap list \<Rightarrow> store_error + gap list" where
  "normalise_gaps t gs =
     (if length gs > MAX_GAPS_PER_REPLACE then Inl (BadScope (Too_many_gaps (length gs)))
      else try_fold (normalise_step t) [] gs)"

definition delete_gaps :: "str \<Rightarrow> db \<Rightarrow> db" where
  "delete_gaps t d = d\<lparr>gaps := filter (\<lambda>g. g_task_id g \<noteq> Some t) (gaps d)\<rparr>"

definition gaps_replace_in :: "sys \<Rightarrow> str \<Rightarrow> gap list \<Rightarrow> unit prog" where
  "gaps_replace_in sy t gs0 =
     (if blank t then throw (BadScope (Reason (lit ''task_id is required to replace gaps'')))
      else
        pbind (lift_result (normalise_gaps t gs0)) (\<lambda>gs.
        pbind (each (\<lambda>g. require_json ''gap evidence_json (an array)'' (g_evidence_json g) check_array) gs) (\<lambda>_.
        pbind (advance_run sy t) (\<lambda>run.
        pbind (each (\<lambda>g. record_sighting sy t (g_id g) (g_gap_type g) run) gs) (\<lambda>_.
        pbind (exec sy (\<lambda>d. (Inr (), delete_gaps t d))) (\<lambda>_.
        each (\<lambda>g. exec sy (insert_gap g)) gs))))))"

definition gaps_replace :: "sys \<Rightarrow> str \<Rightarrow> gap list \<Rightarrow> unit prog" where
  "gaps_replace sy t gs = write_transaction sy (gaps_replace_in sy t gs)"

section \<open>Verification runs\<close>

definition run_record :: "sys \<Rightarrow> verification_run \<Rightarrow> unit prog" where
  "run_record sy r =
     (if blank (v_id r) \<or> blank (v_task_id r) then
        throw (BadScope (Reason (lit ''verification run id and task_id are required'')))
      else
        pbind (require_json ''run environment_json (an object)'' (v_environment_json r) check_object) (\<lambda>_.
        pbind (require_json ''run commands_json (an array)'' (v_commands_json r) check_array) (\<lambda>_.
        exec sy (\<lambda>d. (Inr (), d\<lparr>verification_runs := upsert_row v_id r (verification_runs d)\<rparr>)))))"

definition verification_commit ::
    "sys \<Rightarrow> verification_run option \<Rightarrow> str \<Rightarrow> gap list \<Rightarrow> unit prog" where
  "verification_commit sy run t gs =
     (case run of
        Some r \<Rightarrow>
          if v_task_id r \<noteq> t then throw (BadScope (Run_of_other_task (v_id r) (v_task_id r) t))
          else write_transaction sy (pbind (run_record sy r) (\<lambda>_. gaps_replace_in sy t gs))
      | None \<Rightarrow> write_transaction sy (gaps_replace_in sy t gs))"

definition run_get :: "sys \<Rightarrow> str \<Rightarrow> verification_run option prog" where
  "run_get sy i = query sy (\<lambda>d. find (\<lambda>r. v_id r = i) (verification_runs d))"

definition runs_list :: "sys \<Rightarrow> str option \<Rightarrow> (verification_run list \<times> bool) prog" where
  "runs_list sy task_id =
     pbind (query sy (\<lambda>d. limited (rev (sort_key (\<lambda>r. (v_started_at r, v_id r))
         (filter (of_task (\<lambda>r. Some (v_task_id r)) task_id) (verification_runs d))))))
       (\<lambda>rows. ret (capped rows))"

section \<open>Lists of gaps and of their history\<close>

definition gap_history_list :: "sys \<Rightarrow> str option \<Rightarrow> (gap_history_row list \<times> bool) prog" where
  "gap_history_list sy task_id =
     pbind (query sy (\<lambda>d. limited
         (case task_id of
            Some t \<Rightarrow> sort_key (\<lambda>h. (- h_resurfaces h, h_gap_id h)) (filter (\<lambda>h. h_task_id h = t) (gap_history d))
          | None \<Rightarrow> sort_key (\<lambda>h. (- h_resurfaces h, h_task_id h, h_gap_id h)) (gap_history d))))
       (\<lambda>rows. ret (capped rows))"

definition gaps_has_column :: "sys \<Rightarrow> string \<Rightarrow> bool prog" where
  "gaps_has_column sy name = query sy (\<lambda>d. lit name \<in> set (gap_columns d))"

definition read_gap :: "bool \<Rightarrow> gap \<Rightarrow> gap" where
  "read_gap outputs g = (if outputs then g else g\<lparr>g_stdout_path := None, g_stderr_path := None\<rparr>)"

definition gaps_list :: "sys \<Rightarrow> str option \<Rightarrow> (gap list \<times> bool) prog" where
  "gaps_list sy task_id =
     pbind (pbind (gaps_has_column sy ''stdout_path'') (\<lambda>b.
              if b then gaps_has_column sy ''stderr_path'' else ret False)) (\<lambda>outputs.
     pbind (query sy (\<lambda>d. limited (map (read_gap outputs)
              (sort_key g_id (filter (of_task g_task_id task_id) (gaps d)))))) (\<lambda>rows.
     ret (capped rows)))"

section \<open>Hand-offs\<close>

definition handoff_record :: "sys \<Rightarrow> agent_handoff \<Rightarrow> unit prog" where
  "handoff_record sy k =
     (if blank (k_id k) \<or> blank (k_task_id k) then
        throw (BadScope (Reason (lit ''handoff id and task_id are required'')))
      else exec sy (\<lambda>d. (Inr (), d\<lparr>agent_handoffs := upsert_row k_id k (agent_handoffs d)\<rparr>)))"

definition handoff_get :: "sys \<Rightarrow> str \<Rightarrow> agent_handoff option prog" where
  "handoff_get sy i = query sy (\<lambda>d. find (\<lambda>k. k_id k = i) (agent_handoffs d))"

section \<open>Reviews\<close>

definition is_control :: "uchar \<Rightarrow> bool" where
  "is_control c \<longleftrightarrow> c < 32 \<or> (127 \<le> c \<and> c < 160)"

definition require_review_key :: "string \<Rightarrow> str \<Rightarrow> store_error + unit" where
  "require_review_key what value =
     (if blank value \<or> byte_len value > MAX_REVIEW_KEY_BYTES then Inl (BadScope (Bad_review_key (lit what)))
      else if list_ex is_control value then Inl (BadScope (Control_in_review_key (lit what)))
      else Inr ())"

definition hash_byte :: "byte \<Rightarrow> bool" where
  "hash_byte b \<longleftrightarrow> (97 \<le> b \<and> b \<le> 122) \<or> ascii_digit b \<or> b = 58 \<or> b = 45"

definition insert_review :: "review_row \<Rightarrow> db \<Rightarrow> (store_error + int) \<times> db" where
  "insert_review r d =
     (if I64_MAX \<le> reviews_seq d then (Inl (Sql (lit ''database or disk is full'')), d)
      else (Inr (reviews_seq d + 1),
            d\<lparr>reviews := reviews d @ [r\<lparr>r_id := reviews_seq d + 1\<rparr>], reviews_seq := reviews_seq d + 1\<rparr>))"

text \<open>The checks before the task is looked up, in their order.\<close>

definition check_review :: "str \<Rightarrow> str \<Rightarrow> str \<Rightarrow> str \<Rightarrow> store_error + unit" where
  "check_review task_id acceptance_criterion_id subject_hash record_json =
     rbind (require_review_key ''task id'' task_id) (\<lambda>_.
     rbind (require_review_key ''acceptance criterion id'' acceptance_criterion_id) (\<lambda>_.
     rbind (require_review_key ''subject hash'' subject_hash) (\<lambda>_.
     rbind (guard (list_all hash_byte (utf8_encode subject_hash))
              (BadScope (Reason (lit ''review subject hash may hold only a-z, 0-9, '' @ [39, 58, 39] @ lit '' and '' @ [39, 45, 39])))) (\<lambda>_.
     guard (byte_len record_json \<le> MAX_REVIEW_RECORD_BYTES)
       (BadScope (Reason (lit ''review record is over 1048576 bytes'')))))))"

definition review_append :: "sys \<Rightarrow> str \<Rightarrow> str \<Rightarrow> str \<Rightarrow> str \<Rightarrow> str \<Rightarrow> int prog" where
  "review_append sy task_id acceptance_criterion_id subject_hash record_json recorded_at =
     pbind (lift_result (check_review task_id acceptance_criterion_id subject_hash record_json)) (\<lambda>_.
     pbind (require_json ''review record'' record_json check_container) (\<lambda>_.
       if \<not> starts_with [c_lbrace] (trim_start record_json) then
         throw (BadScope (Reason (lit ''review record must be a JSON object'')))
       else
         pbind (is_local_item sy task_id) (\<lambda>local.
           if \<not> local then throw (BadScope (No_task_to_review task_id))
           else exec sy (insert_review
             \<lparr>r_id = 0, r_task_id = task_id, r_acceptance_criterion_id = acceptance_criterion_id,
              r_subject_hash = subject_hash, r_record_json = record_json, r_recorded_at = recorded_at\<rparr>))))"

definition reviews_list :: "sys \<Rightarrow> str \<Rightarrow> str option \<Rightarrow> (review_row list \<times> bool) prog" where
  "reviews_list sy task_id acceptance_criterion_id =
     pbind (query sy (\<lambda>d. limited (rev (sort_key r_id
         (filter (\<lambda>r. r_task_id r = task_id \<and> of_task (\<lambda>r. Some (r_acceptance_criterion_id r)) acceptance_criterion_id r)
            (reviews d))))))
       (\<lambda>rows. ret (capped rows))"

end
