(* ===== verification/Store_Calc.thy ===== *)
theory Store_Calc
  imports Records
begin

text \<open>
  The writes of \<open>Records\<close> as functions of the database. \<open>computes\<close> says that a program whose
  statements run without interference answers what a function answers, or fails because a statement
  failed; the constructs of programs preserve it, a transaction turns it into all or nothing, and every
  write is refined to its function.
\<close>

section \<open>Programs as functions of the database\<close>

definition computes :: "sys \<Rightarrow> 'a prog \<Rightarrow> (db \<Rightarrow> store_error + 'a \<times> db) \<Rightarrow> bool" where
  "computes sy m f \<longleftrightarrow>
     (\<forall>w. isolated sy w \<longrightarrow> wp m w (\<lambda>r w'. w_tx w' = w_tx w \<and>
        ((\<exists>e. r = Inl e \<and> faulted sy e) \<or>
         (case f (w_db w) of Inl e \<Rightarrow> r = Inl e | Inr (x, d') \<Rightarrow> r = Inr x \<and> w_db w' = d'))))"

named_theorems computes_rules \<open>the function each construct computes\<close>

lemma computes_ret [computes_rules]: "computes sy (ret x) (\<lambda>d. Inr (x, d))"
  by (simp add: computes_def wp_ret)

lemma computes_throw [computes_rules]: "computes sy (throw e) (\<lambda>d. Inl e)"
  by (simp add: computes_def wp_throw)

lemma computes_lift [computes_rules]: "computes sy (lift_result r) (\<lambda>d. rbind r (\<lambda>x. Inr (x, d)))"
  by (cases r) (simp_all add: computes_def wp_lift)

lemma computes_exec [computes_rules]:
  "computes sy (exec sy st) (\<lambda>d. case st d of (r, d') \<Rightarrow> rbind r (\<lambda>x. Inr (x, d')))"
  unfolding computes_def
proof (intro allI impI)
  fix w assume iso: "isolated sy w"
  obtain r d' where "st (w_db w) = (r, d')" by fastforce
  then show "wp (exec sy st) w (\<lambda>r w'. w_tx w' = w_tx w \<and> ((\<exists>e. r = Inl e \<and> faulted sy e) \<or>
      (case (case st (w_db w) of (r, d') \<Rightarrow> rbind r (\<lambda>x. Inr (x, d'))) of
         Inl e \<Rightarrow> r = Inl e | Inr (x, d') \<Rightarrow> r = Inr x \<and> w_db w' = d')))"
    using iso by (cases r) (auto simp: wp_exec tick_db_def split: option.split)
qed

lemma computes_query [computes_rules]: "computes sy (query sy q) (\<lambda>d. Inr (q d, d))"
  using computes_exec [of sy "\<lambda>d. (Inr (q d), d)"] by (simp add: query_def)

lemma computes_pbind [computes_rules]:
  assumes "computes sy m f" "\<And>x. computes sy (k x) (g x)"
  shows "computes sy (pbind m k) (\<lambda>d. rbind (f d) (\<lambda>(x, d'). g x d'))"
  unfolding computes_def
proof (intro allI impI)
  fix w assume iso: "isolated sy w"
  show "wp (pbind m k) w (\<lambda>r w'. w_tx w' = w_tx w \<and> ((\<exists>e. r = Inl e \<and> faulted sy e) \<or>
      (case rbind (f (w_db w)) (\<lambda>(x, d'). g x d') of Inl e \<Rightarrow> r = Inl e | Inr (x, d') \<Rightarrow> r = Inr x \<and> w_db w' = d')))"
    unfolding wp_pbind
  proof (rule wp_conseq [OF assms(1) [unfolded computes_def, rule_format, OF iso]], goal_cases)
    case (1 r w1)
    show ?case
    proof (cases r)
      case (Inl e)
      then show ?thesis using 1 by (cases "f (w_db w)") auto
    next
      case (Inr x)
      then have f: "f (w_db w) = Inr (x, w_db w1)" using 1 by (cases "f (w_db w)") auto
      have "isolated sy w1" using iso 1 by (simp add: isolated_def)
      from assms(2) [unfolded computes_def, rule_format, OF this, of x] show ?thesis
        using Inr 1 f by simp
    qed
  qed
qed

lemma computes_cong: "computes sy m f \<Longrightarrow> (\<And>d. f d = g d) \<Longrightarrow> computes sy m g"
  by (simp add: computes_def)

lemma computes_if [computes_rules]:
  "computes sy m f \<Longrightarrow> computes sy k g \<Longrightarrow> computes sy (if b then m else k) (\<lambda>d. if b then f d else g d)"
  by simp

text \<open>A transaction on its own: all of the function's effect, or none.\<close>

lemma computes_transaction:
  assumes "computes sy body f" "write_transaction sy body w = (r, w')"
  shows "case r of
           Inl e \<Rightarrow> w_db w' = seen_db sy w \<and> (faulted sy e \<or> f (seen_db sy w) = Inl e)
         | Inr x \<Rightarrow> f (seen_db sy w) = Inr (x, w_db w')"
    and "w_tx w' = False \<or> fault sy (w_tick w) \<noteq> None"
proof -
  let ?w1 = "(tick_db (seen_db sy w) w)\<lparr>w_tx := True\<rparr>"
  obtain r2 w2 where b: "body ?w1 = (r2, w2)" by fastforce
  have iso: "isolated sy ?w1" and d: "w_db ?w1 = seen_db sy w" by (simp_all add: isolated_def)
  have "(\<exists>e. r2 = Inl e \<and> faulted sy e) \<or>
      (case f (seen_db sy w) of Inl e \<Rightarrow> r2 = Inl e | Inr (x, d') \<Rightarrow> r2 = Inr x \<and> w_db w2 = d')"
    using wpD [OF assms(1) [unfolded computes_def, rule_format, OF iso] b] unfolding d by blast
  then have "case r2 of Inl e \<Rightarrow> faulted sy e \<or> f (seen_db sy w) = Inl e | Inr x \<Rightarrow> f (seen_db sy w) = Inr (x, w_db w2)"
    by (cases r2; cases "f (seen_db sy w)") auto
  then show "case r of
           Inl e \<Rightarrow> w_db w' = seen_db sy w \<and> (faulted sy e \<or> f (seen_db sy w) = Inl e)
         | Inr x \<Rightarrow> f (seen_db sy w) = Inr (x, w_db w')"
    using assms(2) b by (auto simp: write_transaction_def Let_def split: option.splits sum.splits)
  show "w_tx w' = False \<or> fault sy (w_tick w) \<noteq> None"
    using assms(2) b by (auto simp: write_transaction_def Let_def split: option.splits sum.splits)
qed

lemma transaction_rest:
  assumes "at_rest sy now" "computes sy body f"
  shows "\<exists>w'. \<not> w_tx w' \<and>
     (case f (w_db w) of Inl e \<Rightarrow> write_transaction sy body w = (Inl e, w') \<and> w_db w' = w_db w
      | Inr (x, d') \<Rightarrow> write_transaction sy body w = (Inr x, w') \<and> w_db w' = d')"
proof -
  obtain r w' where t: "write_transaction sy body w = (r, w')" by fastforce
  have "seen_db sy w = w_db w" using assms(1) by simp
  then show ?thesis
    using computes_transaction [OF assms(2) t] assms(1) t by (cases r) (auto split: sum.splits)
qed

lemma computes_each:
  assumes "\<And>x. computes sy (f x) (\<lambda>d. rbind (step x d) (\<lambda>d'. Inr ((), d')))"
  shows "computes sy (each f xs) (\<lambda>d. rbind (try_fold (\<lambda>d x. step x d) d xs) (\<lambda>d'. Inr ((), d')))"
proof (induction xs)
  case (Cons x xs)
  show ?case unfolding each.simps
    by (rule computes_cong [OF computes_pbind [OF assms Cons.IH]]) (auto simp: rbind_def split: sum.split)
qed (simp add: computes_ret)

section \<open>What the writes compute\<close>

lemma rbind_assoc: "rbind (rbind m f) g = rbind m (\<lambda>x. rbind (f x) g)"
  by (cases m) auto

definition json_ok :: "string \<Rightarrow> str \<Rightarrow> (str \<Rightarrow> scan_error + unit) \<Rightarrow> store_error + unit" where
  "json_ok what value check =
     (case check value of Inl why \<Rightarrow> Inl (BadScope (Not_json (lit what) why)) | Inr _ \<Rightarrow> Inr ())"

lemma computes_require_json:
  "computes sy (require_json what v check) (\<lambda>d. rbind (json_ok what v check) (\<lambda>_. Inr ((), d)))"
  by (cases "check v") (simp_all add: require_json_def json_ok_def computes_ret computes_throw)

lemma json_ok_array: "json_ok what v check_array = Inr () \<longleftrightarrow> is_array v"
  by (auto simp: json_ok_def is_array_def split: sum.split)

definition opened_run :: "str \<Rightarrow> db \<Rightarrow> int \<times> db" where
  "opened_run t d = (max_run t d + 1, set_run t (max_run t d + 1) d)"

lemma computes_advance_run: "computes sy (advance_run sy t) (\<lambda>d. Inr (opened_run t d))"
  unfolding advance_run_def
  by (rule computes_cong [OF computes_pbind [OF computes_query computes_pbind [OF computes_exec computes_ret]]])
    (simp add: opened_run_def)

definition joined_run :: "str \<Rightarrow> db \<Rightarrow> int \<times> db" where
  "joined_run t d = (if max_run t d > 0 then (max_run t d, d) else opened_run t d)"

lemma computes_current_run: "computes sy (current_run sy t) (\<lambda>d. Inr (joined_run t d))"
  unfolding current_run_def
  by (rule computes_cong [OF computes_pbind [OF computes_query computes_if [OF computes_ret computes_advance_run]]])
    (simp add: joined_run_def)

definition sighted :: "str \<Rightarrow> int \<Rightarrow> gap \<Rightarrow> db \<Rightarrow> db" where
  "sighted t run g d = d\<lparr>gap_history := sighting t (g_id g) (g_gap_type g) run (gap_history d)\<rparr>"

lemma computes_record_sighting:
  "computes sy (record_sighting sy t (g_id g) (g_gap_type g) run) (\<lambda>d. Inr ((), sighted t run g d))"
  unfolding record_sighting_def by (rule computes_cong [OF computes_exec]) (simp add: sighted_def)

definition put_one :: "gap \<Rightarrow> db \<Rightarrow> store_error + db" where
  "put_one g d =
     (let d1 = (case map_option trim (g_task_id g) of
                  None \<Rightarrow> d
                | Some t \<Rightarrow> if t = [] then d else sighted t (fst (joined_run t d)) g (snd (joined_run t d)))
      in case missing_output d1 of
           Some c \<Rightarrow> Inl (no_column c)
         | None \<Rightarrow> Inr (d1\<lparr>gaps := upsert_row g_id g (gaps d1)\<rparr>))"

lemma computes_gap_upsert_in: "computes sy (gap_upsert_in sy g) (\<lambda>d. rbind (put_one g d) (\<lambda>d'. Inr ((), d')))"
proof -
  let ?f = "\<lambda>d. Inr ((), case map_option trim (g_task_id g) of None \<Rightarrow> d
    | Some t \<Rightarrow> if t = [] then d else sighted t (fst (joined_run t d)) g (snd (joined_run t d)))"
  have first: "computes sy (case map_option trim (g_task_id g) of None \<Rightarrow> ret ()
      | Some t \<Rightarrow> if t = [] then ret ()
          else pbind (current_run sy t) (\<lambda>run. record_sighting sy t (g_id g) (g_gap_type g) run)) ?f"
  proof (cases "g_task_id g")
    case (Some z)
    define t where "t = trim z"
    have "computes sy (pbind (current_run sy t) (\<lambda>run. record_sighting sy t (g_id g) (g_gap_type g) run))
        (\<lambda>d. Inr ((), sighted t (fst (joined_run t d)) g (snd (joined_run t d))))"
      by (rule computes_cong [OF computes_pbind [OF computes_current_run computes_record_sighting]])
        (simp add: case_prod_beta)
    then show ?thesis using Some by (simp add: computes_ret t_def)
  qed (simp add: computes_ret)
  show ?thesis unfolding gap_upsert_in_def
    by (rule computes_cong [OF computes_pbind [OF first computes_exec]])
      (simp add: put_one_def Let_def upsert_gap_def split: option.split)
qed

definition add_gap :: "gap \<Rightarrow> db \<Rightarrow> store_error + db" where
  "add_gap g d = (case insert_gap g d of (r, d') \<Rightarrow> rbind r (\<lambda>_. Inr d'))"

definition opened :: "str \<Rightarrow> gap list \<Rightarrow> db \<Rightarrow> db" where
  "opened t gs d = fold (sighted t (fst (opened_run t d))) gs (snd (opened_run t d))"

definition replace_gaps :: "str \<Rightarrow> gap list \<Rightarrow> db \<Rightarrow> store_error + db" where
  "replace_gaps t gs0 d =
     (if blank t then Inl (BadScope (Reason (lit ''task_id is required to replace gaps'')))
      else rbind (normalise_gaps t gs0) (\<lambda>gs.
           rbind (try_fold (\<lambda>_ g. json_ok ''gap evidence_json (an array)'' (g_evidence_json g) check_array) () gs) (\<lambda>_.
           try_fold (\<lambda>d g. add_gap g d) (delete_gaps t (opened t gs d)) gs)))"

lemma try_fold_check: "try_fold (\<lambda>d g. rbind (f g) (\<lambda>_. Inr d)) d gs = rbind (try_fold (\<lambda>_. f) () gs) (\<lambda>_. Inr d)"
proof (induction gs)
  case (Cons g gs)
  then show ?case by (cases "f g") simp_all
qed simp

lemma try_fold_total: "try_fold (\<lambda>d g. Inr (f g d)) d gs = Inr (fold f gs d)"
  by (induction gs arbitrary: d) auto

lemma computes_gaps_replace_in:
  "computes sy (gaps_replace_in sy t gs) (\<lambda>d. rbind (replace_gaps t gs d) (\<lambda>d'. Inr ((), d')))"
proof -
  let ?what = "''gap evidence_json (an array)''"
  have check: "computes sy (each (\<lambda>g. require_json ?what (g_evidence_json g) check_array) ns)
      (\<lambda>d. rbind (try_fold (\<lambda>_ g. json_ok ?what (g_evidence_json g) check_array) () ns) (\<lambda>_. Inr ((), d)))" for ns
  proof (rule computes_cong [OF computes_each])
    show "computes sy (require_json ?what (g_evidence_json x) check_array)
        (\<lambda>d. rbind (rbind (json_ok ?what (g_evidence_json x) check_array) (\<lambda>_. Inr d)) (\<lambda>d'. Inr ((), d')))" for x
      by (rule computes_cong [OF computes_require_json]) (simp add: rbind_assoc)
  qed (simp add: try_fold_check rbind_assoc)
  have sight: "computes sy (each (\<lambda>g. record_sighting sy t (g_id g) (g_gap_type g) run) ns)
      (\<lambda>d. Inr ((), fold (sighted t run) ns d))" for run ns
  proof (rule computes_cong [OF computes_each])
    show "computes sy (record_sighting sy t (g_id x) (g_gap_type x) run) (\<lambda>d. rbind (Inr (sighted t run x d)) (\<lambda>d'. Inr ((), d')))" for x
      by (rule computes_cong [OF computes_record_sighting]) simp
  qed (simp add: try_fold_total)
  have add: "computes sy (each (\<lambda>g. exec sy (insert_gap g)) ns) (\<lambda>d. rbind (try_fold (\<lambda>d g. add_gap g d) d ns) (\<lambda>d'. Inr ((), d')))" for ns
  proof (rule computes_cong [OF computes_each])
    show "computes sy (exec sy (insert_gap x)) (\<lambda>d. rbind (add_gap x d) (\<lambda>d'. Inr ((), d')))" for x
      by (rule computes_cong [OF computes_exec]) (simp add: add_gap_def rbind_assoc split: prod.split)
  qed simp
  show ?thesis unfolding gaps_replace_in_def
  proof (rule computes_cong [OF computes_if [OF computes_throw computes_pbind [OF computes_lift computes_pbind [OF check
        computes_pbind [OF computes_advance_run computes_pbind [OF sight computes_pbind [OF computes_exec add]]]]]]])
    show "(if blank t then Inl (BadScope (Reason (lit ''task_id is required to replace gaps''))) else
      rbind (rbind (normalise_gaps t gs) (\<lambda>x. Inr (x, d))) (\<lambda>(ns, d).
      rbind (rbind (try_fold (\<lambda>_ g. json_ok ?what (g_evidence_json g) check_array) () ns) (\<lambda>_. Inr ((), d))) (\<lambda>(_, d).
      rbind (Inr (opened_run t d)) (\<lambda>(run, d). rbind (Inr ((), fold (sighted t run) ns d)) (\<lambda>(_, d).
      rbind (case (Inr (), delete_gaps t d) of (r, d') \<Rightarrow> rbind r (\<lambda>x. Inr (x, d'))) (\<lambda>(_, d).
      rbind (try_fold (\<lambda>d g. add_gap g d) d ns) (\<lambda>d'. Inr ((), d'))))))))
      = rbind (replace_gaps t gs d) (\<lambda>d'. Inr ((), d'))" for d
      by (simp add: replace_gaps_def opened_def rbind_assoc case_prod_beta)
  qed
qed

lemma computes_is_local [computes_rules]: "computes sy (is_local_item sy t) (\<lambda>d. Inr (is_local t d, d))"
  unfolding is_local_item_def items_present_def
  by (rule computes_cong [OF computes_pbind [OF computes_query computes_if [OF computes_ret computes_query]]])
    (simp add: is_local_def item_rows_def split: option.split)

end
