(* ===== verification/Gap_Replace.thy ===== *)
theory Gap_Replace
  imports Store_Calc
begin

text \<open>
  Replacing a task's gaps: what the normalised set is, when a replacement is accepted and what it
  leaves, that the host's clear-then-upsert spelling does the same, and that a verification is
  committed whole.
\<close>

section \<open>The normalised set\<close>

definition firsts :: "'a list \<Rightarrow> 'a list" where
  "firsts xs = rev (remdups (rev xs))"

lemma firsts_simps [simp]:
  "firsts [] = []" "firsts (xs @ [x]) = (if x \<in> set xs then firsts xs else firsts xs @ [x])"
  "set (firsts xs) = set xs" "distinct (firsts xs)"
  by (simp_all add: firsts_def)

text \<open>The last report of an identifier.\<close>

definition last_of :: "str \<Rightarrow> gap list \<Rightarrow> gap" where
  "last_of i gs = last (filter (\<lambda>g. g_id g = i) gs)"

definition normal :: "str \<Rightarrow> gap list \<Rightarrow> gap list" where
  "normal t gs = foldl (\<lambda>out g. put_gap (g\<lparr>g_task_id := Some t\<rparr>) out) [] gs"

lemma put_gap_map:
  assumes "\<And>i. i \<in> set is \<Longrightarrow> g_id (f i) = i" "distinct is"
  shows "put_gap r (map f is) =
    (if g_id r \<in> set is then map (\<lambda>i. if i = g_id r then r else f i) is else map f is @ [r])"
  using assms
proof (induction "is")
  case (Cons i js)
  have "map f js = map (\<lambda>i. if i = g_id r then r else f i) js" if "g_id r \<notin> set js"
    using that by (auto intro: map_cong)
  then show ?case using Cons by auto
qed simp

lemma normal_eq:
  "normal t gs = map (\<lambda>i. (last_of i gs)\<lparr>g_task_id := Some t\<rparr>) (firsts (map g_id gs))"
proof (induction gs rule: rev_induct)
  case (snoc g gs)
  have id: "g_id ((last_of i gs)\<lparr>g_task_id := Some t\<rparr>) = i" if "i \<in> set (firsts (map g_id gs))" for i
  proof -
    have "filter (\<lambda>g. g_id g = i) gs \<noteq> []" using that by (auto simp: filter_empty_conv)
    then have "last (filter (\<lambda>g. g_id g = i) gs) \<in> set (filter (\<lambda>g. g_id g = i) gs)" by (rule last_in_set)
    then show ?thesis by (simp add: last_of_def)
  qed
  have last: "last_of i (gs @ [g]) = (if i = g_id g then g else last_of i gs)" for i
    by (auto simp: last_of_def)
  have "normal t (gs @ [g]) = put_gap (g\<lparr>g_task_id := Some t\<rparr>) (normal t gs)" by (simp add: normal_def)
  also have "\<dots> = map (\<lambda>i. (last_of i (gs @ [g]))\<lparr>g_task_id := Some t\<rparr>) (firsts (map g_id (gs @ [g])))"
    unfolding snoc.IH by (subst put_gap_map [OF id]) (auto simp: last image_iff intro: map_cong)
  finally show ?case .
qed (simp add: normal_def)

lemma normal_ids [simp]: "map g_id (normal t gs) = firsts (map g_id gs)"
proof -
  have "g_id (last_of i gs) = i" if "i \<in> set (map g_id gs)" for i
  proof -
    have "filter (\<lambda>g. g_id g = i) gs \<noteq> []" using that by (auto simp: filter_empty_conv)
    then have "last (filter (\<lambda>g. g_id g = i) gs) \<in> set (filter (\<lambda>g. g_id g = i) gs)" by (rule last_in_set)
    then show ?thesis by (simp add: last_of_def)
  qed
  then have "map (\<lambda>i. g_id (last_of i gs)) (firsts (map g_id gs)) = firsts (map g_id gs)"
    by (intro map_idI) (simp only: firsts_simps)
  then show ?thesis by (simp add: normal_eq comp_def)
qed

lemma normal_task: "g \<in> set (normal t gs) \<Longrightarrow> g_task_id g = Some t"
  by (auto simp: normal_eq)

lemma normalise_gaps_eq:
  "normalise_gaps t gs = Inr ns \<longleftrightarrow>
     length gs \<le> MAX_GAPS_PER_REPLACE \<and> (\<forall>g\<in>set gs. \<not> blank (g_id g)) \<and> ns = normal t gs"
proof -
  have "try_fold (normalise_step t) out gs = Inr ns \<longleftrightarrow>
      (\<forall>g\<in>set gs. \<not> blank (g_id g)) \<and> ns = foldl (\<lambda>out g. put_gap (g\<lparr>g_task_id := Some t\<rparr>) out) out gs" for out
    by (induction gs arbitrary: out) (auto simp: normalise_step_def)
  then show ?thesis by (auto simp: normalise_gaps_def normal_def)
qed

section \<open>What a replacement leaves\<close>

lemma add_gap_eq:
  "add_gap g d = Inr d' \<longleftrightarrow>
     missing_output d = None \<and> g_id g \<notin> g_id ` set (gaps d) \<and> d' = d\<lparr>gaps := gaps d @ [g]\<rparr>"
  by (auto simp: add_gap_def insert_gap_def list_ex_iff bex_image split: option.splits)

lemma missing_output_gaps [simp]: "missing_output (d\<lparr>gaps := x\<rparr>) = missing_output d"
  by (simp add: missing_output_def)

lemma add_all_eq:
  "distinct (map g_id (gaps d)) \<Longrightarrow>
   try_fold (\<lambda>d g. add_gap g d) d gs = Inr d' \<longleftrightarrow>
     (gs = [] \<or> missing_output d = None) \<and> distinct (map g_id (gaps d @ gs)) \<and> d' = d\<lparr>gaps := gaps d @ gs\<rparr>"
proof (induction gs arbitrary: d)
  case (Cons g gs)
  show ?case
  proof (cases "add_gap g d")
    case (Inl e)
    then have "\<not> (missing_output d = None \<and> g_id g \<notin> g_id ` set (gaps d))" using add_gap_eq [of g d] by auto
    then show ?thesis using Inl by auto
  next
    case (Inr d1)
    then have d1: "missing_output d = None" "g_id g \<notin> g_id ` set (gaps d)" "d1 = d\<lparr>gaps := gaps d @ [g]\<rparr>"
      using add_gap_eq [of g d d1] by simp_all
    have "distinct (map g_id (gaps d1))" using Cons.prems d1(2,3) by simp
    from Cons.IH [OF this] show ?thesis using Inr d1 by simp
  qed
qed auto

lemma sighted_simps [simp]:
  "gaps (sighted t run g d) = gaps d" "gap_columns (sighted t run g d) = gap_columns d"
  "gap_runs (sighted t run g d) = gap_runs d"
  by (simp_all add: sighted_def)

lemma fold_sighted:
  "fold (sighted t run) gs d =
     d\<lparr>gap_history := fold (\<lambda>g. sighting t (g_id g) (g_gap_type g) run) gs (gap_history d)\<rparr>"
  by (induction gs arbitrary: d) (simp_all add: sighted_def)

lemma opened_simps [simp]:
  "gaps (opened t gs d) = gaps d" "missing_output (opened t gs d) = missing_output d"
  by (simp_all add: opened_def fold_sighted opened_run_def set_run_def missing_output_def)

lemma delete_gaps_simps [simp]:
  "gaps (delete_gaps t d) = filter (\<lambda>g. g_task_id g \<noteq> Some t) (gaps d)"
  "missing_output (delete_gaps t d) = missing_output d"
  by (simp_all add: delete_gaps_def missing_output_def)

text \<open>A replacement that is accepted: when it is, and the database it leaves.\<close>

definition other_gaps :: "str \<Rightarrow> db \<Rightarrow> gap list" where
  "other_gaps t d = filter (\<lambda>g. g_task_id g \<noteq> Some t) (gaps d)"

definition replaceable :: "str \<Rightarrow> gap list \<Rightarrow> db \<Rightarrow> bool" where
  "replaceable t gs d \<longleftrightarrow>
     \<not> blank t \<and> length gs \<le> MAX_GAPS_PER_REPLACE \<and> (\<forall>g\<in>set gs. \<not> blank (g_id g)) \<and>
     (\<forall>g\<in>set (normal t gs). is_array (g_evidence_json g)) \<and> (gs = [] \<or> missing_output d = None) \<and>
     (\<forall>g\<in>set gs. g_id g \<notin> g_id ` set (other_gaps t d))"

definition replaced :: "str \<Rightarrow> gap list \<Rightarrow> db \<Rightarrow> db" where
  "replaced t gs d = (opened t (normal t gs) d)\<lparr>gaps := other_gaps t d @ normal t gs\<rparr>"

lemma disjoint_image_iff: "f ` A \<inter> f ` B = {} \<longleftrightarrow> (\<forall>b\<in>B. f b \<notin> f ` A)"
  by (simp add: disjoint_iff image_iff Ball_def) metis

lemma replace_gaps_eq:
  assumes "distinct (map g_id (gaps d))"
  shows "replace_gaps t gs d = Inr d' \<longleftrightarrow> replaceable t gs d \<and> d' = replaced t gs d"
proof -
  let ?ns = "normal t gs" let ?d1 = "delete_gaps t (opened t ?ns d)"
  have dist: "distinct (map g_id (gaps ?d1))" using assms by (simp add: distinct_map inj_on_def)
  have "g_id ` set ?ns = set (map g_id ?ns)" by (simp del: normal_ids)
  then have ids: "g_id ` set ?ns = g_id ` set gs" by simp
  have other: "gaps ?d1 = other_gaps t d" by (simp add: other_gaps_def)
  have "distinct (map g_id (gaps ?d1 @ ?ns)) \<longleftrightarrow> g_id ` set (other_gaps t d) \<inter> g_id ` set gs = {}"
    using dist ids unfolding other by simp
  then have "distinct (map g_id (gaps ?d1 @ ?ns)) \<longleftrightarrow> (\<forall>g\<in>set gs. g_id g \<notin> g_id ` set (other_gaps t d))"
    unfolding disjoint_image_iff .
  moreover have "?ns = [] \<longleftrightarrow> gs = []" using ids by auto
  ultimately have add: "try_fold (\<lambda>d g. add_gap g d) ?d1 ?ns = Inr d' \<longleftrightarrow>
      (gs = [] \<or> missing_output d = None) \<and> (\<forall>g\<in>set gs. g_id g \<notin> g_id ` set (other_gaps t d)) \<and> d' = replaced t gs d"
    unfolding add_all_eq [OF dist] by (simp add: replaced_def other_gaps_def delete_gaps_def)
  show ?thesis
    unfolding replace_gaps_def replaceable_def
    by (auto simp: rbind_Inr_iff normalise_gaps_eq try_fold_unit json_ok_array add)
qed

section \<open>The host's spelling of a replacement\<close>

definition key_of :: "gap_history_row \<Rightarrow> str \<times> str" where
  "key_of h = (h_task_id h, h_gap_id h)"

definition present :: "str \<Rightarrow> str \<Rightarrow> gap_history_row list \<Rightarrow> bool" where
  "present t i rows \<longleftrightarrow> (t, i) \<in> set (map key_of rows)"

definition first_sighting :: "str \<Rightarrow> str \<Rightarrow> str \<Rightarrow> int \<Rightarrow> gap_history_row" where
  "first_sighting t i a run =
     \<lparr>h_task_id = t, h_gap_id = i, h_gap_type = a, h_first_seen_run = run, h_last_seen_run = run,
      h_occurrences = 1, h_resurfaces = 0\<rparr>"

lemma key_simps [simp]: "key_of (seen_again a run h) = key_of h" "key_of (first_sighting t i a run) = (t, i)"
  by (simp_all add: seen_again_def key_of_def first_sighting_def)

lemma sighting_eq:
  "sighting t i a run rows =
     (if present t i rows then map (\<lambda>h. if key_of h = (t, i) then seen_again a run h else h) rows
      else rows @ [first_sighting t i a run])"
proof -
  have "list_ex (\<lambda>h. h_task_id h = t \<and> h_gap_id h = i) rows = present t i rows"
    by (induction rows) (auto simp: present_def key_of_def)
  then show ?thesis by (simp add: sighting_def first_sighting_def key_of_def)
qed

lemma keys_sighting:
  "map key_of (sighting t i a run rows) = (if present t i rows then map key_of rows else map key_of rows @ [(t, i)])"
  by (simp add: sighting_eq comp_def if_distrib cong: if_cong)

lemma present_sighting: "present t i (sighting t j b run rows) \<longleftrightarrow> present t i rows \<or> i = j"
  unfolding present_def [of _ _ "sighting _ _ _ _ _"] keys_sighting by (auto simp: present_def)

lemma sighting_commute:
  assumes "present t i rows" "i \<noteq> j"
  shows "sighting t i a run (sighting t j b run rows) = sighting t j b run (sighting t i a run rows)"
proof -
  have j: "present t j (sighting t i a run rows) = present t j rows" using assms(2) by (simp add: present_sighting)
  have i: "present t i (sighting t j b run rows)" using assms(1) by (simp add: present_sighting)
  have "sighting t j b run (map (\<lambda>h. if key_of h = (t, i) then seen_again a run h else h) rows)
      = map (\<lambda>h. if key_of h = (t, i) then seen_again a run h else h) (sighting t j b run rows)"
    using j assms unfolding sighting_eq [of t i a run rows] sighting_eq [of t j]
    by (simp split: if_split)
  then show ?thesis using i assms(1) by (simp add: sighting_eq [of t i])
qed

lemma sighting_twice: "sighting t i b run (sighting t i a run rows) = sighting t i b run rows"
proof (cases "present t i rows")
  case True
  have "seen_again b run (seen_again a run h) = seen_again b run h" for h
    by (simp add: seen_again_def)
  moreover have "present t i (sighting t i a run rows)" by (simp add: present_sighting)
  ultimately show ?thesis using True unfolding sighting_eq [of t i b] unfolding sighting_eq [of t i a]
    by (auto intro!: map_cong)
next
  case False
  have "map (\<lambda>h. if key_of h = (t, i) then seen_again b run h else h) rows = rows"
    using False unfolding present_def set_map by (intro map_idI) (metis image_eqI)
  moreover have "present t i (rows @ [first_sighting t i a run])" by (simp add: present_def)
  moreover have "seen_again b run (first_sighting t i a run) = first_sighting t i b run"
    by (simp add: seen_again_def first_sighting_def)
  ultimately show ?thesis using False by (simp add: sighting_eq)
qed

definition sight_all :: "str \<Rightarrow> int \<Rightarrow> gap list \<Rightarrow> gap_history_row list \<Rightarrow> gap_history_row list" where
  "sight_all t run = fold (\<lambda>g. sighting t (g_id g) (g_gap_type g) run)"

lemma sight_all_late:
  "present t i rows \<Longrightarrow> i \<notin> g_id ` set xs \<Longrightarrow>
   sighting t i a run (sight_all t run xs rows) = sight_all t run xs (sighting t i a run rows)"
proof (induction xs arbitrary: rows)
  case (Cons x xs)
  have "present t i (sighting t (g_id x) (g_gap_type x) run rows)" using Cons.prems by (simp add: present_sighting)
  moreover have "sighting t i a run (sighting t (g_id x) (g_gap_type x) run rows)
      = sighting t (g_id x) (g_gap_type x) run (sighting t i a run rows)"
    by (rule sighting_commute) (use Cons.prems in auto)
  ultimately show ?case using Cons by (simp add: sight_all_def)
qed (simp add: sight_all_def)

lemma sight_all_put:
  "distinct (map g_id ns) \<Longrightarrow>
   sight_all t run (put_gap r ns) rows = sighting t (g_id r) (g_gap_type r) run (sight_all t run ns rows)"
proof (induction ns arbitrary: rows)
  case (Cons x xs)
  show ?case
  proof (cases "g_id x = g_id r")
    case True
    have "present t (g_id r) (sighting t (g_id x) (g_gap_type x) run rows)" using True by (simp add: present_sighting)
    moreover have "g_id r \<notin> g_id ` set xs" using Cons.prems True by auto
    ultimately have "sighting t (g_id r) (g_gap_type r) run (sight_all t run xs (sighting t (g_id x) (g_gap_type x) run rows))
        = sight_all t run xs (sighting t (g_id r) (g_gap_type r) run (sighting t (g_id x) (g_gap_type x) run rows))"
      by (rule sight_all_late)
    then have "sighting t (g_id r) (g_gap_type r) run (sight_all t run xs (sighting t (g_id x) (g_gap_type x) run rows))
        = sight_all t run xs (sighting t (g_id r) (g_gap_type r) run rows)"
      unfolding True sighting_twice .
    then show ?thesis using True by (simp add: sight_all_def)
  next
    case False
    then show ?thesis using Cons by (simp add: sight_all_def)
  qed
qed (simp add: sight_all_def)

lemma max_run_set: "max_run t (set_run t r d) = r"
proof -
  let ?q = "map snd (filter (\<lambda>x. fst x = t) (upsert_row fst (t, r) (gap_runs d)))"
  have all: "\<forall>x\<in>set ?q. x = r" by (auto simp: upsert_row_def list_ex_iff)
  have "\<exists>x\<in>set (upsert_row fst (t, r) (gap_runs d)). fst x = t"
  proof (cases "list_ex (\<lambda>x. fst x = t) (gap_runs d)")
    case True
    then obtain x where "x \<in> set (gap_runs d)" "fst x = t" by (auto simp: list_ex_iff)
    then have "(t, r) \<in> (\<lambda>x. if fst x = t then (t, r) else x) ` set (gap_runs d)"
      by (intro image_eqI [of _ _ x]) auto
    then have "(t, r) \<in> set (upsert_row fst (t, r) (gap_runs d))" using True by (simp only: upsert_row_def if_True set_map fst_conv)
    then show ?thesis by force
  qed (simp add: upsert_row_def)
  then have ne: "?q \<noteq> []" by (simp add: filter_empty_conv)
  have "foldl max r rs = r" if "\<forall>x\<in>set rs. x = r" for rs :: "int list"
    using that by (induction rs) auto
  then show ?thesis using all ne by (cases ?q) (auto simp: max_run_def set_run_def)
qed

lemma max_run_eq: "gap_runs d = gap_runs d' \<Longrightarrow> max_run t d = max_run t d'"
  by (simp add: max_run_def)

lemma replaced_runs: "gap_runs (replaced t gs d) = gap_runs (set_run t (max_run t d + 1) d)"
  by (simp add: replaced_def opened_def fold_sighted opened_run_def)

lemma upsert_replaced:
  assumes "g_id g \<notin> g_id ` set other" "distinct (map g_id ns)"
  shows "upsert_row g_id g (other @ ns) = other @ put_gap g ns"
proof -
  have o: "map (\<lambda>x. if g_id x = g_id g then g else x) other = other"
    using assms(1) by (intro map_idI) (metis image_eqI)
  have "(if g_id g \<in> g_id ` set ns then map (\<lambda>x. if g_id x = g_id g then g else x) ns else ns @ [g]) = put_gap g ns"
    using assms(2)
  proof (induction ns)
    case (Cons x xs)
    show ?case
    proof (cases "g_id x = g_id g")
      case True
      then have "g_id g \<notin> g_id ` set xs" using Cons.prems by auto
      then have "map (\<lambda>x. if g_id x = g_id g then g else x) xs = xs" by (intro map_idI) (metis image_eqI)
      then show ?thesis using True by simp
    next
      case False
      then have "g_id g \<in> g_id ` set (x # xs) \<longleftrightarrow> g_id g \<in> g_id ` set xs" by auto
      then show ?thesis using False Cons by (simp split: if_splits)
    qed
  qed simp
  moreover have "list_ex (\<lambda>x. g_id x = g_id g) (other @ ns) \<longleftrightarrow> g_id g \<in> g_id ` set ns"
    using assms(1) by (simp add: list_ex_iff bex_image image_Un)
  ultimately show ?thesis using o unfolding upsert_row_def by (simp split: if_splits)
qed

lemma put_one_replaced:
  assumes "g_task_id g = Some t" "trim t = t" "t \<noteq> []" "missing_output d = None"
    "g_id g \<notin> g_id ` set (other_gaps t d)" "0 \<le> max_run t d"
  shows "put_one g (replaced t gs d) = Inr (replaced t (gs @ [g]) d)"
proof -
  let ?r = "max_run t d + 1" and ?d = "replaced t gs d"
  have m: "max_run t ?d = ?r" using max_run_eq [OF replaced_runs] max_run_set by metis
  have j: "joined_run t ?d = (?r, ?d)" using assms(6) m by (simp add: joined_run_def)
  have g: "g\<lparr>g_task_id := Some t\<rparr> = g" using assms(1) by simp
  have n: "normal t (gs @ [g]) = put_gap g (normal t gs)" by (simp add: normal_def g)
  have dist: "distinct (map g_id (normal t gs))" by simp
  have h: "sighting t (g_id g) (g_gap_type g) ?r (sight_all t ?r (normal t gs) (gap_history d))
      = sight_all t ?r (normal t (gs @ [g])) (gap_history d)"
    unfolding n sight_all_put [OF dist] ..
  have hist: "gap_history (replaced t xs d) = sight_all t ?r (normal t xs) (gap_history d)" for xs
    by (simp add: replaced_def opened_def fold_sighted opened_run_def sight_all_def set_run_def)
  have miss: "missing_output ?d = None" using assms(4) by (simp add: replaced_def)
  have miss': "missing_output (sighted t ?r g ?d) = None" using miss by (simp add: missing_output_def)
  have "(sighted t ?r g ?d)\<lparr>gaps := upsert_row g_id g (gaps (sighted t ?r g ?d))\<rparr> = replaced t (gs @ [g]) d"
    using upsert_replaced [OF assms(5) dist] h n
    by (simp add: sighted_def hist replaced_def opened_def fold_sighted opened_run_def sight_all_def set_run_def)
  then show ?thesis using assms(1,2,3) j miss' by (simp add: put_one_def)
qed

lemma put_all_replaced:
  assumes "trim t = t" "t \<noteq> []" "missing_output d = None" "0 \<le> max_run t d"
    "\<forall>g\<in>set gs. g_task_id g = Some t \<and> g_id g \<notin> g_id ` set (other_gaps t d)"
  shows "try_fold (\<lambda>d g. put_one g d) (replaced t [] d) gs = Inr (replaced t gs d)"
  using assms(5)
proof (induction gs rule: rev_induct)
  case (snoc g gs)
  then have "try_fold (\<lambda>d g. put_one g d) (replaced t [] d) gs = Inr (replaced t gs d)" by simp
  moreover have "put_one g (replaced t gs d) = Inr (replaced t (gs @ [g]) d)"
    using snoc.prems put_one_replaced [OF _ assms(1-3) _ assms(4)] by simp
  ultimately show ?case by (simp add: try_fold_append)
qed simp

section \<open>Outcomes\<close>

lemma gaps_replace_spec:
  assumes "distinct (map g_id (gaps (seen_db sy w)))" "gaps_replace sy t gs w = (r, w')"
  shows "case r of
           Inl e \<Rightarrow> w_db w' = seen_db sy w \<and> (faulted sy e \<or> \<not> replaceable t gs (seen_db sy w))
         | Inr _ \<Rightarrow> replaceable t gs (seen_db sy w) \<and> w_db w' = replaced t gs (seen_db sy w)"
proof -
  note c = computes_transaction(1) [OF computes_gaps_replace_in assms(2) [unfolded gaps_replace_def]]
  note e = replace_gaps_eq [OF assms(1), of t gs]
  show ?thesis
  proof (cases r)
    case (Inl x)
    then show ?thesis using c e by (cases "replace_gaps t gs (seen_db sy w)") auto
  next
    case (Inr x)
    then show ?thesis using c e by (cases "replace_gaps t gs (seen_db sy w)") auto
  qed
qed

lemma gaps_replaced: "gaps (replaced t gs d) = other_gaps t d @ normal t gs"
  by (simp add: replaced_def)

lemma history_replaced:
  "gap_history (replaced t gs d) = sight_all t (max_run t d + 1) (normal t gs) (gap_history d)"
  by (simp add: replaced_def opened_def fold_sighted opened_run_def sight_all_def set_run_def)

lemma distinct_replaced:
  assumes "distinct (map g_id (gaps d))" "replaceable t gs d"
  shows "distinct (map g_id (gaps (replaced t gs d)))"
proof -
  have "distinct (map g_id (other_gaps t d))"
    using assms(1) by (simp add: other_gaps_def distinct_map inj_on_def)
  moreover have "g_id ` set (other_gaps t d) \<inter> g_id ` set gs = {}"
    using assms(2) unfolding disjoint_image_iff by (simp add: replaceable_def)
  ultimately show ?thesis by (simp add: gaps_replaced)
qed

text \<open>What a replacement leaves of everything but the gaps.\<close>

lemma filter_map_same:
  assumes "\<And>x. p x \<Longrightarrow> key x = t" "\<And>x. p x \<Longrightarrow> key (f x) = t"
  shows "filter (\<lambda>x. key x \<noteq> t) (map (\<lambda>x. if p x then f x else x) xs) = filter (\<lambda>x. key x \<noteq> t) xs"
  using assms by (induction xs) auto

lemma sight_all_others:
  "filter (\<lambda>h. h_task_id h \<noteq> t) (sight_all t run gs rows) = filter (\<lambda>h. h_task_id h \<noteq> t) rows"
proof -
  have "filter (\<lambda>h. h_task_id h \<noteq> t)
      (map (\<lambda>h. if h_task_id h = t \<and> h_gap_id h = i then seen_again a run h else h) rows) =
      filter (\<lambda>h. h_task_id h \<noteq> t) rows" for i a rows
    by (rule filter_map_same) (auto simp: seen_again_def)
  then have "filter (\<lambda>h. h_task_id h \<noteq> t) (sighting t i a run rows) = filter (\<lambda>h. h_task_id h \<noteq> t) rows" for i a rows
    by (simp add: sighting_def)
  then show ?thesis by (induction gs arbitrary: rows) (simp_all add: sight_all_def)
qed

lemma replaced_rest:
  "replaced t gs d = d\<lparr>gaps := gaps (replaced t gs d), gap_runs := gap_runs (replaced t gs d),
     gap_history := gap_history (replaced t gs d)\<rparr>"
  "max_run t (replaced t gs d) = max_run t d + 1"
  "filter (\<lambda>x. fst x \<noteq> t) (gap_runs (replaced t gs d)) = filter (\<lambda>x. fst x \<noteq> t) (gap_runs d)"
  "filter (\<lambda>h. h_task_id h \<noteq> t) (gap_history (replaced t gs d)) = filter (\<lambda>h. h_task_id h \<noteq> t) (gap_history d)"
proof -
  show "replaced t gs d = d\<lparr>gaps := gaps (replaced t gs d), gap_runs := gap_runs (replaced t gs d),
      gap_history := gap_history (replaced t gs d)\<rparr>"
    by (simp add: replaced_def opened_def fold_sighted opened_run_def set_run_def)
  show "max_run t (replaced t gs d) = max_run t d + 1"
    using max_run_eq [OF replaced_runs] by (simp add: max_run_set)
  show "filter (\<lambda>x. fst x \<noteq> t) (gap_runs (replaced t gs d)) = filter (\<lambda>x. fst x \<noteq> t) (gap_runs d)"
    by (simp add: replaced_runs set_run_def upsert_row_def filter_map_same [where key = fst])
  show "filter (\<lambda>h. h_task_id h \<noteq> t) (gap_history (replaced t gs d)) = filter (\<lambda>h. h_task_id h \<noteq> t) (gap_history d)"
    unfolding history_replaced by (rule sight_all_others)
qed

section \<open>Properties\<close>

text \<open>
  C16. A gap replacement is exact and all or nothing. When it answers, the task's gaps are the reported
  ones, one row per identifier in the order of first report with the content of the last, every
  one owned by the task and with a well-formed evidence array; the gaps of all other tasks are
  untouched and identifiers stay unique. Beside the gaps it writes only the task's run counter, which
  advances by one, and the task's rows of the gap history; every other table, and the counters and the
  history of all other tasks, are as they were. When it errs, the store is as the transaction found it.
\<close>

theorem replacement_is_exact:
  assumes "distinct (map g_id (gaps (seen_db sy w)))" "gaps_replace sy t gs w = (r, w')"
  shows "case r of
           Inl e \<Rightarrow> w_db w' = seen_db sy w \<and> (faulted sy e \<or> \<not> replaceable t gs (seen_db sy w))
         | Inr _ \<Rightarrow>
             filter (\<lambda>g. g_task_id g = Some t) (gaps (w_db w')) =
               map (\<lambda>i. (last_of i gs)\<lparr>g_task_id := Some t\<rparr>) (firsts (map g_id gs)) \<and>
             other_gaps t (w_db w') = other_gaps t (seen_db sy w) \<and>
             distinct (map g_id (gaps (w_db w'))) \<and>
             (\<forall>g\<in>set (gaps (w_db w')). g_task_id g = Some t \<longrightarrow> is_array (g_evidence_json g)) \<and>
             w_db w' = (seen_db sy w)\<lparr>gaps := gaps (w_db w'), gap_runs := gap_runs (w_db w'),
               gap_history := gap_history (w_db w')\<rparr> \<and>
             max_run t (w_db w') = max_run t (seen_db sy w) + 1 \<and>
             filter (\<lambda>x. fst x \<noteq> t) (gap_runs (w_db w')) = filter (\<lambda>x. fst x \<noteq> t) (gap_runs (seen_db sy w)) \<and>
             filter (\<lambda>h. h_task_id h \<noteq> t) (gap_history (w_db w')) =
               filter (\<lambda>h. h_task_id h \<noteq> t) (gap_history (seen_db sy w))"
proof (cases r)
  case (Inl e)
  then show ?thesis using gaps_replace_spec [OF assms] by simp
next
  case (Inr u)
  then have d: "w_db w' = replaced t gs (seen_db sy w)" "replaceable t gs (seen_db sy w)"
    using gaps_replace_spec [OF assms] by simp_all
  have own: "filter (\<lambda>g. g_task_id g = Some t) (other_gaps t x @ normal t gs) = normal t gs"
      "filter (\<lambda>g. g_task_id g \<noteq> Some t) (other_gaps t x @ normal t gs) = other_gaps t x" for x
    using normal_task [of _ t gs] by (auto simp: other_gaps_def filter_empty_conv filter_id_conv)
  have "filter (\<lambda>g. g_task_id g = Some t) (gaps (w_db w')) = normal t gs"
    "other_gaps t (w_db w') = other_gaps t (seen_db sy w)"
    using own d(1) by (simp_all add: gaps_replaced other_gaps_def)
  moreover have "is_array (g_evidence_json g)" if "g \<in> set (gaps (w_db w'))" "g_task_id g = Some t" for g
    using that d normal_task [of g t gs] by (auto simp: gaps_replaced other_gaps_def replaceable_def)
  moreover note replaced_rest [of t gs "seen_db sy w", folded d(1)]
  ultimately show ?thesis using Inr d(1) distinct_replaced [OF assms(1) d(2)] normal_eq by simp
qed

definition sample_gap :: "string \<Rightarrow> gap" where
  "sample_gap i = \<lparr>g_id = lit i, g_severity = lit ''high'', g_gap_type = lit ''stub'', g_requirement_id = None,
     g_task_id = Some (lit ''T1''), g_description = [], g_evidence_json = lit ''[]'', g_recommended_fix = [],
     g_blocking = True, g_file = None, g_line = None, g_suggested_command = None,
     g_acceptance_criterion_id = None, g_expected_verification_method = None, g_stdout_path = None,
     g_stderr_path = None\<rparr>"

lemma sample_gap_array: "is_array (g_evidence_json (sample_gap i))"
proof -
  have "is_array (lit ''[]'')" by code_simp
  then show ?thesis by (simp add: sample_gap_def)
qed

lemma replace_rest:
  assumes "at_rest sy now" "distinct (map g_id (gaps (w_db w)))" "replaceable t gs (w_db w)"
  shows "\<exists>w'. gaps_replace sy t gs w = (Inr (), w') \<and> w_db w' = replaced t gs (w_db w)"
proof -
  have seen: "seen_db sy w = w_db w" using assms(1) by simp
  obtain r w' where r: "gaps_replace sy t gs w = (r, w')" by fastforce
  then show ?thesis using gaps_replace_spec [of sy w, OF _ r] assms unfolding seen by (cases r) auto
qed

lemma sample_replaceable:
  assumes "gs = [] \<or> gs = [sample_gap ''G'']" "missing_output d = None" "other_gaps (lit ''T1'') d = []"
  shows "replaceable (lit ''T1'') gs d"
proof -
  have "\<not> blank (lit ''T1'')" "\<not> blank (g_id (sample_gap ''G''))"
    by (simp_all add: blank_def trim_Nil_iff sample_gap_def is_whitespace_def)
  moreover have "normal (lit ''T1'') [sample_gap ''G''] = [sample_gap ''G'']" "normal (lit ''T1'') [] = []"
    by (simp_all add: normal_def sample_gap_def)
  ultimately show ?thesis using assms sample_gap_array by (auto simp: replaceable_def MAX_GAPS_PER_REPLACE_def)
qed

lemma sample_clean:
  "distinct (map g_id (gaps (w_db sample_world)))" "missing_output (w_db sample_world) = None"
  "other_gaps (lit ''T1'') (w_db sample_world) = []" "gap_history (w_db sample_world) = []"
  "gap_runs (w_db sample_world) = []" "gaps (w_db sample_world) = []"
  by (simp_all add: sample_world_def sample_db_def missing_output_def output_columns_def other_gaps_def)

theorem replacement_is_exact_witness:
  "\<exists>w'. gaps_replace quiet_sys (lit ''T1'') [sample_gap ''G''] sample_world = (Inr (), w') \<and>
     distinct (map g_id (gaps (w_db w')))"
proof -
  have seen: "seen_db quiet_sys sample_world = w_db sample_world" using sample_premises(1) by simp
  obtain w' where w: "gaps_replace quiet_sys (lit ''T1'') [sample_gap ''G''] sample_world = (Inr (), w')"
    using replace_rest [OF sample_premises(1) sample_clean(1) sample_replaceable] sample_clean by blast
  show ?thesis using w replacement_is_exact [OF _ w] sample_clean(1) unfolding seen by auto
qed

definition clear_then_upsert :: "sys \<Rightarrow> str \<Rightarrow> gap list \<Rightarrow> unit prog" where
  "clear_then_upsert sy t gs = pbind (gaps_replace sy t []) (\<lambda>_. each (gap_upsert sy) gs)"

lemma upserts_rest:
  assumes "at_rest sy now" "\<forall>g\<in>set gs. \<not> blank (g_id g) \<and> is_array (g_evidence_json g)"
  shows "try_fold (\<lambda>d g. put_one g d) (w_db w) gs = Inr d' \<Longrightarrow>
    \<exists>w'. each (gap_upsert sy) gs w = (Inr (), w') \<and> w_db w' = d'"
  using assms(2)
proof (induction gs arbitrary: w)
  case (Cons g gs)
  obtain d1 where d1: "put_one g (w_db w) = Inr d1" "try_fold (\<lambda>d g. put_one g d) d1 gs = Inr d'"
    using Cons.prems(1) by (auto split: sum.splits)
  have "check_array (g_evidence_json g) = Inr ()" using Cons.prems(2) by (simp add: is_array_def)
  then have up: "gap_upsert sy g w = write_transaction sy (gap_upsert_in sy g) w"
    using Cons.prems(2) by (simp add: gap_upsert_def require_json_def pbind_ret)
  obtain w1 where w1: "gap_upsert sy g w = (Inr (), w1)" "w_db w1 = d1"
    using transaction_rest [OF assms(1) computes_gap_upsert_in, of g w] d1(1) up by auto
  obtain w' where "each (gap_upsert sy) gs w1 = (Inr (), w')" "w_db w' = d'"
    using Cons.IH [of w1] d1(2) w1(2) Cons.prems(2) by auto
  then show ?case using w1(1) by (auto simp: pbind_def attempt_def)
qed (simp add: ret_def)

text \<open>
  C17. The host's spelling is the same: at rest, for a task whose identifier has no white space around
  it and acceptable gaps that each name this task as their owner and carry an array of evidence, clearing the
  task's gaps and then upserting the reported ones one by one leaves the database a single replacement
  would have left, history and run counter included, also when an identifier is reported more than
  once. (For a padded identifier the two differ: \<open>padded_task_splits_history\<close>.)
\<close>

theorem host_spelling_is_replacement:
  assumes "at_rest sy now" "distinct (map g_id (gaps (w_db w)))" "replaceable t gs (w_db w)"
    "trim t = t" "0 \<le> max_run t (w_db w)"
    "\<forall>g\<in>set gs. g_task_id g = Some t \<and> is_array (g_evidence_json g)"
  shows "\<exists>w1 w2. clear_then_upsert sy t gs w = (Inr (), w1) \<and> gaps_replace sy t gs w = (Inr (), w2) \<and>
    w_db w1 = w_db w2"
proof -
  let ?d = "w_db w"
  obtain w2 where w2: "gaps_replace sy t gs w = (Inr (), w2)" "w_db w2 = replaced t gs ?d"
    using replace_rest [OF assms(1-3)] by blast
  have "replaceable t [] ?d" using assms(3) by (simp add: replaceable_def normal_def)
  then obtain w0 where w0: "gaps_replace sy t [] w = (Inr (), w0)" "w_db w0 = replaced t [] ?d"
    using replace_rest [OF assms(1,2)] by blast
  have ids: "\<forall>g\<in>set gs. \<not> blank (g_id g) \<and> g_id g \<notin> g_id ` set (other_gaps t ?d)"
    using assms(3) by (simp add: replaceable_def)
  have t: "t \<noteq> []" using assms(3) by (auto simp: replaceable_def blank_def trim_Nil_iff)
  have "try_fold (\<lambda>d g. put_one g d) (replaced t [] ?d) gs = Inr (replaced t gs ?d)"
  proof (cases "gs = []")
    case False
    then have "missing_output ?d = None" using assms(3) by (simp add: replaceable_def)
    then show ?thesis using put_all_replaced [OF assms(4) t _ assms(5)] assms(6) ids by simp
  qed simp
  then obtain w1 where "each (gap_upsert sy) gs w0 = (Inr (), w1)" "w_db w1 = replaced t gs ?d"
    using upserts_rest [OF assms(1), of gs w0] w0(2) assms(6) ids by auto
  then have "clear_then_upsert sy t gs w = (Inr (), w1)"
    using w0(1) by (simp add: clear_then_upsert_def pbind_def attempt_def)
  then show ?thesis using w2 \<open>w_db w1 = replaced t gs ?d\<close> by auto
qed

theorem host_spelling_is_replacement_witness:
  "\<exists>w1 w2. clear_then_upsert quiet_sys (lit ''T1'') [sample_gap ''G''] sample_world = (Inr (), w1) \<and>
     gaps_replace quiet_sys (lit ''T1'') [sample_gap ''G''] sample_world = (Inr (), w2) \<and> w_db w1 = w_db w2"
proof (rule host_spelling_is_replacement [OF sample_premises(1) sample_clean(1)])
  show "replaceable (lit ''T1'') [sample_gap ''G''] (w_db sample_world)"
    using sample_replaceable sample_clean by blast
  show "trim (lit ''T1'') = lit ''T1''" by code_simp
  show "0 \<le> max_run (lit ''T1'') (w_db sample_world)" by (simp add: max_run_def sample_clean)
  show "\<forall>g\<in>set [sample_gap ''G'']. g_task_id g = Some (lit ''T1'') \<and> is_array (g_evidence_json g)"
    using sample_gap_array by (simp add: sample_gap_def)
qed

definition run_ok :: "verification_run \<Rightarrow> store_error + unit" where
  "run_ok r =
     (if blank (v_id r) \<or> blank (v_task_id r) then Inl (BadScope (Reason (lit ''verification run id and task_id are required'')))
      else rbind (json_ok ''run environment_json (an object)'' (v_environment_json r) check_object) (\<lambda>_.
           json_ok ''run commands_json (an array)'' (v_commands_json r) check_array))"

definition stored_run :: "verification_run \<Rightarrow> db \<Rightarrow> db" where
  "stored_run r d = d\<lparr>verification_runs := upsert_row v_id r (verification_runs d)\<rparr>"

lemma computes_run_record: "computes sy (run_record sy r) (\<lambda>d. rbind (run_ok r) (\<lambda>_. Inr ((), stored_run r d)))"
  unfolding run_record_def
  by (rule computes_cong [OF computes_if [OF computes_throw computes_pbind [OF computes_require_json
        computes_pbind [OF computes_require_json computes_exec]]]])
    (simp add: run_ok_def stored_run_def rbind_assoc)

lemma computes_commit:
  "computes sy (pbind (run_record sy r) (\<lambda>_. gaps_replace_in sy t gs))
     (\<lambda>d. rbind (run_ok r) (\<lambda>_. rbind (replace_gaps t gs (stored_run r d)) (\<lambda>d'. Inr ((), d'))))"
  by (rule computes_cong [OF computes_pbind [OF computes_run_record computes_gaps_replace_in]]) (simp add: rbind_assoc)

lemma find_upsert: "find (\<lambda>x. key x = key r) (upsert_row key r rows) = Some r"
proof -
  have "find (\<lambda>x. key x = key r) (map (\<lambda>x. if key x = key r then r else x) rows) =
      (if list_ex (\<lambda>x. key x = key r) rows then Some r else None)"
    by (induction rows) auto
  moreover have "find (\<lambda>x. key x = key r) rows = None" if "\<not> list_ex (\<lambda>x. key x = key r) rows"
    using that by (auto simp: find_None_iff list_ex_iff)
  ultimately show ?thesis by (auto simp: upsert_row_def find_app)
qed

lemma commit_spec:
  assumes "distinct (map g_id (gaps (seen_db sy w)))" "v_task_id r = t"
    "verification_commit sy (Some r) t gs w = (x, w')"
  shows "case x of
           Inl _ \<Rightarrow> w_db w' = seen_db sy w
         | Inr _ \<Rightarrow> run_ok r = Inr () \<and> replaceable t gs (seen_db sy w) \<and>
             w_db w' = replaced t gs (stored_run r (seen_db sy w))"
proof -
  let ?d = "seen_db sy w"
  have m: "verification_commit sy (Some r) t gs = write_transaction sy (pbind (run_record sy r) (\<lambda>_. gaps_replace_in sy t gs))"
    using assms(2) by (simp add: verification_commit_def)
  note c = computes_transaction(1) [OF computes_commit assms(3) [unfolded m]]
  have "distinct (map g_id (gaps (stored_run r ?d)))" using assms(1) by (simp add: stored_run_def)
  note e = replace_gaps_eq [OF this, of t gs]
  have same: "replaceable t gs (stored_run r ?d) = replaceable t gs ?d"
    by (simp add: replaceable_def stored_run_def missing_output_def other_gaps_def)
  show ?thesis
    using c e same by (cases x; cases "run_ok r"; cases "replace_gaps t gs (stored_run r ?d)") auto
qed

text \<open>
  C27. A verification is committed whole. When \<open>verification_commit\<close> answers, the run row is the one
  given and belongs to the task, its JSON columns are well formed, and the task's gaps are the
  reported ones; when it errs, neither the run nor any gap, counter or history row is different.
\<close>

theorem commit_is_atomic:
  assumes "distinct (map g_id (gaps (seen_db sy w)))" "verification_commit sy (Some r) t gs w = (x, w')"
  shows "case x of
           Inl _ \<Rightarrow> w_db w' = w_db w \<or> w_db w' = seen_db sy w
         | Inr _ \<Rightarrow>
             v_task_id r = t \<and> is_array (v_commands_json r) \<and> check_object (v_environment_json r) = Inr () \<and>
             find (\<lambda>y. v_id y = v_id r) (verification_runs (w_db w')) = Some r \<and>
             filter (\<lambda>g. g_task_id g = Some t) (gaps (w_db w')) =
               map (\<lambda>i. (last_of i gs)\<lparr>g_task_id := Some t\<rparr>) (firsts (map g_id gs))"
proof (cases "v_task_id r = t")
  case False
  then show ?thesis using assms(2) by (auto simp: verification_commit_def throw_def)
next
  case True
  show ?thesis
  proof (cases x)
    case (Inl e)
    then show ?thesis using commit_spec [OF assms(1) True assms(2)] by simp
  next
    case (Inr u)
    then have d: "run_ok r = Inr ()" "w_db w' = replaced t gs (stored_run r (seen_db sy w))"
      using commit_spec [OF assms(1) True assms(2)] by simp_all
    have "verification_runs (w_db w') = upsert_row v_id r (verification_runs (seen_db sy w))"
      by (simp add: d(2) replaced_def opened_def fold_sighted opened_run_def set_run_def stored_run_def)
    moreover have "filter (\<lambda>g. g_task_id g = Some t) (gaps (w_db w')) = normal t gs"
      using normal_task [of _ t gs] by (auto simp: d(2) gaps_replaced other_gaps_def filter_empty_conv filter_id_conv)
    moreover have "is_array (v_commands_json r)" "check_object (v_environment_json r) = Inr ()"
      using d(1) json_ok_array by (auto simp: run_ok_def json_ok_def rbind_Inr_iff is_array_def split: if_splits sum.splits)
    ultimately show ?thesis using Inr True find_upsert [of v_id r] normal_eq by simp
  qed
qed

definition sample_run :: verification_run where
  "sample_run = \<lparr>v_id = lit ''V1'', v_task_id = lit ''T1'', v_sandbox = [], v_environment_json = lit ''{}'',
     v_commands_json = lit ''[]'', v_status = lit ''passed'', v_started_at = [], v_finished_at = None\<rparr>"

theorem commit_is_atomic_witness:
  "\<exists>w'. verification_commit quiet_sys (Some sample_run) (lit ''T1'') [sample_gap ''G''] sample_world = (Inr (), w') \<and>
     find (\<lambda>y. v_id y = lit ''V1'') (verification_runs (w_db w')) = Some sample_run"
proof -
  let ?d = "w_db sample_world" let ?gs = "[sample_gap ''G'']"
  have seen: "seen_db quiet_sys sample_world = ?d" using sample_premises(1) by simp
  have "check_object (lit ''{}'') = Inr ()" "is_array (lit ''[]'')" by code_simp+
  then have ok: "run_ok sample_run = Inr ()"
    by (simp add: run_ok_def sample_run_def blank_def trim_Nil_iff is_whitespace_def json_ok_def is_array_def)
  have dist: "distinct (map g_id (gaps (stored_run sample_run ?d)))" using sample_clean(1) by (simp add: stored_run_def)
  have "replaceable (lit ''T1'') ?gs (stored_run sample_run ?d)"
    using sample_replaceable sample_clean(2,3) by (simp add: stored_run_def missing_output_def other_gaps_def)
  then have "replace_gaps (lit ''T1'') ?gs (stored_run sample_run ?d) = Inr (replaced (lit ''T1'') ?gs (stored_run sample_run ?d))"
    using replace_gaps_eq [OF dist] by blast
  then obtain w' where w': "verification_commit quiet_sys (Some sample_run) (lit ''T1'') ?gs sample_world = (Inr (), w')"
    using transaction_rest [OF sample_premises(1) computes_commit [where r = sample_run and t = "lit ''T1''" and gs = ?gs],
        of sample_world] ok
    by (auto simp: verification_commit_def sample_run_def)
  have "v_id sample_run = lit ''V1''" by (simp add: sample_run_def)
  then show ?thesis using commit_is_atomic [OF _ w'] sample_clean(1) w' unfolding seen by auto
qed

text \<open>
  An upsert trims the task before it records the sighting but stores the row as given: a padded
  task identifier files the gap under one task and its history under another.
\<close>

lemma padded_task_splits_history:
  assumes "g_task_id g = Some (lit '' T1'')" "missing_output d = None"
  shows "\<exists>d'. put_one g d = Inr d' \<and> g \<in> set (gaps d') \<and> present (lit ''T1'') (g_id g) (gap_history d')"
proof -
  have t: "trim (lit '' T1'') = lit ''T1''" by code_simp
  define d1 where "d1 = sighted (lit ''T1'') (fst (joined_run (lit ''T1'') d)) g (snd (joined_run (lit ''T1'') d))"
  have "missing_output (snd (joined_run (lit ''T1'') d)) = None"
    using assms(2) by (simp add: joined_run_def opened_run_def set_run_def missing_output_def)
  then have "missing_output d1 = None" by (simp add: d1_def sighted_def missing_output_def)
  then have p: "put_one g d = Inr (d1\<lparr>gaps := upsert_row g_id g (gaps d1)\<rparr>)"
    using assms(1) t unfolding put_one_def by (simp add: d1_def Let_def)
  have "g \<in> set (upsert_row g_id g (gaps d1))"
    using find_upsert [of g_id g "gaps d1"] by (metis find_Some_iff nth_mem)
  moreover have "present (lit ''T1'') (g_id g) (gap_history d1)"
    unfolding d1_def sighted_def by (simp add: present_sighting del: lit_Cons)
  ultimately show ?thesis using p by auto
qed

end
