(* ===== verification/Gap_History.thy ===== *)
theory Gap_History
  imports Gap_Replace
begin

text \<open>
  The gap history: the counters of a row against the list of committed runs that reported its gap.
\<close>

section \<open>What the history counts\<close>

text \<open>The runs, counted from 0, that reported a gap, and the four numbers its history row should hold.\<close>

definition runs_of :: "str list list \<Rightarrow> str \<Rightarrow> nat list" where
  "runs_of rs g = filter (\<lambda>k. g \<in> set (rs ! k)) [0..<length rs]"

definition history_spec :: "str list list \<Rightarrow> str \<Rightarrow> (int \<times> int \<times> int \<times> int) option" where
  "history_spec rs g =
     (case runs_of rs g of
        [] \<Rightarrow> None
      | k # ks \<Rightarrow>
          Some (int k + 1, int (last (k # ks)) + 1, int (length (k # ks)),
                int (length (filter (\<lambda>j. j - 1 \<notin> set (k # ks)) ks))))"

definition counts :: "gap_history_row \<Rightarrow> int \<times> int \<times> int \<times> int" where
  "counts h = (h_first_seen_run h, h_last_seen_run h, h_occurrences h, h_resurfaces h)"

definition row_counts :: "str \<Rightarrow> str \<Rightarrow> gap_history_row list \<Rightarrow> (int \<times> int \<times> int \<times> int) option" where
  "row_counts t g rows = map_option counts (find (\<lambda>h. key_of h = (t, g)) rows)"

fun bump :: "int \<Rightarrow> (int \<times> int \<times> int \<times> int) option \<Rightarrow> int \<times> int \<times> int \<times> int" where
  "bump run None = (run, run, 1, 0)"
| "bump run (Some (f, l, n, r)) =
     (f, max l run, n + (if l < run then 1 else 0), r + (if l < run - 1 then 1 else 0))"

lemma row_counts_sighting:
  "row_counts t g (sighting t i a run rows) =
     (if g = i then Some (bump run (row_counts t g rows)) else row_counts t g rows)"
proof -
  have "find (\<lambda>h. key_of h = (t, g)) (map (\<lambda>h. if key_of h = (t, i) then seen_again a run h else h) xs) =
      map_option (\<lambda>h. if key_of h = (t, i) then seen_again a run h else h) (find (\<lambda>h. key_of h = (t, g)) xs)" for xs
    by (induction xs) auto
  moreover have "find (\<lambda>h. key_of h = (t, i)) rows \<noteq> None" if "present t i rows"
    using that by (auto simp: present_def find_None_iff)
  moreover have "find (\<lambda>h. key_of h = (t, i)) rows = None" if "\<not> present t i rows"
    using that by (auto simp: present_def find_None_iff image_iff)
  moreover have "counts (seen_again a run h) = bump run (Some (counts h))" for h
    by (simp add: counts_def seen_again_def)
  moreover have "key_of h = (t, g)" if "find (\<lambda>h. key_of h = (t, g)) rows = Some h" for h
    using that by (auto simp: find_Some_iff)
  moreover have "counts (first_sighting t i a run) = bump run None" by (simp add: counts_def first_sighting_def)
  ultimately show ?thesis
    by (auto simp: row_counts_def sighting_eq find_app split: option.split)
qed

lemma row_counts_sight_all:
  "distinct (map g_id ns) \<Longrightarrow>
   row_counts t g (sight_all t run ns rows) =
     (if g \<in> g_id ` set ns then Some (bump run (row_counts t g rows)) else row_counts t g rows)"
  by (induction ns arbitrary: rows) (auto simp: sight_all_def row_counts_sighting)

lemma runs_of_snoc: "runs_of (rs @ [x]) g = runs_of rs g @ (if g \<in> set x then [length rs] else [])"
proof -
  have "filter (\<lambda>k. g \<in> set ((rs @ [x]) ! k)) [0..<length rs] = runs_of rs g"
    unfolding runs_of_def by (rule filter_cong) (auto simp: nth_append)
  then show ?thesis by (simp add: runs_of_def)
qed

lemma runs_of_bound: "k \<in> set (runs_of rs g) \<Longrightarrow> k < length rs"
  by (simp add: runs_of_def)

lemma sorted_runs_of: "sorted (runs_of rs g)"
  unfolding runs_of_def by (rule sorted_wrt_filter) simp

lemma sorted_le_last: "sorted xs \<Longrightarrow> x \<in> set xs \<Longrightarrow> x \<le> last xs"
  by (induction xs) auto

lemma history_spec_snoc:
  "history_spec (rs @ [x]) g =
     (if g \<in> set x then Some (bump (int (length rs) + 1) (history_spec rs g)) else history_spec rs g)"
proof (cases "runs_of rs g")
  case Nil
  then show ?thesis by (simp add: history_spec_def runs_of_snoc)
next
  case (Cons k ks)
  let ?n = "length rs" let ?l = "last (k # ks)"
  have bound: "j < ?n" if "j \<in> set (k # ks)" for j using runs_of_bound [of j rs g] Cons that by simp
  have l: "?l \<in> set (k # ks)" "?l < ?n" using bound [OF last_in_set [of "k # ks"]] by (simp_all add: last_in_set)
  have top: "j \<le> ?l" if "j \<in> set (k # ks)" for j
    using sorted_le_last [OF sorted_runs_of [of rs g]] Cons that by simp
  have "?n - 1 \<notin> set (k # ks) \<longleftrightarrow> int ?l + 1 < int ?n"
  proof
    assume "?n - 1 \<notin> set (k # ks)"
    then have "?l \<noteq> ?n - 1" using l(1) by metis
    then show "int ?l + 1 < int ?n" using l(2) by simp
  next
    assume "int ?l + 1 < int ?n"
    then have "?l < ?n - 1" by simp
    then show "?n - 1 \<notin> set (k # ks)" using top [of "?n - 1"] by linarith
  qed
  moreover have "j - 1 \<noteq> ?n" if "j \<in> set ks" for j using bound [of j] that by auto
  then have "filter (\<lambda>j. j - 1 \<noteq> k \<and> j - 1 \<notin> set ks \<and> j - 1 \<noteq> ?n) ks = filter (\<lambda>j. j - 1 \<noteq> k \<and> j - 1 \<notin> set ks) ks"
    by (intro filter_cong) auto
  ultimately show ?thesis using l(2) Cons
    by (cases "ks = []") (auto simp: history_spec_def runs_of_snoc)
qed

section \<open>Sequences of replacements\<close>

text \<open>Replacements one after the other, some of which may fail: the sets that were committed.\<close>

fun replace_runs :: "sys \<Rightarrow> str \<Rightarrow> gap list list \<Rightarrow> world \<Rightarrow> gap list list \<times> world" where
  "replace_runs sy t [] w = ([], w)"
| "replace_runs sy t (gs # rest) w =
     (case gaps_replace sy t gs w of
        (Inl _, w1) \<Rightarrow> replace_runs sy t rest w1
      | (Inr _, w1) \<Rightarrow> (case replace_runs sy t rest w1 of (cs, w2) \<Rightarrow> (gs # cs, w2)))"

text \<open>The state after the committed sets \<open>cs\<close>.\<close>

definition tracked :: "str \<Rightarrow> gap list list \<Rightarrow> db \<Rightarrow> bool" where
  "tracked t cs d \<longleftrightarrow>
     max_run t d = int (length cs) \<and> distinct (map g_id (gaps d)) \<and>
     (\<forall>g. row_counts t g (gap_history d) = history_spec (map (map g_id) cs) g)"

lemma tracked_replaced:
  assumes "tracked t cs d" "replaceable t gs d"
  shows "tracked t (cs @ [gs]) (replaced t gs d)"
proof -
  have "max_run t (replaced t gs d) = int (length cs) + 1"
    using max_run_eq [OF replaced_runs] max_run_set assms(1) unfolding tracked_def by metis
  moreover have "row_counts t g (gap_history (replaced t gs d)) = history_spec (map (map g_id) (cs @ [gs])) g" for g
  proof -
    have "g_id ` set (normal t gs) = set (map g_id (normal t gs))" by (simp del: normal_ids)
    then have "g_id ` set (normal t gs) = g_id ` set gs" by simp
    then have "row_counts t g (gap_history (replaced t gs d)) =
        (if g \<in> g_id ` set gs then Some (bump (int (length cs) + 1) (row_counts t g (gap_history d)))
         else row_counts t g (gap_history d))"
      using assms(1) by (simp add: history_replaced row_counts_sight_all tracked_def)
    moreover have "history_spec (map (map g_id) cs @ [map g_id gs]) g =
        (if g \<in> g_id ` set gs then Some (bump (int (length cs) + 1) (history_spec (map (map g_id) cs) g))
         else history_spec (map (map g_id) cs) g)"
      by (simp add: history_spec_snoc)
    ultimately show ?thesis using assms(1) by (simp add: tracked_def)
  qed
  ultimately show ?thesis using distinct_replaced assms by (simp add: tracked_def)
qed

lemma tracked_runs:
  assumes "\<forall>n. others sy n = []"
  shows "tracked t cs0 (w_db w) \<Longrightarrow> replace_runs sy t runs w = (cs, w') \<Longrightarrow> tracked t (cs0 @ cs) (w_db w')"
proof (induction runs arbitrary: cs0 cs w)
  case (Cons gs rest)
  obtain r w1 where r: "gaps_replace sy t gs w = (r, w1)" by fastforce
  have seen: "seen_db sy w = w_db w" using assms by (simp add: isolated_def)
  have spec: "case r of Inl e \<Rightarrow> w_db w1 = w_db w
      | Inr _ \<Rightarrow> replaceable t gs (w_db w) \<and> w_db w1 = replaced t gs (w_db w)"
    using gaps_replace_spec [OF _ r] Cons.prems(1) unfolding seen by (auto simp: tracked_def split: sum.splits)
  show ?case
  proof (cases r)
    case (Inl e)
    then have "tracked t cs0 (w_db w1)" "replace_runs sy t rest w1 = (cs, w')" using Cons.prems spec r by simp_all
    then show ?thesis by (rule Cons.IH)
  next
    case (Inr u)
    then obtain cs1 where c: "replace_runs sy t rest w1 = (cs1, w')" "cs = gs # cs1"
      using Cons.prems(2) r by (auto split: prod.splits)
    have "tracked t (cs0 @ [gs]) (w_db w1)" using tracked_replaced Cons.prems(1) spec Inr by simp
    from Cons.IH [OF this c(1)] show ?thesis using c(2) by simp
  qed
qed simp

section \<open>Properties\<close>

text \<open>
  C15. The history counts what it says. Starting from a task without runs, after any sequence of
  replacements of which some may have failed, the history row of a gap holds the first and the last
  committed run that reported it, how many did, and how many of those found it again after a committed
  run without it. A failed replacement counts for nothing.
\<close>

theorem history_counts_runs:
  assumes "\<forall>n. others sy n = []" "max_run t (w_db w) = 0" "distinct (map g_id (gaps (w_db w)))"
    "\<forall>h\<in>set (gap_history (w_db w)). h_task_id h \<noteq> t" "replace_runs sy t runs w = (cs, w')"
  shows "row_counts t g (gap_history (w_db w')) = history_spec (map (map g_id) cs) g"
proof -
  have "find (\<lambda>h. key_of h = (t, g)) (gap_history (w_db w)) = None" for g
    using assms(4) by (auto simp: find_None_iff key_of_def)
  then have "tracked t [] (w_db w)"
    using assms(2,3) by (simp add: tracked_def row_counts_def history_spec_def runs_of_def)
  from tracked_runs [OF assms(1) this assms(5)] show ?thesis by (simp add: tracked_def)
qed

theorem history_counts_runs_witness:
  "\<exists>w'. replace_runs quiet_sys (lit ''T1'') [[sample_gap ''G''], [], [sample_gap ''G'']] sample_world =
       ([[sample_gap ''G''], [], [sample_gap ''G'']], w') \<and>
     row_counts (lit ''T1'') (lit ''G'') (gap_history (w_db w')) = Some (1, 3, 2, 1)"
proof -
  let ?t = "lit ''T1''" let ?g = "[sample_gap ''G'']"
  have step: "\<exists>w'. gaps_replace quiet_sys ?t gs w = (Inr (), w') \<and> distinct (map g_id (gaps (w_db w'))) \<and>
      missing_output (w_db w') = None \<and> other_gaps ?t (w_db w') = []"
    if a: "distinct (map g_id (gaps (w_db w)))" "missing_output (w_db w) = None" "other_gaps ?t (w_db w) = []"
      "gs = [] \<or> gs = ?g" for gs and w :: world
  proof -
    have r: "replaceable ?t gs (w_db w)" using sample_replaceable a by blast
    obtain w' where w': "gaps_replace quiet_sys ?t gs w = (Inr (), w')" "w_db w' = replaced ?t gs (w_db w)"
      using replace_rest [OF sample_premises(1) a(1) r] by blast
    have "missing_output (w_db w') = None" using w'(2) a(2) by (simp add: replaced_def)
    moreover have "other_gaps ?t (w_db w') = []"
      using a(3) normal_task [of _ ?t gs] by (auto simp: w'(2) other_gaps_def gaps_replaced filter_empty_conv)
    ultimately show ?thesis using w' distinct_replaced [OF a(1) r] by auto
  qed
  obtain w1 where 1: "gaps_replace quiet_sys ?t ?g sample_world = (Inr (), w1)" "distinct (map g_id (gaps (w_db w1)))"
      "missing_output (w_db w1) = None" "other_gaps ?t (w_db w1) = []"
    using step [of sample_world ?g] sample_clean by blast
  obtain w2 where 2: "gaps_replace quiet_sys ?t [] w1 = (Inr (), w2)" "distinct (map g_id (gaps (w_db w2)))"
      "missing_output (w_db w2) = None" "other_gaps ?t (w_db w2) = []"
    using step [of w1 "[]"] 1 by blast
  obtain w3 where 3: "gaps_replace quiet_sys ?t ?g w2 = (Inr (), w3)" using step [of w2 ?g] 2 by blast
  have run: "replace_runs quiet_sys ?t [?g, [], ?g] sample_world = ([?g, [], ?g], w3)"
    using 1(1) 2(1) 3 by simp
  have "row_counts ?t (lit ''G'') (gap_history (w_db w3)) = history_spec (map (map g_id) [?g, [], ?g]) (lit ''G'')"
    by (rule history_counts_runs [OF _ _ _ _ run])
      (simp_all add: quiet_sys_def sample_clean max_run_def)
  also have "\<dots> = Some (1, 3, 2, 1)"
    by (simp add: history_spec_def runs_of_def sample_gap_def upt_rec numeral_nat)
  finally show ?thesis using run by blast
qed

end
