(* ===== verification/Record_Lists.thy ===== *)
theory Record_Lists
  imports Store_Calc
begin

text \<open>
  Evidence, reviews and linked requirements: what an append puts where, what a capped list answers,
  which reviews can be recorded, and that no linked requirement is lost.
\<close>

section \<open>Append-only tables with row ids\<close>

text \<open>The rows of an \<open>AUTOINCREMENT\<close> table, oldest first, and the largest id it has handed out.\<close>

definition ids_ok :: "('r \<Rightarrow> int) \<Rightarrow> 'r list \<Rightarrow> int \<Rightarrow> bool" where
  "ids_ok key rows seq \<longleftrightarrow> sorted_wrt (<) (map key rows) \<and> (\<forall>r\<in>set rows. key r \<le> seq)"

lemma ids_ok_snoc: "ids_ok key rows seq \<Longrightarrow> key r = seq + 1 \<Longrightarrow> ids_ok key (rows @ [r]) (seq + 1)"
  by (auto simp: ids_ok_def sorted_wrt_append)

lemma ids_ok_sorted: "ids_ok key rows seq \<Longrightarrow> sort_key key (filter p rows) = filter p rows"
proof (rule sort_key_id_if_sorted)
  assume "ids_ok key rows seq"
  then have "sorted_wrt (<) (map key (filter p rows))"
    by (auto simp: ids_ok_def sorted_wrt_map intro: sorted_wrt_filter)
  then show "sorted (map key (filter p rows))" by (rule strict_sorted_imp_sorted)
qed

lemma capped_limited: "capped (limited rows) = (take MAX_LIST_ROWS rows, MAX_LIST_ROWS < length rows)"
  by (auto simp: capped_def limited_def)

definition evidence_ok :: "db \<Rightarrow> bool" where
  "evidence_ok d = ids_ok e_id (evidence d) (evidence_seq d)"

definition container_ok :: "str \<Rightarrow> bool" where
  "container_ok s \<longleftrightarrow> check_array s = Inr () \<or> check_object s = Inr ()"

lemma check_container_ok: "check_container s = Inr () \<Longrightarrow> container_ok s"
  by (auto simp: check_container_def container_ok_def check_array_def check_object_def split: list.splits if_splits)

lemma evidence_append_db:
  assumes "evidence_append sy kind t req crit data w = (Inr i, w')"
  shows "\<not> blank kind \<and> container_ok data \<and> i = evidence_seq (seen_db sy w) + 1 \<and>
    w_db w' = (seen_db sy w)\<lparr>evidence := evidence (seen_db sy w) @
        [\<lparr>e_id = i, e_kind = kind, e_task_id = t, e_requirement_id = req, e_acceptance_criterion_id = crit, e_data_json = data\<rparr>],
      evidence_seq := i\<rparr>"
proof -
  have k: "\<not> blank kind" using assms by (auto simp: evidence_append_def throw_def split: if_splits)
  have c: "check_container data = Inr ()"
    using assms k by (auto simp: evidence_append_def require_json_def pbind_def attempt_def throw_def split: sum.splits)
  then have "exec sy (insert_evidence \<lparr>e_id = 0, e_kind = kind, e_task_id = t, e_requirement_id = req,
      e_acceptance_criterion_id = crit, e_data_json = data\<rparr>) w = (Inr i, w')"
    using assms k by (simp add: evidence_append_def require_json_def pbind_ret)
  then show ?thesis using k check_container_ok [OF c]
    by (auto simp: exec_def insert_evidence_def tick_db_def split: option.splits if_splits)
qed

section \<open>Properties\<close>

text \<open>
  C34. Evidence reads back newest first. At rest, the row an append answers with is the head of the
  task's list, under an id larger than every id of the table; the rest of the list is what was there
  before, newest first; at most 10000 rows are answered, and the flag says exactly whether there are
  more. Only a non-blank kind with a well-formed object or array is ever stored.
\<close>

theorem evidence_reads_back:
  assumes "at_rest sy now" "evidence_ok (w_db w)"
    "evidence_append sy kind (Some t) req crit data w = (Inr i, w1)"
    "evidence_list sy (Some t) w1 = (Inr (rows, longer), w2)"
  shows "(\<forall>r\<in>set (evidence (w_db w)). e_id r < i) \<and> evidence_ok (w_db w1) \<and> \<not> blank kind \<and> container_ok data \<and>
    (let old = rev (filter (\<lambda>r. e_task_id r = Some t) (evidence (w_db w)));
         new = \<lparr>e_id = i, e_kind = kind, e_task_id = Some t, e_requirement_id = req,
                e_acceptance_criterion_id = crit, e_data_json = data\<rparr>
     in rows = take MAX_LIST_ROWS (new # old) \<and> (longer \<longleftrightarrow> MAX_LIST_ROWS < length (new # old)))"
proof -
  let ?new = "\<lparr>e_id = i, e_kind = kind, e_task_id = Some t, e_requirement_id = req,
                e_acceptance_criterion_id = crit, e_data_json = data\<rparr>"
  have seen: "seen_db sy w = w_db w" using assms(1) by simp
  have d: "\<not> blank kind" "container_ok data" "i = evidence_seq (w_db w) + 1"
      "w_db w1 = (w_db w)\<lparr>evidence := evidence (w_db w) @ [?new], evidence_seq := i\<rparr>"
    using evidence_append_db [OF assms(3)] unfolding seen by blast+
  have own: "of_task e_task_id (Some t) = (\<lambda>r. e_task_id r = Some t)" by (simp add: fun_eq_iff of_task_def)
  have ok: "ids_ok e_id (evidence (w_db w) @ [?new]) i"
    using ids_ok_snoc [of e_id "evidence (w_db w)" "evidence_seq (w_db w)" ?new] assms(2) d(3) by (simp add: evidence_ok_def)
  have "wp (evidence_list sy (Some t)) w1 (\<lambda>r _. r = Inr (capped (limited
      (rev (sort_key e_id (filter (of_task e_task_id (Some t)) (evidence (w_db w1))))))))"
    using assms(1) by (simp add: evidence_list_def wp_simps)
  from wpD [OF this assms(4)] have "(rows, longer) = capped (limited (rev (filter (of_task e_task_id (Some t)) (evidence (w_db w1)))))"
    using ids_ok_sorted [OF ok] by (simp add: d(4))
  then have "rows = take MAX_LIST_ROWS (?new # rev (filter (\<lambda>r. e_task_id r = Some t) (evidence (w_db w))))"
    "longer \<longleftrightarrow> MAX_LIST_ROWS < length (?new # rev (filter (\<lambda>r. e_task_id r = Some t) (evidence (w_db w))))"
    by (auto simp: capped_limited d(4) own)
  moreover have "\<forall>r\<in>set (evidence (w_db w)). e_id r < i"
    using assms(2) d(3) by (auto simp: evidence_ok_def ids_ok_def)
  moreover have "evidence_ok (w_db w1)" using ok by (simp add: evidence_ok_def d(4))
  ultimately show ?thesis using d(1,2) unfolding Let_def by blast
qed

lemma sample_container: "check_container (lit ''{}'') = Inr ()" "check_object (lit ''{}'') = Inr ()"
  by code_simp+

theorem evidence_reads_back_witness:
  "\<exists>w1 w2 longer. evidence_append quiet_sys (lit ''test'') (Some (lit ''T1'')) None None (lit ''{}'') sample_world = (Inr 1, w1) \<and>
     evidence_list quiet_sys (Some (lit ''T1'')) w1 =
       (Inr ([\<lparr>e_id = 1, e_kind = lit ''test'', e_task_id = Some (lit ''T1''), e_requirement_id = None,
               e_acceptance_criterion_id = None, e_data_json = lit ''{}''\<rparr>], longer), w2)"
proof -
  have k: "\<not> blank (lit ''test'')" by (simp add: blank_def trim_Nil_iff is_whitespace_def)
  obtain w1 where a: "evidence_append quiet_sys (lit ''test'') (Some (lit ''T1'')) None None (lit ''{}'') sample_world = (Inr 1, w1)"
    using k sample_container
    by (auto simp: evidence_append_def require_json_def pbind_ret exec_def insert_evidence_def quiet_sys_def seen_db_def env_def
        sample_world_def sample_db_def I64_MAX_def simp del: lit_Cons)
  have "wp (evidence_list quiet_sys (Some (lit ''T1''))) w1 (\<lambda>r _. \<exists>x. r = Inr x)"
    using sample_premises(1) by (simp add: evidence_list_def wp_simps)
  then obtain rows longer w2 where l: "evidence_list quiet_sys (Some (lit ''T1'')) w1 = (Inr (rows, longer), w2)"
    by (auto simp: wp_def split: prod.splits)
  have none: "evidence (w_db sample_world) = []" "evidence_ok (w_db sample_world)"
    by (simp_all add: sample_world_def sample_db_def evidence_ok_def ids_ok_def)
  from evidence_reads_back [OF sample_premises(1) none(2) a l] show ?thesis
    using a l none(1) by (auto simp: Let_def MAX_LIST_ROWS_def simp del: lit_Cons)
qed

definition key_ok :: "str \<Rightarrow> bool" where
  "key_ok s \<longleftrightarrow> \<not> blank s \<and> byte_len s \<le> 256 \<and> (\<forall>c\<in>set s. \<not> is_control c)"

lemma require_review_key_ok: "require_review_key what s = Inr () \<longleftrightarrow> key_ok s"
  by (auto simp: require_review_key_def key_ok_def MAX_REVIEW_KEY_BYTES_def list_ex_iff)

lemma check_review_ok:
  "check_review t crit hash rec = Inr () \<longleftrightarrow>
     key_ok t \<and> key_ok crit \<and> key_ok hash \<and> list_all hash_byte (utf8_encode hash) \<and> byte_len rec \<le> MAX_REVIEW_RECORD_BYTES"
  by (auto simp: check_review_def rbind_Inr_iff require_review_key_ok)

lemma json_ws_whitespace: "json_ws c \<Longrightarrow> is_whitespace c"
  by (auto simp: json_ws_def is_whitespace_def)

lemma dropWhile_weaker: "(\<And>x. p x \<Longrightarrow> q x) \<Longrightarrow> dropWhile q (dropWhile p xs) = dropWhile q xs"
  by (induction xs) auto

text \<open>A container whose first character after the blanks is a brace is an object.\<close>

lemma container_is_object:
  assumes "check_container s = Inr ()" "starts_with [c_lbrace] (trim_start s)"
  shows "check_object s = Inr ()"
proof -
  let ?s = "dropWhile json_ws s"
  obtain b r where b: "utf8_encode ?s = b # r"
    using assms(1) by (cases "utf8_encode ?s") (simp_all add: check_container_def trim_start_matches_def)
  then have c: "check_container s = (if b = 123 then check_scan s 123 False else if b = 91 then check_scan s 91 False
      else Inl (Not_container b))"
    by (simp add: check_container_def trim_start_matches_def)
  have "b \<noteq> 91"
  proof
    assume "b = 91"
    then have "\<exists>u. ?s = b # u \<and> utf8_encode u = r" by (intro utf8_encode_head [OF b]) simp
    then obtain u where u: "?s = 91 # u" unfolding \<open>b = 91\<close> by blast
    have "dropWhile is_whitespace s = dropWhile is_whitespace ?s"
      by (rule dropWhile_weaker [OF json_ws_whitespace, symmetric])
    also have "\<dots> = 91 # u" unfolding u by (simp add: is_whitespace_def)
    finally have "trim_start s = 91 # u" by (simp only: trim_start_def trim_start_matches_def)
    then show False using assms(2) by (simp add: starts_with_iff)
  qed
  then show ?thesis using assms(1) c by (simp add: check_object_def split: if_splits)
qed

definition reviews_ok :: "db \<Rightarrow> bool" where
  "reviews_ok d = ids_ok r_id (reviews d) (reviews_seq d)"

lemma lift_result_ret: "lift_result (Inr x) = ret x"
  by (simp add: fun_eq_iff lift_result_def ret_def)

lemma wp_review_append:
  fixes w :: world
  assumes "isolated sy w"
  shows "wp (review_append sy t crit hash rec at) w (\<lambda>r w'. case r of
      Inl _ \<Rightarrow> w_db w' = w_db w
    | Inr i \<Rightarrow> check_review t crit hash rec = Inr () \<and> check_object rec = Inr () \<and> is_local t (w_db w) \<and>
        i = reviews_seq (w_db w) + 1 \<and>
        w_db w' = (w_db w)\<lparr>reviews := reviews (w_db w) @ [\<lparr>r_id = i, r_task_id = t, r_acceptance_criterion_id = crit,
          r_subject_hash = hash, r_record_json = rec, r_recorded_at = at\<rparr>], reviews_seq := i\<rparr>)"
proof (cases "check_review t crit hash rec = Inr () \<and> check_container rec = Inr () \<and> starts_with [c_lbrace] (trim_start rec)")
  case False
  then show ?thesis
    by (cases "check_review t crit hash rec"; cases "check_container rec")
      (auto simp: review_append_def require_json_def wp_simps)
next
  case True
  let ?ins = "insert_review \<lparr>r_id = 0, r_task_id = t, r_acceptance_criterion_id = crit,
        r_subject_hash = hash, r_record_json = rec, r_recorded_at = at\<rparr>"
  have "review_append sy t crit hash rec at = pbind (is_local_item sy t) (\<lambda>local.
      if \<not> local then throw (BadScope (No_task_to_review t)) else exec sy ?ins)"
    using True by (simp add: review_append_def require_json_def pbind_ret lift_result_ret)
  moreover have "wp (pbind (is_local_item sy t) (\<lambda>local.
      if \<not> local then throw (BadScope (No_task_to_review t)) else exec sy ?ins)) w (\<lambda>r w'. case r of
      Inl _ \<Rightarrow> w_db w' = w_db w
    | Inr i \<Rightarrow> is_local t (w_db w) \<and> i = reviews_seq (w_db w) + 1 \<and>
        w_db w' = (w_db w)\<lparr>reviews := reviews (w_db w) @ [\<lparr>r_id = i, r_task_id = t, r_acceptance_criterion_id = crit,
          r_subject_hash = hash, r_record_json = rec, r_recorded_at = at\<rparr>], reviews_seq := i\<rparr>)"
    unfolding wp_pbind
  proof (rule wp_conseq [OF wp_is_local_item [OF assms]], goal_cases)
    case (1 r w1)
    then have "isolated sy w1" using assms by (auto simp: isolated_def)
    then show ?case using 1 by (auto simp: wp_simps insert_review_def tick_db_def split: sum.splits option.splits)
  qed
  ultimately show ?thesis using True container_is_object by (auto simp: wp_def split: prod.splits sum.splits)
qed

text \<open>
  C35. A recorded review vouches for something. When \<open>review_append\<close> answers, the task is an item of this
  repository, the criterion and the hash are short, not blank and free of control characters, the hash
  is of \<open>a-z 0-9 : -\<close>, and the record is one JSON object of at most a megabyte; the row is appended under
  an id larger than all before it. A refusal stores nothing.
\<close>

theorem recorded_review_is_sound:
  assumes "isolated sy w" "reviews_ok (w_db w)" "review_append sy t crit hash rec at w = (r, w')"
  shows "case r of
           Inl _ \<Rightarrow> w_db w' = w_db w
         | Inr i \<Rightarrow> is_local t (w_db w) \<and> key_ok t \<and> key_ok crit \<and> key_ok hash \<and> list_all hash_byte (utf8_encode hash) \<and>
             byte_len rec \<le> 1048576 \<and> check_object rec = Inr () \<and>
             (\<forall>x\<in>set (reviews (w_db w)). r_id x < i) \<and> reviews_ok (w_db w') \<and>
             reviews (w_db w') = reviews (w_db w) @ [\<lparr>r_id = i, r_task_id = t, r_acceptance_criterion_id = crit,
               r_subject_hash = hash, r_record_json = rec, r_recorded_at = at\<rparr>]"
proof (cases r)
  case (Inl e)
  then show ?thesis using wpD [OF wp_review_append [OF assms(1)] assms(3)] by simp
next
  case (Inr i)
  let ?new = "\<lparr>r_id = i, r_task_id = t, r_acceptance_criterion_id = crit,
               r_subject_hash = hash, r_record_json = rec, r_recorded_at = at\<rparr>"
  have d: "check_review t crit hash rec = Inr ()" "check_object rec = Inr ()" "is_local t (w_db w)"
      "i = reviews_seq (w_db w) + 1" "w_db w' = (w_db w)\<lparr>reviews := reviews (w_db w) @ [?new], reviews_seq := i\<rparr>"
    using wpD [OF wp_review_append [OF assms(1)] assms(3)] Inr by simp_all
  have "\<forall>x\<in>set (reviews (w_db w)). r_id x < i"
    using assms(2) d(4) by (auto simp: reviews_ok_def ids_ok_def)
  moreover have "reviews_ok (w_db w')"
    using ids_ok_snoc [of r_id "reviews (w_db w)" "reviews_seq (w_db w)" ?new] assms(2) d(4,5) by (simp add: reviews_ok_def)
  ultimately show ?thesis using Inr d check_review_ok by (simp add: MAX_REVIEW_RECORD_BYTES_def)
qed

theorem recorded_review_is_sound_witness:
  "\<exists>w'. review_append quiet_sys (lit ''T1'') (lit ''AC1'') (lit ''abc'') (lit ''{}'') [] sample_world = (Inr 1, w') \<and>
     reviews_ok (w_db w')"
proof -
  have k: "key_ok (lit ''T1'')" "key_ok (lit ''AC1'')" "key_ok (lit ''abc'')"
    by (simp_all add: key_ok_def blank_def trim_Nil_iff is_whitespace_def is_control_def byte_len_def utf8_width_def)
  have h: "list_all hash_byte (utf8_encode (lit ''abc''))"
    by (simp add: utf8_bytes_ascii hash_byte_def)
  have s: "starts_with [c_lbrace] (trim_start (lit ''{}''))" "byte_len (lit ''{}'') \<le> MAX_REVIEW_RECORD_BYTES"
    by (simp_all add: trim_start_def trim_start_matches_def is_whitespace_def starts_with_iff byte_len_def utf8_width_def
        MAX_REVIEW_RECORD_BYTES_def)
  have c: "check_review (lit ''T1'') (lit ''AC1'') (lit ''abc'') (lit ''{}'') = Inr ()" using k h s check_review_ok by blast
  have "wp (review_append quiet_sys (lit ''T1'') (lit ''AC1'') (lit ''abc'') (lit ''{}'') []) sample_world (\<lambda>r _. r = Inr 1)"
    using sample_premises(1) c s(1) sample_container(1)
    by (simp add: review_append_def require_json_def is_local_item_def items_present_def insert_review_def wp_simps
        sample_world_def sample_db_def sample_item_def item_rows_def local_item_def I64_MAX_def del: lit_Cons)
  then obtain w' where r: "review_append quiet_sys (lit ''T1'') (lit ''AC1'') (lit ''abc'') (lit ''{}'') [] sample_world = (Inr 1, w')"
    by (auto simp: wp_def split: prod.splits)
  have "reviews_ok (w_db sample_world)" "isolated quiet_sys sample_world"
    using sample_premises(1) by (simp_all add: reviews_ok_def ids_ok_def sample_world_def sample_db_def)
  from recorded_review_is_sound [OF this(2,1) r] show ?thesis using r by auto
qed

definition requirement :: "str \<Rightarrow> db \<Rightarrow> requirement_row option" where
  "requirement i d = find (\<lambda>r. rq_id r = i) (requirements d)"

lemma linked_rows_eq:
  assumes "linked_rows sy t d = Inr xs"
  shows "\<exists>ids. map Some ids = (case find (\<lambda>i. i_id i = t \<and> i_deleted i = 0) (item_rows d) of
            None \<Rightarrow> [] | Some i \<Rightarrow> limited (json_requirement_ids sy (i_body i))) \<and>
          xs = map (\<lambda>i. case requirement i d of None \<Rightarrow> Inl i | Some r \<Rightarrow> Inr r) ids"
proof -
  have "try_fold (\<lambda>out v. rbind (linked_row d v) (\<lambda>r. Inr (out @ [r]))) out vs = Inr xs \<Longrightarrow>
      \<exists>ids. map Some ids = vs \<and> xs = out @ map (\<lambda>i. case requirement i d of None \<Rightarrow> Inl i | Some r \<Rightarrow> Inr r) ids" for out vs xs
  proof (induction vs arbitrary: out)
    case (Cons v vs)
    then obtain i where v: "v = Some i" by (cases v) (auto simp: linked_row_def)
    then have "try_fold (\<lambda>out v. rbind (linked_row d v) (\<lambda>r. Inr (out @ [r])))
        (out @ [case requirement i d of None \<Rightarrow> Inl i | Some r \<Rightarrow> Inr r]) vs = Inr xs"
      using Cons.prems by (simp add: linked_row_def requirement_def)
    from Cons.IH [OF this] obtain ids where "map Some ids = vs"
        "xs = out @ [case requirement i d of None \<Rightarrow> Inl i | Some r \<Rightarrow> Inr r] @
          map (\<lambda>i. case requirement i d of None \<Rightarrow> Inl i | Some r \<Rightarrow> Inr r) ids" by auto
    then show ?case using v by (intro exI [of _ "i # ids"]) simp
  qed simp
  from this [of "[]"] assms show ?thesis by (simp add: linked_rows_def)
qed

text \<open>
  No linked requirement is lost. The answer for a task splits the first 10000 identifiers its body
  links, in their order, into the rows that define them and the identifiers no row defines, and says
  whether there were more.
\<close>

theorem linked_requirements_complete:
  assumes "isolated sy w" "task_requirements sy t w = (Inr (Some x), w')"
  shows "\<exists>i ids. find (\<lambda>i. i_id i = t \<and> i_deleted i = 0) (item_rows (w_db w)) = Some i \<and>
     map Some ids = take (MAX_LIST_ROWS + 1) (json_requirement_ids sy (i_body i)) \<and>
     lr_rows x = List.map_filter (\<lambda>i. requirement i (w_db w)) (take MAX_LIST_ROWS ids) \<and>
     lr_missing x = filter (\<lambda>i. requirement i (w_db w) = None) (take MAX_LIST_ROWS ids) \<and>
     (lr_truncated x \<longleftrightarrow> MAX_LIST_ROWS < length (json_requirement_ids sy (i_body i)))"
proof -
  have c: "computes sy (task_requirements sy t) (\<lambda>d. if \<not> is_local t d then Inr (None, d)
      else rbind (linked_rows sy t d) (\<lambda>l. Inr (Some (sort_linked l), d)))"
    unfolding task_requirements_def
    by (rule computes_cong [OF computes_pbind [OF computes_is_local computes_if [OF computes_ret computes_pbind [OF computes_exec computes_ret]]]])
      (simp add: rbind_assoc)
  have "case (if \<not> is_local t (w_db w) then Inr (None, w_db w)
      else rbind (linked_rows sy t (w_db w)) (\<lambda>l. Inr (Some (sort_linked l), w_db w))) of
      Inl e \<Rightarrow> False | Inr (y, d') \<Rightarrow> y = Some x"
    using wpD [OF c [unfolded computes_def, rule_format, OF assms(1)] assms(2)]
    by (auto split: if_splits sum.splits)
  then obtain l where l: "is_local t (w_db w)" "linked_rows sy t (w_db w) = Inr l" "x = sort_linked l"
    by (cases "linked_rows sy t (w_db w)") (auto split: if_splits)
  obtain i where i: "find (\<lambda>i. i_id i = t \<and> i_deleted i = 0) (item_rows (w_db w)) = Some i"
    using l(1) by (cases "find (\<lambda>i. i_id i = t \<and> i_deleted i = 0) (item_rows (w_db w))")
      (auto simp: is_local_def list_ex_iff local_item_def find_None_iff)
  obtain ids where ids: "map Some ids = limited (json_requirement_ids sy (i_body i))"
      "l = map (\<lambda>i. case requirement i (w_db w) of None \<Rightarrow> Inl i | Some r \<Rightarrow> Inr r) ids"
    using linked_rows_eq [OF l(2)] i by auto
  have mf: "List.map_filter (\<lambda>y. case y of Inr r \<Rightarrow> Some r | Inl _ \<Rightarrow> None)
        (map (\<lambda>i. case requirement i d of None \<Rightarrow> Inl i | Some r \<Rightarrow> Inr r) js) = List.map_filter (\<lambda>i. requirement i d) js"
      "List.map_filter (\<lambda>y. case y of Inl i \<Rightarrow> Some i | Inr _ \<Rightarrow> None)
        (map (\<lambda>i. case requirement i d of None \<Rightarrow> Inl i | Some r \<Rightarrow> Inr r) js) = filter (\<lambda>i. requirement i d = None) js" for d js
    by (induction js) (auto simp: List.map_filter_simps split: option.split)
  have "length ids = length (limited (json_requirement_ids sy (i_body i)))" using ids(1) by (metis length_map)
  then have "MAX_LIST_ROWS < length l \<longleftrightarrow> MAX_LIST_ROWS < length (json_requirement_ids sy (i_body i))"
    using ids(2) by (auto simp: limited_def)
  then show ?thesis using i ids l(3) mf by (auto simp: sort_linked_def take_map limited_def)
qed

definition linking_sys :: sys where
  "linking_sys = quiet_sys\<lparr>json_requirement_ids := (\<lambda>_. [Some (lit ''R1''), Some (lit ''R2'')])\<rparr>"

definition linked_world :: world where
  "linked_world = \<lparr>w_db = sample_db\<lparr>requirements := [\<lparr>rq_id = lit ''R2'', rq_title = [], rq_description = [],
     rq_priority = [], rq_source = [], rq_acceptance_criteria_json = lit ''[]''\<rparr>]\<rparr>, w_tick = 0, w_tx = False\<rparr>"

theorem linked_requirements_complete_witness:
  "\<exists>x w'. task_requirements linking_sys (lit ''T1'') linked_world = (Inr (Some x), w') \<and>
     lr_missing x = [lit ''R1''] \<and> map rq_id (lr_rows x) = [lit ''R2''] \<and> \<not> lr_truncated x"
proof -
  have rest: "at_rest linking_sys 1700000000" by (simp add: at_rest_def linking_sys_def quiet_sys_def)
  have ids: "json_requirement_ids linking_sys b = [Some (lit ''R1''), Some (lit ''R2'')]" for b by (simp add: linking_sys_def)
  have "wp (task_requirements linking_sys (lit ''T1'')) linked_world (\<lambda>r _. \<exists>x. r = Inr (Some x))"
    using rest
    by (simp add: task_requirements_def is_local_item_def items_present_def wp_simps linked_rows_def linked_row_def
        ids linked_world_def sample_db_def sample_item_def item_rows_def local_item_def limited_def MAX_LIST_ROWS_def
        del: lit_Cons)
  then obtain x w' where r: "task_requirements linking_sys (lit ''T1'') linked_world = (Inr (Some x), w')"
    by (auto simp: wp_def split: prod.splits)
  have "isolated linking_sys linked_world" using rest by simp
  from linked_requirements_complete [OF this r] obtain js where
      x: "map Some js = take (MAX_LIST_ROWS + 1) [Some (lit ''R1''), Some (lit ''R2'')]"
      "lr_rows x = List.map_filter (\<lambda>i. requirement i (w_db linked_world)) (take MAX_LIST_ROWS js)"
      "lr_missing x = filter (\<lambda>i. requirement i (w_db linked_world) = None) (take MAX_LIST_ROWS js)"
      "lr_truncated x \<longleftrightarrow> MAX_LIST_ROWS < length [Some (lit ''R1''), Some (lit ''R2'')]"
    unfolding ids by blast
  have "map Some js = map Some [lit ''R1'', lit ''R2'']" using x(1) by (simp add: MAX_LIST_ROWS_def del: lit_Cons)
  then have "js = [lit ''R1'', lit ''R2'']" by (rule map_injective) simp
  then show ?thesis using r x
    by (simp add: MAX_LIST_ROWS_def requirement_def linked_world_def List.map_filter_simps)
qed

end
