(* ===== verification/Store_Calls.thy ===== *)
theory Store_Calls
  imports Task_Scope Gap_Replace Gap_History Record_Lists Ready
begin

text \<open>
  All operations of the store together. \<open>table_stmt\<close> are the writing statements on the tables beside
  the leases; \<open>store_guarantee\<close> extends the rely-guarantee interface of the lease table to them, so
  that a relation the statements respect is respected by every sequence of calls. It is instantiated
  with the key constraints of all tables, with the growth of the audit tables, and with the lease
  statements themselves.
\<close>

section \<open>The other writing statements\<close>

datatype table_stmt =
    Ensure_append str
  | Swap_append str str str
  | Set_run str int
  | Sight str str str int
  | Put_gap gap
  | Add_gap gap
  | Delete_gaps str
  | Put_run verification_run
  | Put_handoff agent_handoff
  | Add_evidence evidence_row
  | Add_review review_row

fun run_stmt :: "table_stmt \<Rightarrow> db \<Rightarrow> db" where
  "run_stmt (Ensure_append t) d = d\<lparr>appends := insert_append t (appends d)\<rparr>"
| "run_stmt (Swap_append t e v) d =
     d\<lparr>appends := fst (sql_update (swap_where t e) (\<lambda>a. a\<lparr>a_planned_files := v\<rparr>) (appends d))\<rparr>"
| "run_stmt (Set_run t n) d = set_run t n d"
| "run_stmt (Sight t i a n) d = d\<lparr>gap_history := sighting t i a n (gap_history d)\<rparr>"
| "run_stmt (Put_gap g) d = snd (upsert_gap g d)"
| "run_stmt (Add_gap g) d = snd (insert_gap g d)"
| "run_stmt (Delete_gaps t) d = delete_gaps t d"
| "run_stmt (Put_run r) d = d\<lparr>verification_runs := upsert_row v_id r (verification_runs d)\<rparr>"
| "run_stmt (Put_handoff k) d = d\<lparr>agent_handoffs := upsert_row k_id k (agent_handoffs d)\<rparr>"
| "run_stmt (Add_evidence r) d = snd (insert_evidence r d)"
| "run_stmt (Add_review r) d = snd (insert_review r d)"

text \<open>Other processes that use the crate: their writes are its statements, on any table.\<close>

datatype peer = Peer_lease foreign_write | Peer_table table_stmt

fun peer_write :: "peer \<Rightarrow> foreign_write" where
  "peer_write (Peer_lease (Foreign_other f)) = Foreign_other (\<lambda>d. d)"
| "peer_write (Peer_lease x) = x"
| "peer_write (Peer_table s) = Foreign_other (run_stmt s)"

definition with_peers :: "sys \<Rightarrow> (nat \<Rightarrow> peer list) \<Rightarrow> sys" where
  "with_peers sy ps = sy\<lparr>others := \<lambda>k. map peer_write (ps k)\<rparr>"

section \<open>Every operation\<close>

datatype crate_call =
    On_leases store_call
  | Task str
  | Set_scope str str str str
  | Requirements str
  | Evidence_append str "str option" "str option" "str option" str
  | Evidence_list "str option"
  | Gap_upsert gap
  | Gaps_replace str "gap list"
  | Gaps_list "str option"
  | Gap_history_of "str option"
  | Run_record verification_run
  | Commit "verification_run option" str "gap list"
  | Run_get str
  | Runs_list "str option"
  | Handoff_record agent_handoff
  | Handoff_get str
  | Review_append str str str str str
  | Reviews_list str "str option"

fun perform :: "sys \<Rightarrow> crate_call \<Rightarrow> world \<Rightarrow> world" where
  "perform sy (On_leases c) w = run_call sy c w"
| "perform sy (Task t) w = snd (read_task sy t w)"
| "perform sy (Set_scope t tok e v) w = snd (set_agent_appended_planned_files sy t tok e v w)"
| "perform sy (Requirements t) w = snd (task_requirements sy t w)"
| "perform sy (Evidence_append k t r a j) w = snd (evidence_append sy k t r a j w)"
| "perform sy (Evidence_list t) w = snd (evidence_list sy t w)"
| "perform sy (Gap_upsert g) w = snd (gap_upsert sy g w)"
| "perform sy (Gaps_replace t gs) w = snd (gaps_replace sy t gs w)"
| "perform sy (Gaps_list t) w = snd (gaps_list sy t w)"
| "perform sy (Gap_history_of t) w = snd (gap_history_list sy t w)"
| "perform sy (Run_record r) w = snd (run_record sy r w)"
| "perform sy (Commit r t gs) w = snd (verification_commit sy r t gs w)"
| "perform sy (Run_get i) w = snd (run_get sy i w)"
| "perform sy (Runs_list t) w = snd (runs_list sy t w)"
| "perform sy (Handoff_record k) w = snd (handoff_record sy k w)"
| "perform sy (Handoff_get i) w = snd (handoff_get sy i w)"
| "perform sy (Review_append t a h j at) w = snd (review_append sy t a h j at w)"
| "perform sy (Reviews_list t a) w = snd (reviews_list sy t a w)"

definition crate_calls :: "sys \<Rightarrow> crate_call list \<Rightarrow> world \<Rightarrow> world" where
  "crate_calls sy cs w = fold (perform sy) cs w"

section \<open>Rely and guarantee on all tables\<close>

locale store_guarantee = lease_guarantee +
  assumes R_table: "R d (run_stmt s d)"
begin

lemma keeps_read:
  assumes "\<And>d. snd (st d) = d"
  shows "keeps R (exec sy st)"
  by (rule keeps_exec) (simp add: assms R_refl)

lemma keeps_statements [keeps_intros]:
  "keeps R (exec sy (\<lambda>d. (Inr (), d\<lparr>appends := insert_append t (appends d)\<rparr>)))"
  "keeps R (exec sy (\<lambda>d. case sql_update (swap_where t e) (\<lambda>a. a\<lparr>a_planned_files := v\<rparr>) (appends d) of
                          (rows, n) \<Rightarrow> (Inr n, d\<lparr>appends := rows\<rparr>)))"
  "keeps R (exec sy (\<lambda>d. (Inr (), set_run t k d)))"
  "keeps R (exec sy (\<lambda>d. (Inr (), d\<lparr>gap_history := sighting t i a k (gap_history d)\<rparr>)))"
  "keeps R (exec sy (upsert_gap g))"
  "keeps R (exec sy (insert_gap g))"
  "keeps R (exec sy (\<lambda>d. (Inr (), delete_gaps t d)))"
  "keeps R (exec sy (\<lambda>d. (Inr (), d\<lparr>verification_runs := upsert_row v_id r (verification_runs d)\<rparr>)))"
  "keeps R (exec sy (\<lambda>d. (Inr (), d\<lparr>agent_handoffs := upsert_row k_id h (agent_handoffs d)\<rparr>)))"
  "keeps R (exec sy (insert_evidence ev))"
  "keeps R (exec sy (insert_review rv))"
  using R_table [where s = "Ensure_append t"] R_table [where s = "Swap_append t e v"] R_table [where s = "Set_run t k"]
    R_table [where s = "Sight t i a k"] R_table [where s = "Put_gap g"] R_table [where s = "Add_gap g"]
    R_table [where s = "Delete_gaps t"] R_table [where s = "Put_run r"] R_table [where s = "Put_handoff h"]
    R_table [where s = "Add_evidence ev"] R_table [where s = "Add_review rv"]
  by (intro keeps_exec; simp add: case_prod_beta)+

lemma keeps_each [keeps_intros]: "(\<And>x. keeps R (f x)) \<Longrightarrow> keeps R (each f xs)"
  by (induction xs) (auto intro: keeps_intros)

lemma keeps_require_json [keeps_intros]: "keeps R (require_json what v check)"
  by (auto simp: require_json_def split: sum.split intro: keeps_intros)

lemma keeps_read_task [keeps_intros]: "keeps R (read_task sy t)"
  unfolding read_task_def by (auto intro!: keeps_intros split: option.split prod.split)

lemma keeps_swap_held [keeps_intros]: "keeps R (swap_held sy t e v)"
  unfolding swap_held_def
  by (auto intro!: keeps_intros keeps_read split: option.split sum.split prod.split)

lemma keeps_set_scope [keeps_intros]: "keeps R (set_agent_appended_planned_files sy t tok e v)"
  unfolding set_agent_appended_planned_files_def swap_agent_appended_def Let_def
  by (auto intro!: keeps_intros split: sum.split)

lemma keeps_requirements [keeps_intros]: "keeps R (task_requirements sy t)"
  unfolding task_requirements_def by (auto intro!: keeps_intros keeps_read)

lemma keeps_evidence_append [keeps_intros]: "keeps R (evidence_append sy k t r a j)"
  unfolding evidence_append_def
  by (auto intro!: keeps_intros)

lemma keeps_runs [keeps_intros]: "keeps R (advance_run sy t)" "keeps R (current_run sy t)"
    "keeps R (record_sighting sy t i a n)"
  unfolding current_run_def advance_run_def record_sighting_def
  by (auto intro!: keeps_intros)

lemma keeps_gap_upsert [keeps_intros]: "keeps R (gap_upsert sy g)"
  unfolding gap_upsert_def gap_upsert_in_def
  by (auto intro!: keeps_intros split: option.split)

lemma keeps_gaps_replace_in [keeps_intros]: "keeps R (gaps_replace_in sy t gs)"
  unfolding gaps_replace_in_def
  by (auto intro!: keeps_intros)

lemma keeps_run_record [keeps_intros]: "keeps R (run_record sy r)"
  unfolding run_record_def by (auto intro!: keeps_intros)

lemma keeps_commits [keeps_intros]: "keeps R (gaps_replace sy t gs)" "keeps R (verification_commit sy r t gs)"
  unfolding gaps_replace_def verification_commit_def by (auto intro!: keeps_intros split: option.split)

lemma keeps_handoff_record [keeps_intros]: "keeps R (handoff_record sy k)"
  unfolding handoff_record_def by (auto intro!: keeps_intros)

lemma keeps_review_append [keeps_intros]: "keeps R (review_append sy t a h j at)"
  unfolding review_append_def
  by (auto intro!: keeps_intros)

lemma keeps_record_lists [keeps_intros]: "keeps R (evidence_list sy t)" "keeps R (gaps_list sy t)"
    "keeps R (gap_history_list sy t)" "keeps R (run_get sy i)" "keeps R (runs_list sy t)"
    "keeps R (handoff_get sy i)" "keeps R (reviews_list sy i t)"
  unfolding evidence_list_def gaps_list_def gaps_has_column_def gap_history_list_def run_get_def runs_list_def
    handoff_get_def reviews_list_def
  by (auto intro!: keeps_intros)

lemma perform_keeps: "R (w_db w) (w_db (perform sy c w))"
  by (cases c) (simp_all add: run_call_keeps keepsD [OF _ prod.collapse [symmetric]] keeps_intros)

lemma crate_calls_keep: "R (w_db w) (w_db (crate_calls sy cs w))"
  unfolding crate_calls_def
  by (induction cs arbitrary: w) (auto simp: R_refl intro: R_trans [OF perform_keeps])

end

text \<open>The statements on the other tables leave the leases alone.\<close>

lemma run_stmt_leases [simp]: "leases (run_stmt s d) = leases d"
  by (cases s) (auto simp: set_run_def upsert_gap_def insert_gap_def delete_gaps_def insert_evidence_def
    insert_review_def split: option.split)

lemma run_stmt_same_leases [simp]: "(run_stmt s d)\<lparr>leases := leases d\<rparr> = run_stmt s d"
  using run_stmt_leases [of s d] by (cases "run_stmt s d") simp

text \<open>
  The interface for a relation that the crate's own statements keep: it is kept by every operation,
  whatever other processes that use the crate write meanwhile.
\<close>

locale peer_guarantee =
  fixes R :: "db \<Rightarrow> db \<Rightarrow> bool"
  assumes R_refl: "R d d"
    and R_trans: "R a b \<Longrightarrow> R b c \<Longrightarrow> R a c"
    and R_insert: "insert_lease l (leases d) = Some rows \<Longrightarrow> is_active l \<Longrightarrow> R d (d\<lparr>leases := rows\<rparr>)"
    and R_update: "row_change f \<Longrightarrow> (\<And>r. p r \<Longrightarrow> is_active r \<and> l_id r = i) \<Longrightarrow>
                   R d (d\<lparr>leases := fst (sql_update p f (leases d))\<rparr>)"
    and R_table: "R d (run_stmt s d)"
begin

lemma R_peer: "R d (foreign_step u (peer_write p) d)"
proof (cases p)
  case (Peer_lease x)
  then show ?thesis
  proof (cases x)
    case (Foreign_insert l)
    then show ?thesis
      using Peer_lease R_insert [of "l\<lparr>l_status := st_active\<rparr>" d] R_refl
      by (auto simp: is_active_def split: option.split)
  qed (auto simp: R_refl intro!: R_update row_change.intros dest: where_active)
qed (simp add: R_table)

lemma R_env: "R d (env (with_peers sy ps) n d)"
proof -
  have "R d (fold (foreign_step u) (map peer_write xs) d)" for u xs
    by (induction xs arbitrary: d) (auto simp: R_refl intro: R_trans R_peer)
  then show ?thesis by (simp add: env_def with_peers_def)
qed

end

sublocale peer_guarantee \<subseteq> all: store_guarantee "with_peers sy ps" R for sy ps
  by unfold_locales (auto intro: R_refl R_trans R_env R_insert R_update R_table)

sublocale table_guarantee \<subseteq> store: store_guarantee sy "\<lambda>d d'. T (leases d) (leases d')" for sy
  by unfold_locales (simp add: T_refl)

section \<open>The keys of every table\<close>

text \<open>A history row counts runs: it was seen in some runs of the span from the first to the last.\<close>

definition counted :: "gap_history_row \<Rightarrow> bool" where
  "counted h \<longleftrightarrow>
     0 \<le> h_resurfaces h \<and> h_resurfaces h < h_occurrences h \<and>
     h_occurrences h \<le> h_last_seen_run h - h_first_seen_run h + 1"

definition keys_ok :: "db \<Rightarrow> bool" where
  "keys_ok d \<longleftrightarrow>
     table_ok (leases d) \<and> distinct (map a_task_id (appends d)) \<and> distinct (map g_id (gaps d)) \<and>
     distinct (map fst (gap_runs d)) \<and> distinct (map key_of (gap_history d)) \<and>
     (\<forall>h\<in>set (gap_history d). counted h) \<and> distinct (map v_id (verification_runs d)) \<and>
     distinct (map k_id (agent_handoffs d)) \<and> ids_ok e_id (evidence d) (evidence_seq d) \<and>
     ids_ok r_id (reviews d) (reviews_seq d)"

lemma distinct_upsert: "distinct (map key rows) \<Longrightarrow> distinct (map key (upsert_row key r rows))"
proof -
  have "map key (map (\<lambda>x. if key x = key r then r else x) rows) = map key rows" by simp
  then show "distinct (map key rows) \<Longrightarrow> distinct (map key (upsert_row key r rows))"
    unfolding upsert_row_def by (auto simp: list_ex_iff simp del: map_map)
qed

lemma distinct_keys_sighting: "distinct (map key_of rows) \<Longrightarrow> distinct (map key_of (sighting t i a k rows))"
  unfolding keys_sighting by (auto simp: present_def)

lemma counted_sighting:
  assumes "\<forall>h\<in>set rows. counted h"
  shows "\<forall>h\<in>set (sighting t i a k rows). counted h"
proof -
  have "counted h \<Longrightarrow> counted (seen_again a k h)" for h
    by (auto simp: counted_def seen_again_def max_def)
  then show ?thesis using assms by (auto simp: sighting_eq counted_def first_sighting_def)
qed

lemma keys_swap:
  "map a_task_id (fst (sql_update (swap_where t e) (\<lambda>a. a\<lparr>a_planned_files := v\<rparr>) rows)) = map a_task_id rows"
  by (simp add: sql_update_def comp_def if_distrib cong: if_cong)

lemma keys_ok_stmt: "keys_ok d \<Longrightarrow> keys_ok (run_stmt s d)"
  by (cases s)
    (auto simp: keys_ok_def keys_swap set_run_def upsert_gap_def insert_gap_def delete_gaps_def list_ex_iff
      insert_evidence_def insert_review_def distinct_map_filter insert_append_ids distinct_upsert
      distinct_keys_sighting counted_sighting ids_ok_snoc
      split: option.split)

interpretation keys: peer_guarantee "\<lambda>d d'. keys_ok d \<longrightarrow> keys_ok d'"
proof unfold_locales
  fix f p i and d :: db assume "row_change f" "\<And>r. p r \<Longrightarrow> is_active r \<and> l_id r = i"
  then show "keys_ok d \<longrightarrow> keys_ok (d\<lparr>leases := fst (sql_update p f (leases d))\<rparr>)"
    using table_ok_update [of f p "leases d"] by (auto simp: keys_ok_def)
next
  fix l rows and d :: db assume "insert_lease l (leases d) = Some rows" "is_active l"
  then show "keys_ok d \<longrightarrow> keys_ok (d\<lparr>leases := rows\<rparr>)" using table_ok_insert by (auto simp: keys_ok_def)
qed (use keys_ok_stmt in auto)

text \<open>
  C18. The store keeps its keys: from any database that meets the constraints, every sequence of
  operations, with any statement failing and other processes of the crate writing in between, ends in
  one that meets them: one active lease per task, one row per task, gap, run and hand-off, row ids that
  only grow, and history counters that fit the runs they span.
\<close>

theorem calls_keep_keys:
  assumes "keys_ok (w_db w)"
  shows "keys_ok (w_db (crate_calls (with_peers sy ps) cs w))"
  using keys.all.crate_calls_keep assms by blast

definition sample_peers :: "nat \<Rightarrow> peer list" where
  "sample_peers k = [Peer_lease (Foreign_insert (sample_lease\<lparr>l_id := show_nat k\<rparr>)),
     Peer_table (Set_run (lit ''T1'') (int k)), Peer_table (Sight (lit ''T1'') (lit ''g'') [] (int k))]"

theorem calls_keep_keys_witness:
  "keys_ok (w_db sample_world) \<and>
   keys_ok (w_db (crate_calls (with_peers quiet_sys sample_peers)
     [On_leases (Call_acquire sample_request), Set_scope (lit ''T1'') (lit ''k0'') (lit ''[]'') (lit ''[]''),
      Gaps_replace (lit ''T1'') [], Evidence_append (lit ''log'') None None None (lit ''{}'')] sample_world))"
proof -
  have ok: "keys_ok (w_db sample_world)"
    using sample_ok by (simp add: keys_ok_def sample_world_def sample_db_def ids_ok_def)
  show ?thesis by (rule conjI [OF ok calls_keep_keys [OF ok]])
qed

section \<open>The audit trail\<close>

definition grown :: "gap_history_row \<Rightarrow> gap_history_row \<Rightarrow> bool" where
  "grown h h' \<longleftrightarrow>
     key_of h' = key_of h \<and> h_first_seen_run h' = h_first_seen_run h \<and>
     h_last_seen_run h \<le> h_last_seen_run h' \<and> h_occurrences h \<le> h_occurrences h' \<and>
     h_resurfaces h \<le> h_resurfaces h'"

definition audit_grows :: "db \<Rightarrow> db \<Rightarrow> bool" where
  "audit_grows d d' \<longleftrightarrow>
     (\<exists>es. evidence d' = evidence d @ es) \<and> (\<exists>rs. reviews d' = reviews d @ rs) \<and>
     v_id ` set (verification_runs d) \<subseteq> v_id ` set (verification_runs d') \<and>
     k_id ` set (agent_handoffs d) \<subseteq> k_id ` set (agent_handoffs d') \<and>
     (\<forall>h\<in>set (gap_history d). \<exists>h'\<in>set (gap_history d'). grown h h')"

lemma grown_order [simp]: "grown h h" "grown a b \<Longrightarrow> grown b c \<Longrightarrow> grown a c"
  by (auto simp: grown_def)

lemma audit_refl [simp]: "audit_grows d d"
  by (auto simp: audit_grows_def intro: grown_order(1))

lemma audit_trans:
  assumes "audit_grows a b" "audit_grows b c"
  shows "audit_grows a c"
proof -
  have "\<forall>h\<in>set (gap_history a). \<exists>h'\<in>set (gap_history c). grown h h'"
    using assms grown_order(2) unfolding audit_grows_def by meson
  moreover have "v_id ` set (verification_runs a) \<subseteq> v_id ` set (verification_runs c)"
      "k_id ` set (agent_handoffs a) \<subseteq> k_id ` set (agent_handoffs c)"
    using assms unfolding audit_grows_def
    by - (elim conjE, rule subset_trans, assumption+)+
  moreover have "\<exists>es. evidence c = evidence a @ es" "\<exists>rs. reviews c = reviews a @ rs"
    using assms by (auto simp: audit_grows_def)
  ultimately show ?thesis unfolding audit_grows_def by (intro conjI)
qed

lemma upsert_keys: "key ` set rows \<subseteq> key ` set (upsert_row key r rows)"
proof -
  have "map key (map (\<lambda>x. if key x = key r then r else x) rows) = map key rows" by simp
  then have "key ` set (map (\<lambda>x. if key x = key r then r else x) rows) = key ` set rows"
    using set_map by metis
  then show ?thesis unfolding upsert_row_def by (cases "list_ex (\<lambda>x. key x = key r) rows") auto
qed

lemma sighting_grown:
  assumes "h \<in> set rows"
  shows "\<exists>h'\<in>set (sighting t i a k rows). grown h h'"
proof (cases "present t i rows")
  case True
  let ?h = "if key_of h = (t, i) then seen_again a k h else h"
  have "grown h (seen_again a k h)" by (simp add: grown_def) (simp add: seen_again_def)
  then have "grown h ?h" by simp
  moreover have "?h \<in> set (sighting t i a k rows)"
    unfolding sighting_eq if_P [OF True] set_map using assms by (rule imageI)
  ultimately show ?thesis by blast
qed (use assms in \<open>auto simp: sighting_eq intro: grown_order(1)\<close>)

lemma audit_stmt: "audit_grows d (run_stmt s d)"
proof (cases s)
  case (Sight t i a k)
  then show ?thesis using sighting_grown by (auto simp: audit_grows_def)
next
  case (Put_run r)
  then show ?thesis by (auto simp: audit_grows_def intro: grown_order(1) subsetD [OF upsert_keys])
next
  case (Put_handoff k)
  then show ?thesis by (auto simp: audit_grows_def intro: grown_order(1) subsetD [OF upsert_keys])
qed (auto simp: audit_grows_def set_run_def upsert_gap_def insert_gap_def delete_gaps_def insert_evidence_def
    insert_review_def intro: grown_order(1) split: option.split)

interpretation audit: peer_guarantee audit_grows
  by unfold_locales
    (auto simp: audit_stmt intro: audit_trans, auto simp: audit_grows_def intro: grown_order(1))

text \<open>
  C19. The audit trail only grows: whatever operations are called, whichever statements fail and whatever
  other processes of the crate write, evidence and reviews are kept in their order with new rows after
  them, no run or hand-off disappears, and no gap's history is lost or counts backwards.
\<close>

theorem audit_trail_grows:
  "audit_grows (w_db w) (w_db (crate_calls (with_peers sy ps) cs w))"
  by (rule audit.all.crate_calls_keep)

section \<open>The lease table\<close>

text \<open>
  Every sequence of operations of the store, on leases or on any other table, with any writes of other
  connections between its statements and any statement failing, is a sequence of single lease
  statements on the lease table.
\<close>

theorem crate_refines_lease_steps:
  "rtranclp lease_step (leases (w_db w)) (leases (w_db (crate_calls sy cs w)))"
  by (rule steps.store.crate_calls_keep)

end
