(* ===== verification/Edges.thy ===== *)
theory Edges
  imports Prelude "HOL-Library.Word"
begin

text \<open>
  The resolved graph's data, from \<open>devmap-extract/src/model.rs\<close> and \<open>devmap-resolve/src/model.rs\<close>: edge
  kinds, confidences, the evidence an edge rests on and the rows of the unresolved ledger. Every analysis
  of the graph reads these types.
\<close>

section \<open>Edge kinds\<close>

datatype edge_kind = Imports | Calls | Contains | Defines | Instantiates | Extends | Implements
  | SubscribesTo | HandlesRoute | Registers | WiredTo | MemberOf | DependsOn | TaintFlow | References

definition kind_debug :: "edge_kind \<Rightarrow> str" where
  "kind_debug k = lit (case k of
     Imports \<Rightarrow> ''Imports'' | Calls \<Rightarrow> ''Calls'' | Contains \<Rightarrow> ''Contains'' | Defines \<Rightarrow> ''Defines''
   | Instantiates \<Rightarrow> ''Instantiates'' | Extends \<Rightarrow> ''Extends'' | Implements \<Rightarrow> ''Implements''
   | SubscribesTo \<Rightarrow> ''SubscribesTo'' | HandlesRoute \<Rightarrow> ''HandlesRoute'' | Registers \<Rightarrow> ''Registers''
   | WiredTo \<Rightarrow> ''WiredTo'' | MemberOf \<Rightarrow> ''MemberOf'' | DependsOn \<Rightarrow> ''DependsOn''
   | TaintFlow \<Rightarrow> ''TaintFlow'' | References \<Rightarrow> ''References'')"

section \<open>Confidence\<close>

text \<open>An \<open>f32\<close> is its 32 bits; \<open>f32_ge\<close> is the IEEE comparison \<open>>=\<close>, false on a NaN.\<close>

type_synonym f32 = "32 word"

definition f32_magnitude :: "f32 \<Rightarrow> int" where
  "f32_magnitude x = uint x mod 2 ^ 31"

definition f32_is_nan :: "f32 \<Rightarrow> bool" where
  "f32_is_nan x \<longleftrightarrow> f32_magnitude x > 255 * 2 ^ 23"

definition f32_rank :: "f32 \<Rightarrow> int" where
  "f32_rank x = (if uint x < 2 ^ 31 then f32_magnitude x else - f32_magnitude x)"

definition f32_ge :: "f32 \<Rightarrow> f32 \<Rightarrow> bool" where
  "f32_ge x y \<longleftrightarrow> \<not> f32_is_nan x \<and> \<not> f32_is_nan y \<and> f32_rank x \<ge> f32_rank y"

text \<open>
  \<open>confidence_millis\<close>: an \<open>f32\<close> times 1000 needs 34 bits of precision, so the product of the
  conversion to \<open>f64\<close> is exact and \<open>round\<close> is the nearest integer, halves away from zero. A magnitude
  below \<open>2 ^ 23\<close> is subnormal; a value of 1 or more clamps to 1000.
\<close>

definition f32_exponent :: "f32 \<Rightarrow> int" where
  "f32_exponent x = max 1 (f32_magnitude x div 2 ^ 23)"

definition f32_significand :: "f32 \<Rightarrow> int" where
  "f32_significand x = f32_magnitude x mod 2 ^ 23 + (if f32_magnitude x < 2 ^ 23 then 0 else 2 ^ 23)"

definition confidence_millis :: "f32 \<Rightarrow> int" where
  "confidence_millis x =
     (if f32_magnitude x \<ge> 255 * 2 ^ 23 then 0
      else if uint x \<ge> 2 ^ 31 then 0
      else if f32_exponent x \<ge> 127 then 1000
      else (let d = 2 ^ nat (150 - f32_exponent x)
            in (2 * (f32_significand x * 1000) + d) div (2 * d)))"

definition DETERMINISTIC :: f32 where "DETERMINISTIC = 0x3F800000"
definition HIGH :: f32 where "HIGH = 0x3F666666"
definition MEDIUM :: f32 where "MEDIUM = 0x3F333333"
definition LOW :: f32 where "LOW = 0x3ECCCCCD"
definition SPECULATIVE :: f32 where "SPECULATIVE = 0x3E4CCCCD"

section \<open>Evidence\<close>

datatype lang_family = Python | JsTs | Go | Rust | CStyle | Swift | Kotlin | Ruby | Php | Scala | Lua | R
  | Dart | Erlang | Nix | Pascal | Shell | Solidity | Sql | Generic

definition family_admits :: "lang_family \<Rightarrow> lang_family \<Rightarrow> bool" where
  "family_admits f other \<longleftrightarrow> f = other \<and> f \<noteq> Generic"

datatype resolution_kind = KSameFile | KSamePackage | KImportScoped | KReceiverType | KLanguageServer
  | KUniqueGlobal | KAmbiguousGlobal | KLanguageServerDispatch | KDispatch | KUnresolved | KStructural

definition ALL_KINDS :: "resolution_kind list" where
  "ALL_KINDS = [KSameFile, KSamePackage, KImportScoped, KReceiverType, KLanguageServer, KUniqueGlobal,
     KAmbiguousGlobal, KLanguageServerDispatch, KDispatch, KUnresolved, KStructural]"

definition kind_confidence :: "resolution_kind \<Rightarrow> f32" where
  "kind_confidence k =
     (if k \<in> {KSameFile, KSamePackage, KImportScoped, KReceiverType, KStructural} then DETERMINISTIC
      else if k \<in> {KLanguageServer, KUniqueGlobal} then HIGH
      else if k = KDispatch then LOW
      else SPECULATIVE)"

definition resolution_label :: "resolution_kind \<Rightarrow> str" where
  "resolution_label k = lit (case k of
     KSameFile \<Rightarrow> ''SameFile'' | KSamePackage \<Rightarrow> ''SamePackage'' | KImportScoped \<Rightarrow> ''ImportScoped''
   | KReceiverType \<Rightarrow> ''ReceiverType'' | KLanguageServer \<Rightarrow> ''LanguageServer'' | KUniqueGlobal \<Rightarrow> ''UniqueGlobal''
   | KAmbiguousGlobal \<Rightarrow> ''AmbiguousGlobal'' | KLanguageServerDispatch \<Rightarrow> ''LanguageServerDispatch''
   | KDispatch \<Rightarrow> ''Dispatch'' | KUnresolved \<Rightarrow> ''Unresolved'' | KStructural \<Rightarrow> ''Structural'')"

definition from_label :: "str \<Rightarrow> resolution_kind option" where
  "from_label label = find (\<lambda>k. resolution_label k = label) ALL_KINDS"

datatype resolution =
    SameFile (res_target_symbol: str) (res_target_file: str)
  | SamePackage (res_target_symbol: str) (res_target_file: str) (res_package_name: str)
  | ImportScoped (res_target_symbol: str) (res_target_file: str) (res_imported_from: str)
  | ReceiverType (res_target_symbol: str) (res_target_file: str) (res_receiver_type: str)
  | LanguageServer (res_target_symbol: str) (res_target_file: str) (res_server: str) (res_server_version: str)
  | UniqueGlobal (res_target_symbol: str) (res_target_file: str) (res_family: lang_family)
  | AmbiguousGlobal (res_candidates: "(str \<times> str) list") (res_family: lang_family)
  | LanguageServerDispatch (res_candidates: "(str \<times> str) list") (res_server: str) (res_server_version: str)
  | Dispatch (res_candidates: "(str \<times> str) list") (res_via_file: str) (res_via_symbol: str)
  | Unresolved (unresolved_reason: str)
  | Structural (res_target_symbol: str) (res_target_file: str)
  | UniqueNamespaced (res_target_symbol: str) (res_target_file: str)

fun resolution_kind_of :: "resolution \<Rightarrow> resolution_kind" where
  "resolution_kind_of (SameFile _ _) = KSameFile"
| "resolution_kind_of (SamePackage _ _ _) = KSamePackage"
| "resolution_kind_of (ImportScoped _ _ _) = KImportScoped"
| "resolution_kind_of (ReceiverType _ _ _) = KReceiverType"
| "resolution_kind_of (LanguageServer _ _ _ _) = KLanguageServer"
| "resolution_kind_of (UniqueGlobal _ _ _) = KUniqueGlobal"
| "resolution_kind_of (AmbiguousGlobal _ _) = KAmbiguousGlobal"
| "resolution_kind_of (LanguageServerDispatch _ _ _) = KLanguageServerDispatch"
| "resolution_kind_of (Dispatch _ _ _) = KDispatch"
| "resolution_kind_of (Unresolved _) = KUnresolved"
| "resolution_kind_of (Structural _ _) = KStructural"
| "resolution_kind_of (UniqueNamespaced _ _) = KUniqueGlobal"

definition resolution_confidence :: "resolution \<Rightarrow> f32" where
  "resolution_confidence r = kind_confidence (resolution_kind_of r)"

fun is_unproven_candidate_set :: "resolution \<Rightarrow> bool" where
  "is_unproven_candidate_set (AmbiguousGlobal _ _) = True"
| "is_unproven_candidate_set (LanguageServerDispatch _ _ _) = True"
| "is_unproven_candidate_set (Dispatch cs _ _) = (length cs > 1)"
| "is_unproven_candidate_set _ = False"

definition is_unresolved :: "resolution \<Rightarrow> bool" where
  "is_unresolved r \<longleftrightarrow> (case r of Unresolved _ \<Rightarrow> True | _ \<Rightarrow> False)"

definition resolution_target :: "resolution \<Rightarrow> (str \<times> str) option" where
  "resolution_target r =
     (case r of AmbiguousGlobal _ _ \<Rightarrow> None | LanguageServerDispatch _ _ _ \<Rightarrow> None | Dispatch _ _ _ \<Rightarrow> None
      | Unresolved _ \<Rightarrow> None | _ \<Rightarrow> Some (res_target_file r, res_target_symbol r))"

datatype resolution_source = Resolver | Stored | Reconstructed

record evidence_tier =
  et_kind :: resolution_kind
  et_source :: resolution_source

record resolved_edge =
  re_source_file :: str
  re_target_file :: str
  re_source_symbol :: str
  re_target_symbol :: str
  re_edge_kind :: edge_kind
  re_confidence :: f32
  re_resolution :: "resolution option"
  re_evidence :: "evidence_tier option"
  re_details :: "str option"

definition resolved_edge_of ::
    "str \<Rightarrow> str \<Rightarrow> str \<Rightarrow> str \<Rightarrow> edge_kind \<Rightarrow> resolution \<Rightarrow> str option \<Rightarrow> resolved_edge" where
  "resolved_edge_of source_file target_file source_symbol target_symbol edge_kind resolution details =
     \<lparr>re_source_file = source_file, re_target_file = target_file, re_source_symbol = source_symbol,
      re_target_symbol = target_symbol, re_edge_kind = edge_kind,
      re_confidence = resolution_confidence resolution, re_resolution = Some resolution,
      re_evidence = Some \<lparr>et_kind = resolution_kind_of resolution, et_source = Resolver\<rparr>, re_details = details\<rparr>"

section \<open>The unresolved ledger\<close>

datatype unresolved_class = Builtin | HostGlobal (environment: str) | LocalBinding | External (ext_module: str)
  | UninferredReceiver | UnresolvedMember | NoNamesake | ModulePath | UnresolvedSite

datatype unresolved_kind = UCall | UReference | URoute | UImport

record unresolved_reference =
  ur_source_file :: str
  ur_source_symbol :: str
  ur_callee_name :: str
  ur_kind :: unresolved_kind
  ur_resolution :: resolution
  ur_class :: unresolved_class

record resolution_result =
  rr_edges :: "resolved_edge list"
  rr_unresolved :: "unresolved_reference list"

lemma labels_decode: "from_label (resolution_label k) = Some k"
  by (cases k) (simp_all add: from_label_def ALL_KINDS_def resolution_label_def)

lemma confidence_ladder:
  "f32_ge (kind_confidence k) LOW \<longleftrightarrow> k \<notin> {KAmbiguousGlobal, KLanguageServerDispatch, KUnresolved}"
  by (cases k) (simp_all add: f32_ge_def f32_is_nan_def f32_rank_def f32_magnitude_def kind_confidence_def
    DETERMINISTIC_def HIGH_def LOW_def SPECULATIVE_def)

lemma tier_millis:
  "confidence_millis DETERMINISTIC = 1000" "confidence_millis HIGH = 900" "confidence_millis MEDIUM = 700"
  "confidence_millis LOW = 400" "confidence_millis SPECULATIVE = 200"
  by (simp_all add: confidence_millis_def f32_magnitude_def f32_exponent_def f32_significand_def Let_def
    DETERMINISTIC_def HIGH_def MEDIUM_def LOW_def SPECULATIVE_def)

end
