(* ===== verification/Traversal.thy ===== *)
theory Traversal
  imports Edges "HOL-Library.Product_Lexorder"
begin

text \<open>
  The bounded graph walk of \<open>devmap-analyze/src/traversal.rs\<close>, which answers every impact and trace
  query: the index it reads, the seeding, the breadth-first loop with its three caps and the report of
  what it gave up on. The lemmas show that it is a breadth-first search: the nodes it visits are a ball
  of the admitted graph, unless the report says otherwise.
\<close>

section \<open>The index\<close>

record edge_view =
  ev_source_symbol :: str
  ev_target_symbol :: str
  ev_source_file :: str
  ev_target_file :: str
  ev_kind :: edge_kind

record graph_index =
  gi_reverse :: bool
  gi_neighbors :: "str \<Rightarrow> nat list"
  gi_edge :: "nat \<Rightarrow> edge_view"
  gi_kind_label :: "nat \<Rightarrow> str"
  gi_admits :: "nat \<Rightarrow> bool"

definition view_of :: "resolved_edge \<Rightarrow> edge_view" where
  "view_of e = \<lparr>ev_source_symbol = re_source_symbol e, ev_target_symbol = re_target_symbol e,
     ev_source_file = re_source_file e, ev_target_file = re_target_file e, ev_kind = re_edge_kind e\<rparr>"

record adjacency_index =
  ai_reverse :: bool
  ai_min_confidence :: "f32 option"
  ai_edges :: "resolved_edge list"
  ai_adjacency :: "str \<rightharpoonup> nat list"
  ai_labels :: "edge_kind \<rightharpoonup> str"

definition near_end :: "bool \<Rightarrow> resolved_edge \<Rightarrow> str" where
  "near_end reverse e = (if reverse then re_target_symbol e else re_source_symbol e)"

definition index_edge :: "bool \<Rightarrow> adjacency_index \<Rightarrow> nat \<times> resolved_edge \<Rightarrow> adjacency_index" where
  "index_edge reverse ai ie =
     (let (eid, e) = ie; key = near_end reverse e;
          ids = (case ai_adjacency ai key of None \<Rightarrow> [] | Some l \<Rightarrow> l)
      in ai\<lparr>ai_adjacency := (ai_adjacency ai)(key \<mapsto> ids @ [eid]),
            ai_labels := (case ai_labels ai (re_edge_kind e) of
               Some _ \<Rightarrow> ai_labels ai
             | None \<Rightarrow> (ai_labels ai)(re_edge_kind e \<mapsto> kind_debug (re_edge_kind e)))\<rparr>)"

definition build :: "resolved_edge list \<Rightarrow> bool \<Rightarrow> adjacency_index" where
  "build edges0 reverse =
     (let edges = take (min (length edges0) U32_MAX) edges0
      in foldl (index_edge reverse)
           \<lparr>ai_reverse = reverse, ai_min_confidence = None, ai_edges = edges, ai_adjacency = Map.empty,
             ai_labels = Map.empty\<rparr> (enumerate 0 edges))"

definition with_min_confidence :: "f32 \<Rightarrow> adjacency_index \<Rightarrow> adjacency_index" where
  "with_min_confidence floor ai = ai\<lparr>ai_min_confidence := Some floor\<rparr>"

text \<open>\<open>impl GraphIndex for AdjacencyIndex\<close>.\<close>

definition as_graph :: "adjacency_index \<Rightarrow> graph_index" where
  "as_graph ai = \<lparr>gi_reverse = ai_reverse ai,
     gi_neighbors = (\<lambda>node. case ai_adjacency ai node of None \<Rightarrow> [] | Some ids \<Rightarrow> ids),
     gi_edge = (\<lambda>eid. view_of (ai_edges ai ! eid)),
     gi_kind_label = (\<lambda>eid. the (ai_labels ai (re_edge_kind (ai_edges ai ! eid)))),
     gi_admits = (\<lambda>eid. case ai_min_confidence ai of
        None \<Rightarrow> True | Some floor \<Rightarrow> f32_ge (re_confidence (ai_edges ai ! eid)) floor)\<rparr>"

section \<open>The walk\<close>

record edge_identity =
  ei_source :: str
  ei_target :: str
  ei_edge_kind :: str
  ei_line :: nat
  ei_col :: nat

record traversal_limits =
  tl_max_depth :: nat
  tl_max_nodes :: nat

record traversal_options = traversal_limits +
  to_reverse :: bool

record traversal_stop =
  ts_starts_dropped :: nat
  ts_depth_capped :: bool
  ts_node_capped :: bool
  ts_edges_unrecorded :: nat

definition is_incomplete :: "traversal_stop \<Rightarrow> bool" where
  "is_incomplete s \<longleftrightarrow> ts_starts_dropped s > 0 \<or> ts_depth_capped s \<or> ts_node_capped s \<or> ts_edges_unrecorded s > 0"

definition stop_parts :: "traversal_stop \<Rightarrow> nat \<Rightarrow> nat \<Rightarrow> str list" where
  "stop_parts s max_depth max_nodes =
     (if ts_depth_capped s then [lit ''stopped at depth '' @ show_nat max_depth] else []) @
     (if ts_node_capped s then [lit ''stopped at '' @ show_nat max_nodes @ lit '' nodes''] else []) @
     (if ts_starts_dropped s > 0 then [show_nat (ts_starts_dropped s) @ lit '' start nodes dropped''] else []) @
     (if ts_edges_unrecorded s > 0 then [show_nat (ts_edges_unrecorded s) @ lit '' traversed edges unrecorded''] else [])"

fun join_with :: "str \<Rightarrow> str list \<Rightarrow> str" where
  "join_with sep [] = []"
| "join_with sep [p] = p"
| "join_with sep (p # q # ps) = p @ sep @ join_with sep (q # ps)"

definition stop_reason :: "traversal_stop \<Rightarrow> nat \<Rightarrow> nat \<Rightarrow> str option" where
  "stop_reason s max_depth max_nodes =
     (if \<not> is_incomplete s then None
      else Some (lit ''the walk did not complete: '' @ join_with (lit '', '') (stop_parts s max_depth max_nodes) @
        lit ''; the result is a lower bound, not the full blast radius''))"

record traversal_result =
  tr_visited_nodes :: "str list"
  tr_traversed_edges :: "edge_identity list"
  tr_max_depth_reached :: nat
  tr_stop :: traversal_stop

definition SOURCE_EXTENSIONS :: "str list" where
  "SOURCE_EXTENSIONS = [lit ''go'', lit ''py'', lit ''rs'', lit ''ts'', lit ''tsx'', lit ''js'', lit ''jsx'',
     lit ''c'', lit ''h'', lit ''cc'', lit ''cpp'', lit ''cs'', lit ''java'', lit ''kt'', lit ''swift'',
     lit ''rb'', lit ''php'', lit ''vue'', lit ''svelte'']"

definition is_symbol_node :: "str \<Rightarrow> bool" where
  "is_symbol_node eid \<longleftrightarrow>
     contains_sub (lit ''::'') eid \<or>
     (46 \<in> set eid \<and> 47 \<notin> set eid \<and> 92 \<notin> set eid \<and>
      last (split_on (\<lambda>c. c = 46) eid) \<notin> set SOURCE_EXTENSIONS)"

text \<open>The loop's variables; the ordered sets are kept as the list of their distinct members.\<close>

record walk_state =
  wk_visited :: "str list"
  wk_enqueued :: "str list"
  wk_queue :: "(str \<times> nat) list"
  wk_edges :: "edge_identity list"
  wk_max_depth :: nat
  wk_stop :: traversal_stop

definition walk_admits :: "graph_index \<Rightarrow> str \<Rightarrow> nat \<Rightarrow> bool" where
  "walk_admits index cur eid \<longleftrightarrow>
     gi_admits index eid \<and>
     (let kind = ev_kind (gi_edge index eid) in
      \<not> gi_reverse index \<or>
      \<not> (kind \<in> {Contains, Defines} \<or> is_symbol_node cur \<and> kind \<in> {Imports, MemberOf}))"

definition kind_priority :: "edge_kind \<Rightarrow> nat" where
  "kind_priority k = (case k of Contains \<Rightarrow> 0 | Defines \<Rightarrow> 0 | Calls \<Rightarrow> 1 | _ \<Rightarrow> 2)"

definition edge_order :: "edge_view \<Rightarrow> nat \<times> str \<times> str \<times> str \<times> str" where
  "edge_order v = (kind_priority (ev_kind v), ev_source_symbol v, ev_target_symbol v, ev_source_file v, ev_target_file v)"

definition admitted :: "graph_index \<Rightarrow> str \<Rightarrow> nat list" where
  "admitted index cur =
     sort_key (\<lambda>eid. edge_order (gi_edge index eid)) (filter (walk_admits index cur) (gi_neighbors index cur))"

definition far_end :: "graph_index \<Rightarrow> nat \<Rightarrow> str" where
  "far_end index eid =
     (if gi_reverse index then ev_source_symbol (gi_edge index eid) else ev_target_symbol (gi_edge index eid))"

definition edge_record :: "graph_index \<Rightarrow> nat \<Rightarrow> edge_identity" where
  "edge_record index eid = \<lparr>ei_source = ev_source_symbol (gi_edge index eid),
     ei_target = ev_target_symbol (gi_edge index eid), ei_edge_kind = gi_kind_label index eid, ei_line = 0, ei_col = 0\<rparr>"

definition seed :: "traversal_limits \<Rightarrow> walk_state \<Rightarrow> str \<Rightarrow> walk_state" where
  "seed lim w start =
     (if start \<in> set (wk_enqueued w) then w
      else if length (wk_enqueued w) \<ge> tl_max_nodes lim then
        w\<lparr>wk_stop := (wk_stop w)\<lparr>ts_starts_dropped := ts_starts_dropped (wk_stop w) + 1\<rparr>\<rparr>
      else w\<lparr>wk_enqueued := wk_enqueued w @ [start], wk_queue := wk_queue w @ [(start, 0)]\<rparr>)"

text \<open>One edge of an expansion.\<close>

definition record_edge :: "traversal_limits \<Rightarrow> edge_identity \<Rightarrow> walk_state \<Rightarrow> walk_state" where
  "record_edge lim e w =
     (if length (wk_edges w) < tl_max_nodes lim - 1 then w\<lparr>wk_edges := wk_edges w @ [e]\<rparr>
      else w\<lparr>wk_stop := (wk_stop w)\<lparr>ts_edges_unrecorded := ts_edges_unrecorded (wk_stop w) + 1\<rparr>\<rparr>)"

definition enqueue :: "str \<Rightarrow> nat \<Rightarrow> walk_state \<Rightarrow> walk_state" where
  "enqueue next depth w =
     (if next \<in> set (wk_enqueued w) then w
      else w\<lparr>wk_enqueued := wk_enqueued w @ [next], wk_queue := wk_queue w @ [(next, depth)]\<rparr>)"

definition expand :: "graph_index \<Rightarrow> traversal_limits \<Rightarrow> nat \<Rightarrow> walk_state \<Rightarrow> nat \<Rightarrow> walk_state" where
  "expand index lim depth w eid =
     (let next = far_end index eid in
      if next \<notin> set (wk_enqueued w) \<and> length (wk_enqueued w) \<ge> tl_max_nodes lim then
        w\<lparr>wk_stop := (wk_stop w)\<lparr>ts_node_capped := True\<rparr>\<rparr>
      else enqueue next (depth + 1) (record_edge lim (edge_record index eid) w))"

text \<open>The body of the loop for the popped \<open>(cur, depth)\<close>, its \<open>continue\<close>s as branches.\<close>

definition visit :: "graph_index \<Rightarrow> traversal_limits \<Rightarrow> str \<Rightarrow> nat \<Rightarrow> walk_state \<Rightarrow> walk_state" where
  "visit index lim cur depth w0 =
     (if cur \<in> set (wk_visited w0) then w0
      else
        let w = w0\<lparr>wk_visited := wk_visited w0 @ [cur], wk_max_depth := max (wk_max_depth w0) depth\<rparr>;
            has_admitted = list_ex (walk_admits index cur) (gi_neighbors index cur)
        in if depth \<ge> tl_max_depth lim then
             (if has_admitted then w\<lparr>wk_stop := (wk_stop w)\<lparr>ts_depth_capped := True\<rparr>\<rparr> else w)
           else if \<not> has_admitted then w
           else foldl (expand index lim depth) w (admitted index cur))"

definition room :: "traversal_limits \<Rightarrow> walk_state \<Rightarrow> nat" where
  "room lim w = length (wk_queue w) + (tl_max_nodes lim - length (wk_enqueued w))"

lemma record_edge_simps [simp]:
  "wk_visited (record_edge lim e w) = wk_visited w" "wk_enqueued (record_edge lim e w) = wk_enqueued w"
  "wk_queue (record_edge lim e w) = wk_queue w" "wk_max_depth (record_edge lim e w) = wk_max_depth w"
  by (simp_all add: record_edge_def)

lemma enqueue_simps [simp]:
  "wk_visited (enqueue n d w) = wk_visited w" "wk_edges (enqueue n d w) = wk_edges w"
  "wk_stop (enqueue n d w) = wk_stop w" "wk_max_depth (enqueue n d w) = wk_max_depth w"
  "set (wk_enqueued (enqueue n d w)) = insert n (set (wk_enqueued w))"
  by (auto simp: enqueue_def)

lemma expand_room: "room lim (expand index lim depth w eid) = room lim w"
  by (auto simp: room_def expand_def enqueue_def Let_def)

lemma expand_all_room: "room lim (foldl (expand index lim depth) w ids) = room lim w"
  by (induction ids arbitrary: w) (simp_all add: expand_room)

lemma visit_room: "room lim (visit index lim cur depth w) = room lim w"
  by (auto simp: visit_def Let_def expand_all_room) (simp_all add: room_def)

function walk_loop :: "graph_index \<Rightarrow> traversal_limits \<Rightarrow> walk_state \<Rightarrow> walk_state" where
  "walk_loop index lim w =
     (case wk_queue w of [] \<Rightarrow> w
      | (cur, depth) # queue \<Rightarrow> walk_loop index lim (visit index lim cur depth (w\<lparr>wk_queue := queue\<rparr>)))"
  by pat_completeness auto
termination
  by (relation "measure (\<lambda>(_, lim, w). room lim w)") (simp_all add: visit_room, simp add: room_def)

declare walk_loop.simps [simp del]

definition no_stop :: traversal_stop where
  "no_stop = \<lparr>ts_starts_dropped = 0, ts_depth_capped = False, ts_node_capped = False, ts_edges_unrecorded = 0\<rparr>"

definition fresh_walk :: walk_state where
  "fresh_walk = \<lparr>wk_visited = [], wk_enqueued = [], wk_queue = [], wk_edges = [], wk_max_depth = 0, wk_stop = no_stop\<rparr>"

definition traverse_graph_indexed :: "str list \<Rightarrow> graph_index \<Rightarrow> traversal_limits \<Rightarrow> traversal_result" where
  "traverse_graph_indexed starts index lim =
     (let w = walk_loop index lim (foldl (seed lim) fresh_walk starts)
      in \<lparr>tr_visited_nodes = sort (wk_visited w), tr_traversed_edges = wk_edges w,
          tr_max_depth_reached = wk_max_depth w, tr_stop = wk_stop w\<rparr>)"

definition limits :: "traversal_options \<Rightarrow> traversal_limits" where
  "limits opts = \<lparr>tl_max_depth = tl_max_depth opts, tl_max_nodes = tl_max_nodes opts\<rparr>"

definition traverse_graph :: "str list \<Rightarrow> resolved_edge list \<Rightarrow> traversal_options \<Rightarrow> traversal_result" where
  "traverse_graph starts edges opts =
     traverse_graph_indexed starts (as_graph (build edges (to_reverse opts))) (limits opts)"


section \<open>The admitted graph\<close>

definition succs :: "graph_index \<Rightarrow> str \<Rightarrow> str set" where
  "succs index u = far_end index ` set (admitted index u)"

primrec within :: "graph_index \<Rightarrow> str set \<Rightarrow> nat \<Rightarrow> str set" where
  "within index starts 0 = starts"
| "within index starts (Suc n) = within index starts n \<union> (\<Union>u\<in>within index starts n. succs index u)"

definition reaches :: "graph_index \<Rightarrow> str \<Rightarrow> str \<Rightarrow> bool" where
  "reaches index = (\<lambda>u v. v \<in> succs index u)\<^sup>*\<^sup>*"

lemma set_admitted: "set (admitted index u) = {eid \<in> set (gi_neighbors index u). walk_admits index u eid}"
  by (auto simp: admitted_def)

lemma within_mono: "m \<le> n \<Longrightarrow> within index starts m \<subseteq> within index starts n"
  by (induction n) (auto simp: le_Suc_eq)

lemma within_reaches: "v \<in> within index starts n \<Longrightarrow> \<exists>s\<in>starts. reaches index s v"
proof (induction n arbitrary: v)
  case (Suc n)
  then show ?case unfolding reaches_def by (auto intro: rtranclp.rtrancl_into_rtrancl)
qed (auto simp: reaches_def)

lemma reaches_closed:
  assumes "\<forall>u\<in>A. succs index u \<subseteq> A" "s \<in> A" "reaches index s v"
  shows "v \<in> A"
  using assms(3,2) assms(1) unfolding reaches_def by (induction rule: rtranclp_induct) auto

lemma within_closed:
  assumes "\<forall>u\<in>A. succs index u \<subseteq> A" "within index starts d \<subseteq> A"
  shows "within index starts n \<subseteq> A"
proof (induction n)
  case 0
  then show ?case using assms(2) within_mono [of 0 d index starts] by auto
qed (use assms(1) in auto)

section \<open>One expansion\<close>

definition unspent :: "traversal_stop \<Rightarrow> traversal_stop \<Rightarrow> bool" where
  "unspent s s' \<longleftrightarrow> ts_starts_dropped s' = ts_starts_dropped s \<and> (ts_depth_capped s \<longrightarrow> ts_depth_capped s') \<and>
     (ts_node_capped s \<longrightarrow> ts_node_capped s') \<and> ts_edges_unrecorded s \<le> ts_edges_unrecorded s'"

lemma unspent_trans: "unspent s s' \<Longrightarrow> unspent s' s'' \<Longrightarrow> unspent s s''"
  by (auto simp: unspent_def)

lemma unspent_refl [simp]: "unspent s s"
  by (simp add: unspent_def)

text \<open>What an expansion over some edges does to the loop's variables.\<close>

definition expands :: "graph_index \<Rightarrow> traversal_limits \<Rightarrow> nat \<Rightarrow> nat set \<Rightarrow> walk_state \<Rightarrow> walk_state \<Rightarrow> bool" where
  "expands index lim depth ids w w' \<longleftrightarrow>
     wk_visited w' = wk_visited w \<and> wk_max_depth w' = wk_max_depth w \<and>
     unspent (wk_stop w) (wk_stop w') \<and> ts_depth_capped (wk_stop w') = ts_depth_capped (wk_stop w) \<and>
     (\<exists>new. wk_enqueued w' = wk_enqueued w @ new \<and> wk_queue w' = wk_queue w @ map (\<lambda>v. (v, depth + 1)) new \<and>
        distinct new \<and> set new \<inter> set (wk_enqueued w) = {} \<and> set new \<subseteq> far_end index ` ids) \<and>
     (\<not> ts_node_capped (wk_stop w') \<longrightarrow> far_end index ` ids \<subseteq> set (wk_enqueued w')) \<and>
     (length (wk_enqueued w) \<le> tl_max_nodes lim \<longrightarrow> length (wk_enqueued w') \<le> tl_max_nodes lim) \<and>
     (length (wk_edges w) \<le> tl_max_nodes lim - 1 \<longrightarrow> length (wk_edges w') \<le> tl_max_nodes lim - 1) \<and>
     set (wk_edges w') \<subseteq> set (wk_edges w) \<union> edge_record index ` ids \<and>
     (\<not> ts_node_capped (wk_stop w') \<and> ts_edges_unrecorded (wk_stop w') = 0 \<longrightarrow>
        set (wk_edges w') = set (wk_edges w) \<union> edge_record index ` ids)"

lemma expandsD:
  assumes "expands index lim depth ids w w'"
  shows "wk_visited w' = wk_visited w" "wk_max_depth w' = wk_max_depth w" "unspent (wk_stop w) (wk_stop w')"
    "ts_depth_capped (wk_stop w') = ts_depth_capped (wk_stop w)"
    "\<exists>new. wk_enqueued w' = wk_enqueued w @ new \<and> wk_queue w' = wk_queue w @ map (\<lambda>v. (v, depth + 1)) new \<and>
        distinct new \<and> set new \<inter> set (wk_enqueued w) = {} \<and> set new \<subseteq> far_end index ` ids"
    "\<not> ts_node_capped (wk_stop w') \<longrightarrow> far_end index ` ids \<subseteq> set (wk_enqueued w')"
    "length (wk_enqueued w) \<le> tl_max_nodes lim \<longrightarrow> length (wk_enqueued w') \<le> tl_max_nodes lim"
    "length (wk_edges w) \<le> tl_max_nodes lim - 1 \<longrightarrow> length (wk_edges w') \<le> tl_max_nodes lim - 1"
    "set (wk_edges w') \<subseteq> set (wk_edges w) \<union> edge_record index ` ids"
    "\<not> ts_node_capped (wk_stop w') \<and> ts_edges_unrecorded (wk_stop w') = 0 \<longrightarrow>
        set (wk_edges w') = set (wk_edges w) \<union> edge_record index ` ids"
  using assms unfolding expands_def by - (elim conjE, assumption)+

lemma expands_refl: "expands index lim depth {} w w"
  by (simp add: expands_def)

lemma expands_step: "expands index lim depth {eid} w (expand index lim depth w eid)"
  by (auto simp: expands_def expand_def enqueue_def record_edge_def unspent_def Let_def)

lemma expands_trans:
  assumes "expands index lim depth A w1 w2" "expands index lim depth B w2 w3"
  shows "expands index lim depth (A \<union> B) w1 w3"
proof -
  note a = expandsD [OF assms(1)] and b = expandsD [OF assms(2)]
  obtain n1 where n1: "wk_enqueued w2 = wk_enqueued w1 @ n1" "wk_queue w2 = wk_queue w1 @ map (\<lambda>v. (v, depth + 1)) n1"
      "distinct n1" "set n1 \<inter> set (wk_enqueued w1) = {}" "set n1 \<subseteq> far_end index ` A"
    using a(5) by blast
  obtain n2 where n2: "wk_enqueued w3 = wk_enqueued w2 @ n2" "wk_queue w3 = wk_queue w2 @ map (\<lambda>v. (v, depth + 1)) n2"
      "distinct n2" "set n2 \<inter> set (wk_enqueued w2) = {}" "set n2 \<subseteq> far_end index ` B"
    using b(5) by blast
  have flags: "ts_node_capped (wk_stop w2) \<longrightarrow> ts_node_capped (wk_stop w3)"
      "ts_edges_unrecorded (wk_stop w2) \<le> ts_edges_unrecorded (wk_stop w3)"
    using b(3) by (simp_all add: unspent_def)
  show ?thesis unfolding expands_def
  proof (intro conjI)
    show "wk_visited w3 = wk_visited w1" "wk_max_depth w3 = wk_max_depth w1"
        "ts_depth_capped (wk_stop w3) = ts_depth_capped (wk_stop w1)"
      using a(1,2,4) b(1,2,4) by simp_all
    show "unspent (wk_stop w1) (wk_stop w3)" using unspent_trans [OF a(3) b(3)] .
    show "\<exists>new. wk_enqueued w3 = wk_enqueued w1 @ new \<and> wk_queue w3 = wk_queue w1 @ map (\<lambda>v. (v, depth + 1)) new \<and>
        distinct new \<and> set new \<inter> set (wk_enqueued w1) = {} \<and> set new \<subseteq> far_end index ` (A \<union> B)"
      by (rule exI [of _ "n1 @ n2"]) (use n1 n2 in auto)
    show "\<not> ts_node_capped (wk_stop w3) \<longrightarrow> far_end index ` (A \<union> B) \<subseteq> set (wk_enqueued w3)"
      using a(6) b(6) flags(1) by (auto simp: n2(1))
    show "length (wk_enqueued w1) \<le> tl_max_nodes lim \<longrightarrow> length (wk_enqueued w3) \<le> tl_max_nodes lim"
      using a(7) b(7) by blast
    show "length (wk_edges w1) \<le> tl_max_nodes lim - 1 \<longrightarrow> length (wk_edges w3) \<le> tl_max_nodes lim - 1"
      using a(8) b(8) by blast
    show "set (wk_edges w3) \<subseteq> set (wk_edges w1) \<union> edge_record index ` (A \<union> B)" using a(9) b(9) by blast
    show "\<not> ts_node_capped (wk_stop w3) \<and> ts_edges_unrecorded (wk_stop w3) = 0 \<longrightarrow>
        set (wk_edges w3) = set (wk_edges w1) \<union> edge_record index ` (A \<union> B)"
      using a(10) b(10) flags by auto
  qed
qed

lemma expands_all: "expands index lim depth (set ids) w (foldl (expand index lim depth) w ids)"
proof (induction ids arbitrary: w)
  case (Cons a ids)
  show ?case using expands_trans [OF expands_step Cons.IH] by simp
qed (simp add: expands_refl)

section \<open>One iteration\<close>

definition popped :: "str \<Rightarrow> nat \<Rightarrow> (str \<times> nat) list \<Rightarrow> walk_state \<Rightarrow> walk_state" where
  "popped cur depth queue w =
     w\<lparr>wk_queue := queue, wk_visited := wk_visited w @ [cur], wk_max_depth := max (wk_max_depth w) depth\<rparr>"

lemma visit_cases:
  assumes "cur \<notin> set (wk_visited w)"
  obtains (expanded) "depth < tl_max_depth lim"
      "expands index lim depth (set (admitted index cur)) (popped cur depth queue w)
         (visit index lim cur depth (w\<lparr>wk_queue := queue\<rparr>))"
  | (pruned) "\<not> depth < tl_max_depth lim" "set (admitted index cur) \<noteq> {}"
      "visit index lim cur depth (w\<lparr>wk_queue := queue\<rparr>) =
         (popped cur depth queue w)\<lparr>wk_stop := (wk_stop w)\<lparr>ts_depth_capped := True\<rparr>\<rparr>"
  | (leaf) "\<not> depth < tl_max_depth lim" "set (admitted index cur) = {}"
      "visit index lim cur depth (w\<lparr>wk_queue := queue\<rparr>) = popped cur depth queue w"
proof -
  have has: "list_ex (walk_admits index cur) (gi_neighbors index cur) \<longleftrightarrow> set (admitted index cur) \<noteq> {}"
    unfolding set_admitted list_ex_iff by blast
  have eq: "visit index lim cur depth (w\<lparr>wk_queue := queue\<rparr>) =
      (if depth < tl_max_depth lim then foldl (expand index lim depth) (popped cur depth queue w) (admitted index cur)
       else if set (admitted index cur) \<noteq> {} then (popped cur depth queue w)\<lparr>wk_stop := (wk_stop w)\<lparr>ts_depth_capped := True\<rparr>\<rparr>
       else popped cur depth queue w)"
    using assms by (simp add: visit_def Let_def popped_def has)
  show ?thesis
  proof (cases "depth < tl_max_depth lim")
    case True
    show ?thesis by (rule expanded) (use True eq expands_all [of index lim depth "admitted index cur"] in simp_all)
  next
    case False
    then show ?thesis using pruned leaf eq by (cases "set (admitted index cur) = {}") simp_all
  qed
qed

lemma walk_loop_inv:
  assumes "\<And>cur depth queue w. P w \<Longrightarrow> wk_queue w = (cur, depth) # queue \<Longrightarrow>
      P (visit index lim cur depth (w\<lparr>wk_queue := queue\<rparr>))"
    and "P w"
  shows "P (walk_loop index lim w) \<and> wk_queue (walk_loop index lim w) = []"
  using assms
proof (induction index lim w rule: walk_loop.induct)
  case (1 index lim w)
  show ?case
  proof (cases "wk_queue w")
    case Nil
    then show ?thesis using 1(3) by (simp add: walk_loop.simps [of index lim w])
  next
    case (Cons a queue)
    obtain cur depth where a: "a = (cur, depth)" by (cases a)
    let ?w = "visit index lim cur depth (w\<lparr>wk_queue := queue\<rparr>)"
    have w: "P ?w" using 1(2) [OF 1(3)] Cons a by simp
    have "P (walk_loop index lim ?w) \<and> wk_queue (walk_loop index lim ?w) = []"
      by (rule 1(1) [OF Cons a [symmetric]], erule (1) 1(2), rule w)
    moreover have "walk_loop index lim w = walk_loop index lim ?w"
      by (subst walk_loop.simps) (simp add: Cons a)
    ultimately show ?thesis by (simp only:)
  qed
qed


section \<open>The invariant of the loop\<close>

definition queue_ok :: "graph_index \<Rightarrow> traversal_limits \<Rightarrow> str set \<Rightarrow> walk_state \<Rightarrow> bool" where
  "queue_ok index lim starts w \<longleftrightarrow>
     distinct (wk_visited w @ map fst (wk_queue w)) \<and>
     set (wk_enqueued w) = set (wk_visited w) \<union> fst ` set (wk_queue w) \<and> distinct (wk_enqueued w) \<and>
     (\<forall>(v, n)\<in>set (wk_queue w). n \<le> tl_max_depth lim \<and> v \<in> within index starts n) \<and>
     set (wk_visited w) \<subseteq> within index starts (tl_max_depth lim) \<and> wk_max_depth w \<le> tl_max_depth lim"

definition bounds_ok :: "graph_index \<Rightarrow> traversal_limits \<Rightarrow> walk_state \<Rightarrow> bool" where
  "bounds_ok index lim w \<longleftrightarrow>
     length (wk_enqueued w) \<le> tl_max_nodes lim \<and> length (wk_edges w) \<le> tl_max_nodes lim - 1 \<and>
     set (wk_edges w) \<subseteq> (\<Union>u\<in>set (wk_visited w). edge_record index ` set (admitted index u))"

text \<open>Nothing was given up on: every visited node is fully explored, every edge of it recorded.\<close>

definition explored :: "graph_index \<Rightarrow> walk_state \<Rightarrow> bool" where
  "explored index w \<longleftrightarrow>
     (\<not> ts_depth_capped (wk_stop w) \<and> \<not> ts_node_capped (wk_stop w) \<longrightarrow>
        (\<forall>u\<in>set (wk_visited w). succs index u \<subseteq> set (wk_enqueued w)) \<and>
        (ts_edges_unrecorded (wk_stop w) = 0 \<longrightarrow>
           set (wk_edges w) = (\<Union>u\<in>set (wk_visited w). edge_record index ` set (admitted index u))))"

lemma popped_simps [simp]:
  "wk_visited (popped cur depth queue w) = wk_visited w @ [cur]" "wk_queue (popped cur depth queue w) = queue"
  "wk_enqueued (popped cur depth queue w) = wk_enqueued w" "wk_edges (popped cur depth queue w) = wk_edges w"
  "wk_stop (popped cur depth queue w) = wk_stop w" "wk_max_depth (popped cur depth queue w) = max (wk_max_depth w) depth"
  by (simp_all add: popped_def)

lemma visit_unspent: "unspent (wk_stop w) (wk_stop (visit index lim cur depth (w\<lparr>wk_queue := queue\<rparr>)))"
proof (cases "cur \<in> set (wk_visited w)")
  case False
  then show ?thesis
    by (cases rule: visit_cases [of cur w depth lim index queue]) (use expandsD(3) in \<open>force simp: unspent_def\<close>)+
qed (simp add: visit_def)

lemma queue_ok_pop:
  assumes "queue_ok index lim starts w" "wk_queue w = (cur, depth) # queue"
  shows "queue_ok index lim starts (popped cur depth queue w)" "cur \<notin> set (wk_visited w)"
    "cur \<in> within index starts depth" "depth \<le> tl_max_depth lim"
  using assms within_mono [of depth "tl_max_depth lim" index starts] by (auto simp: queue_ok_def)

lemma queue_ok_expands:
  assumes "queue_ok index lim starts w" "depth < tl_max_depth lim" "cur \<in> within index starts depth"
    and "expands index lim depth (set (admitted index cur)) w w'"
  shows "queue_ok index lim starts w'"
proof -
  note d = expandsD [OF assms(4)]
  obtain new where new: "wk_enqueued w' = wk_enqueued w @ new" "wk_queue w' = wk_queue w @ map (\<lambda>v. (v, depth + 1)) new"
      "distinct new" "set new \<inter> set (wk_enqueued w) = {}" "set new \<subseteq> succs index cur"
    using d(5) unfolding succs_def by blast
  have "v \<in> within index starts (depth + 1)" if "v \<in> set new" for v using that new(5) assms(3) by auto
  then show ?thesis using assms(1,2) new d(1,2) by (auto simp: queue_ok_def o_def image_Un image_image)
qed

lemma queue_ok_visit:
  assumes "queue_ok index lim starts w" "wk_queue w = (cur, depth) # queue"
  shows "queue_ok index lim starts (visit index lim cur depth (w\<lparr>wk_queue := queue\<rparr>))"
proof -
  note pop = queue_ok_pop [OF assms]
  show ?thesis
  proof (cases rule: visit_cases [OF pop(2), of depth lim index queue])
    case 1
    then show ?thesis using queue_ok_expands [OF pop(1) _ pop(3)] by blast
  next
    case 2
    then show ?thesis using pop(1) by (simp add: queue_ok_def)
  next
    case 3
    then show ?thesis using pop(1) by simp
  qed
qed

lemma bounds_ok_visit:
  assumes "bounds_ok index lim w" "cur \<notin> set (wk_visited w)"
  shows "bounds_ok index lim (visit index lim cur depth (w\<lparr>wk_queue := queue\<rparr>))"
proof (cases rule: visit_cases [OF assms(2), of depth lim index queue])
  case 1
  note d = expandsD [OF 1(2)]
  show ?thesis using assms(1) d(1,7,8,9) by (auto simp: bounds_ok_def)
next
  case 2
  then show ?thesis using assms(1) by (auto simp: bounds_ok_def)
next
  case 3
  then show ?thesis using assms(1) by (auto simp: bounds_ok_def)
qed

lemma explored_visit:
  assumes "explored index w" "cur \<notin> set (wk_visited w)"
  shows "explored index (visit index lim cur depth (w\<lparr>wk_queue := queue\<rparr>))"
proof (cases rule: visit_cases [OF assms(2), of depth lim index queue])
  case 1
  let ?w = "visit index lim cur depth (w\<lparr>wk_queue := queue\<rparr>)"
  note d = expandsD [OF 1(2), simplified]
  obtain new where new: "wk_enqueued ?w = wk_enqueued w @ new" using d(5) by blast
  show ?thesis unfolding explored_def
  proof (intro impI)
    assume ok: "\<not> ts_depth_capped (wk_stop ?w) \<and> \<not> ts_node_capped (wk_stop ?w)"
    then have old: "\<not> ts_depth_capped (wk_stop w) \<and> \<not> ts_node_capped (wk_stop w)" using d(3) by (auto simp: unspent_def)
    have "succs index cur \<subseteq> set (wk_enqueued ?w)" using d(6) ok by (simp add: succs_def)
    then have "\<forall>u\<in>set (wk_visited ?w). succs index u \<subseteq> set (wk_enqueued ?w)"
      using assms(1) old d(1) by (auto simp: explored_def new)
    moreover have "set (wk_edges ?w) = (\<Union>u\<in>set (wk_visited ?w). edge_record index ` set (admitted index u))"
      if "ts_edges_unrecorded (wk_stop ?w) = 0"
    proof -
      have "ts_edges_unrecorded (wk_stop w) = 0" using that d(3) by (simp add: unspent_def)
      then show ?thesis using assms(1) old ok that d(1,10) by (auto simp: explored_def)
    qed
    ultimately show "(\<forall>u\<in>set (wk_visited ?w). succs index u \<subseteq> set (wk_enqueued ?w)) \<and>
        (ts_edges_unrecorded (wk_stop ?w) = 0 \<longrightarrow>
           set (wk_edges ?w) = (\<Union>u\<in>set (wk_visited ?w). edge_record index ` set (admitted index u)))" by blast
  qed
next
  case 2
  then show ?thesis by (simp add: explored_def)
next
  case 3
  then show ?thesis using assms(1) by (auto simp: explored_def succs_def)
qed

text \<open>The breadth-first order: the nodes at distance \<open>d\<close> are visited or at the front of the queue.\<close>

definition at_level :: "graph_index \<Rightarrow> traversal_limits \<Rightarrow> str set \<Rightarrow> nat \<Rightarrow> walk_state \<Rightarrow> bool" where
  "at_level index lim starts d w \<longleftrightarrow>
     d \<le> tl_max_depth lim \<and> (\<forall>(v, n)\<in>set (wk_queue w). n = d \<or> n = Suc d) \<and> sorted (map snd (wk_queue w)) \<and>
     within index starts d \<subseteq> set (wk_visited w) \<union> {v. (v, d) \<in> set (wk_queue w)} \<and>
     set (wk_visited w) \<subseteq> within index starts d \<and>
     (d < tl_max_depth lim \<longrightarrow> (\<forall>u\<in>set (wk_visited w). succs index u \<subseteq> set (wk_enqueued w)))"

lemma next_level:
  assumes "at_level index lim starts d w" "queue_ok index lim starts w" "wk_queue w = (cur, n) # queue"
  shows "at_level index lim starts n w"
proof (cases "n = d")
  case False
  have "n = Suc d" using assms(1,3) False by (auto simp: at_level_def)
  moreover have "n \<le> k" "k = d \<or> k = Suc d" if "(v, k) \<in> set (wk_queue w)" for v k
    using assms(1,3) that by (force simp: at_level_def)+
  ultimately have q: "\<forall>(v, k)\<in>set (wk_queue w). k = Suc d" "n = Suc d" "Suc d \<le> tl_max_depth lim"
    using assms(2,3) by (fastforce, simp, simp add: queue_ok_def)
  have in_enq: "within index starts d \<subseteq> set (wk_visited w)" using assms(1) q(1) by (fastforce simp: at_level_def)
  moreover have closed: "\<forall>u\<in>set (wk_visited w). succs index u \<subseteq> set (wk_enqueued w)" using assms(1) q(3) by (simp add: at_level_def)
  moreover have "set (wk_enqueued w) = set (wk_visited w) \<union> fst ` set (wk_queue w)" using assms(2) by (simp add: queue_ok_def)
  moreover have "fst ` set (wk_queue w) \<subseteq> {v. (v, Suc d) \<in> set (wk_queue w)}" using q(1) by auto
  ultimately have "within index starts (Suc d) \<subseteq> set (wk_enqueued w)"
      "set (wk_enqueued w) \<subseteq> set (wk_visited w) \<union> {v. (v, Suc d) \<in> set (wk_queue w)}" by (simp, blast)+
  then have "within index starts (Suc d) \<subseteq> set (wk_visited w) \<union> {v. (v, Suc d) \<in> set (wk_queue w)}" by blast
  moreover have "set (wk_visited w) \<subseteq> within index starts (Suc d)" using assms(1) by (auto simp: at_level_def)
  moreover have "\<forall>(v, k)\<in>set (wk_queue w). k = Suc d \<or> k = Suc (Suc d)" "sorted (map snd (wk_queue w))"
    using assms(1) q(1) by (auto simp: at_level_def)
  ultimately show ?thesis using closed unfolding at_level_def q(2) by (intro conjI impI q(3)) assumption+
qed (use assms in simp)

lemma at_level_visit:
  assumes "at_level index lim starts depth w" "queue_ok index lim starts w" "wk_queue w = (cur, depth) # queue"
    "\<not> ts_node_capped (wk_stop (visit index lim cur depth (w\<lparr>wk_queue := queue\<rparr>)))"
  shows "at_level index lim starts depth (visit index lim cur depth (w\<lparr>wk_queue := queue\<rparr>))"
proof -
  note pop = queue_ok_pop [OF assms(2,3)]
  have at: "within index starts depth \<subseteq> set (wk_visited w) \<union> insert cur {v. (v, depth) \<in> set queue}"
      "sorted (map snd queue)" "\<forall>(v, n)\<in>set queue. n = depth \<or> n = Suc depth" "set (wk_visited w) \<subseteq> within index starts depth"
      "depth < tl_max_depth lim \<longrightarrow> (\<forall>u\<in>set (wk_visited w). succs index u \<subseteq> set (wk_enqueued w))"
    using assms(1,3) by (auto simp: at_level_def)
  show ?thesis
  proof (cases rule: visit_cases [OF pop(2), of depth lim index queue])
    case 1
    let ?w = "visit index lim cur depth (w\<lparr>wk_queue := queue\<rparr>)"
    note d = expandsD [OF 1(2), simplified]
    obtain new where new: "wk_enqueued ?w = wk_enqueued w @ new" "wk_queue ?w = queue @ map (\<lambda>v. (v, Suc depth)) new"
      using d(5) by blast
    have "succs index cur \<subseteq> set (wk_enqueued ?w)" using d(6) assms(4) by (simp add: succs_def)
    moreover have "sorted (map snd (wk_queue ?w))" using at(2,3) by (auto simp: new sorted_append o_def map_replicate_const)
    ultimately show ?thesis using at pop(3,4) d(1) 1(1) by (auto simp: at_level_def new)
  next
    case 2
    then show ?thesis using at pop(3,4) by (auto simp: at_level_def)
  next
    case 3
    then show ?thesis using at pop(3,4) by (auto simp: at_level_def)
  qed
qed

text \<open>All of it, carried through the loop.\<close>

definition walk_ok :: "graph_index \<Rightarrow> traversal_limits \<Rightarrow> str set \<Rightarrow> nat \<Rightarrow> walk_state \<Rightarrow> bool" where
  "walk_ok index lim starts dropped w \<longleftrightarrow>
     queue_ok index lim starts w \<and> bounds_ok index lim w \<and> explored index w \<and>
     ts_starts_dropped (wk_stop w) = dropped \<and> (dropped = 0 \<longrightarrow> starts \<subseteq> set (wk_enqueued w)) \<and>
     (dropped = 0 \<and> \<not> ts_node_capped (wk_stop w) \<longrightarrow> (\<exists>d. at_level index lim starts d w))"


lemma walk_ok_visit:
  assumes "walk_ok index lim starts dropped w" "wk_queue w = (cur, depth) # queue"
  shows "walk_ok index lim starts dropped (visit index lim cur depth (w\<lparr>wk_queue := queue\<rparr>))"
proof -
  let ?w = "visit index lim cur depth (w\<lparr>wk_queue := queue\<rparr>)"
  have q: "queue_ok index lim starts w" using assms(1) by (simp add: walk_ok_def)
  note un = visit_unspent [of w index lim cur depth queue]
  have "set (wk_enqueued w) \<subseteq> set (wk_enqueued ?w)"
  proof (cases rule: visit_cases [OF queue_ok_pop(2) [OF q assms(2)], of depth lim index queue])
    case 1
    then show ?thesis using expandsD(5) [OF 1(2)] by auto
  qed simp_all
  moreover have "\<exists>d. at_level index lim starts d ?w" if "dropped = 0" "\<not> ts_node_capped (wk_stop ?w)"
  proof -
    have "\<not> ts_node_capped (wk_stop w)" using that(2) un by (auto simp: unspent_def)
    then have "\<exists>d. at_level index lim starts d w" using assms(1) that(1) by (simp add: walk_ok_def)
    then obtain d where "at_level index lim starts d w" by blast
    from at_level_visit [OF next_level [OF this q assms(2)] q assms(2) that(2)] show ?thesis by blast
  qed
  moreover have a: "bounds_ok index lim w" "explored index w" "ts_starts_dropped (wk_stop w) = dropped"
      "dropped = 0 \<longrightarrow> starts \<subseteq> set (wk_enqueued w)" using assms(1) by (simp_all add: walk_ok_def)
  moreover have "ts_starts_dropped (wk_stop ?w) = dropped" using un a(3) by (simp add: unspent_def)
  moreover note new = queue_ok_pop(2) [OF q assms(2)]
  ultimately show ?thesis unfolding walk_ok_def
    using queue_ok_visit [OF q assms(2)] bounds_ok_visit [OF a(1) new] explored_visit [OF a(2) new]
    by (intro conjI impI) simp_all
qed

section \<open>The seeds\<close>

definition seeds_ok :: "graph_index \<Rightarrow> traversal_limits \<Rightarrow> str set \<Rightarrow> walk_state \<Rightarrow> bool" where
  "seeds_ok index lim starts w \<longleftrightarrow>
     wk_visited w = [] \<and> wk_edges w = [] \<and> wk_max_depth w = 0 \<and> wk_queue w = map (\<lambda>v. (v, 0)) (wk_enqueued w) \<and>
     distinct (wk_enqueued w) \<and> length (wk_enqueued w) \<le> tl_max_nodes lim \<and> set (wk_enqueued w) \<subseteq> starts \<and>
     (ts_starts_dropped (wk_stop w) = 0 \<longrightarrow> starts \<subseteq> set (wk_enqueued w)) \<and>
     \<not> ts_depth_capped (wk_stop w) \<and> \<not> ts_node_capped (wk_stop w) \<and> ts_edges_unrecorded (wk_stop w) = 0"

lemma seed_ok:
  "seeds_ok index lim starts w \<Longrightarrow> seeds_ok index lim (insert s starts) (seed lim w s)"
  by (auto simp: seeds_ok_def seed_def)

lemma seeds_all_ok: "seeds_ok index lim (set starts) (foldl (seed lim) fresh_walk starts)"
proof (induction starts rule: rev_induct)
  case Nil
  show ?case by (simp add: seeds_ok_def fresh_walk_def no_stop_def)
next
  case (snoc s starts)
  then show ?case using seed_ok [of index lim "set starts" _ s] by simp
qed

lemma seeds_walk_ok:
  assumes "seeds_ok index lim starts w"
  shows "walk_ok index lim starts (ts_starts_dropped (wk_stop w)) w"
proof -
  have s: "wk_visited w = []" "wk_edges w = []" "wk_max_depth w = 0" "wk_queue w = map (\<lambda>v. (v, 0)) (wk_enqueued w)"
      "distinct (wk_enqueued w)" "length (wk_enqueued w) \<le> tl_max_nodes lim" "set (wk_enqueued w) \<subseteq> starts"
      "ts_starts_dropped (wk_stop w) = 0 \<longrightarrow> starts \<subseteq> set (wk_enqueued w)"
    using assms by (simp_all add: seeds_ok_def)
  have "queue_ok index lim starts w" using s by (auto simp: queue_ok_def o_def image_image)
  moreover have "bounds_ok index lim w" "explored index w" using s by (simp_all add: bounds_ok_def explored_def)
  moreover have "at_level index lim starts 0 w" if "ts_starts_dropped (wk_stop w) = 0"
    using s that by (auto simp: at_level_def o_def map_replicate_const)
  ultimately show ?thesis using s(8) by (auto simp: walk_ok_def)
qed

section \<open>What a walk answers\<close>

lemma walk_result:
  obtains w where "walk_ok index lim (set starts) (ts_starts_dropped (wk_stop w)) w" "wk_queue w = []"
    "traverse_graph_indexed starts index lim = \<lparr>tr_visited_nodes = sort (wk_visited w), tr_traversed_edges = wk_edges w,
       tr_max_depth_reached = wk_max_depth w, tr_stop = wk_stop w\<rparr>"
proof -
  let ?w0 = "foldl (seed lim) fresh_walk starts" let ?n = "ts_starts_dropped (wk_stop ?w0)"
  let ?w = "walk_loop index lim ?w0"
  have "walk_ok index lim (set starts) ?n ?w \<and> wk_queue ?w = []"
    by (rule walk_loop_inv [where P = "walk_ok index lim (set starts) ?n"])
      (erule (1) walk_ok_visit, rule seeds_walk_ok [OF seeds_all_ok])
  moreover from this have "ts_starts_dropped (wk_stop ?w) = ?n" by (simp add: walk_ok_def)
  ultimately show ?thesis using that [of ?w] by (simp add: traverse_graph_indexed_def Let_def)
qed

text \<open>
  C28. The bounds of every answer: at most \<open>max_nodes\<close> distinct nodes, in order, each within \<open>max_depth\<close>
  steps of a start, and fewer than \<open>max_nodes\<close> edges, each an admitted edge of a node of the answer.
\<close>

theorem walk_is_bounded:
  "let r = traverse_graph_indexed starts index lim
   in sorted (tr_visited_nodes r) \<and> distinct (tr_visited_nodes r) \<and>
      length (tr_visited_nodes r) \<le> tl_max_nodes lim \<and> length (tr_traversed_edges r) \<le> tl_max_nodes lim - 1 \<and>
      tr_max_depth_reached r \<le> tl_max_depth lim \<and>
      set (tr_visited_nodes r) \<subseteq> within index (set starts) (tl_max_depth lim) \<and>
      set (tr_traversed_edges r) \<subseteq> (\<Union>u\<in>set (tr_visited_nodes r). edge_record index ` set (admitted index u))"
proof -
  obtain w where w: "walk_ok index lim (set starts) (ts_starts_dropped (wk_stop w)) w" "wk_queue w = []"
      "traverse_graph_indexed starts index lim = \<lparr>tr_visited_nodes = sort (wk_visited w), tr_traversed_edges = wk_edges w,
         tr_max_depth_reached = wk_max_depth w, tr_stop = wk_stop w\<rparr>" by (rule walk_result)
  have q: "queue_ok index lim (set starts) w" and b: "bounds_ok index lim w" using w(1) by (simp_all add: walk_ok_def)
  have "length (wk_visited w) = card (set (wk_enqueued w))"
    using q w(2) by (auto simp: queue_ok_def distinct_card)
  then show ?thesis using q b w(2) card_length [of "wk_enqueued w"] by (auto simp: w(3) queue_ok_def bounds_ok_def Let_def)
qed

text \<open>
  C23. Unless the node cap refused something, the answer is exactly the ball of radius \<open>max_depth\<close> around
  the starts: the walk is breadth-first, so no node is reached too late to be expanded.
\<close>

theorem walk_is_ball:
  assumes "ts_starts_dropped (tr_stop (traverse_graph_indexed starts index lim)) = 0"
    and "\<not> ts_node_capped (tr_stop (traverse_graph_indexed starts index lim))"
  shows "set (tr_visited_nodes (traverse_graph_indexed starts index lim)) =
    within index (set starts) (tl_max_depth lim)"
proof -
  obtain w where w: "walk_ok index lim (set starts) (ts_starts_dropped (wk_stop w)) w" "wk_queue w = []"
      "traverse_graph_indexed starts index lim = \<lparr>tr_visited_nodes = sort (wk_visited w), tr_traversed_edges = wk_edges w,
         tr_max_depth_reached = wk_max_depth w, tr_stop = wk_stop w\<rparr>" by (rule walk_result)
  have q: "queue_ok index lim (set starts) w" using w(1) by (simp add: walk_ok_def)
  obtain d where d: "at_level index lim (set starts) d w" using w(1) assms by (auto simp: w(3) walk_ok_def)
  have le: "d \<le> tl_max_depth lim" "within index (set starts) d \<subseteq> set (wk_visited w)"
    using d w(2) by (auto simp: at_level_def)
  have "within index (set starts) (tl_max_depth lim) \<subseteq> set (wk_visited w)"
  proof (cases "d < tl_max_depth lim")
    case True
    then have "\<forall>u\<in>set (wk_visited w). succs index u \<subseteq> set (wk_visited w)"
      using d q w(2) by (simp add: at_level_def queue_ok_def)
    from within_closed [OF this le(2)] show ?thesis .
  qed (use le in simp)
  moreover have "set (wk_visited w) \<subseteq> within index (set starts) (tl_max_depth lim)" using q by (simp add: queue_ok_def)
  ultimately show ?thesis by (simp add: w(3))
qed

text \<open>
  A walk that reports nothing withheld is complete: it visited every node reachable from a start, at
  any distance, and recorded every admitted edge between them.
\<close>

lemma complete_walk_is_closure:
  assumes "\<not> is_incomplete (tr_stop (traverse_graph_indexed starts index lim))"
  shows "set (tr_visited_nodes (traverse_graph_indexed starts index lim)) = {v. \<exists>s\<in>set starts. reaches index s v} \<and>
    set (tr_traversed_edges (traverse_graph_indexed starts index lim)) =
      (\<Union>u\<in>{v. \<exists>s\<in>set starts. reaches index s v}. edge_record index ` set (admitted index u))"
proof -
  obtain w where w: "walk_ok index lim (set starts) (ts_starts_dropped (wk_stop w)) w" "wk_queue w = []"
      "traverse_graph_indexed starts index lim = \<lparr>tr_visited_nodes = sort (wk_visited w), tr_traversed_edges = wk_edges w,
         tr_max_depth_reached = wk_max_depth w, tr_stop = wk_stop w\<rparr>" by (rule walk_result)
  have s: "ts_starts_dropped (wk_stop w) = 0" "\<not> ts_depth_capped (wk_stop w)" "\<not> ts_node_capped (wk_stop w)"
      "ts_edges_unrecorded (wk_stop w) = 0" using assms by (simp_all add: w(3) is_incomplete_def)
  have q: "queue_ok index lim (set starts) w" "explored index w" using w(1) by (simp_all add: walk_ok_def)
  have enq: "set (wk_enqueued w) = set (wk_visited w)" using q(1) w(2) by (simp add: queue_ok_def)
  have "set starts \<subseteq> set (wk_visited w)" using w(1) s(1) enq by (simp add: walk_ok_def)
  moreover have "\<forall>u\<in>set (wk_visited w). succs index u \<subseteq> set (wk_visited w)" using q(2) s enq by (simp add: explored_def)
  ultimately have "{v. \<exists>s\<in>set starts. reaches index s v} \<subseteq> set (wk_visited w)" using reaches_closed by blast
  moreover have "set (wk_visited w) \<subseteq> {v. \<exists>s\<in>set starts. reaches index s v}"
    using q(1) within_reaches by (fastforce simp: queue_ok_def)
  ultimately have "set (wk_visited w) = {v. \<exists>s\<in>set starts. reaches index s v}" by blast
  then show ?thesis using q(2) s by (simp add: w(3) explored_def)
qed


section \<open>The index of an edge list\<close>

definition empty_index :: "bool \<Rightarrow> resolved_edge list \<Rightarrow> adjacency_index" where
  "empty_index reverse edges = \<lparr>ai_reverse = reverse, ai_min_confidence = None, ai_edges = edges,
     ai_adjacency = Map.empty, ai_labels = Map.empty\<rparr>"

definition incident :: "bool \<Rightarrow> resolved_edge list \<Rightarrow> str \<Rightarrow> nat list" where
  "incident reverse edges node = filter (\<lambda>i. near_end reverse (edges ! i) = node) [0..<length edges]"

lemma incident_snoc:
  "incident reverse (xs @ [x]) node = incident reverse xs node @ (if near_end reverse x = node then [length xs] else [])"
proof -
  have "filter (\<lambda>i. near_end reverse ((xs @ [x]) ! i) = node) [0..<length xs] =
      filter (\<lambda>i. near_end reverse (xs ! i) = node) [0..<length xs]"
    by (rule filter_cong) (auto simp: nth_append)
  then show ?thesis by (simp add: incident_def)
qed

lemma index_edges:
  "foldl (index_edge reverse) (empty_index reverse edges) (enumerate 0 xs) =
     (empty_index reverse edges)\<lparr>
       ai_adjacency := (\<lambda>node. if incident reverse xs node = [] then None else Some (incident reverse xs node)),
       ai_labels := (\<lambda>k. if k \<in> re_edge_kind ` set xs then Some (kind_debug k) else None)\<rparr>"
proof (induction xs rule: rev_induct)
  case Nil
  show ?case by (simp add: incident_def empty_index_def)
next
  case (snoc x xs)
  have "enumerate 0 (xs @ [x]) = enumerate 0 xs @ [(length xs, x)]" by (simp add: enumerate_append_eq)
  then show ?case using snoc by (auto simp: index_edge_def Let_def incident_snoc fun_eq_iff empty_index_def)
qed

text \<open>The index a query reads, with or without a confidence floor.\<close>

definition query_index :: "f32 option \<Rightarrow> resolved_edge list \<Rightarrow> bool \<Rightarrow> graph_index" where
  "query_index floor edges reverse =
     as_graph (case floor of None \<Rightarrow> build edges reverse | Some f \<Rightarrow> with_min_confidence f (build edges reverse))"

lemma query_index_fields:
  assumes "length edges \<le> U32_MAX"
  shows "gi_reverse (query_index floor edges reverse) = reverse"
    and "gi_neighbors (query_index floor edges reverse) node = incident reverse edges node"
    and "gi_edge (query_index floor edges reverse) i = view_of (edges ! i)"
    and "i < length edges \<Longrightarrow> gi_kind_label (query_index floor edges reverse) i = kind_debug (re_edge_kind (edges ! i))"
    and "gi_admits (query_index floor edges reverse) i =
      (case floor of None \<Rightarrow> True | Some f \<Rightarrow> f32_ge (re_confidence (edges ! i)) f)"
proof -
  have b: "build edges reverse = (empty_index reverse edges)\<lparr>
       ai_adjacency := (\<lambda>node. if incident reverse edges node = [] then None else Some (incident reverse edges node)),
       ai_labels := (\<lambda>k. if k \<in> re_edge_kind ` set edges then Some (kind_debug k) else None)\<rparr>"
    using assms index_edges [of reverse edges edges] by (simp add: build_def empty_index_def)
  show "gi_reverse (query_index floor edges reverse) = reverse"
    "gi_neighbors (query_index floor edges reverse) node = incident reverse edges node"
    "gi_edge (query_index floor edges reverse) i = view_of (edges ! i)"
    "gi_admits (query_index floor edges reverse) i =
      (case floor of None \<Rightarrow> True | Some f \<Rightarrow> f32_ge (re_confidence (edges ! i)) f)"
    by (cases floor; simp add: query_index_def as_graph_def b with_min_confidence_def empty_index_def)+
  show "gi_kind_label (query_index floor edges reverse) i = kind_debug (re_edge_kind (edges ! i))" if "i < length edges"
    using that by (cases floor; simp add: query_index_def as_graph_def b with_min_confidence_def empty_index_def)
qed

text \<open>
  The edges a walk in a direction may follow: a reverse walk leaves out containment, and from a
  symbol also package topology.
\<close>

definition followed :: "f32 option \<Rightarrow> bool \<Rightarrow> resolved_edge \<Rightarrow> bool" where
  "followed floor reverse e \<longleftrightarrow>
     (case floor of None \<Rightarrow> True | Some f \<Rightarrow> f32_ge (re_confidence e) f) \<and>
     (reverse \<longrightarrow> re_edge_kind e \<notin> {Contains, Defines} \<and>
        (is_symbol_node (re_target_symbol e) \<longrightarrow> re_edge_kind e \<notin> {Imports, MemberOf}))"

definition far_symbol :: "bool \<Rightarrow> resolved_edge \<Rightarrow> str" where
  "far_symbol reverse e = (if reverse then re_source_symbol e else re_target_symbol e)"

definition dependency :: "f32 option \<Rightarrow> bool \<Rightarrow> resolved_edge list \<Rightarrow> (str \<times> str) set" where
  "dependency floor reverse edges =
     {(near_end reverse e, far_symbol reverse e) | e. e \<in> set edges \<and> followed floor reverse e}"

definition identity_of :: "resolved_edge \<Rightarrow> edge_identity" where
  "identity_of e = \<lparr>ei_source = re_source_symbol e, ei_target = re_target_symbol e,
     ei_edge_kind = kind_debug (re_edge_kind e), ei_line = 0, ei_col = 0\<rparr>"

lemma admitted_query:
  assumes "length edges \<le> U32_MAX"
  shows "set (admitted (query_index floor edges reverse) u) =
    {i. i < length edges \<and> near_end reverse (edges ! i) = u \<and> followed floor reverse (edges ! i)}"
  by (auto simp: set_admitted query_index_fields [OF assms] incident_def walk_admits_def followed_def view_of_def
      near_end_def Let_def)

lemma image_nth: "(\<lambda>i. f (xs ! i)) ` {i. i < length xs \<and> P (xs ! i)} = f ` {x \<in> set xs. P x}"
  by (auto simp: in_set_conv_nth image_iff)

lemma succs_query:
  assumes "length edges \<le> U32_MAX"
  shows "succs (query_index floor edges reverse) u = {v. (u, v) \<in> dependency floor reverse edges}"
proof -
  have "succs (query_index floor edges reverse) u =
      (\<lambda>i. far_symbol reverse (edges ! i)) ` {i. i < length edges \<and> near_end reverse (edges ! i) = u \<and> followed floor reverse (edges ! i)}"
    unfolding succs_def admitted_query [OF assms]
    by (simp add: far_end_def query_index_fields [OF assms] view_of_def far_symbol_def cong: image_cong)
  then show ?thesis
    by (auto simp: image_nth [where P = "\<lambda>e. near_end reverse e = u \<and> followed floor reverse e"] dependency_def)
qed

lemma records_query:
  assumes "length edges \<le> U32_MAX"
  shows "edge_record (query_index floor edges reverse) ` set (admitted (query_index floor edges reverse) u) =
    identity_of ` {e \<in> set edges. near_end reverse e = u \<and> followed floor reverse e}"
proof -
  have "edge_record (query_index floor edges reverse) i = identity_of (edges ! i)" if "i < length edges" for i
    using that by (simp add: edge_record_def identity_of_def query_index_fields [OF assms] view_of_def)
  then have "edge_record (query_index floor edges reverse) ` set (admitted (query_index floor edges reverse) u) =
      (\<lambda>i. identity_of (edges ! i)) ` {i. i < length edges \<and> near_end reverse (edges ! i) = u \<and> followed floor reverse (edges ! i)}"
    unfolding admitted_query [OF assms] by (intro image_cong) auto
  then show ?thesis by (simp add: image_nth [where P = "\<lambda>e. near_end reverse e = u \<and> followed floor reverse e"])
qed

lemma reaches_query:
  assumes "length edges \<le> U32_MAX"
  shows "reaches (query_index floor edges reverse) u v \<longleftrightarrow> (u, v) \<in> (dependency floor reverse edges)\<^sup>*"
  by (simp add: reaches_def succs_query [OF assms] rtrancl_def)

text \<open>
  C3. An impact or trace query that reports nothing withheld is exact: its nodes are those that a chain of
  followed edges joins to a start, in the query's direction and above its confidence floor, and its
  edges are all the followed edges that leave them.
\<close>

theorem complete_query_is_exact:
  assumes "length edges \<le> U32_MAX"
    and "\<not> is_incomplete (tr_stop (traverse_graph_indexed starts (query_index floor edges reverse) lim))"
  shows "set (tr_visited_nodes (traverse_graph_indexed starts (query_index floor edges reverse) lim)) =
      (dependency floor reverse edges)\<^sup>* `` set starts \<and>
    set (tr_traversed_edges (traverse_graph_indexed starts (query_index floor edges reverse) lim)) =
      identity_of ` {e \<in> set edges. followed floor reverse e \<and> near_end reverse e \<in> (dependency floor reverse edges)\<^sup>* `` set starts}"
proof -
  have "{v. \<exists>s\<in>set starts. reaches (query_index floor edges reverse) s v} = (dependency floor reverse edges)\<^sup>* `` set starts"
    by (auto simp: reaches_query [OF assms(1)])
  with complete_walk_is_closure [OF assms(2)] show ?thesis
    by (simp only: records_query [OF assms(1)]) blast
qed


lemma traverse_graph_eq:
  "traverse_graph starts edges opts =
     traverse_graph_indexed starts (query_index None edges (to_reverse opts)) (limits opts)"
  by (simp add: traverse_graph_def query_index_def)

definition sample_edge :: "string \<Rightarrow> string \<Rightarrow> edge_kind \<Rightarrow> resolved_edge" where
  "sample_edge s t k = \<lparr>re_source_file = lit ''a.go'', re_target_file = lit ''b.go'', re_source_symbol = lit s,
     re_target_symbol = lit t, re_edge_kind = k, re_confidence = DETERMINISTIC, re_resolution = None, re_evidence = None, re_details = None\<rparr>"

definition sample_edges :: "resolved_edge list" where
  "sample_edges = [sample_edge ''a'' ''b'' Calls, sample_edge ''b'' ''c'' References]"

definition sample_limits :: traversal_limits where
  "sample_limits = \<lparr>tl_max_depth = 3, tl_max_nodes = 10\<rparr>"

lemma sample_incident:
  "incident False sample_edges (lit ''a'') = [0]" "incident False sample_edges (lit ''b'') = [Suc 0]"
  "incident False sample_edges (lit ''c'') = []"
  by (simp_all add: incident_def sample_edges_def sample_edge_def near_end_def upt_rec)

lemma sample_length: "length sample_edges \<le> U32_MAX"
  by (simp add: sample_edges_def U32_MAX_def)

lemma sample_walk:
  "tr_stop (traverse_graph_indexed [lit ''a''] (query_index None sample_edges False) sample_limits) = no_stop"
proof -
  note [simp] = query_index_fields [OF sample_length] sample_incident
  have a: "admitted (query_index None sample_edges False) (lit ''a'') = [0]"
      "admitted (query_index None sample_edges False) (lit ''b'') = [Suc 0]"
    by (simp_all add: admitted_def walk_admits_def del: lit_Cons)
  have t: "re_target_symbol (sample_edges ! 0) = lit ''b''" "re_target_symbol (sample_edges ! Suc 0) = lit ''c''"
    by (simp_all add: sample_edges_def sample_edge_def)
  have e: "far_end (query_index None sample_edges False) 0 = lit ''b''"
      "far_end (query_index None sample_edges False) (Suc 0) = lit ''c''"
    by (simp_all add: far_end_def view_of_def t del: lit_Cons)
  have d: "lit ''a'' \<noteq> lit ''b''" "lit ''a'' \<noteq> lit ''c''" "lit ''b'' \<noteq> lit ''c''" by simp_all
  show ?thesis
    using d d [symmetric]
    by (simp add: traverse_graph_indexed_def fresh_walk_def seed_def walk_loop.simps visit_def Let_def walk_admits_def a
      expand_def enqueue_def record_edge_def e sample_limits_def no_stop_def del: lit_Cons)
qed

theorem walk_is_ball_witness:
  "set (tr_visited_nodes (traverse_graph_indexed [lit ''a''] (query_index None sample_edges False) sample_limits)) =
     within (query_index None sample_edges False) (set [lit ''a'']) (tl_max_depth sample_limits)"
  by (rule walk_is_ball) (simp_all add: sample_walk no_stop_def del: lit_Cons)

theorem complete_query_is_exact_witness:
  "set (tr_visited_nodes (traverse_graph_indexed [lit ''a''] (query_index None sample_edges False) sample_limits)) =
     (dependency None False sample_edges)\<^sup>* `` set [lit ''a'']"
  by (rule complete_query_is_exact [OF sample_length, THEN conjunct1]) (simp add: sample_walk is_incomplete_def no_stop_def del: lit_Cons)

end
