(* ===== verification/Tarjan.thy ===== *)
theory Tarjan
  imports Main
begin

text \<open>
  The iterative Tarjan of \<open>devmap-analyze/src/dead_clusters.rs\<close>, which finds the dead clusters and the
  import cycles: its index, lowlink and on-stack vectors, the node stack and the explicit call stack,
  one step of its loop at a time. The lemmas carry the algorithm's invariant and conclude that the
  components it returns are the strongly connected ones, in reverse topological order.
\<close>

section \<open>The algorithm\<close>

text \<open>
  \<open>index\<close> holds \<open>None\<close> for the sentinel \<open>UNVISITED\<close>. Both stacks have their top at the head. An access
  out of range, which panics, is \<open>None\<close> of the step. The code's node numbers are \<open>u32\<close>, with the largest
  one as the sentinel; its callers number at most one node for each symbol or file of a repository and
  cap the symbols at 400000, so a number always fits and the model takes it as a natural.
\<close>

record scc_state =
  sc_index :: "nat option list"
  sc_lowlink :: "nat list"
  sc_on_stack :: "bool list"
  sc_stack :: "nat list"
  sc_components :: "nat list list"
  sc_next_index :: nat
  sc_calls :: "(nat \<times> nat) list"

definition open_node :: "nat \<Rightarrow> scc_state \<Rightarrow> scc_state" where
  "open_node v st = st\<lparr>sc_index := (sc_index st)[v := Some (sc_next_index st)],
     sc_lowlink := (sc_lowlink st)[v := sc_next_index st], sc_next_index := sc_next_index st + 1,
     sc_stack := v # sc_stack st, sc_on_stack := (sc_on_stack st)[v := True], sc_calls := (v, 0) # sc_calls st\<rparr>"

fun pop_until :: "nat \<Rightarrow> nat list \<Rightarrow> bool list \<Rightarrow> nat list \<times> nat list \<times> bool list" where
  "pop_until node [] on = ([], [], on)"
| "pop_until node (m # s) on =
     (if m = node then ([m], s, on[m := False])
      else case pop_until node s (on[m := False]) of (c, s', on') \<Rightarrow> (m # c, s', on'))"

definition lower :: "nat \<Rightarrow> nat \<Rightarrow> scc_state \<Rightarrow> scc_state" where
  "lower v low st = st\<lparr>sc_lowlink := (sc_lowlink st)[v := min (sc_lowlink st ! v) low]\<rparr>"

text \<open>An edge of the node on top of the call stack, and the closing of a node without further ones.\<close>

definition follow_edge :: "nat \<Rightarrow> nat \<Rightarrow> scc_state \<Rightarrow> scc_state" where
  "follow_edge node child st =
     (case sc_index st ! child of
        None \<Rightarrow> open_node child st
      | Some i \<Rightarrow> if sc_on_stack st ! child then lower node i st else st)"

definition close_node :: "nat \<Rightarrow> (nat \<times> nat) list \<Rightarrow> scc_state \<Rightarrow> scc_state" where
  "close_node node rest st0 =
     (let st1 = st0\<lparr>sc_calls := rest\<rparr>;
          st = (case rest of [] \<Rightarrow> st1 | (parent, _) # _ \<Rightarrow> lower parent (sc_lowlink st1 ! node) st1)
      in if Some (sc_lowlink st ! node) = sc_index st ! node then
           (case pop_until node (sc_stack st) (sc_on_stack st) of
              (c, s, on) \<Rightarrow> st\<lparr>sc_stack := s, sc_on_stack := on, sc_components := sc_components st @ [c]\<rparr>)
         else st)"

definition scc_step :: "nat list list \<Rightarrow> nat \<Rightarrow> nat \<Rightarrow> (nat \<times> nat) list \<Rightarrow> scc_state \<Rightarrow> scc_state option" where
  "scc_step adj node pos rest st =
     (if pos < length (adj ! node) then
        let child = adj ! node ! pos
        in if child < length (sc_index st)
           then Some (follow_edge node child (st\<lparr>sc_calls := (node, pos + 1) # rest\<rparr>)) else None
      else Some (close_node node rest st))"

definition unopened :: "nat list list \<Rightarrow> nat option list \<Rightarrow> nat" where
  "unopened adj ix = (\<Sum>v<length ix. if ix ! v = None then length (adj ! v) + 2 else 0)"

definition pending :: "nat list list \<Rightarrow> scc_state \<Rightarrow> nat" where
  "pending adj st = unopened adj (sc_index st) + (\<Sum>(v, p)\<leftarrow>sc_calls st. Suc (length (adj ! v) - p))"

lemma unopened_open:
  assumes "c < length ix" "ix ! c = None"
  shows "unopened adj (ix[c := Some k]) + length (adj ! c) + 2 = unopened adj ix"
proof -
  have "(\<Sum>v\<in>{..<length ix} - {c}. if ix[c := Some k] ! v = None then length (adj ! v) + 2 else 0) =
      (\<Sum>v\<in>{..<length ix} - {c}. if ix ! v = None then length (adj ! v) + 2 else 0)"
    by (intro sum.cong) auto
  then show ?thesis using assms
    by (simp add: unopened_def sum.remove [of "{..<length ix}" c])
qed

lemma close_node_fields:
  "sc_index (close_node node rest st) = sc_index st" "sc_calls (close_node node rest st) = rest"
  by (auto simp: close_node_def lower_def Let_def split: list.split prod.split)

lemma scc_step_pending:
  assumes "sc_calls st = (node, pos) # rest" "scc_step adj node pos rest st = Some st'"
  shows "pending adj st' < pending adj st"
proof (cases "pos < length (adj ! node)")
  case True
  let ?c = "adj ! node ! pos"
  have c: "?c < length (sc_index st)" "st' = follow_edge node ?c (st\<lparr>sc_calls := (node, pos + 1) # rest\<rparr>)"
    using assms(2) True by (auto simp: scc_step_def Let_def split: if_splits)
  show ?thesis
  proof (cases "sc_index st ! ?c")
    case None
    then show ?thesis using True assms(1) c unopened_open [OF c(1) None, of adj "sc_next_index st"]
      by (simp add: pending_def follow_edge_def open_node_def)
  next
    case (Some i)
    then show ?thesis using True assms(1) c by (simp add: pending_def follow_edge_def lower_def)
  qed
next
  case False
  then have "st' = close_node node rest st" using assms(2) by (simp add: scc_step_def)
  then show ?thesis using assms(1) False by (simp add: pending_def close_node_fields Suc_diff_le)
qed

function scc_run :: "nat list list \<Rightarrow> scc_state \<Rightarrow> scc_state option" where
  "scc_run adj st =
     (case sc_calls st of [] \<Rightarrow> Some st
      | (node, pos) # rest \<Rightarrow>
          (case scc_step adj node pos rest st of None \<Rightarrow> None | Some st' \<Rightarrow> scc_run adj st'))"
  by pat_completeness auto
termination
  by (relation "measure (\<lambda>(adj, st). pending adj st)") (auto intro: scc_step_pending)

declare scc_run.simps [simp del]

definition visit_root :: "nat list list \<Rightarrow> scc_state \<Rightarrow> nat \<Rightarrow> scc_state option" where
  "visit_root adj st root = (if sc_index st ! root \<noteq> None then Some st else scc_run adj (open_node root st))"

fun visit_roots :: "nat list list \<Rightarrow> nat list \<Rightarrow> scc_state \<Rightarrow> scc_state option" where
  "visit_roots adj [] st = Some st"
| "visit_roots adj (r # rs) st = (case visit_root adj st r of None \<Rightarrow> None | Some st' \<Rightarrow> visit_roots adj rs st')"

definition strongly_connected_components :: "nat list list \<Rightarrow> nat list list option" where
  "strongly_connected_components adj =
     (let n = length adj
      in map_option sc_components (visit_roots adj [0..<n]
           \<lparr>sc_index = replicate n None, sc_lowlink = replicate n 0, sc_on_stack = replicate n False,
             sc_stack = [], sc_components = [], sc_next_index = 0, sc_calls = []\<rparr>))"


section \<open>The graph\<close>

definition arcs :: "nat list list \<Rightarrow> (nat \<times> nat) set" where
  "arcs adj = {(u, v). u < length adj \<and> v \<in> set (adj ! u)}"

definition reach :: "nat list list \<Rightarrow> nat \<Rightarrow> nat \<Rightarrow> bool" where
  "reach adj u v \<longleftrightarrow> (u, v) \<in> (arcs adj)\<^sup>*"

definition mutual :: "nat list list \<Rightarrow> nat \<Rightarrow> nat set" where
  "mutual adj u = {v. reach adj u v \<and> reach adj v u}"

definition graph_ok :: "nat list list \<Rightarrow> bool" where
  "graph_ok adj \<longleftrightarrow> list_all (list_all (\<lambda>v. v < length adj)) adj"

definition closed_set :: "nat list list \<Rightarrow> nat set \<Rightarrow> bool" where
  "closed_set adj A \<longleftrightarrow> (\<forall>u\<in>A. \<forall>v. (u, v) \<in> arcs adj \<longrightarrow> v \<in> A)"

lemma reach_refl [simp]: "reach adj u u"
  by (simp add: reach_def)

lemma reach_trans: "reach adj u v \<Longrightarrow> reach adj v w \<Longrightarrow> reach adj u w"
  by (auto simp: reach_def)

lemma reach_arc: "reach adj u v \<Longrightarrow> (v, w) \<in> arcs adj \<Longrightarrow> reach adj u w"
  by (auto simp: reach_def)

lemma reach_closed:
  assumes "closed_set adj A" "reach adj u v" "u \<in> A"
  shows "v \<in> A"
  using assms(2,3,1) unfolding reach_def by (induction rule: rtrancl_induct) (auto simp: closed_set_def)

section \<open>The invariant\<close>

definition number :: "scc_state \<Rightarrow> nat \<Rightarrow> nat" where
  "number st v = the (sc_index st ! v)"

definition seen :: "scc_state \<Rightarrow> nat set" where
  "seen st = {v. v < length (sc_index st) \<and> sc_index st ! v \<noteq> None}"

definition gray :: "scc_state \<Rightarrow> nat set" where
  "gray st = fst ` set (sc_calls st)"

definition finished :: "scc_state \<Rightarrow> nat set" where
  "finished st = \<Union> (set ` set (sc_components st))"

text \<open>The edges of a node that have been read: a prefix for one on the call stack, else all.\<close>

definition read_from :: "nat list list \<Rightarrow> scc_state \<Rightarrow> nat \<Rightarrow> nat set" where
  "read_from adj st v =
     (case map_of (sc_calls st) v of Some p \<Rightarrow> set (take p (adj ! v)) | None \<Rightarrow> set (adj ! v))"

definition shape_ok :: "nat list list \<Rightarrow> scc_state \<Rightarrow> bool" where
  "shape_ok adj st \<longleftrightarrow>
     length (sc_index st) = length adj \<and> length (sc_lowlink st) = length adj \<and> length (sc_on_stack st) = length adj \<and>
     (\<forall>v<length adj. sc_on_stack st ! v \<longleftrightarrow> v \<in> set (sc_stack st)) \<and>
     seen st = set (sc_stack st) \<union> finished st \<and> set (sc_stack st) \<inter> finished st = {} \<and>
     sorted_wrt (\<lambda>x y. number st x > number st y) (sc_stack st) \<and>
     (\<forall>v\<in>seen st. number st v < sc_next_index st)"

definition calls_ok :: "scc_state \<Rightarrow> bool" where
  "calls_ok st \<longleftrightarrow> gray st \<subseteq> set (sc_stack st) \<and>
     sorted_wrt (\<lambda>x y. number st x > number st y) (map fst (sc_calls st))"

definition explored_ok :: "nat list list \<Rightarrow> scc_state \<Rightarrow> bool" where
  "explored_ok adj st \<longleftrightarrow> (\<forall>v\<in>seen st. read_from adj st v \<subseteq> seen st)"

definition paths_ok :: "nat list list \<Rightarrow> scc_state \<Rightarrow> bool" where
  "paths_ok adj st \<longleftrightarrow>
     (\<forall>x\<in>set (sc_stack st). \<exists>g\<in>gray st. number st g \<le> number st x \<and> reach adj x g) \<and>
     (\<forall>g\<in>gray st. \<forall>x\<in>set (sc_stack st). number st g \<le> number st x \<longrightarrow> reach adj g x)"

definition lowlinks_ok :: "nat list list \<Rightarrow> scc_state \<Rightarrow> bool" where
  "lowlinks_ok adj st \<longleftrightarrow>
     (\<forall>v\<in>gray st. sc_lowlink st ! v \<le> number st v \<and>
        (\<exists>w\<in>set (sc_stack st). number st w = sc_lowlink st ! v \<and> reach adj v w)) \<and>
     (\<forall>u\<in>gray st. \<forall>x\<in>set (sc_stack st). \<forall>y\<in>set (sc_stack st).
        number st u \<le> number st x \<and> y \<in> read_from adj st x \<and> number st y < number st u \<longrightarrow>
        (\<exists>g\<in>gray st. number st u \<le> number st g \<and> number st g \<le> number st x \<and> sc_lowlink st ! g \<le> number st y))"

definition components_ok :: "nat list list \<Rightarrow> nat list list \<Rightarrow> bool" where
  "components_ok adj cs \<longleftrightarrow>
     list_all (\<lambda>c. distinct c \<and> c \<noteq> [] \<and> (\<forall>v\<in>set c. set c = mutual adj v)) cs \<and>
     distinct (concat cs) \<and> (\<forall>k\<le>length cs. closed_set adj (\<Union> (set ` set (take k cs))))"

definition scc_ok :: "nat list list \<Rightarrow> scc_state \<Rightarrow> bool" where
  "scc_ok adj st \<longleftrightarrow> shape_ok adj st \<and> calls_ok st \<and> explored_ok adj st \<and> paths_ok adj st \<and> lowlinks_ok adj st \<and>
     components_ok adj (sc_components st)"


lemma lowlinksD:
  assumes "lowlinks_ok adj st" "u \<in> gray st" "x \<in> set (sc_stack st)" "y \<in> set (sc_stack st)"
    and "number st u \<le> number st x" "y \<in> read_from adj st x" "number st y < number st u"
  obtains g where "g \<in> gray st" "number st u \<le> number st g" "number st g \<le> number st x"
    "sc_lowlink st ! g \<le> number st y"
  using assms unfolding lowlinks_ok_def by blast

section \<open>Opening a node\<close>

lemma number_open:
  "v < length (sc_index st) \<Longrightarrow> number (open_node v st) u = (if u = v then sc_next_index st else number st u)"
  by (simp add: number_def open_node_def nth_list_update)

lemma open_fields:
  "sc_stack (open_node v st) = v # sc_stack st" "sc_components (open_node v st) = sc_components st"
  "sc_calls (open_node v st) = (v, 0) # sc_calls st" "sc_next_index (open_node v st) = Suc (sc_next_index st)"
  "finished (open_node v st) = finished st" "gray (open_node v st) = insert v (gray st)"
  by (simp_all add: open_node_def finished_def gray_def)

lemma seen_open: "v < length (sc_index st) \<Longrightarrow> seen (open_node v st) = insert v (seen st)"
  by (auto simp: seen_def open_node_def nth_list_update)

lemma read_from_open:
  "read_from adj (open_node v st) u = (if u = v then {} else read_from adj st u)"
  by (simp add: read_from_def open_fields)

lemma stack_seen: "shape_ok adj st \<Longrightarrow> v \<in> set (sc_stack st) \<Longrightarrow> v \<in> seen st"
  by (simp add: shape_ok_def)

lemma shape_open:
  assumes "shape_ok adj st" "v < length adj" "v \<notin> seen st"
  shows "shape_ok adj (open_node v st)"
proof -
  have len: "length (sc_index st) = length adj" using assms(1) by (simp add: shape_ok_def)
  have "number (open_node v st) u = number st u" if "u \<in> seen st" for u
    using that assms(2,3) len by (auto simp: number_open)
  moreover have "\<forall>u\<in>set (sc_stack st). u \<in> seen st \<and> u \<noteq> v" using assms by (auto simp: shape_ok_def)
  ultimately have "sorted_wrt (\<lambda>x y. number (open_node v st) x > number (open_node v st) y) (sc_stack st)"
    using assms(1) unfolding shape_ok_def by (auto elim!: sorted_wrt_mono_rel [rotated])
  then show ?thesis using assms len
    by (auto simp: shape_ok_def open_fields seen_open number_open nth_list_update less_Suc_eq) (auto simp: open_node_def nth_list_update)
qed

lemma calls_open:
  assumes "shape_ok adj st" "calls_ok st" "v < length adj" "v \<notin> seen st"
  shows "calls_ok (open_node v st)"
proof -
  have len: "length (sc_index st) = length adj" using assms(1) by (simp add: shape_ok_def)
  have old: "u \<in> seen st" "u \<noteq> v" if "u \<in> gray st" for u using that assms by (auto simp: calls_ok_def shape_ok_def)
  then have eq: "number (open_node v st) u = number st u" if "u \<in> set (map fst (sc_calls st))" for u
    using that assms(3) len by (simp add: number_open gray_def)
  have "sorted_wrt (\<lambda>x y. number (open_node v st) x > number (open_node v st) y) (map fst (sc_calls st))"
    by (rule sorted_wrt_mono_rel [of _ "\<lambda>x y. number st x > number st y"]) (use assms(2) eq in \<open>auto simp: calls_ok_def\<close>)
  moreover have "number st u < sc_next_index st" if "u \<in> gray st" for u using old that assms(1) by (simp add: shape_ok_def)
  ultimately show ?thesis using assms(2,3) len old(2)
    by (auto simp: calls_ok_def open_fields number_open gray_def)
qed

lemma top_gray:
  assumes "calls_ok st" "sc_calls st = (t, p) # r" "g \<in> gray st"
  shows "number st g \<le> number st t" "t \<in> gray st" "g = t \<or> g \<in> fst ` set r"
  using assms by (auto simp: calls_ok_def gray_def)

lemma scc_ok_open:
  assumes "shape_ok adj st" "calls_ok st" "paths_ok adj st" "lowlinks_ok adj st" "components_ok adj (sc_components st)"
    and explored: "\<forall>u\<in>seen st. read_from adj st u \<subseteq> insert v (seen st)"
    and v: "v < length adj" "v \<notin> seen st"
    and from_top: "sc_calls st = [] \<or> (\<exists>t p r. sc_calls st = (t, p) # r \<and> (t, v) \<in> arcs adj)"
  shows "scc_ok adj (open_node v st)"
proof -
  have len: "v < length (sc_index st)" "length (sc_lowlink st) = length adj" using assms(1) v by (simp_all add: shape_ok_def)
  have old: "u \<in> seen st" "u \<noteq> v" "number st u < sc_next_index st" if "u \<in> set (sc_stack st)" for u
    using that assms(1) v by (auto simp: shape_ok_def)
  have gray: "g \<in> set (sc_stack st)" if "g \<in> gray st" for g using that assms(2) by (auto simp: calls_ok_def)
  have num: "number (open_node v st) u = number st u" if "u \<in> set (sc_stack st)" for u
    using that old len by (simp add: number_open)
  have numv: "number (open_node v st) v = sc_next_index st" using len by (simp add: number_open)
  have lowv: "sc_lowlink (open_node v st) ! v = sc_next_index st" using v(1) len(2) by (simp add: open_node_def)
  have low: "sc_lowlink (open_node v st) ! u = sc_lowlink st ! u" if "u \<noteq> v" for u
    using that by (simp add: open_node_def)
  have "explored_ok adj (open_node v st)"
    using explored len(1) by (auto simp: explored_ok_def seen_open read_from_open)
  moreover have "paths_ok adj (open_node v st)"
    unfolding paths_ok_def
  proof (intro conjI ballI impI)
    fix x assume "x \<in> set (sc_stack (open_node v st))"
    then show "\<exists>g\<in>gray (open_node v st). number (open_node v st) g \<le> number (open_node v st) x \<and> reach adj x g"
      using assms(3) gray num unfolding paths_ok_def open_fields by (cases "x = v") fastforce+
  next
    fix g x
    assume g: "g \<in> gray (open_node v st)" and x: "x \<in> set (sc_stack (open_node v st))"
      and le: "number (open_node v st) g \<le> number (open_node v st) x"
    show "reach adj g x"
    proof (cases "x = v")
      case True
      show ?thesis
      proof (cases "g = v")
        case False
        then obtain t p r where t: "sc_calls st = (t, p) # r" "(t, v) \<in> arcs adj" using from_top g
          by (auto simp: open_fields gray_def)
        have "reach adj g t" using top_gray [OF assms(2) t(1)] g False gray assms(3) by (auto simp: paths_ok_def open_fields)
        then show ?thesis using t(2) True reach_arc by blast
      qed (use True in simp)
    next
      case False
      then have "x \<in> set (sc_stack st)" using x by (simp add: open_fields)
      moreover from this have "g \<noteq> v" using le num [of x] numv old(3) [of x] by auto
      ultimately have "x \<in> set (sc_stack st)" "g \<noteq> v" by simp_all
      then show ?thesis using assms(3) g le num gray by (auto simp: paths_ok_def open_fields)
    qed
  qed
  moreover have "lowlinks_ok adj (open_node v st)"
    unfolding lowlinks_ok_def
  proof (intro conjI ballI impI)
    fix g assume g: "g \<in> gray (open_node v st)"
    show "sc_lowlink (open_node v st) ! g \<le> number (open_node v st) g"
      using assms(4) g gray num numv low lowv old(2) by (cases "g = v") (auto simp: lowlinks_ok_def open_fields)
    show "\<exists>w\<in>set (sc_stack (open_node v st)). number (open_node v st) w = sc_lowlink (open_node v st) ! g \<and> reach adj g w"
    proof (cases "g = v")
      case False
      then obtain w where "w \<in> set (sc_stack st)" "number st w = sc_lowlink st ! g" "reach adj g w"
        using assms(4) g by (auto simp: lowlinks_ok_def open_fields)
      then show ?thesis using False num low by (auto simp: open_fields)
    qed (use numv lowv in \<open>auto simp: open_fields\<close>)
  next
    fix u x y
    assume u: "u \<in> gray (open_node v st)" and x: "x \<in> set (sc_stack (open_node v st))"
      and y: "y \<in> set (sc_stack (open_node v st))"
      and a: "number (open_node v st) u \<le> number (open_node v st) x \<and> y \<in> read_from adj (open_node v st) x \<and>
        number (open_node v st) y < number (open_node v st) u"
    have xv: "x \<noteq> v" using a by (auto simp: read_from_open)
    then have x: "x \<in> set (sc_stack st)" using x by (simp add: open_fields)
    then have "u \<noteq> v" using a num numv old(3) by fastforce
    then have u: "u \<in> gray st" using u by (simp add: open_fields)
    then have "y \<noteq> v" using a num numv old(3) gray by fastforce
    then have y: "y \<in> set (sc_stack st)" using y by (simp add: open_fields)
    have "number st u \<le> number st x" "y \<in> read_from adj st x" "number st y < number st u"
      using a xv u x y num gray by (simp_all add: read_from_open)
    from lowlinksD [OF assms(4) u x y this] obtain g where "g \<in> gray st" "number st u \<le> number st g"
        "number st g \<le> number st x" "sc_lowlink st ! g \<le> number st y" .
    then show "\<exists>g\<in>gray (open_node v st). number (open_node v st) u \<le> number (open_node v st) g \<and>
        number (open_node v st) g \<le> number (open_node v st) x \<and> sc_lowlink (open_node v st) ! g \<le> number (open_node v st) y"
      using u x y gray num low old(2) by (intro bexI [of _ g]) (auto simp: open_fields)
  qed
  ultimately show ?thesis using shape_open [OF assms(1) v] calls_open [OF assms(1,2) v] assms(5)
    by (simp add: scc_ok_def open_fields)
qed


section \<open>Following an edge\<close>

definition advance :: "nat \<Rightarrow> nat \<Rightarrow> (nat \<times> nat) list \<Rightarrow> scc_state \<Rightarrow> scc_state" where
  "advance node pos rest st = st\<lparr>sc_calls := (node, Suc pos) # rest\<rparr>"

lemma sorted_distinct: "sorted_wrt (\<lambda>x y. (f x :: nat) > f y) xs \<Longrightarrow> distinct xs"
  by (induction xs) auto

lemma calls_distinct: "calls_ok st \<Longrightarrow> distinct (map fst (sc_calls st))"
  unfolding calls_ok_def by (auto intro: sorted_distinct)

lemma calls_update:
  "number (st\<lparr>sc_calls := cs\<rparr>) = number st" "seen (st\<lparr>sc_calls := cs\<rparr>) = seen st"
  "finished (st\<lparr>sc_calls := cs\<rparr>) = finished st"
  by (simp_all add: number_def seen_def finished_def fun_eq_iff)

lemma advance_fields:
  assumes "sc_calls st = (node, pos) # rest"
  shows "gray (advance node pos rest st) = gray st" "number (advance node pos rest st) = number st"
    "seen (advance node pos rest st) = seen st" "finished (advance node pos rest st) = finished st"
    "sc_stack (advance node pos rest st) = sc_stack st" "sc_lowlink (advance node pos rest st) = sc_lowlink st"
    "sc_components (advance node pos rest st) = sc_components st" "sc_index (advance node pos rest st) = sc_index st"
    "sc_on_stack (advance node pos rest st) = sc_on_stack st" "sc_next_index (advance node pos rest st) = sc_next_index st"
  using assms by (simp_all add: advance_def calls_update gray_def)

lemma read_from_advance:
  assumes "sc_calls st = (node, pos) # rest" "pos < length (adj ! node)"
  shows "read_from adj (advance node pos rest st) v =
    (if v = node then insert (adj ! node ! pos) (read_from adj st node) else read_from adj st v)"
  using assms by (auto simp: read_from_def advance_def take_Suc_conv_app_nth)

lemma advance_ok:
  assumes "scc_ok adj st" "sc_calls st = (node, pos) # rest" "pos < length (adj ! node)"
    and "adj ! node ! pos \<notin> set (sc_stack st)"
  shows "shape_ok adj (advance node pos rest st)" "calls_ok (advance node pos rest st)"
    "paths_ok adj (advance node pos rest st)" "lowlinks_ok adj (advance node pos rest st)"
    "components_ok adj (sc_components (advance node pos rest st))"
proof -
  note f = advance_fields [OF assms(2)] and r = read_from_advance [OF assms(2,3)]
  show "shape_ok adj (advance node pos rest st)" "paths_ok adj (advance node pos rest st)"
      "components_ok adj (sc_components (advance node pos rest st))"
    using assms(1) by (simp_all add: scc_ok_def shape_ok_def paths_ok_def f)
  show "calls_ok (advance node pos rest st)"
    using assms(1,2) by (simp add: scc_ok_def calls_ok_def f) (simp add: advance_def)
  have "y \<in> read_from adj st x" if "y \<in> read_from adj (advance node pos rest st) x" "y \<in> set (sc_stack st)" for x y
    using that assms(4) by (auto simp: r split: if_splits)
  then show "lowlinks_ok adj (advance node pos rest st)"
    using assms(1) unfolding scc_ok_def lowlinks_ok_def f by blast
qed

lemma arc_of_edge: "node < length adj \<Longrightarrow> pos < length (adj ! node) \<Longrightarrow> (node, adj ! node ! pos) \<in> arcs adj"
  by (simp add: arcs_def)

lemma seen_bound: "shape_ok adj st \<Longrightarrow> v \<in> seen st \<Longrightarrow> v < length adj"
  by (auto simp: shape_ok_def seen_def)

lemma gray_stack: "calls_ok st \<Longrightarrow> g \<in> gray st \<Longrightarrow> g \<in> set (sc_stack st)"
  by (auto simp: calls_ok_def)

lemma scc_ok_lower:
  assumes "scc_ok adj st" "sc_calls st = (node, pos) # rest" "pos < length (adj ! node)"
    and child: "adj ! node ! pos \<in> set (sc_stack st)"
  shows "scc_ok adj (lower node (number st (adj ! node ! pos)) (advance node pos rest st))"
proof -
  let ?c = "adj ! node ! pos"
  let ?st = "lower node (number st ?c) (advance node pos rest st)"
  have ok: "shape_ok adj st" "calls_ok st" "explored_ok adj st" "paths_ok adj st" "lowlinks_ok adj st"
      "components_ok adj (sc_components st)" using assms(1) by (simp_all add: scc_ok_def)
  note f = advance_fields [OF assms(2)]
  have fs: "gray ?st = gray st" "number ?st = number st" "seen ?st = seen st" "finished ?st = finished st"
      "sc_stack ?st = sc_stack st" "sc_components ?st = sc_components st"
      "read_from adj ?st v = (if v = node then insert ?c (read_from adj st node) else read_from adj st v)" for v
    using f read_from_advance [OF assms(2,3)]
    by (simp_all add: lower_def gray_def number_def seen_def finished_def read_from_def fun_eq_iff)
  have node: "node \<in> gray st" "node \<in> set (sc_stack st)" "node < length adj"
    using assms(2) gray_stack [OF ok(2), of node] seen_bound [OF ok(1)] stack_seen [OF ok(1)] by (auto simp: gray_def)
  have low: "sc_lowlink ?st ! v = (if v = node then min (sc_lowlink st ! node) (number st ?c) else sc_lowlink st ! v)" for v
    using node(3) ok(1) by (simp add: lower_def f shape_ok_def)
  have "shape_ok adj ?st"
    using ok(1) fs by (simp add: shape_ok_def) (simp add: lower_def f)
  moreover have "calls_ok ?st"
    using ok(2) assms(2) fs by (simp add: calls_ok_def) (simp add: lower_def advance_def)
  moreover have "explored_ok adj ?st" using ok(3) fs stack_seen [OF ok(1) child] by (auto simp: explored_ok_def split: if_splits)
  moreover have "paths_ok adj ?st" using ok(4) fs by (simp add: paths_ok_def)
  moreover have "lowlinks_ok adj ?st"
    unfolding lowlinks_ok_def fs(1,2,5)
  proof (intro conjI ballI impI)
    fix v assume v: "v \<in> gray st"
    show "sc_lowlink ?st ! v \<le> number st v" using ok(5) v by (auto simp: low lowlinks_ok_def min_le_iff_disj)
    obtain w where "w \<in> set (sc_stack st)" "number st w = sc_lowlink st ! v" "reach adj v w"
      using ok(5) v by (auto simp: lowlinks_ok_def)
    moreover have "reach adj node ?c" using arc_of_edge [OF node(3) assms(3)] reach_arc [OF reach_refl] by blast
    ultimately show "\<exists>w\<in>set (sc_stack st). number st w = sc_lowlink ?st ! v \<and> reach adj v w"
      using child by (auto simp: low min_def)
  next
    fix u x y
    assume u: "u \<in> gray st" and xy: "x \<in> set (sc_stack st)" "y \<in> set (sc_stack st)"
      and a: "number st u \<le> number st x \<and> y \<in> read_from adj ?st x \<and> number st y < number st u"
    show "\<exists>g\<in>gray st. number st u \<le> number st g \<and> number st g \<le> number st x \<and> sc_lowlink ?st ! g \<le> number st y"
    proof (cases "y \<in> read_from adj st x")
      case True
      from lowlinksD [OF ok(5) u xy _ this] a obtain g where "g \<in> gray st" "number st u \<le> number st g"
          "number st g \<le> number st x" "sc_lowlink st ! g \<le> number st y" by blast
      then show ?thesis by (intro bexI [of _ g]) (auto simp: low)
    next
      case False
      then have "x = node" "y = ?c" using a by (auto simp: fs(7) split: if_splits)
      then show ?thesis using node(1) a by (intro bexI [of _ node]) (auto simp: low)
    qed
  qed
  ultimately show ?thesis using ok(6) fs(6) by (simp add: scc_ok_def)
qed

lemma follow_edge_ok:
  assumes "scc_ok adj st" "sc_calls st = (node, pos) # rest" "pos < length (adj ! node)" "graph_ok adj"
  shows "scc_ok adj (follow_edge node (adj ! node ! pos) (st\<lparr>sc_calls := (node, Suc pos) # rest\<rparr>))"
proof -
  let ?c = "adj ! node ! pos"
  have ok: "shape_ok adj st" "calls_ok st" "explored_ok adj st" using assms(1) by (simp_all add: scc_ok_def)
  note f = advance_fields [OF assms(2)] and r = read_from_advance [OF assms(2,3)]
  have node: "node < length adj" "node \<in> set (sc_stack st)"
    using assms(2) gray_stack [OF ok(2), of node] seen_bound [OF ok(1)] stack_seen [OF ok(1)] by (auto simp: gray_def)
  have c: "?c < length adj" using assms(3,4) node(1) by (simp add: graph_ok_def list_all_length)
  have len: "length (sc_index st) = length adj" "length (sc_on_stack st) = length adj" using ok(1) by (simp_all add: shape_ok_def)
  show ?thesis
  proof (cases "sc_index st ! ?c")
    case None
    then have new: "?c \<notin> seen st" by (simp add: seen_def)
    then have "?c \<notin> set (sc_stack st)" using stack_seen [OF ok(1)] by blast
    note adv = advance_ok [OF assms(1,2,3) this]
    have "scc_ok adj (open_node ?c (advance node pos rest st))"
    proof (rule scc_ok_open [OF adv])
      show "\<forall>u\<in>seen (advance node pos rest st). read_from adj (advance node pos rest st) u \<subseteq> insert ?c (seen (advance node pos rest st))"
        using ok(3) by (auto simp: f r explored_ok_def split: if_splits)
      show "?c \<notin> seen (advance node pos rest st)" using new by (simp add: f)
      show "sc_calls (advance node pos rest st) = [] \<or>
          (\<exists>t p r. sc_calls (advance node pos rest st) = (t, p) # r \<and> (t, ?c) \<in> arcs adj)"
        using arc_of_edge [OF node(1) assms(3)] by (simp add: advance_def)
    qed (rule c)
    then show ?thesis using None by (simp add: follow_edge_def advance_def)
  next
    case (Some i)
    then have i: "i = number st ?c" "?c \<in> seen st" using c len by (simp_all add: number_def seen_def)
    show ?thesis
    proof (cases "sc_on_stack st ! ?c")
      case True
      then have "?c \<in> set (sc_stack st)" using ok(1) c by (simp add: shape_ok_def)
      from scc_ok_lower [OF assms(1,2,3) this] show ?thesis
        using True Some i by (simp add: follow_edge_def advance_def)
    next
      case False
      then have "?c \<notin> set (sc_stack st)" using ok(1) c by (simp add: shape_ok_def)
      note adv = advance_ok [OF assms(1,2,3) this]
      have "explored_ok adj (advance node pos rest st)" using ok(3) i(2) by (auto simp: explored_ok_def f r split: if_splits)
      then have "scc_ok adj (advance node pos rest st)" using adv by (simp add: scc_ok_def)
      then show ?thesis using Some False by (simp add: follow_edge_def advance_def)
    qed
  qed
qed


section \<open>Closing a node\<close>

lemma unmark: "v < length on \<Longrightarrow> on[m := False] ! v \<longleftrightarrow> on ! v \<and> v \<noteq> m"
  by (cases "m = v") simp_all

lemma pop_until_spec:
  assumes "node \<in> set s" "sorted_wrt (\<lambda>x y. (f x :: nat) > f y) s"
  obtains c s' on' where "pop_until node s on = (c, s', on')" "s = c @ s'" "set c = {x \<in> set s. f x \<ge> f node}"
    "length on' = length on" "\<forall>v<length on. on' ! v \<longleftrightarrow> on ! v \<and> v \<notin> set c"
  using assms
proof (induction s arbitrary: on thesis)
  case (Cons m s)
  show ?case
  proof (cases "m = node")
    case True
    then show ?thesis using Cons.prems by (intro Cons.prems(1) [of "[m]" s "on[m := False]"]) (auto simp: unmark)
  next
    case False
    then have m: "node \<in> set s" "sorted_wrt (\<lambda>x y. f x > f y) s" "f m > f node" using Cons.prems by auto
    obtain c s' on' where c: "pop_until node s (on[m := False]) = (c, s', on')" "s = c @ s'"
        "set c = {x \<in> set s. f x \<ge> f node}" "length on' = length (on[m := False])"
        "\<forall>v<length (on[m := False]). on' ! v \<longleftrightarrow> on[m := False] ! v \<and> v \<notin> set c"
      by (rule Cons.IH [OF _ m(1,2), of "on[m := False]"], rule that, assumption+)
    show ?thesis
    proof (rule Cons.prems(1) [of "m # c" s' on'])
      show "pop_until node (m # s) on = (m # c, s', on')" using False c(1) by simp
      show "m # s = (m # c) @ s'" using c(2) by simp
      show "set (m # c) = {x \<in> set (m # s). f x \<ge> f node}"
        unfolding list.set(2) c(3) using m(3) by (intro equalityI subsetI) (auto simp: less_imp_le)
      show "length on' = length on" using c(4) by simp
      show "\<forall>v<length on. on' ! v \<longleftrightarrow> on ! v \<and> v \<notin> set (m # c)" using c(5) by (auto simp: unmark)
    qed
  qed
qed simp

text \<open>The call stack without its top, and the parent's lowlink lowered to it.\<close>

definition returned :: "nat \<Rightarrow> (nat \<times> nat) list \<Rightarrow> scc_state \<Rightarrow> scc_state" where
  "returned node rest st =
     (case rest of [] \<Rightarrow> st\<lparr>sc_calls := rest\<rparr>
      | (parent, _) # _ \<Rightarrow> lower parent (sc_lowlink st ! node) (st\<lparr>sc_calls := rest\<rparr>))"

lemma returned_fields:
  "number (returned node rest st) = number st" "seen (returned node rest st) = seen st"
  "finished (returned node rest st) = finished st" "sc_stack (returned node rest st) = sc_stack st"
  "sc_components (returned node rest st) = sc_components st" "sc_on_stack (returned node rest st) = sc_on_stack st"
  "sc_index (returned node rest st) = sc_index st" "sc_next_index (returned node rest st) = sc_next_index st"
  "sc_calls (returned node rest st) = rest" "gray (returned node rest st) = fst ` set rest"
  "length (sc_lowlink (returned node rest st)) = length (sc_lowlink st)"
  by (auto simp: returned_def lower_def number_def seen_def finished_def gray_def split: list.split)

lemma close_node_eq:
  "close_node node rest st =
     (let st' = returned node rest st in
      if Some (sc_lowlink st' ! node) = sc_index st' ! node then
        (case pop_until node (sc_stack st') (sc_on_stack st') of
           (c, s, on) \<Rightarrow> st'\<lparr>sc_stack := s, sc_on_stack := on, sc_components := sc_components st' @ [c]\<rparr>)
      else st')"
  by (cases rest) (simp_all add: close_node_def returned_def Let_def split: prod.split)

lemma closing:
  assumes "scc_ok adj st" "sc_calls st = (node, pos) # rest" "\<not> pos < length (adj ! node)"
  shows "shape_ok adj (returned node rest st)" "calls_ok (returned node rest st)" "explored_ok adj (returned node rest st)"
    and "read_from adj (returned node rest st) = read_from adj st" "read_from adj st node = set (adj ! node)"
    and "gray st = insert node (fst ` set rest)" "node \<notin> fst ` set rest" "node \<in> set (sc_stack st)"
    and "node < length adj" "g \<in> fst ` set rest \<Longrightarrow> number st g < number st node"
    and "g \<in> fst ` set rest \<Longrightarrow> \<exists>p k r. rest = (p, k) # r \<and> number st g \<le> number st p"
proof -
  have ok: "shape_ok adj st" "calls_ok st" "explored_ok adj st" using assms(1) by (simp_all add: scc_ok_def)
  show g: "gray st = insert node (fst ` set rest)" using assms(2) by (simp add: gray_def)
  show n: "node \<notin> fst ` set rest" using calls_distinct [OF ok(2)] assms(2) by simp
  have "map_of rest node = None" using n by (simp add: map_of_eq_None_iff)
  then show r: "read_from adj (returned node rest st) = read_from adj st" "read_from adj st node = set (adj ! node)"
    using assms(2,3) by (auto simp: read_from_def returned_fields fun_eq_iff split: option.split)
  show "shape_ok adj (returned node rest st)" using ok(1) by (simp add: shape_ok_def returned_fields)
  show "calls_ok (returned node rest st)" using ok(2) assms(2) g by (auto simp: calls_ok_def returned_fields)
  show "explored_ok adj (returned node rest st)" using ok(3) r by (simp add: explored_ok_def returned_fields)
  show s: "node \<in> set (sc_stack st)" using gray_stack [OF ok(2)] g by blast
  show "node < length adj" using seen_bound [OF ok(1)] stack_seen [OF ok(1) s] by blast
  show "number st g < number st node" if "g \<in> fst ` set rest"
    using ok(2) assms(2) that by (auto simp: calls_ok_def)
  show "\<exists>p k r. rest = (p, k) # r \<and> number st g \<le> number st p" if "g \<in> fst ` set rest"
    using ok(2) assms(2) that by (cases rest) (auto simp: calls_ok_def less_imp_le)
qed

lemma lowlink_returned:
  assumes "shape_ok adj st" "calls_ok st" "sc_calls st = (node, pos) # rest"
  shows "sc_lowlink (returned node rest st) ! v =
    (if \<exists>k r. rest = (v, k) # r then min (sc_lowlink st ! v) (sc_lowlink st ! node) else sc_lowlink st ! v)"
proof (cases rest)
  case (Cons a r)
  then have "fst a \<in> gray st" using assms(3) by (auto simp: gray_def)
  then have "fst a < length (sc_lowlink st)"
    using seen_bound [OF assms(1)] stack_seen [OF assms(1)] gray_stack [OF assms(2)] assms(1) by (auto simp: shape_ok_def)
  then show ?thesis using Cons by (cases a) (auto simp: returned_def lower_def nth_list_update)
qed (simp add: returned_def)

text \<open>A node that is not the root of its component stays on the stack.\<close>

lemma close_inner:
  assumes ok: "scc_ok adj st" and calls: "sc_calls st = (node, pos) # rest" "\<not> pos < length (adj ! node)"
    and low: "sc_lowlink st ! node \<noteq> number st node"
  shows "scc_ok adj (returned node rest st)"
proof -
  have parts: "shape_ok adj st" "calls_ok st" "paths_ok adj st" "lowlinks_ok adj st" "components_ok adj (sc_components st)"
    using ok by (simp_all add: scc_ok_def)
  note c = closing [OF ok calls] and lr = lowlink_returned [OF parts(1,2) calls(1)]
  obtain w where w: "w \<in> set (sc_stack st)" "number st w = sc_lowlink st ! node" "reach adj node w" "number st w < number st node"
    using parts(4) low c(6) by (fastforce simp: lowlinks_ok_def)
  obtain h where h: "h \<in> gray st" "number st h \<le> number st w" "reach adj w h" using parts(3) w(1) by (auto simp: paths_ok_def)
  have h_rest: "h \<in> fst ` set rest" using h w(4) c(6) by auto
  have "paths_ok adj (returned node rest st)"
    unfolding paths_ok_def returned_fields
  proof (intro conjI ballI impI)
    fix x assume "x \<in> set (sc_stack st)"
    then obtain g where g: "g \<in> gray st" "number st g \<le> number st x" "reach adj x g" using parts(3) by (auto simp: paths_ok_def)
    show "\<exists>g\<in>fst ` set rest. number st g \<le> number st x \<and> reach adj x g"
    proof (cases "g = node")
      case True
      have "reach adj x h" using g(3) True w(3) h(3) reach_trans by metis
      then show ?thesis using h(2) w(4) g(2) True h_rest by (intro bexI [of _ h]) auto
    qed (use g c(6) in auto)
  next
    fix g x assume "g \<in> fst ` set rest" "x \<in> set (sc_stack st)" "number st g \<le> number st x"
    then show "reach adj g x" using parts(3) c(6) by (auto simp: paths_ok_def)
  qed
  moreover have "lowlinks_ok adj (returned node rest st)"
    unfolding lowlinks_ok_def returned_fields(1,4,10)
  proof (intro conjI ballI impI)
    fix v assume v: "v \<in> fst ` set rest"
    then have gv: "v \<in> gray st" using c(6) by blast
    show "sc_lowlink (returned node rest st) ! v \<le> number st v"
      using parts(4) gv by (auto simp: lr lowlinks_ok_def min_le_iff_disj)
    obtain y where "y \<in> set (sc_stack st)" "number st y = sc_lowlink st ! v" "reach adj v y"
      using parts(4) gv by (auto simp: lowlinks_ok_def)
    moreover have "reach adj v w"
      using parts(3) gv c(8) c(10) [OF v] w(3) reach_trans unfolding paths_ok_def by (meson less_imp_le)
    ultimately show "\<exists>w\<in>set (sc_stack st). number st w = sc_lowlink (returned node rest st) ! v \<and> reach adj v w"
      using w(1,2) by (auto simp: lr min_def)
  next
    fix u x y assume u: "u \<in> fst ` set rest" and xy: "x \<in> set (sc_stack st)" "y \<in> set (sc_stack st)"
      and a: "number st u \<le> number st x \<and> y \<in> read_from adj (returned node rest st) x \<and> number st y < number st u"
    have "u \<in> gray st" using u c(6) by blast
    from lowlinksD [OF parts(4) this xy] a c(4) obtain g where g: "g \<in> gray st" "number st u \<le> number st g"
        "number st g \<le> number st x" "sc_lowlink st ! g \<le> number st y" by auto
    show "\<exists>g\<in>fst ` set rest. number st u \<le> number st g \<and> number st g \<le> number st x \<and>
        sc_lowlink (returned node rest st) ! g \<le> number st y"
    proof (cases "g = node")
      case True
      obtain p k r where p: "rest = (p, k) # r" "number st u \<le> number st p" using c(11) [OF u] by blast
      have in_rest: "p \<in> fst ` set rest" using p(1) by simp
      have "sc_lowlink (returned node rest st) ! p \<le> sc_lowlink st ! node" using p(1) by (subst lr) auto
      then show ?thesis using p(2) g True in_rest c(10) [OF in_rest] by (intro bexI [of _ p]) auto
    next
      case False
      then show ?thesis using g c(6) by (intro bexI [of _ g]) (auto simp: lr)
    qed
  qed
  ultimately show ?thesis using c(1,2,3) parts(5) by (simp add: scc_ok_def returned_fields)
qed

text \<open>The root of a component: what is above it on the stack is its component.\<close>

lemma root_component:
  assumes ok: "scc_ok adj st" and calls: "sc_calls st = (node, pos) # rest" "\<not> pos < length (adj ! node)"
    and low: "sc_lowlink st ! node = number st node"
  defines "A \<equiv> {x \<in> set (sc_stack st). number st x \<ge> number st node}"
  shows "closed_set adj (A \<union> finished st)" "x \<in> A \<Longrightarrow> A = mutual adj x"
proof -
  have parts: "shape_ok adj st" "calls_ok st" "explored_ok adj st" "paths_ok adj st" "lowlinks_ok adj st"
      "components_ok adj (sc_components st)" using ok by (simp_all add: scc_ok_def)
  note c = closing [OF ok calls]
  have top: "number st g \<le> number st node" if "g \<in> gray st" for g
    using that c(6) c(10) [of g] by (cases "g = node") auto
  have inj: "x = y" if "x \<in> set (sc_stack st)" "y \<in> set (sc_stack st)" "number st x = number st y" for x y
    using parts(1) that by (auto simp: shape_ok_def sorted_wrt_iff_nth_less in_set_conv_nth) (metis nat_neq_iff)
  have top_eq: "g = node" if "g \<in> gray st" "number st node \<le> number st g" for g
    using that top inj gray_stack [OF parts(2)] c(8) by (metis le_antisym)
  have fin: "closed_set adj (finished st)" using parts(6) unfolding components_ok_def finished_def
    by (metis order_refl take_all)
  show closed: "closed_set adj (A \<union> finished st)"
    unfolding closed_set_def
  proof (intro ballI allI impI)
    fix u v assume u: "u \<in> A \<union> finished st" and arc: "(u, v) \<in> arcs adj"
    show "v \<in> A \<union> finished st"
    proof (cases "u \<in> finished st")
      case False
      then have u: "u \<in> set (sc_stack st)" "number st u \<ge> number st node" using u by (simp_all add: A_def)
      have "read_from adj st u = set (adj ! u)"
      proof (cases "u = node")
        case False
        then have "u \<notin> gray st" using top_eq u(2) by blast
        then have "map_of (sc_calls st) u = None" by (simp add: gray_def map_of_eq_None_iff)
        then show ?thesis by (simp add: read_from_def)
      qed (use c(5) in simp)
      then have v: "v \<in> read_from adj st u" "v \<in> seen st"
        using arc parts(3) stack_seen [OF parts(1) u(1)] by (auto simp: arcs_def explored_ok_def)
      show ?thesis
      proof (rule ccontr)
        assume "\<not> ?thesis"
        then have "v \<in> set (sc_stack st)" "number st v < number st node"
          using v(2) parts(1) by (auto simp: A_def shape_ok_def)
        from lowlinksD [OF parts(5) _ u(1) this(1) u(2) v(1) this(2)] c(6) obtain g where
          "g \<in> gray st" "number st node \<le> number st g" "sc_lowlink st ! g \<le> number st v" by blast
        moreover from this have "g = node" using top_eq by blast
        ultimately show False using low \<open>number st v < number st node\<close> by simp
      qed
    qed (use fin arc in \<open>auto simp: closed_set_def\<close>)
  qed
  have to_node: "reach adj y node" if "y \<in> A" for y
  proof -
    obtain g where g: "g \<in> gray st" "reach adj y g" using parts(4) \<open>y \<in> A\<close> by (auto simp: paths_ok_def A_def)
    then have "reach adj g node" using parts(4) top c(8) by (auto simp: paths_ok_def)
    then show ?thesis using g(2) reach_trans by blast
  qed
  have from_node: "reach adj node y" if "y \<in> A" for y using parts(4) c(6) that by (auto simp: paths_ok_def A_def)
  show "A = mutual adj x" if x: "x \<in> A"
  proof (intro equalityI subsetI)
    fix y assume "y \<in> A"
    then have "reach adj x y" "reach adj y x"
      using reach_trans [OF to_node [OF x] from_node, of y] reach_trans [OF to_node from_node [OF x], of y] by simp_all
    then show "y \<in> mutual adj x" by (simp add: mutual_def)
  next
    fix y assume y: "y \<in> mutual adj x"
    then have "y \<in> A \<union> finished st" using reach_closed [OF closed, of x y] x by (simp add: mutual_def)
    moreover have "y \<notin> finished st"
    proof
      assume "y \<in> finished st"
      then have "x \<in> finished st" using reach_closed [OF fin, of y x] y by (simp add: mutual_def)
      then show False using x parts(1) by (auto simp: A_def shape_ok_def)
    qed
    ultimately show "y \<in> A" by blast
  qed
qed


lemma close_root:
  assumes ok: "scc_ok adj st" and calls: "sc_calls st = (node, pos) # rest" "\<not> pos < length (adj ! node)"
    and low: "sc_lowlink st ! node = number st node"
    and pop: "sc_stack st = c @ s'" "set c = {x \<in> set (sc_stack st). number st x \<ge> number st node}"
      "length on' = length adj" "\<forall>v<length adj. on' ! v \<longleftrightarrow> sc_on_stack st ! v \<and> v \<notin> set c"
  shows "scc_ok adj ((returned node rest st)\<lparr>sc_stack := s', sc_on_stack := on', sc_components := sc_components st @ [c]\<rparr>)"
proof -
  let ?st = "(returned node rest st)\<lparr>sc_stack := s', sc_on_stack := on', sc_components := sc_components st @ [c]\<rparr>"
  have parts: "shape_ok adj st" "calls_ok st" "explored_ok adj st" "paths_ok adj st" "lowlinks_ok adj st"
      "components_ok adj (sc_components st)" using ok by (simp_all add: scc_ok_def)
  note cl = closing [OF ok calls] and lr = lowlink_returned [OF parts(1,2) calls(1)]
    and comp = root_component [OF ok calls low, folded pop(2)]
  have "sorted_wrt (\<lambda>x y. number st x > number st y) (c @ s')" using parts(1) pop(1) by (simp add: shape_ok_def)
  then have dist: "distinct (c @ s')" by (rule sorted_distinct)
  have s': "x \<in> set s' \<longleftrightarrow> x \<in> set (sc_stack st) \<and> number st x < number st node" for x
  proof -
    have "x \<in> set c \<longleftrightarrow> x \<in> set (sc_stack st) \<and> number st x \<ge> number st node" by (subst pop(2)) simp
    moreover have "x \<in> set (sc_stack st) \<longleftrightarrow> x \<in> set c \<or> x \<in> set s'" "\<not> (x \<in> set c \<and> x \<in> set s')"
      using pop(1) dist by auto
    ultimately show ?thesis using not_le [of "number st node" "number st x"] by blast
  qed
  have gray': "g \<in> set s'" "g \<in> gray st" if "g \<in> fst ` set rest" for g
    using that cl(6) cl(10) [OF that] gray_stack [OF parts(2), of g] by (auto simp: s')
  have f: "number ?st = number st" "seen ?st = seen st" "gray ?st = fst ` set rest"
      "finished ?st = finished st \<union> set c" "read_from adj ?st = read_from adj st"
      "sc_lowlink ?st = sc_lowlink (returned node rest st)"
    using cl(4) returned_fields [of node rest st]
    by (auto simp: number_def seen_def gray_def finished_def read_from_def fun_eq_iff)
  have same: "sc_lowlink ?st ! v = sc_lowlink st ! v" if "v \<in> fst ` set rest" for v
    using parts(5) gray'(2) [OF that] cl(10) [OF that] low by (auto simp: f lr lowlinks_ok_def)
  have "shape_ok adj ?st"
    using parts(1) pop(1,3,4) dist unfolding shape_ok_def f
    by (auto simp: returned_fields sorted_wrt_append)
  moreover have "calls_ok ?st" using cl(2) gray'(1) f by (auto simp: calls_ok_def returned_fields)
  moreover have "explored_ok adj ?st" using parts(3) by (simp add: explored_ok_def f)
  moreover have "paths_ok adj ?st"
    unfolding paths_ok_def f
  proof (intro conjI ballI impI)
    fix x assume "x \<in> set (sc_stack ?st)"
    then have x: "x \<in> set (sc_stack st)" "number st x < number st node" by (simp_all add: s')
    then obtain g where "g \<in> gray st" "number st g \<le> number st x" "reach adj x g" using parts(4) by (auto simp: paths_ok_def)
    then show "\<exists>g\<in>fst ` set rest. number st g \<le> number st x \<and> reach adj x g" using x(2) cl(6) by auto
  next
    fix g x assume "g \<in> fst ` set rest" "x \<in> set (sc_stack ?st)" "number st g \<le> number st x"
    then show "reach adj g x" using parts(4) gray'(2) by (auto simp: paths_ok_def s')
  qed
  moreover have "lowlinks_ok adj ?st"
    unfolding lowlinks_ok_def f(1,3,5)
  proof (intro conjI ballI impI)
    fix v assume v: "v \<in> fst ` set rest"
    show "sc_lowlink ?st ! v \<le> number st v" using same [OF v] parts(5) gray'(2) [OF v] by (simp add: lowlinks_ok_def)
    obtain w where "w \<in> set (sc_stack st)" "number st w = sc_lowlink st ! v" "reach adj v w" "sc_lowlink st ! v \<le> number st v"
      using parts(5) gray'(2) [OF v] by (auto simp: lowlinks_ok_def)
    then show "\<exists>w\<in>set (sc_stack ?st). number st w = sc_lowlink ?st ! v \<and> reach adj v w"
      using same [OF v] cl(10) [OF v] by (intro bexI [of _ w]) (simp_all add: s')
  next
    fix u x y assume u: "u \<in> fst ` set rest" and xy: "x \<in> set (sc_stack ?st)" "y \<in> set (sc_stack ?st)"
      and a: "number st u \<le> number st x \<and> y \<in> read_from adj st x \<and> number st y < number st u"
    have xs: "x \<in> set (sc_stack st)" "y \<in> set (sc_stack st)" "number st x < number st node" using xy by (simp_all add: s')
    from lowlinksD [OF parts(5) gray'(2) [OF u] xs(1,2)] a obtain g where g: "g \<in> gray st" "number st u \<le> number st g"
        "number st g \<le> number st x" "sc_lowlink st ! g \<le> number st y" by blast
    then have "g \<in> fst ` set rest" using xs(3) cl(6) by auto
    then show "\<exists>g\<in>fst ` set rest. number st u \<le> number st g \<and> number st g \<le> number st x \<and> sc_lowlink ?st ! g \<le> number st y"
      using g same by (intro bexI [of _ g]) simp_all
  qed
  moreover have "components_ok adj (sc_components st @ [c])"
  proof -
    have "c \<noteq> []" using pop(2) cl(8) by auto
    moreover have "closed_set adj (\<Union> (set ` set (take k (sc_components st @ [c]))))" if "k \<le> Suc (length (sc_components st))" for k
    proof (cases "k \<le> length (sc_components st)")
      case True
      then show ?thesis using parts(6) by (simp add: components_ok_def)
    next
      case False
      then have "k = Suc (length (sc_components st))" using that by simp
      then show ?thesis using comp(1) by (simp add: finished_def Un_commute)
    qed
    moreover have "set c \<inter> finished st = {}" using parts(1) pop(1) by (auto simp: shape_ok_def)
    ultimately show ?thesis using parts(6) dist comp(2) by (auto simp: components_ok_def finished_def)
  qed
  ultimately show ?thesis by (simp add: scc_ok_def)
qed

lemma close_node_ok:
  assumes "scc_ok adj st" "sc_calls st = (node, pos) # rest" "\<not> pos < length (adj ! node)"
  shows "scc_ok adj (close_node node rest st)"
proof -
  have parts: "shape_ok adj st" "calls_ok st" using assms(1) by (simp_all add: scc_ok_def)
  note cl = closing [OF assms]
  have "Some (number st node) = sc_index st ! node" "\<nexists>k r. rest = (node, k) # r"
    using stack_seen [OF parts(1) cl(8)] cl(7) by (auto simp: seen_def number_def)
  then have root: "Some (sc_lowlink (returned node rest st) ! node) = sc_index (returned node rest st) ! node \<longleftrightarrow>
      sc_lowlink st ! node = number st node"
    by (subst lowlink_returned [OF parts assms(2)]) (auto simp: returned_fields dest: sym)
  show ?thesis
  proof (cases "sc_lowlink st ! node = number st node")
    case True
    obtain c s' on' where "pop_until node (sc_stack st) (sc_on_stack st) = (c, s', on')" "sc_stack st = c @ s'"
        "set c = {x \<in> set (sc_stack st). number st x \<ge> number st node}" "length on' = length (sc_on_stack st)"
        "\<forall>v<length (sc_on_stack st). on' ! v \<longleftrightarrow> sc_on_stack st ! v \<and> v \<notin> set c"
    proof (rule pop_until_spec [OF cl(8), where f = "number st"])
      show "sorted_wrt (\<lambda>x y. number st x > number st y) (sc_stack st)" using parts(1) by (simp add: shape_ok_def)
    qed
    moreover have "length (sc_on_stack st) = length adj" using parts(1) by (simp add: shape_ok_def)
    ultimately show ?thesis using close_root [OF assms True] root True
      by (simp add: close_node_eq Let_def returned_fields)
  next
    case False
    then show ?thesis using close_inner [OF assms] root by (simp add: close_node_eq Let_def)
  qed
qed

section \<open>The whole run\<close>

lemma scc_step_ok:
  assumes "scc_ok adj st" "graph_ok adj" "sc_calls st = (node, pos) # rest"
  obtains st' where "scc_step adj node pos rest st = Some st'" "scc_ok adj st'" "seen st \<subseteq> seen st'"
proof (cases "pos < length (adj ! node)")
  case True
  have ok: "shape_ok adj st" "calls_ok st" using assms(1) by (simp_all add: scc_ok_def)
  have "node < length adj"
    using assms(3) gray_stack [OF ok(2), of node] seen_bound [OF ok(1)] stack_seen [OF ok(1)] by (auto simp: gray_def)
  then have "adj ! node ! pos < length (sc_index st)"
    using True assms(2) ok(1) by (simp add: graph_ok_def list_all_length shape_ok_def)
  then show ?thesis using True follow_edge_ok [OF assms(1,3) True assms(2)]
    by (intro that [of "follow_edge node (adj ! node ! pos) (st\<lparr>sc_calls := (node, Suc pos) # rest\<rparr>)"])
      (auto simp: scc_step_def Let_def follow_edge_def lower_def open_node_def seen_def nth_list_update split: option.splits if_splits)
next
  case False
  then show ?thesis using close_node_ok [OF assms(1,3) False]
    by (intro that [of "close_node node rest st"]) (auto simp: scc_step_def seen_def close_node_fields)
qed

lemma scc_run_ok:
  assumes "scc_ok adj st" "graph_ok adj"
  shows "\<exists>st'. scc_run adj st = Some st' \<and> scc_ok adj st' \<and> seen st \<subseteq> seen st' \<and> sc_calls st' = []"
  using assms
proof (induction adj st rule: scc_run.induct)
  case (1 adj st)
  show ?case
  proof (cases "sc_calls st")
    case Nil
    then show ?thesis using 1(2) by (simp add: scc_run.simps [of adj st])
  next
    case (Cons a rest)
    obtain node pos where a: "a = (node, pos)" by (cases a)
    obtain st' where st': "scc_step adj node pos rest st = Some st'" "scc_ok adj st'" "seen st \<subseteq> seen st'"
      using scc_step_ok [OF 1(2,3) Cons [unfolded a]] by blast
    from 1(1) [OF Cons a [symmetric] st'(1,2) 1(3)] show ?thesis
      using st'(1,3) Cons a by (auto simp: scc_run.simps [of adj st])
  qed
qed

definition at_rest :: "nat list list \<Rightarrow> scc_state \<Rightarrow> bool" where
  "at_rest adj st \<longleftrightarrow> scc_ok adj st \<and> sc_calls st = [] \<and> sc_stack st = []"

lemma run_rest: "scc_ok adj st \<Longrightarrow> sc_calls st = [] \<Longrightarrow> at_rest adj st"
  by (cases "sc_stack st") (auto simp: at_rest_def scc_ok_def paths_ok_def gray_def)

lemma visit_root_ok:
  assumes "at_rest adj st" "graph_ok adj" "root < length adj"
  shows "\<exists>st'. visit_root adj st root = Some st' \<and> at_rest adj st' \<and> insert root (seen st) \<subseteq> seen st'"
proof (cases "sc_index st ! root")
  case None
  have ok: "scc_ok adj st" "sc_calls st = []" "sc_stack st = []" using assms(1) by (simp_all add: at_rest_def)
  have "length (sc_index st) = length adj" using ok(1) by (simp add: scc_ok_def shape_ok_def)
  then have seen: "seen (open_node root st) = insert root (seen st)" using assms(3) by (simp add: seen_open)
  have "scc_ok adj (open_node root st)"
    by (rule scc_ok_open) (use ok assms(3) None in \<open>auto simp: scc_ok_def explored_ok_def seen_def\<close>)
  from scc_run_ok [OF this assms(2)] show ?thesis using None run_rest seen by (auto simp: visit_root_def)
next
  case (Some i)
  then have "root \<in> seen st" using assms(1,3) by (simp add: seen_def at_rest_def scc_ok_def shape_ok_def)
  then show ?thesis using Some assms(1) by (simp add: visit_root_def)
qed

lemma visit_roots_ok:
  assumes "graph_ok adj"
  shows "at_rest adj st \<Longrightarrow> list_all (\<lambda>r. r < length adj) rs \<Longrightarrow>
    \<exists>st'. visit_roots adj rs st = Some st' \<and> at_rest adj st' \<and> set rs \<union> seen st \<subseteq> seen st'"
proof (induction rs arbitrary: st)
  case (Cons r rs)
  then obtain st1 where "visit_root adj st r = Some st1" "at_rest adj st1" "insert r (seen st) \<subseteq> seen st1"
    using visit_root_ok [OF _ assms] by fastforce
  moreover from Cons.IH [OF this(2)] Cons.prems(2) obtain st' where
    "visit_roots adj rs st1 = Some st'" "at_rest adj st'" "set rs \<union> seen st1 \<subseteq> seen st'" by auto
  ultimately show ?case by auto
qed simp

lemma components_of_graph:
  assumes "graph_ok adj"
  shows "\<exists>cs. strongly_connected_components adj = Some cs \<and> distinct (concat cs) \<and>
    set ` set cs = {mutual adj u | u. u < length adj} \<and>
    (\<forall>k\<le>length cs. closed_set adj (\<Union> (set ` set (take k cs))))"
proof -
  let ?st = "\<lparr>sc_index = replicate (length adj) None, sc_lowlink = replicate (length adj) 0,
    sc_on_stack = replicate (length adj) False, sc_stack = [], sc_components = [], sc_next_index = 0, sc_calls = []\<rparr>"
  have "at_rest adj ?st"
    by (auto simp: at_rest_def scc_ok_def shape_ok_def calls_ok_def explored_ok_def paths_ok_def lowlinks_ok_def
        components_ok_def gray_def seen_def finished_def closed_set_def)
  from visit_roots_ok [OF assms this, of "[0..<length adj]"] obtain st' where
    st': "visit_roots adj [0..<length adj] ?st = Some st'" "at_rest adj st'" "{..<length adj} \<subseteq> seen st'"
    by (auto simp: list_all_iff atLeast0LessThan)
  let ?cs = "sc_components st'"
  have ok: "components_ok adj ?cs" "shape_ok adj st'" "sc_stack st' = []" using st'(2) by (simp_all add: at_rest_def scc_ok_def)
  have "seen st' = {..<length adj}" using st'(3) seen_bound [OF ok(2)] by auto
  then have all: "\<Union> (set ` set ?cs) = {..<length adj}" using ok(2,3) by (simp add: shape_ok_def finished_def)
  have "set ` set ?cs = {mutual adj u | u. u < length adj}"
  proof (intro equalityI subsetI)
    fix A assume "A \<in> set ` set ?cs"
    then obtain c where c: "c \<in> set ?cs" "A = set c" by blast
    then have "c \<noteq> []" "\<forall>v\<in>set c. set c = mutual adj v" using ok(1) by (auto simp: components_ok_def list_all_iff)
    moreover have "hd c < length adj" using c(1) all \<open>c \<noteq> []\<close> by (metis UnionI hd_in_set imageI lessThan_iff)
    ultimately show "A \<in> {mutual adj u | u. u < length adj}" using c(2) hd_in_set [of c] by blast
  next
    fix A assume "A \<in> {mutual adj u | u. u < length adj}"
    then obtain u where u: "u < length adj" "A = mutual adj u" by blast
    then obtain c where "c \<in> set ?cs" "u \<in> set c" using all by blast
    then show "A \<in> set ` set ?cs" using ok(1) u(2) by (auto simp: components_ok_def list_all_iff)
  qed
  then show ?thesis using st'(1) ok(1) by (simp add: strongly_connected_components_def Let_def components_ok_def)
qed


text \<open>
  C4. The iterative Tarjan never leaves its arrays on a well-formed adjacency list, ends, and returns each
  strongly connected component of the graph exactly once, without repetition, in reverse topological
  order: every arc out of a component leads to an earlier one.
\<close>

theorem tarjan_finds_components:
  assumes "graph_ok adj"
  shows "\<exists>cs. strongly_connected_components adj = Some cs \<and> distinct (concat cs) \<and>
    set ` set cs = {mutual adj u | u. u < length adj} \<and>
    (\<forall>k\<le>length cs. closed_set adj (\<Union> (set ` set (take k cs))))"
  using components_of_graph [OF assms] .

theorem tarjan_finds_components_witness:
  "\<exists>cs. strongly_connected_components [[1], [0, 2], []] = Some cs \<and>
    set ` set cs = {mutual [[1], [0, 2], []] u | u. u < length [[1], [0, 2], []::nat list]}"
  using tarjan_finds_components [of "[[1], [0, 2], []]"] by (auto simp: graph_ok_def)

end
