(* ===== verification/Components.thy ===== *)
theory Components
  imports Tarjan Prelude
begin

text \<open>
  The named graphs of the analyses: names are interned to dense ids in first-seen order, pairs become
  an adjacency list and the components come back as names. Shared by \<open>dead_clusters\<close> and by the import
  cycles of \<open>graph_intel\<close>; the lemmas say that its components are the strongly connected sets of names.
\<close>

section \<open>Interning\<close>

record name_table =
  nt_ids :: "str \<rightharpoonup> nat"
  nt_names :: "str list"

definition intern :: "str \<Rightarrow> name_table \<Rightarrow> nat \<times> name_table" where
  "intern name t =
     (case nt_ids t name of
        Some existing \<Rightarrow> (existing, t)
      | None \<Rightarrow> (length (nt_names t),
          t\<lparr>nt_ids := (nt_ids t)(name \<mapsto> length (nt_names t)), nt_names := nt_names t @ [name]\<rparr>))"

definition no_names :: name_table where "no_names = \<lparr>nt_ids = Map.empty, nt_names = []\<rparr>"

definition names_ok :: "name_table \<Rightarrow> bool" where
  "names_ok t \<longleftrightarrow> distinct (nt_names t) \<and> (\<forall>n i. nt_ids t n = Some i \<longleftrightarrow> i < length (nt_names t) \<and> nt_names t ! i = n)"

definition table_grows :: "name_table \<Rightarrow> name_table \<Rightarrow> bool" where
  "table_grows t t' \<longleftrightarrow> (\<exists>more. nt_names t' = nt_names t @ more)"

lemma names_ok_empty: "names_ok no_names"
  by (simp add: names_ok_def no_names_def)

lemma table_grows_refl [simp]: "table_grows t t"
  by (simp add: table_grows_def)

lemma table_grows_trans: "table_grows t t' \<Longrightarrow> table_grows t' t'' \<Longrightarrow> table_grows t t''"
  by (auto simp: table_grows_def)

lemma table_grows_nth:
  "table_grows t t' \<Longrightarrow> i < length (nt_names t) \<Longrightarrow> i < length (nt_names t') \<and> nt_names t' ! i = nt_names t ! i"
  by (auto simp: table_grows_def nth_append)

lemma intern_facts:
  assumes "names_ok t" "intern name t = (i, t')"
  shows "names_ok t' \<and> i < length (nt_names t') \<and> nt_names t' ! i = name \<and> table_grows t t' \<and>
    set (nt_names t') = insert name (set (nt_names t))"
proof -
  have d: "distinct (nt_names t)" and ids: "\<And>n i. nt_ids t n = Some i \<longleftrightarrow> i < length (nt_names t) \<and> nt_names t ! i = n"
    using assms(1) by (simp_all add: names_ok_def)
  show ?thesis
  proof (cases "nt_ids t name")
    case None
    then have new: "name \<notin> set (nt_names t)" by (metis ids in_set_conv_nth not_None_eq)
    have t': "i = length (nt_names t)" "t' = t\<lparr>nt_ids := (nt_ids t)(name \<mapsto> length (nt_names t)), nt_names := nt_names t @ [name]\<rparr>"
      using assms(2) None by (auto simp: intern_def)
    have "names_ok t'" using d ids new by (auto simp: names_ok_def t' nth_append less_Suc_eq in_set_conv_nth)
    then show ?thesis by (simp add: t' table_grows_def)
  next
    case (Some j)
    then have "i = j" "t' = t" using assms(2) by (simp_all add: intern_def)
    then show ?thesis using assms(1) ids [of name j] Some by auto
  qed
qed

lemmas intern_ok = intern_facts [THEN conjunct1] intern_facts [THEN conjunct2, THEN conjunct1]
  intern_facts [THEN conjunct2, THEN conjunct2, THEN conjunct1]
  intern_facts [THEN conjunct2, THEN conjunct2, THEN conjunct2, THEN conjunct1]
  intern_facts [THEN conjunct2, THEN conjunct2, THEN conjunct2, THEN conjunct2]

lemma length_intern: "length (nt_names (snd (intern name t))) =
  length (nt_names t) + (if nt_ids t name = None then 1 else 0)"
  by (auto simp: intern_def split: option.split)

section \<open>Adjacency\<close>

definition adjacency_of :: "nat \<Rightarrow> (nat \<times> nat) list \<Rightarrow> nat list list" where
  "adjacency_of n pairs = foldl (\<lambda>adj (s, t). adj[s := adj ! s @ [t]]) (replicate n []) pairs"

definition pairs_ok :: "nat \<Rightarrow> (nat \<times> nat) list \<Rightarrow> bool" where
  "pairs_ok n pairs \<longleftrightarrow> list_all (\<lambda>(s, t). s < n \<and> t < n) pairs"

lemma adjacency_of_spec:
  assumes "pairs_ok n pairs"
  shows "length (adjacency_of n pairs) = n \<and> (\<forall>i<n. set (adjacency_of n pairs ! i) = {j. (i, j) \<in> set pairs})"
  using assms
proof (induction pairs rule: rev_induct)
  case (snoc p pairs)
  then show ?case by (auto simp: adjacency_of_def pairs_ok_def nth_list_update split: prod.split if_splits)
qed (simp add: adjacency_of_def)

lemma adjacency_arcs:
  assumes "pairs_ok n pairs"
  shows "arcs (adjacency_of n pairs) = set pairs" "graph_ok (adjacency_of n pairs)"
proof -
  show "arcs (adjacency_of n pairs) = set pairs"
    using adjacency_of_spec [OF assms] assms by (auto simp: arcs_def pairs_ok_def list_all_iff)
  show "graph_ok (adjacency_of n pairs)"
    using adjacency_of_spec [OF assms] assms by (fastforce simp: graph_ok_def pairs_ok_def list_all_iff in_set_conv_nth)
qed

section \<open>Components of a named graph\<close>

definition joined :: "('a \<times> 'a) set \<Rightarrow> 'a \<Rightarrow> 'a set" where
  "joined r a = {b. (a, b) \<in> r\<^sup>* \<and> (b, a) \<in> r\<^sup>*}"

lemma joined_refl: "a \<in> joined r a"
  by (simp add: joined_def)

lemma joined_eq: "b \<in> joined r a \<Longrightarrow> joined r b = joined r a"
  by (auto simp: joined_def)

lemma rtrancl_named:
  assumes "distinct names" "pairs_ok (length names) pairs" "i < length names" "j < length names"
  shows "(i, j) \<in> (set pairs)\<^sup>* \<longleftrightarrow> (names ! i, names ! j) \<in> ((\<lambda>(s, t). (names ! s, names ! t)) ` set pairs)\<^sup>*"
    (is "_ \<longleftrightarrow> _ \<in> ?r\<^sup>*")
proof
  assume "(i, j) \<in> (set pairs)\<^sup>*"
  then show "(names ! i, names ! j) \<in> ?r\<^sup>*"
  proof (induction rule: rtrancl_induct)
    case (step y z)
    then have "(names ! y, names ! z) \<in> ?r" by force
    then show ?case using step.IH by (rule rtrancl_into_rtrancl [rotated])
  qed simp
next
  have "\<exists>k<length names. names ! k = b \<and> (i, k) \<in> (set pairs)\<^sup>*" if "(names ! i, b) \<in> ?r\<^sup>*" for b
    using that
  proof (induction rule: rtrancl_induct)
    case base
    then show ?case using assms(3) by auto
  next
    case (step y z)
    then obtain k s t where "k < length names" "names ! k = y" "(i, k) \<in> (set pairs)\<^sup>*" "(s, t) \<in> set pairs"
        "names ! s = y" "names ! t = z" by auto
    moreover from this have "s < length names" "t < length names" using assms(2) by (auto simp: pairs_ok_def list_all_iff)
    moreover have "k = s" using nth_eq_iff_index_eq [OF assms(1), of k s] calculation by simp
    ultimately show ?case by (intro exI [of _ t]) (auto intro: rtrancl_into_rtrancl)
  qed
  moreover assume "(names ! i, names ! j) \<in> ?r\<^sup>*"
  ultimately show "(i, j) \<in> (set pairs)\<^sup>*" using assms(1,4) by (metis nth_eq_iff_index_eq)
qed

lemma pairs_reach:
  assumes "pairs_ok n pairs" "(i, k) \<in> (set pairs)\<^sup>*" "i < n"
  shows "k < n"
  using assms(2,3) by (induction rule: rtrancl_induct) (use assms(1) in \<open>auto simp: pairs_ok_def list_all_iff\<close>)

lemma named_mutual:
  assumes "distinct names" "pairs_ok (length names) pairs" "i < length names"
    and r: "r = (\<lambda>(s, t). (names ! s, names ! t)) ` set pairs"
  shows "(!) names ` mutual (adjacency_of (length names) pairs) i = joined r (names ! i)"
    and "mutual (adjacency_of (length names) pairs) i \<subseteq> {..<length names}"
proof -
  have m: "mutual (adjacency_of (length names) pairs) i = {k. (i, k) \<in> (set pairs)\<^sup>* \<and> (k, i) \<in> (set pairs)\<^sup>*}"
    by (simp add: mutual_def reach_def adjacency_arcs [OF assms(2)])
  then show "mutual (adjacency_of (length names) pairs) i \<subseteq> {..<length names}"
    using pairs_reach [OF assms(2) _ assms(3)] by auto
  have onto: "\<exists>k<length names. names ! k = b" if "(names ! i, b) \<in> r\<^sup>*" for b
    using that
  proof (cases rule: rtranclE)
    case (step y)
    then obtain s t where "(s, t) \<in> set pairs" "b = names ! t" by (auto simp: r)
    then show ?thesis using assms(2) by (auto simp: pairs_ok_def list_all_iff)
  qed (use assms(3) in auto)
  note named = rtrancl_named [OF assms(1,2), folded r]
  show "(!) names ` mutual (adjacency_of (length names) pairs) i = joined r (names ! i)"
  proof (intro equalityI subsetI)
    fix b assume "b \<in> (!) names ` mutual (adjacency_of (length names) pairs) i"
    then obtain k where k: "b = names ! k" "(i, k) \<in> (set pairs)\<^sup>*" "(k, i) \<in> (set pairs)\<^sup>*" unfolding m by blast
    have "k < length names" by (rule pairs_reach [OF assms(2) k(2) assms(3)])
    then show "b \<in> joined r (names ! i)" using k named assms(3) by (simp add: joined_def)
  next
    fix b assume b: "b \<in> joined r (names ! i)"
    then obtain k where k: "k < length names" "names ! k = b" using onto by (auto simp: joined_def)
    have "k \<in> mutual (adjacency_of (length names) pairs) i"
      unfolding m using b k(1) named assms(3) by (simp add: joined_def k(2) [symmetric])
    then show "b \<in> (!) names ` mutual (adjacency_of (length names) pairs) i" using k(2) by blast
  qed
qed

lemma named_components:
  assumes "distinct names" "pairs_ok (length names) pairs"
    and "r = (\<lambda>(s, t). (names ! s, names ! t)) ` set pairs"
  obtains cs where "strongly_connected_components (adjacency_of (length names) pairs) = Some cs"
    "distinct (concat cs)" "\<forall>c\<in>set cs. c \<noteq> [] \<and> set c \<subseteq> {..<length names}"
    "(\<lambda>c. (!) names ` set c) ` set cs = joined r ` set names"
    "\<Union> (set ` set cs) = {..<length names}"
proof -
  let ?adj = "adjacency_of (length names) pairs"
  have len: "length ?adj = length names" using adjacency_of_spec [OF assms(2)] by simp
  obtain cs where cs: "strongly_connected_components ?adj = Some cs" "distinct (concat cs)"
      "set ` set cs = {mutual ?adj u | u. u < length names}"
    using components_of_graph [OF adjacency_arcs(2) [OF assms(2)]] by (auto simp: len)
  note m = named_mutual [OF assms(1,2) _ assms(3)]
  have in_cs: "\<exists>u<length names. set c = mutual ?adj u" if "c \<in> set cs" for c using cs(3) that by blast
  have img: "(\<lambda>c. (!) names ` set c) ` set cs = joined r ` set names"
  proof (intro equalityI subsetI)
    fix A assume "A \<in> (\<lambda>c. (!) names ` set c) ` set cs"
    then obtain c where c: "c \<in> set cs" "A = (!) names ` set c" by blast
    then obtain u where "u < length names" "set c = mutual ?adj u" using in_cs by blast
    then show "A \<in> joined r ` set names" using m(1) c(2) by simp
  next
    fix A assume "A \<in> joined r ` set names"
    then obtain u where u: "u < length names" "A = joined r (names ! u)" by (auto simp: in_set_conv_nth)
    have "mutual ?adj u \<in> set ` set cs" unfolding cs(3) using u(1) by blast
    then obtain c where c: "c \<in> set cs" "mutual ?adj u = set c" by (rule imageE)
    have "A = (!) names ` set c" unfolding u(2) m(1) [OF u(1), symmetric] c(2) ..
    then show "A \<in> (\<lambda>c. (!) names ` set c) ` set cs" using c(1) by (rule image_eqI)
  qed
  have self: "u \<in> mutual ?adj u" for u by (simp add: mutual_def)
  have "c \<noteq> [] \<and> set c \<subseteq> {..<length names}" if c: "c \<in> set cs" for c
  proof -
    obtain u where u: "u < length names" "set c = mutual ?adj u" using in_cs [OF c] by blast
    have "u \<in> set c" unfolding u(2) by (rule self)
    then show ?thesis using m(2) [OF u(1)] u(2) by (metis empty_iff list.set(1))
  qed
  moreover have "\<Union> (set ` set cs) = {..<length names}"
    unfolding cs(3) using m(2) self by blast
  ultimately show ?thesis by (intro that [OF cs(1,2) _ img]) simp_all
qed

end
