(* ===== verification/Frames.thy ===== *)
theory Frames
  imports Glob Utf8
begin

text \<open>
  The byte frames of \<open>gusset-engine/src/lib.rs\<close>, through which a Go host asks the matcher of \<open>Glob\<close>: strict
  UTF-8, length-prefixed fields, the single-pattern frame and the frame of a whole pattern list. The
  lemmas say that a frame is accepted exactly when it is the encoding of its fields.
\<close>

section \<open>Strict UTF-8\<close>

text \<open>
  \<open>std::str::from_utf8\<close>: a scalar with its width, a sequence broken after so many bytes, or one that
  the end of the input cuts.
\<close>

datatype utf8_read = Scalar uchar nat | Broken nat | Cut

definition utf8_step :: "byte \<Rightarrow> byte list \<Rightarrow> utf8_read" where
  "utf8_step b bs =
     (if b < 128 then Scalar b 1
      else if 194 \<le> b \<and> b \<le> 223 then
        (case bs of
           [] \<Rightarrow> Cut
         | c # _ \<Rightarrow> if is_cont c then Scalar ((b - 192) * 64 + (c - 128)) 2 else Broken 1)
      else if 224 \<le> b \<and> b \<le> 239 then
        (case bs of
           [] \<Rightarrow> Cut
         | c # cs \<Rightarrow>
             if \<not> second_of_three b c then Broken 1
             else (case cs of
                     [] \<Rightarrow> Cut
                   | d # _ \<Rightarrow>
                       if is_cont d then Scalar ((b - 224) * 4096 + (c - 128) * 64 + (d - 128)) 3 else Broken 2))
      else if 240 \<le> b \<and> b \<le> 244 then
        (case bs of
           [] \<Rightarrow> Cut
         | c # cs \<Rightarrow>
             if \<not> second_of_four b c then Broken 1
             else (case cs of
                     [] \<Rightarrow> Cut
                   | d # ds \<Rightarrow>
                       if \<not> is_cont d then Broken 2
                       else (case ds of
                               [] \<Rightarrow> Cut
                             | e # _ \<Rightarrow>
                                 if is_cont e
                                 then Scalar ((b - 240) * 262144 + (c - 128) * 4096 + (d - 128) * 64 + (e - 128)) 4
                                 else Broken 3)))
      else Broken 1)"

text \<open>A scalar that is read is the one whose encoding stands there, and every encoding is read.\<close>

lemma base64_digits: "(q * 64 + r) div 64 = q" "(q * 64 + r) mod 64 = r" if "r < (64::nat)"
  using that by simp_all

lemma div_4096: "c div 4096 = c div 64 div (64::nat)" and div_262144: "c div 262144 = c div 64 div 64 div (64::nat)"
  by (simp_all add: div_mult2_eq [symmetric])

lemma step_two:
  assumes "194 \<le> b" "b \<le> 223" "is_cont x" "c = (b - 192) * 64 + (x - 128)"
  shows "scalar c \<and> utf8_width c = 2 \<and> utf8_bytes c = [b, x]"
proof -
  have x: "128 \<le> x" "x - 128 < 64" using assms(3) by (auto simp: is_cont_def)
  have "c div 64 = b - 192" "c mod 64 = x - 128" unfolding assms(4) using base64_digits [OF x(2)] by blast+
  moreover have "128 \<le> c" "c < 2048" using assms(1,2,4) x by auto
  ultimately show ?thesis using assms(1) x(1) by (simp add: scalar_def utf8_width_def utf8_bytes_def)
qed

lemma three_range:
  "(32::nat) \<le> q \<Longrightarrow> q < 1024 \<Longrightarrow> q < 864 \<or> 896 \<le> q \<Longrightarrow> z < 64 \<Longrightarrow>
   2048 \<le> q * 64 + z \<and> q * 64 + z < 65536 \<and>
   (q * 64 + z < 0xD800 \<or> 0xDFFF < q * 64 + z \<and> q * 64 + z < 0x110000)"
  by auto

lemma step_three:
  assumes "224 \<le> b" "b \<le> 239" "second_of_three b x" "is_cont y" "c = (b - 224) * 4096 + (x - 128) * 64 + (y - 128)"
  shows "scalar c \<and> utf8_width c = 3 \<and> utf8_bytes c = [b, x, y]"
proof -
  have x: "128 \<le> x" "x - 128 < 64" using assms(3) by (auto simp: second_of_three_def split: if_splits)
  have y: "128 \<le> y" "y - 128 < 64" using assms(4) by (auto simp: is_cont_def)
  let ?q = "(b - 224) * 64 + (x - 128)"
  have c: "c = ?q * 64 + (y - 128)" using assms(5) by (simp add: algebra_simps)
  have d: "c div 64 = ?q" "c mod 64 = y - 128" "?q div 64 = b - 224" "?q mod 64 = x - 128"
    using base64_digits [OF x(2), of "b - 224"] base64_digits [OF y(2), of ?q] by (simp_all only: c)
  have "32 \<le> ?q \<and> ?q < 1024 \<and> (?q < 864 \<or> 896 \<le> ?q)"
    by (cases "b = 224"; cases "b = 237") (use assms(1-3) x in \<open>auto simp: second_of_three_def\<close>)
  then have r: "2048 \<le> c" "c < 65536" "scalar c"
    unfolding c scalar_def using three_range [OF _ _ _ y(2)] by blast+
  then have w: "utf8_width c = 3" "utf8_bytes c = [224 + c div 64 div 64, 128 + c div 64 mod 64, 128 + c mod 64]"
    by (simp_all add: utf8_width_def utf8_bytes_def div_4096)
  show ?thesis using r(3) assms(1) x(1) y(1) by (simp only: w d) simp
qed

lemma four_range:
  "(16::nat) \<le> p \<Longrightarrow> p < 272 \<Longrightarrow> y < 64 \<Longrightarrow> z < 64 \<Longrightarrow>
   65536 \<le> (p * 64 + y) * 64 + z \<and> (p * 64 + y) * 64 + z < 1114112"
  by simp

lemma step_four:
  assumes "240 \<le> b" "b \<le> 244" "second_of_four b x" "is_cont y" "is_cont z"
    and "c = (b - 240) * 262144 + (x - 128) * 4096 + (y - 128) * 64 + (z - 128)"
  shows "scalar c \<and> utf8_width c = 4 \<and> utf8_bytes c = [b, x, y, z]"
proof -
  have x: "128 \<le> x" "x - 128 < 64" using assms(3) by (auto simp: second_of_four_def split: if_splits)
  have y: "128 \<le> y" "y - 128 < 64" "128 \<le> z" "z - 128 < 64" using assms(4,5) by (auto simp: is_cont_def)
  let ?p = "(b - 240) * 64 + (x - 128)" and ?q = "((b - 240) * 64 + (x - 128)) * 64 + (y - 128)"
  have c: "c = ?q * 64 + (z - 128)" using assms(6) by (simp add: algebra_simps)
  have d: "c div 64 = ?q" "c mod 64 = z - 128" "?q div 64 = ?p" "?q mod 64 = y - 128" "?p div 64 = b - 240"
      "?p mod 64 = x - 128"
    using base64_digits [OF x(2), of "b - 240"] base64_digits [OF y(2), of ?p] base64_digits [OF y(4), of ?q]
    by (simp_all only: c)
  have "16 \<le> ?p \<and> ?p < 272"
    by (cases "b = 240"; cases "b = 244") (use assms(1-3) x in \<open>auto simp: second_of_four_def\<close>)
  then have r: "65536 \<le> c" "c < 1114112" unfolding c using four_range [OF _ _ y(2,4)] by blast+
  then have w: "scalar c" "utf8_width c = 4" "utf8_bytes c =
      [240 + c div 64 div 64 div 64, 128 + c div 64 div 64 mod 64, 128 + c div 64 mod 64, 128 + c mod 64]"
    by (simp_all add: scalar_def utf8_width_def utf8_bytes_def div_4096 div_262144)
  show ?thesis using w(1) assms(1) x(1) y(1,3) by (simp only: w d) simp
qed

lemma utf8_step_Scalar:
  assumes "utf8_step b bs = Scalar c n"
  shows "scalar c \<and> n = utf8_width c \<and> (\<exists>r. b # bs = utf8_bytes c @ r)"
proof -
  consider "b < 128" "c = b" "n = 1"
    | x xs where "194 \<le> b" "b \<le> 223" "is_cont x" "c = (b - 192) * 64 + (x - 128)" "n = 2" "bs = x # xs"
    | x y ys where "224 \<le> b" "b \<le> 239" "second_of_three b x" "is_cont y"
        "c = (b - 224) * 4096 + (x - 128) * 64 + (y - 128)" "n = 3" "bs = x # y # ys"
    | x y z zs where "240 \<le> b" "b \<le> 244" "second_of_four b x" "is_cont y" "is_cont z"
        "c = (b - 240) * 262144 + (x - 128) * 4096 + (y - 128) * 64 + (z - 128)" "n = 4" "bs = x # y # z # zs"
    using assms by (auto simp: utf8_step_def split: if_splits list.splits)
  then show ?thesis
  proof cases
    case 1
    then show ?thesis by (simp add: scalar_def utf8_width_def utf8_bytes_def)
  next
    case 2
    then show ?thesis using step_two [of b x c] by simp
  next
    case 3
    then show ?thesis using step_three [of b x y c] by simp
  next
    case 4
    then show ?thesis using step_four [of b x y z c] by simp
  qed
qed

lemma utf8_step_lossy:
  "(\<exists>c n. utf8_step b bs = Scalar c n \<and> lossy_step b bs = (c, n)) \<or>
   (\<forall>c n. utf8_step b bs \<noteq> Scalar c n) \<and> fst (lossy_step b bs) = replacement"
proof (cases bs)
  case Nil
  then show ?thesis by (simp add: utf8_step_def lossy_step_def)
next
  case (Cons x xs)
  show ?thesis
  proof (cases xs)
    case Nil
    then show ?thesis by (simp add: utf8_step_def lossy_step_def Cons)
  next
    case (Cons y ys)
    show ?thesis by (cases ys) (simp_all add: utf8_step_def lossy_step_def Cons \<open>bs = x # xs\<close>)
  qed
qed

lemma utf8_step_encoded:
  assumes "scalar c"
  shows "\<exists>b bs. utf8_bytes c = b # bs \<and> utf8_step b (bs @ r) = Scalar c (utf8_width c)"
proof (cases "c = replacement")
  case True
  then show ?thesis
    by (simp add: utf8_bytes_def utf8_step_def utf8_width_def second_of_three_def is_cont_def)
next
  case False
  obtain b bs where b: "utf8_bytes c = b # bs" "lossy_step b (bs @ r) = (c, utf8_width c)"
    using utf8_bytes_step [OF assms] by blast
  then have "utf8_step b (bs @ r) = Scalar c (utf8_width c)"
    using utf8_step_lossy [of b "bs @ r"] False by auto
  then show ?thesis using b(1) by blast
qed

definition utf8_error :: "nat \<Rightarrow> nat option \<Rightarrow> str" where
  "utf8_error valid_up_to error_len =
     (case error_len of
        Some n \<Rightarrow> lit ''invalid utf-8 sequence of '' @ show_nat n @ lit '' bytes from index '' @ show_nat valid_up_to
      | None \<Rightarrow> lit ''incomplete utf-8 byte sequence from index '' @ show_nat valid_up_to)"

lemma utf8_step_pos: "utf8_step b bs = Scalar c n \<Longrightarrow> 0 < n"
  using utf8_step_Scalar [of b bs c n] utf8_width_bounds [of c] by simp

function from_utf8_at :: "nat \<Rightarrow> byte list \<Rightarrow> str + str" where
  "from_utf8_at valid [] = Inr []"
| "from_utf8_at valid (b # bs) =
     (case utf8_step b bs of
        Scalar c n \<Rightarrow> rbind (from_utf8_at (valid + n) (drop n (b # bs))) (\<lambda>s. Inr (c # s))
      | Broken n \<Rightarrow> Inl (utf8_error valid (Some n))
      | Cut \<Rightarrow> Inl (utf8_error valid None))"
  by pat_completeness auto
termination
  by (relation "measure (\<lambda>(valid, bs). length bs)") (auto dest: utf8_step_pos)

declare from_utf8_at.simps(2) [simp del]

definition from_utf8 :: "byte list \<Rightarrow> str + str" where
  "from_utf8 bs = from_utf8_at 0 bs"

lemma from_utf8_at_encoded: "list_all scalar s \<Longrightarrow> from_utf8_at n (utf8_encode s) = Inr s"
proof (induction s arbitrary: n)
  case (Cons c s)
  obtain b bs where b: "utf8_bytes c = b # bs" "utf8_step b (bs @ utf8_encode s) = Scalar c (utf8_width c)"
    using utf8_step_encoded [of c "utf8_encode s"] Cons.prems by auto
  have "drop (utf8_width c) (b # bs @ utf8_encode s) = utf8_encode s"
    using b(1) by (metis append_Cons append_eq_conv_conj length_utf8_bytes)
  then show ?case using b Cons by (simp add: from_utf8_at.simps(2))
qed simp

lemma from_utf8_at_Inr: "from_utf8_at n bs = Inr s \<Longrightarrow> list_all scalar s \<and> bs = utf8_encode s"
proof (induction n bs arbitrary: s rule: from_utf8_at.induct)
  case (2 n b bs)
  then obtain c k t where c: "utf8_step b bs = Scalar c k" "from_utf8_at (n + k) (drop k (b # bs)) = Inr t" "s = c # t"
    by (auto simp: from_utf8_at.simps(2) rbind_Inr_iff split: utf8_read.splits)
  obtain r where r: "scalar c" "k = utf8_width c" "b # bs = utf8_bytes c @ r"
    using utf8_step_Scalar [OF c(1)] by blast
  then have "drop k (b # bs) = r" by (simp add: length_utf8_bytes)
  then show ?case using 2(1) [OF c(1,2)] c(3) r by simp
qed simp

lemma from_utf8_iff: "from_utf8 bs = Inr s \<longleftrightarrow> list_all scalar s \<and> bs = utf8_encode s"
  unfolding from_utf8_def using from_utf8_at_encoded [of s 0] from_utf8_at_Inr [of 0 bs s] by blast

section \<open>Fields\<close>

definition MAX_FIELD :: nat where "MAX_FIELD = 16384 * 4"
definition MAX_PATTERNS :: nat where "MAX_PATTERNS = 1024"

definition u32_le :: "byte list \<Rightarrow> nat" where
  "u32_le ds = foldr (\<lambda>d v. d + 256 * v) ds 0"

definition to_le_bytes :: "nat \<Rightarrow> byte list" where
  "to_le_bytes v = [v mod 256, v div 256 mod 256, v div 65536 mod 256, v div 16777216 mod 256]"

definition read_u32 :: "byte list \<Rightarrow> nat \<Rightarrow> str \<Rightarrow> str + nat \<times> nat" where
  "read_u32 input at what =
     (if at + 4 \<le> length input
      then Inr (u32_le [input ! at, input ! (at + 1), input ! (at + 2), input ! (at + 3)], at + 4)
      else Inl (lit ''truncated '' @ what))"

definition field :: "byte list \<Rightarrow> nat \<Rightarrow> str \<Rightarrow> str + str \<times> nat" where
  "field input at what =
     rbind (read_u32 input at (what @ lit '' length'')) (\<lambda>(len, len_end).
       if len > MAX_FIELD then
         Inl (what @ lit '' length '' @ show_nat len @ lit '' exceeds '' @ show_nat MAX_FIELD @ lit '' bytes'')
       else if len_end + len \<le> length input then
         (case from_utf8 (drop len_end (take (len_end + len) input)) of
            Inl err \<Rightarrow> Inl (what @ lit '' is not valid UTF-8: '' @ err)
          | Inr text \<Rightarrow> Inr (text, len_end + len))
       else Inl (lit ''truncated '' @ what))"

text \<open>The loop that reads \<open>count\<close> patterns.\<close>

fun read_patterns :: "nat \<Rightarrow> byte list \<Rightarrow> nat \<Rightarrow> str + str list \<times> nat" where
  "read_patterns 0 input at = Inr ([], at)"
| "read_patterns (Suc n) input at =
     rbind (field input at (lit ''pattern'')) (\<lambda>(pattern, next).
       rbind (read_patterns n input next) (\<lambda>(patterns, stop). Inr (pattern # patterns, stop)))"

section \<open>Answers\<close>

definition NO_MATCH_BYTE :: byte where "NO_MATCH_BYTE = 0"
definition MATCH :: byte where "MATCH = 1"
definition UNDECIDED :: byte where "UNDECIDED = 2"

definition answer :: "bool option \<Rightarrow> byte" where
  "answer decided = (case decided of Some True \<Rightarrow> MATCH | Some False \<Rightarrow> NO_MATCH_BYTE | None \<Rightarrow> UNDECIDED)"

definition match_frame :: "byte list \<Rightarrow> str + byte list" where
  "match_frame input =
     rbind (field input 0 (lit ''pattern'')) (\<lambda>(pattern, at).
     rbind (field input at (lit ''name'')) (\<lambda>(name, at).
       if at \<noteq> length input then Inl (lit ''match frame length does not equal its headers'')
       else Inr [answer (try_matches pattern name)]))"

text \<open>
  \<open>check\<close> is called between patterns; \<open>checks n\<close> is the error its call number \<open>n\<close> raises, if any. The loop
  also returns how many calls it made.
\<close>

type_synonym checks = "nat \<Rightarrow> str option"

fun any_loop :: "checks \<Rightarrow> nat \<Rightarrow> str \<Rightarrow> bool \<Rightarrow> str list \<Rightarrow> str + byte \<times> nat" where
  "any_loop checks n name undecided [] = Inr (if undecided then UNDECIDED else NO_MATCH_BYTE, n)"
| "any_loop checks n name undecided (pattern # patterns) =
     (case checks n of
        Some reason \<Rightarrow> Inl reason
      | None \<Rightarrow>
          (case Option.bind (compile pattern) (\<lambda>p. pattern_try_matches p name) of
             Some True \<Rightarrow> Inr (MATCH, n + 1)
           | Some False \<Rightarrow> any_loop checks (n + 1) name undecided patterns
           | None \<Rightarrow> any_loop checks (n + 1) name True patterns))"

definition match_any_frame :: "byte list \<Rightarrow> checks \<Rightarrow> str + byte list" where
  "match_any_frame input checks =
     rbind (field input 0 (lit ''name'')) (\<lambda>(name, at).
     rbind (read_u32 input at (lit ''pattern count'')) (\<lambda>(count, at).
       if count > MAX_PATTERNS then
         Inl (lit ''pattern count '' @ show_nat count @ lit '' exceeds '' @ show_nat MAX_PATTERNS)
       else rbind (read_patterns count input at) (\<lambda>(patterns, at).
         if at \<noteq> length input then Inl (lit ''match-any frame length does not equal its headers'')
         else (case name_new name of
                 None \<Rightarrow> Inr [UNDECIDED]
               | Some name \<Rightarrow> rbind (any_loop checks 0 name False patterns) (\<lambda>(b, n). Inr [b])))))"

section \<open>Encodings\<close>

definition put :: "str \<Rightarrow> byte list" where
  "put s = to_le_bytes (byte_len s) @ utf8_encode s"

definition field_ok :: "str \<Rightarrow> bool" where
  "field_ok s \<longleftrightarrow> list_all scalar s \<and> byte_len s \<le> MAX_FIELD"

definition bytes_ok :: "byte list \<Rightarrow> bool" where
  "bytes_ok bs \<longleftrightarrow> list_all (\<lambda>b. b < 256) bs"

definition frame_of :: "str \<Rightarrow> str \<Rightarrow> byte list" where
  "frame_of pattern name = put pattern @ put name"

definition list_frame :: "str list \<Rightarrow> byte list" where
  "list_frame patterns = to_le_bytes (length patterns) @ concat (map put patterns)"

definition any_frame :: "str \<Rightarrow> str list \<Rightarrow> byte list" where
  "any_frame name patterns = put name @ list_frame patterns"

lemma le_value: "u32_le [a, b, c, d] = a + 256 * (b + 256 * (c + 256 * d))"
  by (simp add: u32_le_def)

lemma le_bytes_digits:
  assumes "a < 256" "b < 256" "c < 256" "d < (256::nat)"
  shows "to_le_bytes (u32_le [a, b, c, d]) = [a, b, c, d] \<and> u32_le [a, b, c, d] \<le> U32_MAX"
proof -
  have split: "v div 65536 = v div 256 div 256" "v div 16777216 = v div 256 div 256 div 256" for v :: nat
    by (simp_all add: div_mult2_eq [symmetric])
  have digit: "(x + 256 * q) mod 256 = x" "(x + 256 * q) div 256 = q" if "x < 256" for x q :: nat
    using that by simp_all
  have "to_le_bytes (u32_le [a, b, c, d]) = [a, b, c, d]"
    unfolding to_le_bytes_def le_value split digit [OF assms(1)] digit [OF assms(2)] digit [OF assms(3)]
    using assms(4) by simp
  then show ?thesis using assms by (simp add: le_value U32_MAX_def)
qed

lemma le_bytes_read: "v \<le> U32_MAX \<Longrightarrow> u32_le (to_le_bytes v) = v"
proof -
  assume v: "v \<le> U32_MAX"
  have split: "v div 65536 = v div 256 div 256" "v div 16777216 = v div 256 div 256 div 256"
    by (simp_all add: div_mult2_eq [symmetric])
  have "v div 256 div 256 div 256 < 256" using v by (simp add: U32_MAX_def split [symmetric])
  then have "v div 256 div 256 div 256 mod 256 = v div 256 div 256 div 256" by simp
  then show ?thesis unfolding to_le_bytes_def le_value split by simp
qed

lemma length_to_le_bytes [simp]: "length (to_le_bytes v) = 4"
  by (simp add: to_le_bytes_def)

lemma read_u32_iff:
  assumes "bytes_ok input" "at \<le> length input"
  shows "read_u32 input at what = Inr (v, k) \<longleftrightarrow>
    v \<le> U32_MAX \<and> k = at + 4 \<and> (\<exists>r. drop at input = to_le_bytes v @ r)" (is "_ = ?R")
proof
  assume h: "read_u32 input at what = Inr (v, k)"
  then have len: "at + 4 \<le> length input" and k: "k = at + 4"
    and v: "v = u32_le [input ! at, input ! (at + 1), input ! (at + 2), input ! (at + 3)]"
    by (auto simp: read_u32_def split: if_splits)
  have "input ! i < 256" if "i < length input" for i using assms(1) that by (simp add: bytes_ok_def list_all_length)
  then have ok: "to_le_bytes v = [input ! at, input ! (at + 1), input ! (at + 2), input ! (at + 3)]" "v \<le> U32_MAX"
    unfolding v using le_bytes_digits len by simp_all
  have "drop at input = to_le_bytes v @ drop (at + 4) input"
    unfolding ok(1) using len Cons_nth_drop_Suc [of at input] Cons_nth_drop_Suc [of "at + 1" input]
      Cons_nth_drop_Suc [of "at + 2" input] Cons_nth_drop_Suc [of "at + 3" input] by (simp add: eval_nat_numeral)
  then show ?R using ok(2) k by blast
next
  assume ?R
  then obtain r where r: "v \<le> U32_MAX" "k = at + 4" "drop at input = to_le_bytes v @ r" by blast
  have nth: "input ! (at + i) = to_le_bytes v ! i" if "i < 4" for i
    using arg_cong [OF r(3), of "\<lambda>xs. xs ! i"] that assms(2) by (simp add: nth_append)
  have "[input ! at, input ! (at + 1), input ! (at + 2), input ! (at + 3)] = to_le_bytes v"
    using nth [of 0] nth [of 1] nth [of 2] nth [of 3] by (simp add: to_le_bytes_def)
  moreover have "at + 4 \<le> length input" using arg_cong [OF r(3), of length] by simp
  ultimately show "read_u32 input at what = Inr (v, k)" using r(1,2) by (simp add: read_u32_def le_bytes_read)
qed

lemma length_put [simp]: "length (put s) = 4 + byte_len s"
  by (simp add: put_def length_utf8_encode)

lemma field_iff:
  assumes "bytes_ok input" "at \<le> length input"
  shows "field input at what = Inr (s, k) \<longleftrightarrow>
    field_ok s \<and> k = at + length (put s) \<and> (\<exists>r. drop at input = put s @ r)" (is "_ = ?R")
proof
  assume "field input at what = Inr (s, k)"
  then obtain len len_end where u: "read_u32 input at (what @ lit '' length'') = Inr (len, len_end)"
    and le: "len \<le> MAX_FIELD" "len_end + len \<le> length input" "k = len_end + len"
    and s: "from_utf8 (drop len_end (take (len_end + len) input)) = Inr s"
    by (auto simp: field_def rbind_Inr_iff split: if_splits sum.splits)
  obtain r where r: "len_end = at + 4" "drop at input = to_le_bytes len @ r"
    using u read_u32_iff [OF assms] by auto
  have drp: "drop len_end input = r" unfolding r(1) using arg_cong [OF r(2), of "drop 4"] by (simp add: add.commute)
  have t: "list_all scalar s" "take len r = utf8_encode s" using s drp by (simp_all add: from_utf8_iff drop_take)
  have "len \<le> length r" using le(2) drp [symmetric] by simp
  with t(2) have "byte_len s = len" using length_utf8_encode [of s] by (metis length_take min.absorb2)
  moreover have "r = utf8_encode s @ drop len r" using t(2) by (metis append_take_drop_id)
  ultimately show ?R using t(1) le r by (auto simp: field_ok_def put_def length_utf8_encode)
next
  assume ?R
  then obtain r where r: "field_ok s" "k = at + length (put s)" "drop at input = put s @ r" by blast
  then have ok: "list_all scalar s" "byte_len s \<le> MAX_FIELD" by (simp_all add: field_ok_def)
  then have "byte_len s \<le> U32_MAX" by (simp add: MAX_FIELD_def U32_MAX_def)
  then have u: "read_u32 input at (what @ lit '' length'') = Inr (byte_len s, at + 4)"
    using read_u32_iff [OF assms] r(3) by (auto simp: put_def)
  have "drop (at + 4) input = utf8_encode s @ r"
    using arg_cong [OF r(3), of "drop 4"] by (simp add: put_def add.commute)
  moreover from arg_cong [OF this, of length] have "at + 4 + byte_len s \<le> length input"
    using arg_cong [OF r(3), of length] by (simp add: length_utf8_encode)
  ultimately have "from_utf8 (drop (at + 4) (take (at + 4 + byte_len s) input)) = Inr s"
    using ok(1) by (simp add: from_utf8_iff drop_take length_utf8_encode)
  then show "field input at what = Inr (s, k)"
    using u ok(2) r(2) \<open>at + 4 + byte_len s \<le> length input\<close> by (simp add: field_def)
qed

lemma drop_piece:
  assumes "drop at xs = p @ r" "at \<le> length xs"
  shows "at + length p \<le> length xs" "drop (at + length p) xs = r"
proof -
  have "length xs - at = length p + length r" using arg_cong [OF assms(1), of length] by simp
  then show "at + length p \<le> length xs" using assms(2) by linarith
  have "drop (length p) (drop at xs) = r" unfolding assms(1) by simp
  then show "drop (at + length p) xs = r" by (simp add: add.commute)
qed

lemma read_patterns_iff:
  assumes "bytes_ok input" "at \<le> length input"
  shows "read_patterns n input at = Inr (ps, k) \<longleftrightarrow>
    length ps = n \<and> list_all field_ok ps \<and> k = at + length (concat (map put ps)) \<and>
    (\<exists>r. drop at input = concat (map put ps) @ r)"
  using assms(2)
proof (induction n arbitrary: at ps k)
  case (Suc n)
  note f = field_iff [OF assms(1) Suc.prems]
  show ?case
  proof
    assume "read_patterns (Suc n) input at = Inr (ps, k)"
    then obtain q m qs where q: "ps = q # qs" "field input at (lit ''pattern'') = Inr (q, m)"
        "read_patterns n input m = Inr (qs, k)" by (auto simp: rbind_Inr_iff)
    from q(2) obtain r where r: "field_ok q" "m = at + length (put q)" "drop at input = put q @ r" unfolding f by blast
    note d = drop_piece [OF r(3) Suc.prems, folded r(2)]
    show "length ps = Suc n \<and> list_all field_ok ps \<and> k = at + length (concat (map put ps)) \<and>
        (\<exists>r. drop at input = concat (map put ps) @ r)"
      using q(3) r unfolding Suc.IH [OF d(1)] d(2) q(1) by auto
  next
    assume R: "length ps = Suc n \<and> list_all field_ok ps \<and> k = at + length (concat (map put ps)) \<and>
      (\<exists>r. drop at input = concat (map put ps) @ r)"
    then obtain q qs r where ps: "ps = q # qs" and r: "drop at input = put q @ concat (map put qs) @ r"
      by (cases ps) auto
    note d = drop_piece [OF r Suc.prems]
    have "field input at (lit ''pattern'') = Inr (q, at + length (put q))" unfolding f using R ps r by auto
    moreover have "read_patterns n input (at + length (put q)) = Inr (qs, k)"
      unfolding Suc.IH [OF d(1)] d(2) using R by (auto simp: ps)
    ultimately show "read_patterns (Suc n) input at = Inr (ps, k)" by (simp add: ps)
  qed
qed auto

section \<open>What a frame is\<close>

text \<open>
  The engine accepts a byte string exactly when it is the encoding of two valid UTF-8 texts of at most
  \<open>MAX_FIELD\<close> bytes, and then answers the matcher's answer for them: a short buffer, a trailing byte, a
  wrong length or a malformed text is always an error.
\<close>

theorem frame_is_its_fields:
  assumes "bytes_ok input"
  shows "match_frame input = Inr out \<longleftrightarrow>
    (\<exists>pattern name. field_ok pattern \<and> field_ok name \<and> input = frame_of pattern name \<and>
       out = [answer (try_matches pattern name)])"
proof
  assume "match_frame input = Inr out"
  then obtain p m n where h: "field input 0 (lit ''pattern'') = Inr (p, m)"
      "field input m (lit ''name'') = Inr (n, length input)" "out = [answer (try_matches p n)]"
    by (auto simp: match_frame_def rbind_Inr_iff split: if_splits)
  from h(1) obtain r where r: "field_ok p" "m = length (put p)" "input = put p @ r"
    using field_iff [OF assms, of 0] by auto
  have "field_ok n" "r = put n" using h(2) field_iff [OF assms, of m] by (auto simp: r(2,3))
  then show "\<exists>pattern name. field_ok pattern \<and> field_ok name \<and> input = frame_of pattern name \<and>
      out = [answer (try_matches pattern name)]"
    using r h(3) by (auto simp: frame_of_def)
next
  assume "\<exists>pattern name. field_ok pattern \<and> field_ok name \<and> input = frame_of pattern name \<and>
      out = [answer (try_matches pattern name)]"
  then obtain p n where h: "field_ok p" "field_ok n" "input = put p @ put n" "out = [answer (try_matches p n)]"
    by (auto simp: frame_of_def)
  have "field input 0 (lit ''pattern'') = Inr (p, length (put p))" using field_iff [OF assms, of 0] h by auto
  moreover have "field input (length (put p)) (lit ''name'') = Inr (n, length input)"
    using field_iff [OF assms, of "length (put p)"] h by auto
  ultimately show "match_frame input = Inr out" using h(4) by (simp add: match_frame_def)
qed

definition list_ok :: "str list \<Rightarrow> bool" where
  "list_ok patterns \<longleftrightarrow> length patterns \<le> MAX_PATTERNS \<and> list_all field_ok patterns"

lemma list_read:
  assumes "bytes_ok input" "at \<le> length input"
  shows "(\<exists>m. read_u32 input at what = Inr (num, m) \<and> num \<le> MAX_PATTERNS \<and>
      read_patterns num input m = Inr (ps, length input)) \<longleftrightarrow>
    list_ok ps \<and> num = length ps \<and> drop at input = list_frame ps" (is "?L \<longleftrightarrow> ?R")
proof
  assume ?L
  then obtain m where m: "read_u32 input at what = Inr (num, m)" "num \<le> MAX_PATTERNS"
      "read_patterns num input m = Inr (ps, length input)" by blast
  from m(1) obtain r where r: "m = at + 4" "drop at input = to_le_bytes num @ r"
    using read_u32_iff [OF assms] by blast
  note d = drop_piece [OF r(2) assms(2), unfolded length_to_le_bytes, folded r(1)]
  from m(3) obtain t where t: "length ps = num" "list_all field_ok ps" "r = concat (map put ps) @ t"
      "length input = m + length (concat (map put ps))"
    unfolding read_patterns_iff [OF assms(1) d(1)] d(2) by blast
  have "length input = m + length r" using d by (metis add_diff_inverse_nat length_drop not_less)
  then have "t = []" using t(3,4) by simp
  then show ?R using t m(2) r(2) by (simp add: list_ok_def list_frame_def)
next
  assume ?R
  then have h: "list_all field_ok ps" "num \<le> MAX_PATTERNS" "num = length ps"
      "drop at input = to_le_bytes num @ concat (map put ps)" by (simp_all add: list_ok_def list_frame_def)
  note d = drop_piece [OF h(4) assms(2), unfolded length_to_le_bytes]
  have len: "length input = at + 4 + length (concat (map put ps))"
    using d by (metis add_diff_inverse_nat length_drop not_less)
  have "num \<le> U32_MAX" using h(2) by (simp add: MAX_PATTERNS_def U32_MAX_def)
  then have "read_u32 input at what = Inr (num, at + 4)" using read_u32_iff [OF assms] h(4) by blast
  moreover have "read_patterns num input (at + 4) = Inr (ps, length input)"
    unfolding read_patterns_iff [OF assms(1) d(1)] d(2) using h(1,3) len by simp
  ultimately show ?L using h(2) by blast
qed

lemma match_any_frame_iff:
  assumes "bytes_ok input"
  shows "match_any_frame input checks = Inr out \<longleftrightarrow>
    (\<exists>name ps. field_ok name \<and> list_ok ps \<and> input = any_frame name ps \<and>
       (case name_new name of None \<Rightarrow> Inr [UNDECIDED]
        | Some name \<Rightarrow> rbind (any_loop checks 0 name False ps) (\<lambda>(b, n). Inr [b])) = Inr out)"
    (is "_ \<longleftrightarrow> (\<exists>name ps. _ \<and> _ \<and> _ \<and> ?ans name ps = Inr out)")
proof
  assume "match_any_frame input checks = Inr out"
  then obtain name at num m ps where h: "field input 0 (lit ''name'') = Inr (name, at)"
      "read_u32 input at (lit ''pattern count'') = Inr (num, m)" "num \<le> MAX_PATTERNS"
      "read_patterns num input m = Inr (ps, length input)" "?ans name ps = Inr out"
    by (auto simp: match_any_frame_def rbind_Inr_iff split: if_splits)
  from h(1) obtain r where r: "field_ok name" "at = length (put name)" "input = put name @ r"
    using field_iff [OF assms, of 0] by auto
  have "at \<le> length input" by (simp add: r(2,3))
  then have "list_ok ps" "drop at input = list_frame ps" using list_read [OF assms] h(2-4) by blast+
  then show "\<exists>name ps. field_ok name \<and> list_ok ps \<and> input = any_frame name ps \<and> ?ans name ps = Inr out"
    using r h(5) by (auto simp: any_frame_def)
next
  assume "\<exists>name ps. field_ok name \<and> list_ok ps \<and> input = any_frame name ps \<and> ?ans name ps = Inr out"
  then obtain name ps where h: "field_ok name" "list_ok ps" "input = put name @ list_frame ps" "?ans name ps = Inr out"
    by (auto simp: any_frame_def)
  have "field input 0 (lit ''name'') = Inr (name, length (put name))" using field_iff [OF assms, of 0] h by auto
  moreover obtain m where "read_u32 input (length (put name)) (lit ''pattern count'') = Inr (length ps, m)"
      "length ps \<le> MAX_PATTERNS" "read_patterns (length ps) input m = Inr (ps, length input)"
    using list_read [OF assms, of "length (put name)" "lit ''pattern count''" "length ps" ps] h by auto
  ultimately show "match_any_frame input checks = Inr out" using h(4) by (simp add: match_any_frame_def)
qed

text \<open>Encodings are bytes.\<close>

lemma bytes_ok_simps [simp]: "bytes_ok []" "bytes_ok (x @ y) \<longleftrightarrow> bytes_ok x \<and> bytes_ok y" "bytes_ok (to_le_bytes v)"
  by (auto simp: bytes_ok_def to_le_bytes_def)

lemma bytes_ok_encode: "list_all scalar s \<Longrightarrow> bytes_ok (utf8_encode s)"
  by (induction s) (auto simp: bytes_ok_def utf8_bytes_def scalar_def)

lemma bytes_ok_put: "field_ok s \<Longrightarrow> bytes_ok (put s)"
  by (simp add: put_def field_ok_def bytes_ok_encode)

lemma bytes_ok_list: "list_ok ps \<Longrightarrow> bytes_ok (list_frame ps)"
proof -
  have "list_all field_ok ps \<Longrightarrow> bytes_ok (concat (map put ps))" by (induction ps) (simp_all add: bytes_ok_put)
  then show "list_ok ps \<Longrightarrow> bytes_ok (list_frame ps)" by (simp add: list_frame_def list_ok_def)
qed

lemma bytes_ok_any: "field_ok name \<Longrightarrow> list_ok ps \<Longrightarrow> bytes_ok (any_frame name ps)"
  by (simp add: any_frame_def bytes_ok_put bytes_ok_list)

text \<open>An encoding has one reading.\<close>

lemma put_inject:
  assumes "field_ok s" "field_ok t" "put s @ x = put t @ y"
  shows "s = t \<and> x = y"
proof -
  have le: "to_le_bytes (byte_len s) = to_le_bytes (byte_len t)" "utf8_encode s @ x = utf8_encode t @ y"
    using assms(3) by (simp_all add: put_def append_eq_append_conv)
  have "byte_len s \<le> U32_MAX" "byte_len t \<le> U32_MAX"
    using assms(1,2) by (simp_all add: field_ok_def MAX_FIELD_def U32_MAX_def)
  then have "byte_len s = byte_len t" using le_bytes_read le(1) by metis
  then have "utf8_encode s = utf8_encode t" "x = y"
    using le(2) by (simp_all add: append_eq_append_conv length_utf8_encode)
  then show ?thesis using assms(1,2) from_utf8_iff by (metis field_ok_def sum.inject(2))
qed

lemma puts_inject: "list_all field_ok ps \<Longrightarrow> list_all field_ok qs \<Longrightarrow> length ps = length qs \<Longrightarrow>
    concat (map put ps) = concat (map put qs) \<Longrightarrow> ps = qs"
  by (induction ps qs rule: list_induct2') (auto dest: put_inject)

lemma list_frame_inject: "list_ok ps \<Longrightarrow> list_ok qs \<Longrightarrow> list_frame ps = list_frame qs \<Longrightarrow> ps = qs"
proof -
  assume h: "list_ok ps" "list_ok qs" "list_frame ps = list_frame qs"
  then have le: "to_le_bytes (length ps) = to_le_bytes (length qs)" "concat (map put ps) = concat (map put qs)"
    by (simp_all add: list_frame_def append_eq_append_conv)
  have "length ps \<le> U32_MAX" "length qs \<le> U32_MAX" using h by (simp_all add: list_ok_def MAX_PATTERNS_def U32_MAX_def)
  then have "length ps = length qs" using le_bytes_read le(1) by metis
  then show "ps = qs" using puts_inject le(2) h(1,2) by (simp add: list_ok_def)
qed

section \<open>What a list answers\<close>

definition never :: checks where "never n = None"

definition list_answer :: "str \<Rightarrow> str list \<Rightarrow> byte" where
  "list_answer name ps =
     (if \<exists>p\<in>set ps. try_matches p name = Some True then MATCH
      else if length name > MAX_UNITS \<or> (\<exists>p\<in>set ps. length p > MAX_UNITS) then UNDECIDED
      else NO_MATCH_BYTE)"

lemma try_matches_compiled:
  "name_new name = Some n \<Longrightarrow> try_matches p name = Option.bind (compile p) (\<lambda>c. pattern_try_matches c n)"
  by (cases "compile p") (simp_all add: try_matches_def)

lemma any_loop_never:
  assumes "name_new name = Some name"
  shows "\<exists>m. any_loop never n name u ps =
    Inr (if \<exists>p\<in>set ps. try_matches p name = Some True then MATCH
         else if u \<or> (\<exists>p\<in>set ps. try_matches p name = None) then UNDECIDED else NO_MATCH_BYTE, m)"
proof (induction ps arbitrary: n u)
  case (Cons p ps)
  have t: "Option.bind (compile p) (\<lambda>c. pattern_try_matches c name) = try_matches p name"
    using try_matches_compiled [OF assms] by simp
  show ?case
  proof (cases "try_matches p name")
    case None
    then show ?thesis using Cons.IH [of "n + 1" True] by (auto simp: never_def t)
  next
    case (Some b)
    obtain m where "any_loop never (n + 1) name u ps = Inr (if \<exists>p\<in>set ps. try_matches p name = Some True then MATCH
         else if u \<or> (\<exists>p\<in>set ps. try_matches p name = None) then UNDECIDED else NO_MATCH_BYTE, m)"
      using Cons.IH by blast
    moreover have "any_loop never n name u (p # ps) = (if b then Inr (MATCH, n + 1) else any_loop never (n + 1) name u ps)"
      using Some by (cases b) (simp_all add: never_def t)
    ultimately show ?thesis using Some by (cases b) simp_all
  qed
qed simp

lemma match_any_answer:
  assumes "field_ok name" "list_ok ps"
  shows "match_any_frame (any_frame name ps) never = Inr [list_answer name ps]"
proof (cases "length name > MAX_UNITS")
  case True
  then have "name_new name = None" "\<forall>p. try_matches p name = None" by (simp_all add: name_new_eq try_matches_eq within_caps_def)
  then show ?thesis
    using True assms unfolding match_any_frame_iff [OF bytes_ok_any [OF assms]]
    by (intro exI [of _ name] exI [of _ ps]) (simp add: list_answer_def)
next
  case False
  then have n: "name_new name = Some name" by (simp add: name_new_eq)
  have u: "try_matches p name = None \<longleftrightarrow> length p > MAX_UNITS" for p using False by (simp add: try_matches_eq within_caps_def not_le)
  obtain m where "any_loop never 0 name False ps = Inr (list_answer name ps, m)"
    using any_loop_never [OF n, of 0 False ps] False by (auto simp: list_answer_def u)
  then show ?thesis
    using assms n unfolding match_any_frame_iff [OF bytes_ok_any [OF assms]]
    by (intro exI [of _ name] exI [of _ ps]) simp
qed

theorem frame_is_its_fields_witness:
  "\<exists>pattern name. match_frame (frame_of (lit ''*.py'') (lit ''a.py'')) = Inr [answer (try_matches pattern name)] \<and>
     frame_of (lit ''*.py'') (lit ''a.py'') = frame_of pattern name"
proof -
  have "bytes_ok (frame_of (lit ''*.py'') (lit ''a.py''))" "field_ok (lit ''*.py'')" "field_ok (lit ''a.py'')"
    by (simp_all add: frame_of_def put_def field_ok_def scalar_def MAX_FIELD_def bytes_ok_encode bytes_ok_def
      utf8_bytes_def utf8_width_def to_le_bytes_def)
  from frame_is_its_fields [OF this(1), of "[answer (try_matches (lit ''*.py'') (lit ''a.py''))]"] this(2,3)
  show ?thesis by blast
qed

end
