(* ===== verification/Registry.thy ===== *)
theory Registry
  imports Frames
begin

text \<open>
  Prepared pattern lists, from \<open>gusset-engine/src/lib.rs\<close>: a process-wide registry behind a lock that
  compiles a list once and hands out its index, and the frame that asks one name of many lists. The
  lemmas say that an id never changes its meaning whatever callers interleave, that the registry stays
  within its bounds and that a prepared list answers what its patterns would.
\<close>

section \<open>Prepared lists\<close>

text \<open>A pattern past the matcher's cap does not compile and is \<open>None\<close>.\<close>

record prepared_set =
  ps_patterns :: "compiled_pattern option list"

fun set_loop :: "checks \<Rightarrow> nat \<Rightarrow> str \<Rightarrow> bool \<Rightarrow> compiled_pattern option list \<Rightarrow> str + byte \<times> nat" where
  "set_loop checks n name undecided [] = Inr (if undecided then UNDECIDED else NO_MATCH_BYTE, n)"
| "set_loop checks n name undecided (pattern # patterns) =
     (case checks n of
        Some reason \<Rightarrow> Inl reason
      | None \<Rightarrow>
          (case Option.bind pattern (\<lambda>p. pattern_try_matches p name) of
             Some True \<Rightarrow> Inr (MATCH, n + 1)
           | Some False \<Rightarrow> set_loop checks (n + 1) name undecided patterns
           | None \<Rightarrow> set_loop checks (n + 1) name True patterns))"

definition set_answer :: "prepared_set \<Rightarrow> str \<Rightarrow> checks \<Rightarrow> nat \<Rightarrow> str + byte \<times> nat" where
  "set_answer ps name checks n = set_loop checks n name False (ps_patterns ps)"

section \<open>The registry\<close>

definition MAX_SETS :: nat where "MAX_SETS = 4096"
definition MAX_REGISTRY_BYTES :: nat where "MAX_REGISTRY_BYTES = 16 * 2 ^ 20"
definition REGISTRY_FULL :: nat where "REGISTRY_FULL = U32_MAX"

record registry =
  rg_sets :: "prepared_set list"
  rg_by_content :: "byte list \<rightharpoonup> nat"
  rg_bytes :: nat

definition no_sets :: registry where
  "no_sets = \<lparr>rg_sets = [], rg_by_content = Map.empty, rg_bytes = 0\<rparr>"

definition get_set :: "registry \<Rightarrow> nat \<Rightarrow> prepared_set option" where
  "get_set reg i = (if i < length (rg_sets reg) then Some (rg_sets reg ! i) else None)"

text \<open>
  The sizes of the compiled program's types and the capacities its vectors grow to are the
  compiler's and the allocator's: \<open>layout\<close> holds them, a capacity as a function of the contents.
\<close>

record layout =
  sz_key :: nat
  sz_arc :: nat
  sz_usize :: nat
  sz_set :: nat
  sz_pattern :: nat
  sz_token :: nat
  sz_char :: nat
  sz_range :: nat
  cap_patterns :: "compiled_pattern option list \<Rightarrow> nat"
  cap_tokens :: "token list \<Rightarrow> nat"
  cap_singles :: "uchar list \<Rightarrow> nat"
  cap_ranges :: "(uchar \<times> uchar) list \<Rightarrow> nat"

text \<open>\<open>Pattern::heap_bytes\<close> of \<open>dc-glob/src/lib.rs\<close>.\<close>

definition token_bytes :: "layout \<Rightarrow> token \<Rightarrow> nat" where
  "token_bytes ly t =
     (case t of
        Class cc \<Rightarrow> cap_singles ly (singles cc) * sz_char ly + cap_ranges ly (ranges cc) * sz_range ly
      | _ \<Rightarrow> 0)"

definition heap_bytes :: "layout \<Rightarrow> compiled_pattern \<Rightarrow> nat" where
  "heap_bytes ly p = cap_tokens ly (tokens p) * sz_token ly + sum_list (map (token_bytes ly) (tokens p))"

definition footprint :: "layout \<Rightarrow> nat \<Rightarrow> prepared_set \<Rightarrow> nat" where
  "footprint ly frame_len ps =
     (let key = frame_len + sz_key ly;
          slot = sz_arc ly + 2 * sz_usize ly + sz_set ly;
          patterns = cap_patterns ly (ps_patterns ps) * sz_pattern ly +
            sum_list (map (heap_bytes ly) (List.map_filter (\<lambda>p. p) (ps_patterns ps)))
      in key + slot + patterns)"

text \<open>
  \<open>prepare_frame\<close> reads the frame, looks it up under the read lock and, when it is new, compiles it and
  inserts it under the write lock, where it looks again. What other callers do between the two locks
  is \<open>between\<close>.
\<close>

definition decode_list :: "byte list \<Rightarrow> str + str list" where
  "decode_list input =
     rbind (read_u32 input 0 (lit ''pattern count'')) (\<lambda>(count, at).
       if count > MAX_PATTERNS then
         Inl (lit ''pattern count '' @ show_nat count @ lit '' exceeds '' @ show_nat MAX_PATTERNS)
       else rbind (read_patterns count input at) (\<lambda>(patterns, at).
         if at \<noteq> length input then Inl (lit ''prepare frame length does not equal its headers'')
         else Inr patterns))"

definition insert_set :: "layout \<Rightarrow> byte list \<Rightarrow> str list \<Rightarrow> registry \<Rightarrow> nat \<times> registry" where
  "insert_set ly input patterns reg =
     (case rg_by_content reg input of
        Some i \<Rightarrow> (i, reg)
      | None \<Rightarrow>
          let ps = \<lparr>ps_patterns = map compile patterns\<rparr>; cost = footprint ly (length input) ps
          in if length (rg_sets reg) \<ge> MAX_SETS \<or> saturating_add (rg_bytes reg) cost > MAX_REGISTRY_BYTES
             then (REGISTRY_FULL, reg)
             else (length (rg_sets reg),
                   \<lparr>rg_sets = rg_sets reg @ [ps], rg_by_content = (rg_by_content reg)(input \<mapsto> length (rg_sets reg)),
                    rg_bytes = rg_bytes reg + cost\<rparr>))"

definition prepare_frame ::
    "layout \<Rightarrow> (registry \<Rightarrow> registry) \<Rightarrow> byte list \<Rightarrow> registry \<Rightarrow> (str + byte list) \<times> registry" where
  "prepare_frame ly between input reg =
     (case decode_list input of
        Inl err \<Rightarrow> (Inl err, reg)
      | Inr patterns \<Rightarrow>
          (case rg_by_content reg input of
             Some i \<Rightarrow> (Inr (to_le_bytes i), reg)
           | None \<Rightarrow> (case insert_set ly input patterns (between reg) of (i, reg') \<Rightarrow> (Inr (to_le_bytes i), reg'))))"

section \<open>Asking prepared lists\<close>

text \<open>Each id is looked up under a lock of its own: \<open>regs j\<close> is the registry the lookup number \<open>j\<close> sees.\<close>

fun read_asks :: "(nat \<Rightarrow> registry) \<Rightarrow> nat \<Rightarrow> nat \<Rightarrow> byte list \<Rightarrow> nat \<Rightarrow> str + (prepared_set \<times> byte) list \<times> nat" where
  "read_asks regs j 0 input at = Inr ([], at)"
| "read_asks regs j (Suc n) input at =
     rbind (read_u32 input at (lit ''list id'')) (\<lambda>(i, next).
       if \<not> next < length input then Inl (lit ''truncated list name selector'')
       else if input ! next > 1 then
         Inl (lit ''list name selector '' @ show_nat (input ! next) @ lit '' is not 0 or 1'')
       else (case get_set (regs j) i of
               None \<Rightarrow> Inl (lit ''list id '' @ show_nat i @ lit '' was never prepared'')
             | Some ps \<Rightarrow> rbind (read_asks regs (j + 1) n input (next + 1)) (\<lambda>(asks, stop).
                 Inr ((ps, input ! next) # asks, stop))))"

fun answer_asks :: "checks \<Rightarrow> nat \<Rightarrow> str option \<Rightarrow> str option \<Rightarrow> (prepared_set \<times> byte) list \<Rightarrow> str + byte list" where
  "answer_asks checks n name folded [] = Inr []"
| "answer_asks checks n name folded ((ps, which) # asks) =
     (case (if which = 0 then name else folded) of
        Some s \<Rightarrow> rbind (set_answer ps s checks n) (\<lambda>(b, m).
          rbind (answer_asks checks m name folded asks) (\<lambda>bs. Inr (b # bs)))
      | None \<Rightarrow> rbind (answer_asks checks n name folded asks) (\<lambda>bs. Inr (UNDECIDED # bs)))"

definition match_prepared_frame :: "(nat \<Rightarrow> registry) \<Rightarrow> byte list \<Rightarrow> checks \<Rightarrow> str + byte list" where
  "match_prepared_frame regs input checks =
     rbind (field input 0 (lit ''name'')) (\<lambda>(name, at).
     rbind (field input at (lit ''folded name'')) (\<lambda>(folded, at).
     rbind (read_u32 input at (lit ''list count'')) (\<lambda>(count, at).
       if count > MAX_PATTERNS then
         Inl (lit ''list count '' @ show_nat count @ lit '' exceeds '' @ show_nat MAX_PATTERNS)
       else rbind (read_asks regs 0 count input at) (\<lambda>(asks, at).
         if at \<noteq> length input then Inl (lit ''match-prepared frame length does not equal its headers'')
         else answer_asks checks 0 (name_new name) (name_new folded) asks))))"

section \<open>Callers\<close>

text \<open>
  Any number of callers of \<open>prepare_frame\<close>, each of its two critical sections a step: \<open>cl_waiting\<close> are
  those past the read lock with a new list, \<open>cl_answers\<close> the frames answered so far with their ids.
\<close>

record callers =
  cl_registry :: registry
  cl_waiting :: "(byte list \<times> str list) list"
  cl_answers :: "(byte list \<times> nat) list"

inductive caller_step :: "layout \<Rightarrow> callers \<Rightarrow> callers \<Rightarrow> bool" for ly where
  hit: "bytes_ok input \<Longrightarrow> decode_list input = Inr patterns \<Longrightarrow> rg_by_content (cl_registry s) input = Some i \<Longrightarrow>
    caller_step ly s (s\<lparr>cl_answers := (input, i) # cl_answers s\<rparr>)"
| miss: "bytes_ok input \<Longrightarrow> decode_list input = Inr patterns \<Longrightarrow> rg_by_content (cl_registry s) input = None \<Longrightarrow>
    caller_step ly s (s\<lparr>cl_waiting := (input, patterns) # cl_waiting s\<rparr>)"
| insert: "cl_waiting s = before @ (input, patterns) # after \<Longrightarrow>
    insert_set ly input patterns (cl_registry s) = (i, reg) \<Longrightarrow>
    caller_step ly s (s\<lparr>cl_registry := reg, cl_waiting := before @ after, cl_answers := (input, i) # cl_answers s\<rparr>)"

definition no_callers :: callers where
  "no_callers = \<lparr>cl_registry = no_sets, cl_waiting = [], cl_answers = []\<rparr>"

text \<open>A call of \<open>prepare_frame\<close> is one or two of these steps, with those of other callers between.\<close>

lemma prepare_frame_hit:
  assumes "bytes_ok input" "decode_list input = Inr patterns" "rg_by_content (cl_registry s) input = Some i"
  shows "caller_step ly s (s\<lparr>cl_answers := (input, i) # cl_answers s\<rparr>)"
    and "prepare_frame ly between input (cl_registry s) = (Inr (to_le_bytes i), cl_registry s)"
  using assms by (auto simp: prepare_frame_def intro: caller_step.hit)

lemma prepare_frame_miss:
  assumes "bytes_ok input" "decode_list input = Inr patterns" "rg_by_content (cl_registry s) input = None"
    and "(input, patterns) \<in> set (cl_waiting s1)" "between (cl_registry s) = cl_registry s1"
    and "insert_set ly input patterns (cl_registry s1) = (i, reg)"
  shows "caller_step ly s (s\<lparr>cl_waiting := (input, patterns) # cl_waiting s\<rparr>)"
    and "\<exists>s'. caller_step ly s1 s' \<and> cl_registry s' = reg \<and> (input, i) \<in> set (cl_answers s')"
    and "prepare_frame ly between input (cl_registry s) = (Inr (to_le_bytes i), reg)"
proof -
  show "caller_step ly s (s\<lparr>cl_waiting := (input, patterns) # cl_waiting s\<rparr>)"
    using assms(1-3) by (rule caller_step.miss)
  obtain before after where "cl_waiting s1 = before @ (input, patterns) # after"
    using assms(4) by (auto dest: split_list)
  from caller_step.insert [OF this assms(6)]
  show "\<exists>s'. caller_step ly s1 s' \<and> cl_registry s' = reg \<and> (input, i) \<in> set (cl_answers s')"
    by (intro exI conjI) auto
qed (use assms in \<open>simp add: prepare_frame_def\<close>)

section \<open>What the registry keeps\<close>

text \<open>\<open>fs\<close> are the frames of the registered lists, in the order of their ids.\<close>

definition set_of :: "byte list \<Rightarrow> prepared_set" where
  "set_of f = \<lparr>ps_patterns = (case decode_list f of Inr ps \<Rightarrow> map compile ps | Inl _ \<Rightarrow> [])\<rparr>"

definition charge :: "layout \<Rightarrow> byte list \<Rightarrow> nat" where
  "charge ly f = footprint ly (length f) (set_of f)"

definition registered :: "layout \<Rightarrow> byte list list \<Rightarrow> registry \<Rightarrow> bool" where
  "registered ly fs reg \<longleftrightarrow>
     distinct fs \<and> rg_sets reg = map set_of fs \<and>
     (\<forall>f i. rg_by_content reg f = Some i \<longleftrightarrow> i < length fs \<and> fs ! i = f) \<and>
     rg_bytes reg = sum_list (map (charge ly) fs) \<and> length fs \<le> MAX_SETS \<and> rg_bytes reg \<le> MAX_REGISTRY_BYTES"

definition refused :: "layout \<Rightarrow> byte list list \<Rightarrow> byte list \<Rightarrow> bool" where
  "refused ly fs f \<longleftrightarrow>
     length fs \<ge> MAX_SETS \<or> saturating_add (sum_list (map (charge ly) fs)) (charge ly f) > MAX_REGISTRY_BYTES"

definition answered :: "layout \<Rightarrow> byte list list \<Rightarrow> byte list \<Rightarrow> nat \<Rightarrow> bool" where
  "answered ly fs f i \<longleftrightarrow> i < length fs \<and> fs ! i = f \<or> i = REGISTRY_FULL \<and> f \<notin> set fs \<and> refused ly fs f"

definition callers_ok :: "layout \<Rightarrow> byte list list \<Rightarrow> callers \<Rightarrow> bool" where
  "callers_ok ly fs s \<longleftrightarrow>
     registered ly fs (cl_registry s) \<and>
     list_all (\<lambda>(f, ps). bytes_ok f \<and> decode_list f = Inr ps) (cl_waiting s) \<and>
     list_all (\<lambda>(f, i). answered ly fs f i) (cl_answers s)"

lemma registered_None: "registered ly fs reg \<Longrightarrow> rg_by_content reg f = None \<longleftrightarrow> f \<notin> set fs"
  by (auto simp: registered_def in_set_conv_nth) (metis not_None_eq)+

lemma saturating_mono: "a \<le> b \<Longrightarrow> saturating_add a c \<le> saturating_add b c"
  by (simp add: saturating_add_def)

lemma answered_grows:
  assumes "answered ly fs f i" "\<not> refused ly fs g" "g \<notin> set fs"
  shows "answered ly (fs @ [g]) f i"
proof (cases "i < length fs \<and> fs ! i = f")
  case True
  then show ?thesis by (simp add: answered_def nth_append)
next
  case False
  then have h: "i = REGISTRY_FULL" "f \<notin> set fs" "refused ly fs f" using assms(1) by (auto simp: answered_def)
  have "refused ly (fs @ [g]) f"
    using h(3) saturating_mono [of "sum_list (map (charge ly) fs)" "sum_list (map (charge ly) fs) + charge ly g" "charge ly f"]
    by (auto simp: refused_def)
  moreover have "f \<noteq> g" using h(3) assms(2) by blast
  ultimately show ?thesis using h by (simp add: answered_def)
qed

lemma insert_set_ok:
  assumes "registered ly fs reg" "decode_list f = Inr ps" "insert_set ly f ps reg = (i, reg')"
  shows "registered ly fs reg' \<and> answered ly fs f i \<or>
    f \<notin> set fs \<and> \<not> refused ly fs f \<and> registered ly (fs @ [f]) reg' \<and> answered ly (fs @ [f]) f i"
proof (cases "rg_by_content reg f")
  case (Some k)
  then have "i = k" "reg' = reg" using assms(3) by (simp_all add: insert_set_def)
  then show ?thesis using assms(1) Some by (auto simp: registered_def answered_def)
next
  case None
  have new: "f \<notin> set fs" using registered_None [OF assms(1)] None by simp
  have r: "rg_sets reg = map set_of fs" "rg_bytes reg = sum_list (map (charge ly) fs)" "length fs \<le> MAX_SETS"
    using assms(1) by (simp_all add: registered_def)
  have set: "\<lparr>ps_patterns = map compile ps\<rparr> = set_of f" using assms(2) by (simp add: set_of_def)
  have ins: "insert_set ly f ps reg =
      (if refused ly fs f then (REGISTRY_FULL, reg)
       else (length fs, \<lparr>rg_sets = map set_of (fs @ [f]), rg_by_content = (rg_by_content reg)(f \<mapsto> length fs),
                         rg_bytes = sum_list (map (charge ly) (fs @ [f]))\<rparr>))"
    by (simp add: insert_set_def None set r refused_def charge_def Let_def)
  show ?thesis
  proof (cases "refused ly fs f")
    case True
    then show ?thesis using ins assms(1,3) new by (simp add: answered_def)
  next
    case False
    then have i: "i = length fs" and reg': "reg' = \<lparr>rg_sets = map set_of (fs @ [f]),
        rg_by_content = (rg_by_content reg)(f \<mapsto> length fs), rg_bytes = sum_list (map (charge ly) (fs @ [f]))\<rparr>"
      using ins assms(3) by simp_all
    have content: "rg_by_content reg g = Some k \<longleftrightarrow> k < length fs \<and> fs ! k = g" for g k
      using assms(1) by (simp add: registered_def)
    have "sum_list (map (charge ly) fs) + charge ly f \<le> MAX_REGISTRY_BYTES"
      using False by (auto simp: refused_def saturating_add_def MAX_REGISTRY_BYTES_def USIZE_MAX_def min_def split: if_splits)
    moreover have "((rg_by_content reg)(f \<mapsto> length fs)) g = Some k \<longleftrightarrow> k < length (fs @ [f]) \<and> (fs @ [f]) ! k = g" for g k
      using new content by (auto simp: nth_append less_Suc_eq)
    ultimately have "registered ly (fs @ [f]) reg'"
      using assms(1) new False by (simp add: registered_def reg' refused_def)
    then show ?thesis using new False i by (simp add: answered_def)
  qed
qed

lemma caller_step_ok:
  assumes "caller_step ly s s'" "callers_ok ly fs s"
  shows "\<exists>more. callers_ok ly (fs @ more) s'"
  using assms(1)
proof (cases rule: caller_step.cases)
  case (hit input patterns i)
  then have "callers_ok ly fs s'" using assms(2) by (auto simp: callers_ok_def answered_def registered_def)
  then show ?thesis by (intro exI [of _ "[]"]) simp
next
  case (miss input patterns)
  then have "callers_ok ly fs s'" using assms(2) by (auto simp: callers_ok_def)
  then show ?thesis by (intro exI [of _ "[]"]) simp
next
  case (insert before input patterns after i reg)
  have ok: "registered ly fs (cl_registry s)" "decode_list input = Inr patterns"
      "list_all (\<lambda>(f, ps). bytes_ok f \<and> decode_list f = Inr ps) (before @ after)"
      "list_all (\<lambda>(f, i). answered ly fs f i) (cl_answers s)"
    using assms(2) insert(2) by (simp_all add: callers_ok_def)
  from insert_set_ok [OF ok(1,2) insert(3)] show ?thesis
  proof (elim disjE conjE)
    assume "registered ly fs reg" "answered ly fs input i"
    then have "callers_ok ly fs s'" using ok insert(1) by (simp add: callers_ok_def)
    then show ?thesis by (intro exI [of _ "[]"]) simp
  next
    assume h: "input \<notin> set fs" "\<not> refused ly fs input" "registered ly (fs @ [input]) reg" "answered ly (fs @ [input]) input i"
    have "list_all (\<lambda>(f, i). answered ly (fs @ [input]) f i) (cl_answers s)"
      using ok(4) answered_grows [OF _ h(2,1)] by (auto simp: list_all_iff)
    then have "callers_ok ly (fs @ [input]) s'" using ok h insert(1) by (simp add: callers_ok_def)
    then show ?thesis by blast
  qed
qed

lemma callers_run_ok:
  assumes "(caller_step ly)\<^sup>*\<^sup>* s s'" "callers_ok ly fs s"
  shows "\<exists>more. callers_ok ly (fs @ more) s'"
  using assms
proof (induction rule: rtranclp_induct)
  case base
  then show ?case by (intro exI [of _ "[]"]) simp
next
  case (step t t')
  then obtain more where "callers_ok ly (fs @ more) t" by blast
  from caller_step_ok [OF step.hyps(2) this] show ?case by auto
qed

lemma no_callers_ok: "callers_ok ly [] no_callers"
  by (simp add: callers_ok_def no_callers_def registered_def no_sets_def)

section \<open>What a prepared list answers\<close>

lemma set_loop_compiled: "set_loop checks n name u (map compile ps) = any_loop checks n name u ps"
  by (induction ps arbitrary: n u) (auto split: option.split bool.split)

lemma set_answer_never:
  assumes "name_new name = Some name"
  shows "\<exists>m. set_answer \<lparr>ps_patterns = map compile ps\<rparr> name never n = Inr (list_answer name ps, m)"
proof -
  have "\<not> length name > MAX_UNITS" using assms by (simp add: name_new_eq split: if_splits)
  moreover from this have "try_matches p name = None \<longleftrightarrow> length p > MAX_UNITS" for p
    by (simp add: try_matches_eq within_caps_def not_le)
  ultimately show ?thesis
    using any_loop_never [OF assms, of n False ps] by (auto simp: set_answer_def set_loop_compiled list_answer_def)
qed

type_synonym ask = "str list \<times> nat \<times> byte"

definition put_ask :: "ask \<Rightarrow> byte list" where
  "put_ask = (\<lambda>(ps, i, w). to_le_bytes i @ [w])"

definition asks_frame :: "str \<Rightarrow> str \<Rightarrow> ask list \<Rightarrow> byte list" where
  "asks_frame name folded asks = put name @ put folded @ to_le_bytes (length asks) @ concat (map put_ask asks)"

definition asked_name :: "str \<Rightarrow> str \<Rightarrow> byte \<Rightarrow> str" where
  "asked_name name folded w = (if w = 0 then name else folded)"

definition ask_ok :: "(nat \<Rightarrow> registry) \<Rightarrow> ask \<Rightarrow> bool" where
  "ask_ok regs = (\<lambda>(ps, i, w). w \<le> 1 \<and> i \<le> U32_MAX \<and> (\<forall>j. get_set (regs j) i = Some \<lparr>ps_patterns = map compile ps\<rparr>))"

lemma read_asks_encoded:
  assumes "bytes_ok input"
  shows "at \<le> length input \<Longrightarrow> drop at input = concat (map put_ask asks) \<Longrightarrow> list_all (ask_ok regs) asks \<Longrightarrow>
    read_asks regs j (length asks) input at =
      Inr (map (\<lambda>(ps, i, w). (\<lparr>ps_patterns = map compile ps\<rparr>, w)) asks, length input)"
proof (induction asks arbitrary: at j)
  case (Cons a asks)
  obtain ps i w where a: "a = (ps, i, w)" by (cases a)
  have d: "drop at input = to_le_bytes i @ w # concat (map put_ask asks)"
    using Cons.prems(2) by (simp add: a put_ask_def)
  note e = drop_piece [OF d Cons.prems(1), unfolded length_to_le_bytes]
  have n: "at + 4 < length input" using e by (metis drop_all list.distinct(1) not_less)
  have w: "input ! (at + 4) = w" "drop (at + 4 + 1) input = concat (map put_ask asks)"
    using e(2) n by (simp_all add: Cons_nth_drop_Suc [symmetric])
  have "i \<le> U32_MAX" "\<not> w > 1" "get_set (regs j) i = Some \<lparr>ps_patterns = map compile ps\<rparr>"
    using Cons.prems(3) by (auto simp: a ask_ok_def)
  moreover from this(1) have "read_u32 input at (lit ''list id'') = Inr (i, at + 4)"
    using read_u32_iff [OF assms Cons.prems(1)] d by blast
  ultimately show ?case
    using Cons.IH [of "at + 4 + 1" "j + 1"] Cons.prems(3) n w by (simp add: a)
qed simp

lemma answer_asks_never:
  "list_all (\<lambda>(ps, i, w). w \<le> 1) asks \<Longrightarrow>
   answer_asks never n (name_new name) (name_new folded) (map (\<lambda>(ps, i, w). (\<lparr>ps_patterns = map compile ps\<rparr>, w)) asks) =
     Inr (map (\<lambda>(ps, i, w). list_answer (asked_name name folded w) ps) asks)"
proof (induction asks arbitrary: n)
  case (Cons a asks)
  obtain ps i w where a: "a = (ps, i, w)" by (cases a)
  define s where "s = asked_name name folded w"
  have pick: "(if w = 0 then name_new name else name_new folded) = name_new s" by (simp add: s_def asked_name_def)
  show ?case
  proof (cases "name_new s")
    case None
    then have "list_answer s ps = UNDECIDED"
      by (auto simp: list_answer_def name_new_eq try_matches_eq within_caps_def split: if_splits)
    then show ?thesis using Cons None pick by (simp add: a s_def)
  next
    case (Some t)
    then have "name_new s = Some s" by (simp add: name_new_eq split: if_splits)
    then obtain m where "set_answer \<lparr>ps_patterns = map compile ps\<rparr> s never n = Inr (list_answer s ps, m)"
      using set_answer_never by blast
    then show ?thesis using Cons pick \<open>name_new s = Some s\<close> by (simp add: a s_def)
  qed
qed simp

lemma match_prepared_answer:
  assumes "field_ok name" "field_ok folded" "length asks \<le> MAX_PATTERNS" "list_all (ask_ok regs) asks"
  shows "match_prepared_frame regs (asks_frame name folded asks) never =
    Inr (map (\<lambda>(ps, i, w). list_answer (asked_name name folded w) ps) asks)"
proof -
  let ?input = "asks_frame name folded asks" and ?n = "length (put name)" and ?f = "length (put name) + length (put folded)"
  have w: "list_all (\<lambda>(ps, i, w). w \<le> 1) asks" using assms(4) by (auto simp: list_all_iff ask_ok_def)
  then have "bytes_ok (concat (map put_ask asks))" by (induction asks) (auto simp: put_ask_def, simp add: bytes_ok_def)
  then have b: "bytes_ok ?input" using assms(1,2) by (simp add: asks_frame_def bytes_ok_put)
  have "field ?input 0 (lit ''name'') = Inr (name, ?n)"
    using field_iff [OF b, of 0] assms(1) by (auto simp: asks_frame_def)
  moreover have "field ?input ?n (lit ''folded name'') = Inr (folded, ?f)"
    using field_iff [OF b, of ?n] assms(2) by (auto simp: asks_frame_def)
  moreover have f: "?f \<le> length ?input" "drop ?f ?input = to_le_bytes (length asks) @ concat (map put_ask asks)"
    by (simp_all add: asks_frame_def)
  have "read_u32 ?input ?f (lit ''list count'') = Inr (length asks, ?f + 4)"
    using read_u32_iff [OF b f(1)] f(2) assms(3) by (auto simp: MAX_PATTERNS_def U32_MAX_def)
  moreover have "read_asks regs 0 (length asks) ?input (?f + 4) =
      Inr (map (\<lambda>(ps, i, w). (\<lparr>ps_patterns = map compile ps\<rparr>, w)) asks, length ?input)"
    using drop_piece [OF f(2,1)] by (intro read_asks_encoded [OF b _ _ assms(4)]) simp_all
  ultimately show ?thesis using assms(3) answer_asks_never [OF w] by (simp add: match_prepared_frame_def)
qed

lemma decode_list_frame: "list_ok ps \<Longrightarrow> decode_list (list_frame ps) = Inr ps"
proof -
  assume ok: "list_ok ps"
  obtain m where "read_u32 (list_frame ps) 0 (lit ''pattern count'') = Inr (length ps, m)" "length ps \<le> MAX_PATTERNS"
      "read_patterns (length ps) (list_frame ps) m = Inr (ps, length (list_frame ps))"
    using list_read [OF bytes_ok_list [OF ok], of 0 "lit ''pattern count''" "length ps" ps] ok by auto
  then show ?thesis by (simp add: decode_list_def)
qed

lemma answered_set:
  assumes "callers_ok ly fs s" "answered ly fs' (list_frame ps) i" "fs = fs' @ new" "i \<noteq> REGISTRY_FULL" "list_ok ps"
  shows "get_set (cl_registry s) i = Some \<lparr>ps_patterns = map compile ps\<rparr> \<and> i \<le> U32_MAX"
proof -
  have i: "i < length fs" "fs ! i = list_frame ps" using assms(2-4) by (auto simp: answered_def nth_append)
  have "rg_sets (cl_registry s) = map set_of fs" "length fs \<le> MAX_SETS"
    using assms(1) by (simp_all add: callers_ok_def registered_def)
  then show ?thesis using i decode_list_frame [OF assms(5)] by (simp add: get_set_def set_of_def MAX_SETS_def U32_MAX_def)
qed

text \<open>
  Whatever callers interleave between the two locks, an id names one list for ever: equal frames get
  equal answers, two frames never share an id, and the registry stays within its bounds.
\<close>

theorem ids_keep_their_list:
  assumes "(caller_step ly)\<^sup>*\<^sup>* no_callers s" "(f, i) \<in> set (cl_answers s)" "(g, k) \<in> set (cl_answers s)"
  shows "(f = g \<longrightarrow> i = k) \<and> (i = k \<and> i \<noteq> REGISTRY_FULL \<longrightarrow> f = g) \<and>
    length (rg_sets (cl_registry s)) \<le> MAX_SETS \<and> rg_bytes (cl_registry s) \<le> MAX_REGISTRY_BYTES"
proof -
  obtain fs where ok: "callers_ok ly fs s" using callers_run_ok [OF assms(1) no_callers_ok] by auto
  then have r: "distinct fs" "rg_sets (cl_registry s) = map set_of fs" "length fs \<le> MAX_SETS"
      "rg_bytes (cl_registry s) \<le> MAX_REGISTRY_BYTES" by (simp_all add: callers_ok_def registered_def)
  have a: "answered ly fs f i" "answered ly fs g k" using ok assms(2,3) by (auto simp: callers_ok_def list_all_iff)
  have "i = k" if "f = g"
  proof (cases "f \<in> set fs")
    case True
    then have "i < length fs \<and> fs ! i = f" "k < length fs \<and> fs ! k = f" using a that by (simp_all add: answered_def)
    then show ?thesis using nth_eq_iff_index_eq [OF r(1)] by metis
  next
    case False
    then show ?thesis using a that nth_mem [of _ fs] by (auto simp: answered_def)
  qed
  moreover have "f = g" if "i = k" "i \<noteq> REGISTRY_FULL" using a that by (simp add: answered_def)
  ultimately show ?thesis using r by simp
qed

text \<open>
  C40. Asking prepared lists is asking their patterns: whoever prepared them and whatever is registered in
  the meantime, each list of a frame gets the byte a match-any frame with its patterns gets, which is
  \<open>MATCH\<close> exactly when a pattern matches the chosen name. \<open>s\<close> is a state the callers reach in which the
  lists are answered with ids, and \<open>later j\<close> the state the lookup number \<open>j\<close> sees; no check is raised.
\<close>

theorem prepared_lists_answer_match_any:
  assumes "(caller_step ly)\<^sup>*\<^sup>* no_callers s" and "\<And>j. (caller_step ly)\<^sup>*\<^sup>* s (later j)"
    and "field_ok name" "field_ok folded" "length asks \<le> MAX_PATTERNS"
    and "\<And>ps i w. (ps, i, w) \<in> set asks \<Longrightarrow>
      list_ok ps \<and> w \<le> 1 \<and> (list_frame ps, i) \<in> set (cl_answers s) \<and> i \<noteq> REGISTRY_FULL"
  shows "match_prepared_frame (\<lambda>j. cl_registry (later j)) (asks_frame name folded asks) never =
      Inr (map (\<lambda>(ps, i, w). list_answer (asked_name name folded w) ps) asks) \<and>
    (\<forall>(ps, i, w)\<in>set asks. match_any_frame (any_frame (asked_name name folded w) ps) never =
      Inr [list_answer (asked_name name folded w) ps])"
proof -
  obtain fs where ok: "callers_ok ly fs s" using callers_run_ok [OF assms(1) no_callers_ok] by auto
  have "ask_ok (\<lambda>j. cl_registry (later j)) (ps, i, w)" if "(ps, i, w) \<in> set asks" for ps i w
  proof -
    have "answered ly fs (list_frame ps) i" using ok assms(6) [OF that] by (auto simp: callers_ok_def list_all_iff)
    moreover have "\<exists>more. callers_ok ly (fs @ more) (later j)" for j by (rule callers_run_ok [OF assms(2) ok])
    ultimately show ?thesis using answered_set assms(6) [OF that] by (fastforce simp: ask_ok_def)
  qed
  then have "match_prepared_frame (\<lambda>j. cl_registry (later j)) (asks_frame name folded asks) never =
      Inr (map (\<lambda>(ps, i, w). list_answer (asked_name name folded w) ps) asks)"
    by (intro match_prepared_answer [OF assms(3-5)]) (auto simp: list_all_iff)
  moreover have "match_any_frame (any_frame (asked_name name folded w) ps) never = Inr [list_answer (asked_name name folded w) ps]"
    if "(ps, i, w) \<in> set asks" for ps i w
    using match_any_answer assms(3,4) assms(6) [OF that] by (simp add: asked_name_def)
  ultimately show ?thesis by blast
qed

text \<open>One caller prepares the list of \<open>*.py\<close> in an empty registry, and a frame asks it about \<open>a.py\<close>.\<close>

definition flat_layout :: layout where
  "flat_layout = \<lparr>sz_key = 32, sz_arc = 8, sz_usize = 8, sz_set = 24, sz_pattern = 32, sz_token = 56, sz_char = 4,
     sz_range = 8, cap_patterns = length, cap_tokens = length, cap_singles = length, cap_ranges = length\<rparr>"

definition python_list :: "str list" where
  "python_list = [lit ''*.py'']"

definition one_list :: callers where
  "one_list =
     \<lparr>cl_registry = snd (insert_set flat_layout (list_frame python_list) python_list no_sets), cl_waiting = [],
      cl_answers = [(list_frame python_list, 0)]\<rparr>"

lemma python_list_ok: "list_ok python_list"
  by (simp add: list_ok_def python_list_def field_ok_def scalar_def MAX_FIELD_def MAX_PATTERNS_def utf8_width_def)

lemma python_pattern: "compile (lit ''*.py'') = Some \<lparr>tokens = [Star, Literal 46, Literal 112, Literal 121], units = 4\<rparr>"
  by (simp add: compile_def MAX_UNITS_def utf8_width_def compile_from.simps scan_while.simps)

lemma python_list_footprint: "footprint flat_layout (length (list_frame python_list)) \<lparr>ps_patterns = map compile python_list\<rparr> < 1000"
proof -
  have "length (list_frame python_list) < 100" by (simp add: list_frame_def python_list_def utf8_width_def)
  then show ?thesis
    unfolding footprint_def python_list_def list.map python_pattern
    by (simp add: heap_bytes_def token_bytes_def flat_layout_def List.map_filter_def)
qed

lemma one_list_inserts: "fst (insert_set flat_layout (list_frame python_list) python_list no_sets) = 0"
  using python_list_footprint
  by (simp add: insert_set_def no_sets_def MAX_SETS_def MAX_REGISTRY_BYTES_def saturating_add_def USIZE_MAX_def Let_def)

lemma one_list_run: "(caller_step flat_layout)\<^sup>*\<^sup>* no_callers one_list"
proof -
  let ?f = "list_frame python_list"
  have "caller_step flat_layout no_callers (no_callers\<lparr>cl_waiting := [(?f, python_list)]\<rparr>)"
    using caller_step.miss [of ?f python_list no_callers flat_layout] python_list_ok
    by (simp add: bytes_ok_list decode_list_frame no_callers_def no_sets_def)
  moreover have "caller_step flat_layout (no_callers\<lparr>cl_waiting := [(?f, python_list)]\<rparr>) one_list"
    using caller_step.insert [of "no_callers\<lparr>cl_waiting := [(?f, python_list)]\<rparr>" "[]" ?f python_list "[]" flat_layout 0
        "cl_registry one_list"] one_list_inserts
    by (simp add: one_list_def no_callers_def prod_eq_iff)
  ultimately show ?thesis by (meson rtranclp.simps)
qed

theorem prepared_lists_answer_match_any_witness:
  "match_prepared_frame (\<lambda>j. cl_registry one_list) (asks_frame (lit ''a.py'') (lit ''a.py'') [(python_list, 0, 0)]) never =
     Inr [list_answer (lit ''a.py'') python_list]"
  using prepared_lists_answer_match_any [OF one_list_run, of "\<lambda>j. one_list" "lit ''a.py''" "lit ''a.py''" "[(python_list, 0, 0)]"]
    python_list_ok
  by (simp add: one_list_def asked_name_def REGISTRY_FULL_def U32_MAX_def field_ok_def scalar_def MAX_FIELD_def
      MAX_PATTERNS_def utf8_width_def)

end
