(* ===== verification/Spec2Isabelle.thy ===== *)
theory Spec2Isabelle
  imports Secret_Gate Scope Substance Coverage Verdict Ready Task_Scope Gap_History Record_Lists Store_Calls Traversal Components Registry
begin

text \<open>
  A verification development for the Rust workspace of DevCouncil, under \<^verbatim>\<open>src/rust\<close>.

  \<^bold>\<open>The program.\<close> DevCouncil supervises coding agents. Its analysis plane answers whether a change may
  proceed: \<^verbatim>\<open>dc-store\<close> keeps tasks, leases, gaps, evidence and reviews in one SQLite file that
  several processes write; \<^verbatim>\<open>dc-verify\<close> reads a unified diff and runs gates over it (scope, substance,
  coverage, secrets); \<^verbatim>\<open>dc-evidence\<close> judges a run of checks against an admitted contract;
  \<^verbatim>\<open>dc-glob\<close> matches paths for the scope and path rules; \<^verbatim>\<open>dc-redact\<close> finds credentials for the secret
  gate and removes them from text. Its kernel plane builds a graph of the code: \<^verbatim>\<open>devmap-extract\<close> and
  \<^verbatim>\<open>devmap-resolve\<close> make the edges, \<^verbatim>\<open>devmap-analyze\<close> walks and analyses them. \<^verbatim>\<open>gusset-engine\<close> is the
  archive a Go host links to reach the matcher.

  \<^bold>\<open>Theories and sources.\<close>
  \<^item> \<open>Prelude\<close>: Rust strings as lists of scalar values, the \<open>str\<close> operations the code uses, fallible
    loops (locale \<open>fallible_machine\<close>), the integer bounds. \<open>Utf8\<close>: bytes of a string and back.
  \<^item> \<open>Glob\<close>, \<open>Path_Rules\<close>: \<^verbatim>\<open>dc-glob/src/lib.rs\<close>, \<^verbatim>\<open>secret_paths.rs\<close>, \<^verbatim>\<open>test_paths.rs\<close>. The token walk decides
    the declarative meaning \<open>tok_match\<close> within its step budget.
  \<^item> \<open>Diff\<close>, \<open>Diff_Format\<close>: \<open>parse_unified\<close> of \<^verbatim>\<open>dc-verify/src/lib.rs\<close>, and the patches it reads back from
    their rendering. \<open>Scope\<close>: \<open>classify_scope\<close>, over a matcher interface the code's matcher implements.
    \<open>Substance\<close>, \<open>Coverage\<close>: \<^verbatim>\<open>substance.rs\<close>, \<^verbatim>\<open>coverage.rs\<close> and the coverage gate of \<^verbatim>\<open>rigor.rs\<close>.
  \<^item> \<open>Evidence\<close>, \<open>Verdict\<close>: \<^verbatim>\<open>dc-evidence/src\<close>; the verdict of \<open>verify\<close> against its specification.
  \<^item> \<open>Iso_Time\<close>, \<open>Store_Db\<close>, \<open>Lease\<close>: clock arithmetic, the tables as lists of rows with one function per
    statement, and the lease operations of \<^verbatim>\<open>dc-store/src/lib.rs\<close> as programs over them. Before each
    statement outside a transaction other connections may act: they are an argument of the run.
    \<open>Lease_Spec\<close> says what each operation does undisturbed, \<open>Lease_Safety\<close> what holds whatever
    interleaves, \<open>Lease_Use\<close> what a token is good for, \<open>Ready\<close> which tasks are listed.
  \<^item> \<open>Json_Scan\<close>, \<open>Task_Scope\<close>: the array reader of \<^verbatim>\<open>json.rs\<close> and the reading and widening of a task's
    scope. \<open>Records\<close>, \<open>Store_Calc\<close>, \<open>Gap_Replace\<close>, \<open>Gap_History\<close>, \<open>Record_Lists\<close>: \<^verbatim>\<open>records.rs\<close>.
    \<open>Store_Calls\<close>: every operation of the store together.
  \<^item> \<open>Secrets\<close>, \<open>Secret_Spans\<close>, \<open>Redaction\<close>, \<open>Vendor_Keys\<close>: \<^verbatim>\<open>dc-redact/src/lib.rs\<close>; \<open>Secret_Gate\<close>: \<open>scan_secrets\<close> of
    \<^verbatim>\<open>rigor.rs\<close>. A position is an index of a scalar value; the code cuts only at character boundaries,
    so the indices determine its byte offsets.
  \<^item> \<open>Edges\<close>, \<open>Traversal\<close>: the resolved graph's types and the walk of \<^verbatim>\<open>devmap-analyze/src/traversal.rs\<close>.
    \<open>Tarjan\<close>, \<open>Components\<close>: the component search of \<^verbatim>\<open>dead_clusters.rs\<close> and graphs of interned names. An
    \<open>f32\<close> is its 32 bits, and the sentinel of an unvisited node is \<open>None\<close>.
  \<^item> \<open>Frames\<close>, \<open>Registry\<close>: \<^verbatim>\<open>gusset-engine/src/lib.rs\<close>, the byte frames a Go host sends to the matcher and the
    process-wide registry of prepared pattern lists, whose callers interleave between its two locks.

  \<^bold>\<open>What is shown.\<close> The verdict, the ready list, the array reader, the substance buckets, the graph query
  and the components equal declarative specifications. At most one lease of a task is active whatever
  interleaves, a refused operation changes nothing, a token is valid exactly for its lifetime, and
  every sequence of store operations keeps the keys and loses no audit row. A replacement of gaps is
  exact and atomic and the history counts runs. A frame of prepared lists is answered as their patterns are. A diff is read back from its rendering. Redacted text
  holds no credential a detector knows, and every vendor key of the table standing alone is caught, with the
  webhook and the PEM header, whose prefixes are not key characters, excepted.

  \<^bold>\<open>Bounds.\<close> Loops are structural or have a measure. The element loops of \<open>Json_Scan\<close> run on fuel of one
  more than the bytes left, and each element takes a byte. The matcher has the code's own step
  budget and the redactor its sixteen passes; both are shown to suffice or to fail closed. Integers
  are \<open>nat\<close> or \<open>int\<close> with the code's checks and saturations written out.

  \<^bold>\<open>Not modelled.\<close> Process I/O and the command lines, SQLite itself (its statements are functions of the
  tables, which may fail), the syntax trees of the extractors and gates that read them, git, sockets
  and the model-file arithmetic of \<^verbatim>\<open>dc-sparse-encode\<close>. Services the code calls (clock, randomness, other
  connections, \<open>serde\<close> readers) are arguments of the definitions.
\<close>

end
